(* ===== verification/Prelude.thy ===== *)
theory Prelude
  imports Main "HOL-Library.Word" "HOL-Library.Monad_Syntax"
begin

text \<open>
  Shared vocabulary of the development: the C integer types as machine words, the run-time
  check of an \<open>assert\<close>, null-terminated chains in a partial heap and the word-arithmetic
  facts that address computations need.

  A C function that reads or writes memory is a HOL function into \<open>option\<close>.  \<open>None\<close> is a run
  that does not continue: a failed \<open>assert\<close>, a null or dangling pointer that is dereferenced,
  an array index out of range.  Ordinary C results (a null pointer, \<open>-1\<close>) are values under
  \<open>Some\<close>.  Hence a theorem that an operation equals \<open>Some\<close> something includes that it is free
  of such faults.
\<close>

unbundle bit_operations_syntax

type_synonym u16 = "16 word"
type_synonym u32 = "32 word"
type_synonym u64 = "64 word"
type_synonym addr = "64 word"
type_synonym 'v heap = "addr \<Rightarrow> 'v option"

abbreviation (input) null :: addr where "null \<equiv> 0"

named_theorems word_arith
  \<comment> \<open>facts that move word terms to natural numbers\<close>

named_theorems chain_simps
  \<comment> \<open>unfolding and frame rules of linked chains\<close>

subsection \<open>Assertions\<close>

definition c_assert :: "bool \<Rightarrow> unit option" where
  "c_assert b = (if b then Some () else None)"

lemma c_assert_bind [simp]: "Option.bind (c_assert b) f = (if b then f () else None)"
  by (simp add: c_assert_def)

lemma c_assert_Some [simp]: "c_assert b = Some u \<longleftrightarrow> b"
  by (simp add: c_assert_def)

lemma bind_if_distrib:
  "Option.bind (if b then x else y) f = (if b then Option.bind x f else Option.bind y f)"
  by simp

lemma bind_ext: "(\<And>x. f x = g x) \<Longrightarrow> Option.bind a f = Option.bind a g"
  by (cases a) simp_all

subsection \<open>Arrays\<close>

text \<open>A C array of known size is a list; an index out of range is a fault.\<close>

definition aget :: "'a list \<Rightarrow> nat \<Rightarrow> 'a option" where
  "aget xs i = (if i < length xs then Some (xs ! i) else None)"

definition aset :: "'a list \<Rightarrow> nat \<Rightarrow> 'a \<Rightarrow> 'a list option" where
  "aset xs i v = (if i < length xs then Some (xs[i := v]) else None)"

named_theorems array_simps
  \<comment> \<open>array accesses within the bounds\<close>

lemma aget_in [array_simps]: "i < length xs \<Longrightarrow> aget xs i = Some (xs ! i)"
  by (simp add: aget_def)

lemma aset_in [array_simps]: "i < length xs \<Longrightarrow> aset xs i v = Some (xs[i := v])"
  by (simp add: aset_def)

lemma aget_Some: "aget xs i = Some v \<longleftrightarrow> i < length xs \<and> v = xs ! i"
  by (auto simp: aget_def)

lemma aset_Some: "aset xs i v = Some ys \<longleftrightarrow> i < length xs \<and> ys = xs[i := v]"
  by (auto simp: aset_def)

subsection \<open>Null-terminated chains\<close>

text \<open>
  \<open>chain nx m p xs\<close>: starting at \<open>p\<close> and following the link \<open>nx\<close> of the cells of the partial
  heap \<open>m\<close>, the visited addresses are exactly \<open>xs\<close> and the last link is null.
\<close>

fun chain :: "('v \<Rightarrow> addr) \<Rightarrow> 'v heap \<Rightarrow> addr \<Rightarrow> addr list \<Rightarrow> bool" where
  "chain nx m p [] = (p = null)"
| "chain nx m p (x # xs) =
     (p = x \<and> x \<noteq> null \<and> (case m x of None \<Rightarrow> False | Some c \<Rightarrow> chain nx m (nx c) xs))"

text \<open>
  The chain read off the heap: at most \<open>k\<close> cells, \<open>None\<close> when a link dangles or more than \<open>k\<close>
  cells are linked.
\<close>

fun walk_chain :: "nat \<Rightarrow> ('v \<Rightarrow> addr) \<Rightarrow> 'v heap \<Rightarrow> addr \<Rightarrow> addr list option" where
  "walk_chain 0 nx m p = (if p = null then Some [] else None)"
| "walk_chain (Suc k) nx m p =
     (if p = null then Some []
      else case m p of None \<Rightarrow> None
           | Some c \<Rightarrow> map_option (Cons p) (walk_chain k nx m (nx c)))"

lemma chain_null [simp, chain_simps]: "chain nx m null xs \<longleftrightarrow> xs = []"
  by (cases xs) auto

lemma chain_nonnull [chain_simps]:
  "p \<noteq> null \<Longrightarrow> chain nx m p xs \<longleftrightarrow>
     (\<exists>c ys. xs = p # ys \<and> m p = Some c \<and> chain nx m (nx c) ys)"
  by (cases xs) (auto split: option.splits)

lemma chain_unique: "chain nx m p xs \<Longrightarrow> chain nx m p ys \<Longrightarrow> xs = ys"
proof (induction xs arbitrary: p ys)
  case Nil
  then show ?case by simp
next
  case (Cons x xs)
  then obtain c where "p = x" "x \<noteq> null" "m x = Some c" "chain nx m (nx c) xs"
    by (auto split: option.splits)
  moreover from this Cons.prems(2) obtain zs where "ys = x # zs" "chain nx m (nx c) zs"
    by (auto simp: chain_nonnull)
  ultimately show ?case using Cons.IH by blast
qed

lemma chain_cong:
  "(\<And>x. x \<in> set xs \<Longrightarrow> map_option nx (m' x) = map_option nx (m x)) \<Longrightarrow>
   chain nx m' p xs \<longleftrightarrow> chain nx m p xs"
proof (induction xs arbitrary: p)
  case Nil
  then show ?case by simp
next
  case (Cons x xs)
  have eq: "map_option nx (m' x) = map_option nx (m x)" using Cons.prems by simp
  have IH: "chain nx m' q xs \<longleftrightarrow> chain nx m q xs" for q
    using Cons.IH Cons.prems by simp
  show ?case using eq IH by (cases "m x"; cases "m' x") auto
qed

lemma chain_upd [simp, chain_simps]:
  "a \<notin> set xs \<Longrightarrow> chain nx (m(a := v)) p xs \<longleftrightarrow> chain nx m p xs"
  by (rule chain_cong) auto

lemma chain_upd_same_link:
  "m a = Some c \<Longrightarrow> nx c' = nx c \<Longrightarrow> chain nx (m(a \<mapsto> c')) p xs \<longleftrightarrow> chain nx m p xs"
  by (rule chain_cong) auto

lemma chain_nonnull_elems: "chain nx m p xs \<Longrightarrow> null \<notin> set xs"
  by (induction xs arbitrary: p) (auto split: option.splits)

lemma chain_dom: "chain nx m p xs \<Longrightarrow> x \<in> set xs \<Longrightarrow> \<exists>c. m x = Some c"
  by (induction xs arbitrary: p) (auto split: option.splits)

lemma chain_append: "chain nx m p (xs @ y # ys) \<Longrightarrow> chain nx m y (y # ys)"
proof (induction xs arbitrary: p)
  case Nil
  then show ?case by simp
next
  case (Cons x xs)
  then obtain c where "chain nx m (nx c) (xs @ y # ys)" by (auto split: option.splits)
  then show ?case by (rule Cons.IH)
qed

lemma chain_distinct: "chain nx m p xs \<Longrightarrow> distinct xs"
proof (induction xs arbitrary: p)
  case Nil
  then show ?case by simp
next
  case (Cons x xs)
  then obtain c where c: "p = x" "m x = Some c" and tl: "chain nx m (nx c) xs"
    by (auto split: option.splits)
  have "x \<notin> set xs"
  proof
    assume "x \<in> set xs"
    then obtain us vs where xs: "xs = us @ x # vs" by (meson split_list)
    with tl have "chain nx m x (x # vs)" by (auto dest: chain_append)
    moreover have "chain nx m x (x # xs)" using Cons.prems c by simp
    ultimately have "x # vs = x # xs" by (rule chain_unique)
    with xs show False by simp
  qed
  with Cons.IH tl show ?case by simp
qed

lemma walk_chain_iff:
  "walk_chain k nx m p = Some xs \<longleftrightarrow> chain nx m p xs \<and> length xs \<le> k"
proof (induction k arbitrary: p xs)
  case 0
  then show ?case by (cases xs) auto
next
  case (Suc k)
  show ?case
  proof (cases "p = null")
    case True
    then show ?thesis by auto
  next
    case False
    then show ?thesis by (cases xs) (auto simp: Suc.IH split: option.splits)
  qed
qed

lemma chain_last_link:
  "chain nx m p (xs @ [y]) \<Longrightarrow> \<exists>c. m y = Some c \<and> nx c = null"
  by (induction xs arbitrary: p) (auto split: option.splits)

lemma chain_snoc:
  assumes "chain nx m p (xs @ [y])" and "m y = Some c" and "nx c' = z"
    and "z \<noteq> null" and "z \<noteq> y" and "z \<notin> set xs" and "m z = Some d" and "nx d = null"
  shows "chain nx (m(y \<mapsto> c')) p (xs @ [y, z])"
  using assms(1)
proof (induction xs arbitrary: p)
  case Nil
  then show ?case using assms by (auto split: option.splits)
next
  case (Cons x xs)
  have "x \<noteq> y" using chain_distinct [OF Cons.prems] by auto
  with Cons show ?case by (auto split: option.splits)
qed

text \<open>A chain given cell by cell.\<close>

lemma chain_nth:
  assumes "\<And>j. j < length xs \<Longrightarrow> \<exists>c. m (xs ! j) = Some c \<and>
      nx c = (if Suc j < length xs then xs ! Suc j else null)"
    and "null \<notin> set xs"
  shows "chain nx m (if xs = [] then null else hd xs) xs"
  using assms
proof (induction xs)
  case (Cons x xs)
  obtain c where c: "m x = Some c" "nx c = (if xs = [] then null else hd xs)"
    using Cons.prems(1) [of 0] by (auto simp: hd_conv_nth)
  have "chain nx m (if xs = [] then null else hd xs) xs"
  proof (rule Cons.IH)
    fix j assume "j < length xs"
    then show "\<exists>c. m (xs ! j) = Some c \<and> nx c = (if Suc j < length xs then xs ! Suc j else null)"
      using Cons.prems(1) [of "Suc j"] by auto
  qed (use Cons.prems(2) in simp)
  with c Cons.prems(2) show ?case by simp
qed simp

subsection \<open>More fuel\<close>

text \<open>\<open>a\<close> fails or agrees with \<open>b\<close>: a loop with less fuel against the same loop with more.\<close>

definition upto_fuel :: "'a option \<Rightarrow> 'a option \<Rightarrow> bool" where
  "upto_fuel a b \<longleftrightarrow> (case a of None \<Rightarrow> True | Some x \<Rightarrow> b = Some x)"

named_theorems fuel_intros
  \<comment> \<open>more fuel does not change a result: the rules of the control structures\<close>

lemma upto_fuelD: "upto_fuel a b \<Longrightarrow> a = Some x \<Longrightarrow> b = Some x"
  by (simp add: upto_fuel_def)

lemma upto_fuel_refl [fuel_intros]: "upto_fuel a a"
  by (simp add: upto_fuel_def split: option.split)

lemma upto_fuel_None [fuel_intros]: "upto_fuel None b"
  by (simp add: upto_fuel_def)

lemma upto_fuel_bind [fuel_intros]:
  "upto_fuel a b \<Longrightarrow> (\<And>x. upto_fuel (f x) (g x)) \<Longrightarrow> upto_fuel (Option.bind a f) (Option.bind b g)"
  by (cases a) (auto simp: upto_fuel_def)

lemma upto_fuel_if [fuel_intros]:
  "(c \<Longrightarrow> upto_fuel a a') \<Longrightarrow> (\<not> c \<Longrightarrow> upto_fuel b b') \<Longrightarrow> upto_fuel (if c then a else b) (if c then a' else b')"
  by simp

lemma upto_fuel_prod [fuel_intros]:
  "(\<And>x y. upto_fuel (f x y) (g x y)) \<Longrightarrow> upto_fuel (case z of (x, y) \<Rightarrow> f x y) (case z of (x, y) \<Rightarrow> g x y)"
  by (cases z) simp

subsection \<open>Word arithmetic\<close>

lemma unat_add_small [word_arith]:
  fixes a b :: u64
  assumes "unat a + unat b < 2 ^ 64"
  shows "unat (a + b) = unat a + unat b"
  using assms by (simp add: unat_word_ariths)

lemma unat_mult_small [word_arith]:
  fixes a b :: u64
  assumes "unat a * unat b < 2 ^ 64"
  shows "unat (a * b) = unat a * unat b"
  using assms by (simp add: unat_word_ariths)

lemma unat_sub_small [word_arith]:
  fixes a b :: u64
  assumes "unat b \<le> unat a"
  shows "unat (a - b) = unat a - unat b"
  using assms by (simp add: unat_sub_if_size word_size)

lemma unat_of_nat_small [word_arith]:
  "k < 2 ^ 64 \<Longrightarrow> unat (of_nat k :: u64) = k"
  by (simp add: unat_of_nat take_bit_nat_eq_self)

lemma unat_bound [word_arith]: "unat (a :: u64) < 2 ^ 64"
  using unsigned_less [of a] by simp

lemma word_eq_unatI: "unat (a :: u64) = unat b \<Longrightarrow> a = b"
  by (simp add: word_unat_eq_iff)

lemma word_of_unatI: "unat (a :: u64) = n \<Longrightarrow> a = of_nat n"
  by auto

lemma unat_inc [word_arith]:
  fixes a b :: u64
  assumes "unat a < unat b"
  shows "unat (a + 1) = unat a + 1"
  using assms unat_bound [of b] by (simp add: unat_word_ariths)

lemma unat_dec [word_arith]:
  fixes a :: u64
  assumes "a \<noteq> 0"
  shows "unat (a - 1) = unat a - 1"
  using assms by (simp add: unat_minus_one)

end
