(* ===== verification/Arch.thy ===== *)
theory Arch
  imports Prelude
begin

text \<open>
  The platform layer: the build constants of \<open>ps_config.h\<close>, the architecture header
  \<open>plat/arch/x86/ps_arch_x86_common.h\<close> (rounding macro, atomic instructions, spin lock, time stamp)
  and the decoding of \<open>rdtscp\<close> in \<open>plat/os/linux/ps_os.h\<close>.

  The inline assembly is modelled by what it does to its operands: a locked instruction is one
  atomic step on the target word.  What \<open>rdtsc\<close>/\<open>rdtscp\<close> put in the registers is the hardware's
  business and is a parameter everywhere.
\<close>

section \<open>Constants\<close>

definition PS_REMOTE_BATCH :: u64 where "PS_REMOTE_BATCH = 64"
definition PS_NUMCORES :: nat where "PS_NUMCORES = 4"
definition PS_NUMLOCALITIES :: nat where "PS_NUMLOCALITIES = 1"

definition PS_CACHE_LINE :: u64 where "PS_CACHE_LINE = 64"
definition PS_CACHE_PAD :: u64 where "PS_CACHE_PAD = PS_CACHE_LINE * 2"
definition PS_WORD :: u64 where "PS_WORD = 8"
definition PS_PAGE_SIZE :: u64 where "PS_PAGE_SIZE = 4096"

definition PS_CACHE_PAD_SZ :: "u64 \<Rightarrow> u64" where
  "PS_CACHE_PAD_SZ sz = PS_CACHE_PAD - (sz mod PS_CACHE_PAD)"

definition PS_RNDUP :: "u64 \<Rightarrow> u64 \<Rightarrow> u64" where
  "PS_RNDUP v a = - ((- v) AND (- a))"

section \<open>Rounding and padding\<close>

lemma and_not_mask_diff: "(x :: u64) AND NOT (mask n) = x - take_bit n x"
proof -
  have "x = (x AND mask n) OR (x AND NOT (mask n))"
    by (simp add: bit_eq_iff bit_simps) blast
  also have "\<dots> = (x AND mask n) + (x AND NOT (mask n))"
    by (rule disjunctive_add [symmetric]) (auto simp: bit_simps)
  finally show ?thesis by (simp add: take_bit_eq_mask algebra_simps)
qed

lemma PS_RNDUP_add: "PS_RNDUP v (2 ^ n) = v + take_bit n (- v)"
proof -
  have "- (2 ^ n :: u64) = NOT (mask n)" by (rule minus_exp_eq_not_mask)
  then show ?thesis by (simp add: PS_RNDUP_def and_not_mask_diff)
qed

lemma unat_take_bit_u64: "unat (take_bit n (x :: u64)) = unat x mod 2 ^ n"
  by (simp add: unsigned_take_bit_eq take_bit_eq_mod [of n "unat x"])

lemma unat_neg: "unat (- (v :: u64)) = (if v = 0 then 0 else 2 ^ 64 - unat v)"
  using unat_sub_if_size [of 0 v] unat_gt_0 [of v] by (auto simp: word_size)

lemma take_bit_neg_dvd:
  fixes v :: u64
  assumes "n \<le> 64"
  shows "2 ^ n dvd unat v + unat (take_bit n (- v))"
proof (cases "v = 0")
  case True
  then show ?thesis by simp
next
  case False
  have "unat (take_bit n (- v)) = (2 ^ 64 - unat v) mod 2 ^ n"
    using False by (simp add: unat_take_bit_u64 unat_neg)
  moreover have "(unat v + (2 ^ 64 - unat v) mod 2 ^ n) mod 2 ^ n = (2 ^ 64) mod 2 ^ n"
    using unat_bound [of v] by (simp add: mod_simps)
  moreover have "(2 ^ 64 :: nat) mod 2 ^ n = 0"
    by (rule dvd_imp_mod_0 [OF le_imp_power_dvd [OF assms]])
  ultimately show ?thesis by (simp only: dvd_eq_mod_eq_0)
qed

lemma unat_take_bit_less: "n < 64 \<Longrightarrow> unat (take_bit n (v :: u64)) < 2 ^ n"
  by (simp add: unsigned_take_bit_eq take_bit_nat_less_exp)

lemma PS_RNDUP_least:
  assumes "n < 64" and "unat v + 2 ^ n \<le> 2 ^ 64"
  shows "2 ^ n dvd unat (PS_RNDUP v (2 ^ n)) \<and> unat v \<le> unat (PS_RNDUP v (2 ^ n))
     \<and> unat (PS_RNDUP v (2 ^ n)) < unat v + 2 ^ n"
proof -
  have lt: "unat (take_bit n (- v)) < 2 ^ n" using assms(1) by (rule unat_take_bit_less)
  with assms(2) have "unat (PS_RNDUP v (2 ^ n)) = unat v + unat (take_bit n (- v))"
    by (simp add: PS_RNDUP_add unat_add_small)
  with lt take_bit_neg_dvd [of n v] assms(1) show ?thesis by simp
qed

text \<open>
   The rounding macro \<open>PS_RNDUP(v, a)\<close>, written with two's-complement negation, returns the
  least multiple of a power of two \<open>a\<close> that is not below \<open>v\<close>, whenever that multiple is
  representable.
\<close>

lemma PS_RNDUP_least_multiple:
  assumes "n < 64" and "unat v + 2 ^ n \<le> 2 ^ 64"
  shows "2 ^ n dvd unat (PS_RNDUP v (2 ^ n)) \<and> unat v \<le> unat (PS_RNDUP v (2 ^ n))
     \<and> unat (PS_RNDUP v (2 ^ n)) < unat v + 2 ^ n"
  using assms by (rule PS_RNDUP_least)

lemma PS_RNDUP_word:
  "PS_RNDUP v PS_WORD = v + take_bit 3 (- v)"
  using PS_RNDUP_add [of v 3] by (simp add: PS_WORD_def)

lemma unat_PS_RNDUP_word:
  assumes "unat v + 8 \<le> 2 ^ 64"
  shows "8 dvd unat (PS_RNDUP v PS_WORD)" and "unat v \<le> unat (PS_RNDUP v PS_WORD)"
    and "unat (PS_RNDUP v PS_WORD) < unat v + 8"
  using PS_RNDUP_least [of 3 v] assms by (simp_all add: PS_WORD_def)

text \<open>The padding macro fills up to a multiple of two cache lines and never adds nothing.\<close>

lemma PS_CACHE_PAD_SZ_spec:
  "unat (PS_CACHE_PAD_SZ sz) = 128 - unat sz mod 128"
  "0 < unat (PS_CACHE_PAD_SZ sz)"
proof -
  have m: "unat (sz mod 128) = unat sz mod 128" by (simp add: unat_mod_distrib)
  then have "unat (sz mod 128) < 128" by simp
  with m show "unat (PS_CACHE_PAD_SZ sz) = 128 - unat sz mod 128"
    by (simp add: PS_CACHE_PAD_SZ_def PS_CACHE_PAD_def PS_CACHE_LINE_def unat_sub_small)
  then show "0 < unat (PS_CACHE_PAD_SZ sz)" by simp
qed

section \<open>Atomic instructions\<close>

text \<open>
  \<open>lock cmpxchg\<close> followed by \<open>setz\<close>: the first component is the C return value (nonzero on
  success), the second the new contents of the target.  \<open>lock xadd\<close> returns the old contents.
  The \<open>ps_up\<close> variants lack the lock prefix, so they are the same function of the target.
\<close>

definition ps_cas :: "u64 \<Rightarrow> u64 \<Rightarrow> u64 \<Rightarrow> bool \<times> u64" where
  "ps_cas target old updated = (if target = old then (True, updated) else (False, target))"

definition ps_faa :: "u64 \<Rightarrow> u64 \<Rightarrow> u64 \<times> u64" where
  "ps_faa target inc = (target, target + inc)"

definition ps_upcas :: "u64 \<Rightarrow> u64 \<Rightarrow> u64 \<Rightarrow> bool \<times> u64" where
  "ps_upcas target old updated = (if target = old then (True, updated) else (False, target))"

definition ps_upfaa :: "u64 \<Rightarrow> u64 \<Rightarrow> u64 \<times> u64" where
  "ps_upfaa target inc = (target, target + inc)"

lemma ps_cas_iff:
  "fst (ps_cas t old upd) \<longleftrightarrow> t = old"
  "snd (ps_cas t old upd) = (if t = old then upd else t)"
  by (simp_all add: ps_cas_def)

section \<open>Time stamps and locality\<close>

text \<open>
  \<open>ps_tsc\<close> and \<open>ps_tsc_locality\<close> combine the registers \<open>a\<close>, \<open>d\<close> and \<open>c\<close> that the instruction
  wrote; the 16-bit outputs truncate.
\<close>

definition ps_tsc_value :: "u64 \<Rightarrow> u64 \<Rightarrow> u64" where
  "ps_tsc_value d a = push_bit 32 d OR a"

definition ps_tsc_locality :: "u64 \<Rightarrow> u64 \<Rightarrow> u64 \<Rightarrow> u64 \<times> u16 \<times> u16" where
  "ps_tsc_locality d a c = (push_bit 32 d OR a, ucast (c AND 0xFFF), ucast (drop_bit 12 c))"

text \<open>\<open>ps_coreid\<close>: no instruction is executed on a single-core build.\<close>

definition ps_coreid :: "u64 \<Rightarrow> u64 \<Rightarrow> u64 \<Rightarrow> u32" where
  "ps_coreid d a c =
     (if PS_NUMCORES = 1 then 0 else ucast (fst (snd (ps_tsc_locality d a c))))"

text \<open>On Composite every call is on core and locality 0.\<close>

definition ps_tsc_locality_cos :: "u64 \<Rightarrow> u64 \<Rightarrow> u64 \<times> u16 \<times> u16" where
  "ps_tsc_locality_cos d a = (ps_tsc_value d a, 0, 0)"

definition ps_coreid_cos :: "u64 \<Rightarrow> u64 \<Rightarrow> u32" where
  "ps_coreid_cos d a = (if PS_NUMCORES = 1 then 0 else ucast (fst (snd (ps_tsc_locality_cos d a))))"

text \<open>
  The kernel stores \<open>node * 4096 + cpu\<close> in the register \<open>c\<close>; the decoding inverts that, and the time
  stamp is the 64-bit counter whose halves the instruction returns.
\<close>

lemma ps_tsc_value_halves:
  assumes "unat d < 2 ^ 32" and "unat a < 2 ^ 32"
  shows "unat (ps_tsc_value d a) = unat d * 2 ^ 32 + unat a"
proof -
  have a: "take_bit 32 a = a"
    using assms(2) by (simp add: word_unat_eq_iff unat_take_bit_u64)
  then have nb: "\<not> bit a i" if "32 \<le> i" for i
    using that by (metis bit_take_bit_iff not_le)
  have "ps_tsc_value d a = push_bit 32 d + a"
    unfolding ps_tsc_value_def
    by (rule disjunctive_add [symmetric]) (use nb in \<open>auto simp: bit_simps\<close>)
  moreover have "unat (push_bit 32 d) = unat d * 2 ^ 32"
    using assms(1) by (simp add: push_bit_eq_mult unat_word_ariths)
  ultimately show ?thesis
    using assms by (simp add: unat_add_small)
qed

lemma ucast_u16_unat: "(ucast (w :: u64) :: u16) = of_nat (unat w)"
  by (simp add: of_nat_unat)

lemma ps_tsc_locality_decode:
  assumes "unat d < 2 ^ 32" "unat a < 2 ^ 32" "cpu < 4096" "node < 65536"
  shows "ps_tsc_locality d a (of_nat (node * 4096 + cpu))
       = (ps_tsc_value d a, of_nat cpu, of_nat node)"
proof -
  let ?c = "of_nat (node * 4096 + cpu) :: u64"
  have u: "unat ?c = node * 4096 + cpu"
    using assms(3,4) by (intro unat_of_nat_small) simp
  have "?c AND 0xFFF = take_bit 12 ?c" by (simp add: take_bit_eq_mask mask_eq_exp_minus_1)
  then have "unat (?c AND 0xFFF) = cpu"
    using u assms(3) by (simp only: unat_take_bit_u64) simp
  then have 1: "(ucast (?c AND 0xFFF) :: u16) = of_nat cpu" by (simp only: ucast_u16_unat)
  have "unat (drop_bit 12 ?c) = drop_bit 12 (node * 4096 + cpu)"
    by (simp only: unat_drop_bit_eq u)
  also have "\<dots> = node" using assms(3) by (simp only: drop_bit_eq_div) simp
  finally have "unat (drop_bit 12 ?c) = node" .
  then have 2: "(ucast (drop_bit 12 ?c) :: u16) = of_nat node" by (simp only: ucast_u16_unat)
  show ?thesis by (simp only: ps_tsc_locality_def ps_tsc_value_def 1 2)
qed

end
