(* ===== verification/Lock.thy ===== *)
theory Lock
  imports Arch
begin

text \<open>
  The spin lock of \<open>ps_arch_x86_common.h\<close> (\<open>struct ps_lock\<close>, \<open>ps_lock_take\<close>,
  \<open>ps_lock_release\<close>, \<open>ps_lock_init\<close>) run by any number of threads.  A step of the system is one
  atomic access to the lock word: one round of the \<open>while (!ps_cas(&l->o, 0, 1))\<close> loop, or the
  store of the release.
\<close>

record ps_lock =
  lk_o :: u64

text \<open>One round of the loop of \<open>ps_lock_take\<close>: the flag says whether the loop is left.\<close>

definition ps_lock_take_try :: "ps_lock \<Rightarrow> bool \<times> ps_lock" where
  "ps_lock_take_try l = (let (z, v) = ps_cas (lk_o l) 0 1 in (z, l\<lparr>lk_o := v\<rparr>))"

text \<open>
  The loop itself for a thread that runs alone, with a bound on the rounds; \<open>None\<close> is still
  spinning.
\<close>

fun ps_lock_take :: "nat \<Rightarrow> ps_lock \<Rightarrow> ps_lock option" where
  "ps_lock_take 0 l = None"
| "ps_lock_take (Suc k) l =
     (let (z, l') = ps_lock_take_try l in if z then Some l' else ps_lock_take k l')"

definition ps_lock_release :: "ps_lock \<Rightarrow> ps_lock" where
  "ps_lock_release l = l\<lparr>lk_o := 0\<rparr>"

definition ps_lock_init :: "ps_lock \<Rightarrow> ps_lock" where
  "ps_lock_init l = l\<lparr>lk_o := 0\<rparr>"

datatype lock_pc = Outside | Taking | Inside

record lock_sys =
  ls_lock :: ps_lock
  ls_pc :: "nat \<Rightarrow> lock_pc"

definition lock_start :: "ps_lock \<Rightarrow> lock_sys" where
  "lock_start l = \<lparr>ls_lock = ps_lock_init l, ls_pc = (\<lambda>_. Outside)\<rparr>"

inductive lock_step :: "lock_sys \<Rightarrow> lock_sys \<Rightarrow> bool" where
  call: "ls_pc s i = Outside \<Longrightarrow> lock_step s (s\<lparr>ls_pc := (ls_pc s)(i := Taking)\<rparr>)"
| attempt: "ls_pc s i = Taking \<Longrightarrow> ps_lock_take_try (ls_lock s) = (z, l) \<Longrightarrow>
     lock_step s (s\<lparr>ls_lock := l, ls_pc := (ls_pc s)(i := if z then Inside else Taking)\<rparr>)"
| release: "ls_pc s i = Inside \<Longrightarrow>
     lock_step s (s\<lparr>ls_lock := ps_lock_release (ls_lock s), ls_pc := (ls_pc s)(i := Outside)\<rparr>)"

inductive lock_reach :: "ps_lock \<Rightarrow> lock_sys \<Rightarrow> bool" for l0 where
  start: "lock_reach l0 (lock_start l0)"
| step: "lock_reach l0 s \<Longrightarrow> lock_step s t \<Longrightarrow> lock_reach l0 t"

text \<open>The lock word is 0 or 1, and it is 1 exactly when one thread is inside.\<close>

definition lock_inv :: "lock_sys \<Rightarrow> bool" where
  "lock_inv s \<longleftrightarrow>
     (lk_o (ls_lock s) = 0 \<and> (\<forall>i. ls_pc s i \<noteq> Inside)) \<or>
     (lk_o (ls_lock s) = 1 \<and> (\<exists>i. \<forall>j. ls_pc s j = Inside \<longleftrightarrow> j = i))"

lemma ps_lock_take_try_eq:
  "ps_lock_take_try l = (if lk_o l = 0 then (True, l\<lparr>lk_o := 1\<rparr>) else (False, l))"
  by (simp add: ps_lock_take_try_def ps_cas_def)

lemma lock_inv_start: "lock_inv (lock_start l)"
  by (simp add: lock_inv_def lock_start_def ps_lock_init_def)

lemma lock_step_inv: "lock_step s t \<Longrightarrow> lock_inv s \<Longrightarrow> lock_inv t"
proof (induction rule: lock_step.induct)
  case (call s i)
  then show ?case by (auto simp: lock_inv_def) (metis lock_pc.distinct(3))+
next
  case (attempt s i z l)
  then show ?case
    by (auto simp: lock_inv_def ps_lock_take_try_eq split: if_splits) (metis lock_pc.distinct(5))+
next
  case (release s i)
  then show ?case by (auto simp: lock_inv_def ps_lock_release_def)
qed

lemma lock_reach_inv: "lock_reach l s \<Longrightarrow> lock_inv s"
  by (induction rule: lock_reach.induct) (auto intro: lock_inv_start lock_step_inv)

text \<open>
  C40:  Mutual exclusion of the spin lock: whatever the interleaving of the atomic accesses, no two
  threads are between \<open>ps_lock_take\<close> and \<open>ps_lock_release\<close> at the same time.
\<close>

theorem ps_lock_mutual_exclusion:
  assumes "lock_reach l s" and "ls_pc s i = Inside" and "ls_pc s j = Inside"
  shows "i = j"
proof -
  from assms(1) have "lock_inv s" by (rule lock_reach_inv)
  with assms(2,3) show ?thesis by (auto simp: lock_inv_def)
qed

lemma lock_example:
  "lock_reach l (lock_start l\<lparr>ls_lock := l\<lparr>lk_o := 1\<rparr>, ls_pc := (\<lambda>_. Outside)(3 := Inside)\<rparr>)"
proof -
  let ?s = "(lock_start l)\<lparr>ls_pc := (\<lambda>_. Outside)(3 := Taking)\<rparr>"
  have "lock_step (lock_start l) ?s"
    using lock_step.call [of "lock_start l" 3] by (simp add: lock_start_def)
  then have s: "lock_reach l ?s" by (rule lock_reach.step [OF lock_reach.start])
  have "lock_step ?s (lock_start l\<lparr>ls_lock := l\<lparr>lk_o := 1\<rparr>, ls_pc := (\<lambda>_. Outside)(3 := Inside)\<rparr>)"
    using lock_step.attempt [of ?s 3 True "l\<lparr>lk_o := 1\<rparr>"]
    by (simp add: lock_start_def ps_lock_init_def ps_lock_take_try_eq)
  with s show ?thesis by (rule lock_reach.step)
qed

theorem ps_lock_mutual_exclusion_witness:
  "lock_reach \<lparr>lk_o = 7\<rparr> (lock_start \<lparr>lk_o = 7\<rparr>
      \<lparr>ls_lock := \<lparr>lk_o = 1\<rparr>, ls_pc := (\<lambda>_. Outside)(3 := Inside)\<rparr>)
   \<and> (3 :: nat) = 3"
  using lock_example [of "\<lparr>lk_o = 7\<rparr>"]
    ps_lock_mutual_exclusion [OF lock_example [of "\<lparr>lk_o = 7\<rparr>"], of 3 3]
  by simp

text \<open>
   The lock cannot get stuck: in every reachable state either some thread is inside, or every
  thread that is taking the lock enters with its next attempt; and a thread that is inside can
  always release.
\<close>

lemma ps_lock_progress:
  assumes "lock_reach l s" and "ls_pc s i = Taking"
  shows "(\<exists>j. ls_pc s j = Inside \<and>
              lock_step s (s\<lparr>ls_lock := ps_lock_release (ls_lock s), ls_pc := (ls_pc s)(j := Outside)\<rparr>))
       \<or> lock_step s (s\<lparr>ls_lock := (ls_lock s)\<lparr>lk_o := 1\<rparr>, ls_pc := (ls_pc s)(i := Inside)\<rparr>)"
proof (cases "lk_o (ls_lock s) = 0")
  case True
  then show ?thesis
    using lock_step.attempt [OF assms(2), of True "(ls_lock s)\<lparr>lk_o := 1\<rparr>"]
    by (simp add: ps_lock_take_try_eq)
next
  case False
  then obtain j where "ls_pc s j = Inside"
    using lock_reach_inv [OF assms(1)] by (auto simp: lock_inv_def)
  then show ?thesis using lock_step.release by blast
qed

lemma lock_example_taking:
  "lock_reach l (lock_start l\<lparr>ls_pc := (\<lambda>_. Outside)(0 := Taking)\<rparr>)"
  using lock_reach.step [OF lock_reach.start lock_step.call, of l 0] by (simp add: lock_start_def)

text \<open>A thread that runs alone takes a free lock in one round and spins on a held one.\<close>

lemma ps_lock_take_alone:
  "lk_o l = 0 \<Longrightarrow> ps_lock_take (Suc k) l = Some (l\<lparr>lk_o := 1\<rparr>)"
  "lk_o l \<noteq> 0 \<Longrightarrow> ps_lock_take k l = None"
  by (simp add: ps_lock_take_try_eq) (induction k, simp_all add: ps_lock_take_try_eq)

end
