(* ===== verification/Lists.thy ===== *)
theory Lists
  imports Prelude
begin

text \<open>
  The intrusive circular doubly linked list of \<open>ps_list.h\<close>.  A heap of list nodes maps the
  address of a \<open>struct ps_list\<close> to its two links; a node embedded in an object lies at the
  object's address plus the field offset (\<open>ps_offsetof\<close>).  Every access to an address without a
  node is a fault.

  The contract is a sequence: \<open>dll m xs\<close> says that the nodes \<open>xs\<close> form one ring in this order.
  Adding, appending and removing are then insertion and deletion in that sequence, iterating
  visits it once, and other rings are untouched.
\<close>

record ps_list =
  ll_n :: addr
  ll_p :: addr

type_synonym lheap = "ps_list heap"

section \<open>Operations on nodes\<close>

definition set_ll_n :: "addr \<Rightarrow> addr \<Rightarrow> lheap \<Rightarrow> lheap option" where
  "set_ll_n a v m = (case m a of None \<Rightarrow> None | Some c \<Rightarrow> Some (m(a \<mapsto> c\<lparr>ll_n := v\<rparr>)))"

definition set_ll_p :: "addr \<Rightarrow> addr \<Rightarrow> lheap \<Rightarrow> lheap option" where
  "set_ll_p a v m = (case m a of None \<Rightarrow> None | Some c \<Rightarrow> Some (m(a \<mapsto> c\<lparr>ll_p := v\<rparr>)))"

definition get_ll_n :: "addr \<Rightarrow> lheap \<Rightarrow> addr option" where
  "get_ll_n a m = map_option ll_n (m a)"

definition get_ll_p :: "addr \<Rightarrow> lheap \<Rightarrow> addr option" where
  "get_ll_p a m = map_option ll_p (m a)"

definition ps_list_ll_init :: "addr \<Rightarrow> lheap \<Rightarrow> lheap option" where
  "ps_list_ll_init l m = do { m \<leftarrow> set_ll_p l l m; set_ll_n l l m }"

definition ps_list_ll_empty :: "addr \<Rightarrow> lheap \<Rightarrow> bool option" where
  "ps_list_ll_empty l m = do { n \<leftarrow> get_ll_n l m; Some (n = l) }"

definition ps_list_ll_add :: "addr \<Rightarrow> addr \<Rightarrow> lheap \<Rightarrow> lheap option" where
  "ps_list_ll_add l new m = do {
     ln \<leftarrow> get_ll_n l m;
     m \<leftarrow> set_ll_n new ln m;
     m \<leftarrow> set_ll_p new l m;
     m \<leftarrow> set_ll_n l new m;
     nn \<leftarrow> get_ll_n new m;
     set_ll_p nn new m }"

definition ps_list_ll_rem :: "addr \<Rightarrow> lheap \<Rightarrow> lheap option" where
  "ps_list_ll_rem l m = do {
     n \<leftarrow> get_ll_n l m;
     p \<leftarrow> get_ll_p l m;
     m \<leftarrow> set_ll_p n p m;
     p \<leftarrow> get_ll_p l m;
     n \<leftarrow> get_ll_n l m;
     m \<leftarrow> set_ll_n p n m;
     m \<leftarrow> set_ll_n l l m;
     set_ll_p l l m }"

definition ps_list_head_init :: "addr \<Rightarrow> lheap \<Rightarrow> lheap option" where
  "ps_list_head_init lh = ps_list_ll_init lh"

definition ps_list_head_empty :: "addr \<Rightarrow> lheap \<Rightarrow> bool option" where
  "ps_list_head_empty lh = ps_list_ll_empty lh"

section \<open>The object interface\<close>

text \<open>
  Objects are addressed by their own base; \<open>off\<close> is \<open>ps_offsetof\<close> of the list field.
\<close>

definition ps_container :: "addr \<Rightarrow> u64 \<Rightarrow> addr" where
  "ps_container intern off = intern - off"

definition ps_list_obj_get :: "addr \<Rightarrow> u64 \<Rightarrow> addr" where
  "ps_list_obj_get l off = ps_container l off"

definition ps_list_is_head :: "addr \<Rightarrow> addr \<Rightarrow> u64 \<Rightarrow> bool" where
  "ps_list_is_head lh obj off = (ps_list_obj_get lh off = obj)"

definition ps_list_singleton :: "addr \<Rightarrow> u64 \<Rightarrow> lheap \<Rightarrow> bool option" where
  "ps_list_singleton obj off m = ps_list_ll_empty (obj + off) m"

definition ps_list_init :: "addr \<Rightarrow> u64 \<Rightarrow> lheap \<Rightarrow> lheap option" where
  "ps_list_init obj off m = ps_list_ll_init (obj + off) m"

definition ps_list_next :: "addr \<Rightarrow> u64 \<Rightarrow> lheap \<Rightarrow> addr option" where
  "ps_list_next obj off m = do { n \<leftarrow> get_ll_n (obj + off) m; Some (ps_list_obj_get n off) }"

definition ps_list_prev :: "addr \<Rightarrow> u64 \<Rightarrow> lheap \<Rightarrow> addr option" where
  "ps_list_prev obj off m = do { p \<leftarrow> get_ll_p (obj + off) m; Some (ps_list_obj_get p off) }"

definition ps_list_add :: "addr \<Rightarrow> addr \<Rightarrow> u64 \<Rightarrow> lheap \<Rightarrow> lheap option" where
  "ps_list_add obj new off m = ps_list_ll_add (obj + off) (new + off) m"

definition ps_list_append :: "addr \<Rightarrow> addr \<Rightarrow> u64 \<Rightarrow> lheap \<Rightarrow> lheap option" where
  "ps_list_append obj new off m = do {
     prev \<leftarrow> ps_list_prev obj off m;
     ps_list_add prev new off m }"

definition ps_list_rem :: "addr \<Rightarrow> u64 \<Rightarrow> lheap \<Rightarrow> lheap option" where
  "ps_list_rem obj off m = ps_list_ll_rem (obj + off) m"

definition ps_list_head_add :: "addr \<Rightarrow> addr \<Rightarrow> u64 \<Rightarrow> lheap \<Rightarrow> lheap option" where
  "ps_list_head_add lh obj off m = ps_list_ll_add lh (obj + off) m"

definition ps_list_head_append :: "addr \<Rightarrow> addr \<Rightarrow> u64 \<Rightarrow> lheap \<Rightarrow> lheap option" where
  "ps_list_head_append lh obj off m = do {
     p \<leftarrow> get_ll_p lh m;
     ps_list_ll_add p (obj + off) m }"

definition ps_list_head_first :: "addr \<Rightarrow> u64 \<Rightarrow> lheap \<Rightarrow> addr option" where
  "ps_list_head_first lh off m = do { n \<leftarrow> get_ll_n lh m; Some (ps_container n off) }"

definition ps_list_head_last :: "addr \<Rightarrow> u64 \<Rightarrow> lheap \<Rightarrow> addr option" where
  "ps_list_head_last lh off m = do { p \<leftarrow> get_ll_p lh m; Some (ps_container p off) }"

text \<open>
  \<open>ps_list_foreach\<close> and \<open>ps_list_foreach_del\<close> as loops over a body that transforms a state \<open>'s\<close>
  and the list heap; \<open>None\<close> when the fuel (an upper bound on the iterations) runs out or an access
  faults.  The deleting variant fetches the successor before the body runs.
\<close>

fun foreach_from :: "nat \<Rightarrow> addr \<Rightarrow> addr \<Rightarrow> u64 \<Rightarrow> (addr \<Rightarrow> 's \<Rightarrow> lheap \<Rightarrow> ('s \<times> lheap) option)
    \<Rightarrow> 's \<Rightarrow> lheap \<Rightarrow> ('s \<times> lheap) option" where
  "foreach_from k lh i off body s m =
     (if ps_list_is_head lh i off then Some (s, m)
      else case k of 0 \<Rightarrow> None
           | Suc k' \<Rightarrow> do {
               (s, m) \<leftarrow> body i s m;
               i \<leftarrow> ps_list_next i off m;
               foreach_from k' lh i off body s m })"

definition ps_list_foreach :: "nat \<Rightarrow> addr \<Rightarrow> u64 \<Rightarrow> (addr \<Rightarrow> 's \<Rightarrow> lheap \<Rightarrow> ('s \<times> lheap) option)
    \<Rightarrow> 's \<Rightarrow> lheap \<Rightarrow> ('s \<times> lheap) option" where
  "ps_list_foreach k lh off body s m = do {
     i \<leftarrow> ps_list_head_first lh off m;
     foreach_from k lh i off body s m }"

fun foreach_del_from :: "nat \<Rightarrow> addr \<Rightarrow> addr \<Rightarrow> addr \<Rightarrow> u64
    \<Rightarrow> (addr \<Rightarrow> 's \<Rightarrow> lheap \<Rightarrow> ('s \<times> lheap) option) \<Rightarrow> 's \<Rightarrow> lheap \<Rightarrow> ('s \<times> lheap) option" where
  "foreach_del_from k lh i tmp off body s m =
     (if ps_list_is_head lh i off then Some (s, m)
      else case k of 0 \<Rightarrow> None
           | Suc k' \<Rightarrow> do {
               (s, m) \<leftarrow> body i s m;
               tmp' \<leftarrow> ps_list_next tmp off m;
               foreach_del_from k' lh tmp tmp' off body s m })"

definition ps_list_foreach_del :: "nat \<Rightarrow> addr \<Rightarrow> u64
    \<Rightarrow> (addr \<Rightarrow> 's \<Rightarrow> lheap \<Rightarrow> ('s \<times> lheap) option) \<Rightarrow> 's \<Rightarrow> lheap \<Rightarrow> ('s \<times> lheap) option" where
  "ps_list_foreach_del k lh off body s m = do {
     i \<leftarrow> ps_list_head_first lh off m;
     tmp \<leftarrow> ps_list_next i off m;
     foreach_del_from k lh i tmp off body s m }"

declare foreach_from.simps [simp del] foreach_del_from.simps [simp del]

section \<open>Rings\<close>

text \<open>
  \<open>seg m a xs b\<close>: from node \<open>a\<close> the forward links lead through \<open>xs\<close> to \<open>b\<close> and the backward links
  lead the same way back.  A ring is a segment from a node to itself without repetition.
\<close>

fun seg :: "lheap \<Rightarrow> addr \<Rightarrow> addr list \<Rightarrow> addr \<Rightarrow> bool" where
  "seg m a [] b \<longleftrightarrow> get_ll_n a m = Some b \<and> get_ll_p b m = Some a"
| "seg m a (x # xs) b \<longleftrightarrow> get_ll_n a m = Some x \<and> get_ll_p x m = Some a \<and> seg m x xs b"

fun dll :: "lheap \<Rightarrow> addr list \<Rightarrow> bool" where
  "dll m [] \<longleftrightarrow> False"
| "dll m (x # xs) \<longleftrightarrow> distinct (x # xs) \<and> seg m x xs x"

named_theorems ll_simps
  \<comment> \<open>reading links after an update\<close>

lemmas ll_defs = get_ll_n_def get_ll_p_def set_ll_n_def set_ll_p_def

lemma get_upd [ll_simps]:
  "get_ll_n a (m(b \<mapsto> c)) = (if a = b then Some (ll_n c) else get_ll_n a m)"
  "get_ll_p a (m(b \<mapsto> c)) = (if a = b then Some (ll_p c) else get_ll_p a m)"
  by (simp_all add: ll_defs)

lemma get_ll_Some:
  "get_ll_n a m = Some b \<longleftrightarrow> (\<exists>c. m a = Some c \<and> ll_n c = b)"
  "get_ll_p a m = Some b \<longleftrightarrow> (\<exists>c. m a = Some c \<and> ll_p c = b)"
  by (auto simp: ll_defs)

lemma seg_append: "seg m a (xs @ y # ys) b \<longleftrightarrow> seg m a xs y \<and> seg m y ys b"
  by (induction xs arbitrary: a) auto

lemma seg_cong:
  "(\<And>x. x \<in> set (a # xs) \<Longrightarrow> get_ll_n x m' = get_ll_n x m) \<Longrightarrow>
   (\<And>x. x \<in> set (xs @ [b]) \<Longrightarrow> get_ll_p x m' = get_ll_p x m) \<Longrightarrow>
   seg m' a xs b \<longleftrightarrow> seg m a xs b"
  by (induction xs arbitrary: a) auto

lemma seg_upd [ll_simps]:
  "c \<notin> set (a # xs @ [b]) \<Longrightarrow> seg (m(c \<mapsto> v)) a xs b \<longleftrightarrow> seg m a xs b"
  by (rule seg_cong) (auto simp: get_upd)

lemma dll_frame:
  assumes "\<And>x. x \<in> set xs \<Longrightarrow> m' x = m x"
  shows "dll m' xs \<longleftrightarrow> dll m xs"
proof (cases xs)
  case Nil
  then show ?thesis by simp
next
  case (Cons x ys)
  then have "seg m' x ys x \<longleftrightarrow> seg m x ys x"
    by (intro seg_cong) (auto simp: ll_defs assms)
  with Cons show ?thesis by simp
qed

lemma dll_rotate1: "dll m (x # xs) \<longleftrightarrow> dll m (xs @ [x])"
  by (cases xs) (auto simp: seg_append)

lemma dll_rotate: "dll m (xs @ ys) \<longleftrightarrow> dll m (ys @ xs)"
proof (induction xs arbitrary: ys)
  case (Cons x xs)
  have "dll m ((x # xs) @ ys) \<longleftrightarrow> dll m (xs @ (ys @ [x]))"
    using dll_rotate1 [of m x "xs @ ys"] by simp
  also have "\<dots> \<longleftrightarrow> dll m ((ys @ [x]) @ xs)" by (rule Cons)
  finally show ?case by simp
qed simp

lemma seg_ends: "seg m a xs b \<Longrightarrow> \<exists>ca cb. m a = Some ca \<and> m b = Some cb"
  by (induction xs arbitrary: a) (auto simp: get_ll_Some)

lemma seg_elem: "seg m a xs b \<Longrightarrow> x \<in> set xs \<Longrightarrow> \<exists>c. m x = Some c"
  by (induction xs arbitrary: a) (auto simp: get_ll_Some)

lemma dll_elem: "dll m xs \<Longrightarrow> x \<in> set xs \<Longrightarrow> \<exists>c. m x = Some c"
  by (cases xs) (auto dest: seg_ends seg_elem)

lemma dll_single: "dll m [x] \<longleftrightarrow> m x = Some \<lparr>ll_n = x, ll_p = x\<rparr>"
  by (auto simp: get_ll_Some)

lemma ps_list_ll_init_dll: "m l = Some c \<Longrightarrow> \<exists>m'. ps_list_ll_init l m = Some m' \<and> dll m' [l]
    \<and> (\<forall>a. a \<noteq> l \<longrightarrow> m' a = m a)"
  by (simp add: ps_list_ll_init_def ll_defs)

lemma ps_list_ll_empty_dll: "dll m (x # xs) \<Longrightarrow> ps_list_ll_empty x m = Some (xs = [])"
  by (cases xs) (auto simp: ps_list_ll_empty_def)

lemma ps_list_ll_add_dll:
  assumes "dll m (l # xs)" and "m new = Some c" and "new \<notin> set (l # xs)"
  shows "\<exists>m'. ps_list_ll_add l new m = Some m' \<and> dll m' (l # new # xs)
     \<and> (\<forall>a. a \<notin> set (new # l # xs) \<longrightarrow> m' a = m a)"
proof (cases xs)
  case Nil
  with assms show ?thesis
    by (auto simp: ps_list_ll_add_def ll_defs)
next
  case (Cons y ys)
  from assms Cons obtain cl cy where c: "m l = Some cl" "ll_n cl = y" "m y = Some cy" "ll_p cy = l"
    by (auto simp: get_ll_Some)
  let ?m = "m(new \<mapsto> \<lparr>ll_n = y, ll_p = l\<rparr>, l \<mapsto> cl\<lparr>ll_n := new\<rparr>, y \<mapsto> cy\<lparr>ll_p := new\<rparr>)"
  have eq: "ps_list_ll_add l new m = Some ?m"
    using assms Cons c by (auto simp: ps_list_ll_add_def ll_defs)
  have "seg ?m y ys l \<longleftrightarrow> seg m y ys l"
    using assms Cons c by (intro seg_cong) (auto simp: ll_defs)
  with assms Cons have "dll ?m (l # new # xs)" by (auto simp: get_upd)
  with eq assms Cons show ?thesis by auto
qed

lemma ps_list_ll_rem_dll:
  assumes "dll m (l # xs)"
  shows "\<exists>m'. ps_list_ll_rem l m = Some m' \<and> dll m' [l] \<and> (xs \<noteq> [] \<longrightarrow> dll m' xs)
     \<and> (\<forall>a. a \<notin> set (l # xs) \<longrightarrow> m' a = m a)"
proof (cases xs rule: rev_cases)
  case Nil
  with assms show ?thesis by (auto simp: ps_list_ll_rem_def ll_defs)
next
  case (snoc ws z)
  from assms obtain cl where cl: "m l = Some cl" using dll_elem [of m "l # xs" l] by auto
  show ?thesis
  proof (cases ws)
    case Nil
    with assms snoc show ?thesis by (auto simp: ps_list_ll_rem_def ll_defs)
  next
    case (Cons y us)
    from assms snoc Cons obtain cy cz where
      c: "ll_n cl = y" "ll_p cl = z" "m y = Some cy" "ll_p cy = l" "m z = Some cz" "ll_n cz = l"
      using cl by (auto simp: seg_append get_ll_Some)
    let ?m = "m(y \<mapsto> cy\<lparr>ll_p := z\<rparr>, z \<mapsto> cz\<lparr>ll_n := y\<rparr>, l \<mapsto> cl\<lparr>ll_n := l, ll_p := l\<rparr>)"
    have ne: "distinct [l, y, z]" using assms snoc Cons by auto
    have eq: "ps_list_ll_rem l m = Some ?m"
      using ne cl c by (auto simp: ps_list_ll_rem_def ll_defs)
    have "seg ?m y us z \<longleftrightarrow> seg m y us z"
      using assms snoc Cons c by (intro seg_cong) (auto simp: ll_defs)
    with assms snoc Cons have "dll ?m xs" by (auto simp: seg_append get_upd)
    with eq assms snoc Cons show ?thesis by (auto simp: get_upd)
  qed
qed

lemma seg_unique:
  assumes "seg m a xs b" and "seg m' a xs b"
  shows "x \<in> set (a # xs) \<Longrightarrow> get_ll_n x m' = get_ll_n x m"
    and "x \<in> set (xs @ [b]) \<Longrightarrow> get_ll_p x m' = get_ll_p x m"
  using assms by (induction xs arbitrary: a) auto

lemma dll_unique:
  assumes "dll m xs" and "dll m' xs" and "x \<in> set xs"
  shows "m' x = m x"
proof -
  obtain l ys where xs: "xs = l # ys" using assms(3) by (cases xs) auto
  with assms have "get_ll_n x m' = get_ll_n x m" "get_ll_p x m' = get_ll_p x m"
    using seg_unique [of m l ys l m' x] by auto
  moreover obtain c c' where "m x = Some c" "m' x = Some c'"
    using assms dll_elem by blast
  ultimately show ?thesis by (simp add: ll_defs)
qed

section \<open>What the operations do to a ring\<close>

text \<open>A list head \<open>lh\<close> with the objects \<open>os\<close> linked behind it, in order.\<close>

definition obj_ring :: "lheap \<Rightarrow> addr \<Rightarrow> u64 \<Rightarrow> addr list \<Rightarrow> bool" where
  "obj_ring m lh off os = dll m (lh # map (\<lambda>ob. ob + off) os)"

lemmas obj_defs = ps_container_def ps_list_obj_get_def ps_list_is_head_def ps_list_singleton_def
  ps_list_next_def ps_list_prev_def ps_list_head_first_def ps_list_head_last_def

lemma ps_list_ll_append_dll:
  assumes "dll m (l # xs)" and "m new = Some c" and "new \<notin> set (l # xs)"
  shows "\<exists>p m'. get_ll_p l m = Some p \<and> ps_list_ll_add p new m = Some m' \<and> dll m' (l # xs @ [new])
     \<and> (\<forall>a. a \<notin> set (new # l # xs) \<longrightarrow> m' a = m a)"
proof -
  define z where "z = last (l # xs)"
  define ws where "ws = butlast (l # xs)"
  have lx: "l # xs = ws @ [z]" unfolding z_def ws_def by simp
  have p: "get_ll_p l m = Some z"
    using assms(1) lx by (cases ws) (auto simp: seg_append)
  have ring: "dll m (z # ws)" using assms(1) unfolding lx by (simp only: dll_rotate1)
  have new: "new \<notin> set (z # ws)"
    using assms(3) unfolding lx by auto
  obtain m' where m': "ps_list_ll_add z new m = Some m'" "dll m' (z # new # ws)"
      "\<forall>a. a \<notin> set (new # z # ws) \<longrightarrow> m' a = m a"
    using ps_list_ll_add_dll [OF ring assms(2) new] by blast
  have "dll m' (new # ws @ [z])" using m'(2) dll_rotate [of m' "[z]" "new # ws"] by simp
  then have "dll m' ((ws @ [z]) @ [new])" using dll_rotate1 [of m' new "ws @ [z]"] by blast
  moreover have "(l # xs) @ [new] = (ws @ [z]) @ [new]" by (simp only: lx)
  ultimately have "dll m' (l # xs @ [new])" by (metis append_Cons)
  moreover have "set (new # l # xs) = set (new # z # ws)"
    by (simp only: list.set lx set_append) auto
  ultimately show ?thesis using p m'(1,3) by blast
qed

text \<open>
  C22:  Adding a node behind a ring element and removing it again gives the heap back: every other
  node of the heap, in the ring or not, has the links it had before, and the removed node is a
  singleton.
\<close>

theorem ps_list_add_rem_roundtrip:
  assumes "dll m (l # xs)" and "m new = Some c" and "new \<notin> set (l # xs)"
  shows "\<exists>m' m''. ps_list_ll_add l new m = Some m' \<and> ps_list_ll_rem new m' = Some m''
     \<and> dll m'' [new] \<and> (\<forall>a. a \<noteq> new \<longrightarrow> m'' a = m a)"
proof -
  obtain m' where m': "ps_list_ll_add l new m = Some m'" "dll m' (l # new # xs)"
      "\<forall>a. a \<notin> set (new # l # xs) \<longrightarrow> m' a = m a"
    using ps_list_ll_add_dll [OF assms] by blast
  have "dll m' (new # xs @ [l])" using m'(2) dll_rotate [of m' "[l]" "new # xs"] by simp
  from ps_list_ll_rem_dll [OF this] obtain m'' where m'': "ps_list_ll_rem new m' = Some m''"
      "dll m'' [new]" "dll m'' (xs @ [l])" "\<forall>a. a \<notin> set (new # xs @ [l]) \<longrightarrow> m'' a = m' a"
    by blast
  have "dll m'' (l # xs)" using m''(3) by (simp only: dll_rotate1)
  then have "m'' a = m a" if "a \<in> set (l # xs)" for a
    using dll_unique [OF assms(1) _ that] by blast
  moreover have "m'' a = m a" if "a \<notin> set (new # l # xs)" for a
    using that m'(3) m''(4) by auto
  ultimately show ?thesis using m'(1) m''(1,2) by auto
qed

theorem ps_list_add_rem_roundtrip_witness:
  "\<exists>m' m''. ps_list_ll_add 8 64 [8 \<mapsto> \<lparr>ll_n = 8, ll_p = 8\<rparr>, 64 \<mapsto> \<lparr>ll_n = 0, ll_p = 0\<rparr>] = Some m'
     \<and> ps_list_ll_rem 64 m' = Some m'' \<and> dll m'' [64]
     \<and> (\<forall>a. a \<noteq> 64 \<longrightarrow> m'' a = [8 \<mapsto> \<lparr>ll_n = 8, ll_p = 8\<rparr>, 64 \<mapsto> \<lparr>ll_n = 0, ll_p = 0\<rparr>] a)"
proof -
  let ?m = "[8 \<mapsto> \<lparr>ll_n = 8, ll_p = 8\<rparr>, 64 \<mapsto> \<lparr>ll_n = 0, ll_p = 0\<rparr>]"
  have ring: "dll ?m [8]" by (simp add: dll_single del: dll.simps)
  have cell: "?m 64 = Some \<lparr>ll_n = 0, ll_p = 0\<rparr>" by simp
  have new: "64 \<notin> set [8 :: addr]" by simp
  show ?thesis by (rule ps_list_add_rem_roundtrip [OF ring cell new])
qed

lemma ring_first:
  "obj_ring m lh off os \<Longrightarrow>
     ps_list_head_first lh off m = Some (if os = [] then lh - off else hd os)"
  by (cases os) (auto simp: obj_ring_def obj_defs)

lemma dll_next:
  "dll m (us @ a # b # vs) \<Longrightarrow> get_ll_n a m = Some b"
  using dll_rotate [of m us "a # b # vs"] by auto

lemma dll_next_last: "dll m (x # us @ [a]) \<Longrightarrow> get_ll_n a m = Some x"
  by (auto simp: seg_append)

text \<open>
  The iteration visits the objects in ring order, for every body that keeps the list heap.
\<close>

lemma foreach_from_visits:
  assumes "obj_ring m lh off (us @ os)" and "length os \<le> k"
    and "\<And>ob s. ob \<in> set os \<Longrightarrow> body ob s m = Some (f ob s, m)"
  shows "foreach_from k lh (if os = [] then lh - off else hd os) off body s m
       = Some (fold f os s, m)"
  using assms
proof (induction os arbitrary: us k s)
  case Nil
  then show ?case by (simp add: foreach_from.simps obj_defs)
next
  case (Cons ob os)
  then obtain k' where k: "k = Suc k'" by (cases k) auto
  have ring: "dll m (lh # map (\<lambda>ob. ob + off) us @ (ob + off) # map (\<lambda>ob. ob + off) os)"
    using Cons.prems(1) by (simp add: obj_ring_def)
  have ne: "\<not> ps_list_is_head lh ob off"
    using ring by (auto simp: obj_defs)
  have "get_ll_n (ob + off) m = Some (if os = [] then lh else hd os + off)"
  proof (cases os)
    case Nil
    then show ?thesis using ring dll_next_last [of m lh "map (\<lambda>ob. ob + off) us"] by simp
  next
    case (Cons b bs)
    then show ?thesis
      using ring dll_next [of m "lh # map (\<lambda>ob. ob + off) us" "ob + off" "b + off"
            "map (\<lambda>ob. ob + off) bs"] by simp
  qed
  then have nx: "ps_list_next ob off m = Some (if os = [] then lh - off else hd os)"
    by (simp add: obj_defs)
  have IH: "foreach_from k' lh (if os = [] then lh - off else hd os) off body (f ob s) m
      = Some (fold f os (f ob s), m)"
    by (rule Cons.IH [of "us @ [ob]"]) (use Cons.prems k in auto)
  show ?case using Cons.prems(3) [of ob s] ne nx IH k
    by (simp add: foreach_from.simps [of "Suc k'"])
qed

text \<open>
  C23:  \<open>ps_list_foreach\<close> runs its body once for every linked object, in ring order, stops, and
  stops within as many rounds as there are objects.
\<close>

theorem ps_list_foreach_visits:
  assumes "obj_ring m lh off os" and "length os \<le> k"
    and "\<And>ob s. ob \<in> set os \<Longrightarrow> body ob s m = Some (f ob s, m)"
  shows "ps_list_foreach k lh off body s m = Some (fold f os s, m)"
  using foreach_from_visits [of m lh off "[]" os k body f s] assms
  by (simp add: ps_list_foreach_def ring_first)

theorem ps_list_foreach_visits_witness:
  "ps_list_foreach 2 8 16 (\<lambda>ob s m. Some (s @ [ob], m)) []
     [8 \<mapsto> \<lparr>ll_n = 80, ll_p = 144\<rparr>, 80 \<mapsto> \<lparr>ll_n = 144, ll_p = 8\<rparr>, 144 \<mapsto> \<lparr>ll_n = 8, ll_p = 80\<rparr>]
   = Some ([64, 128],
     [8 \<mapsto> \<lparr>ll_n = 80, ll_p = 144\<rparr>, 80 \<mapsto> \<lparr>ll_n = 144, ll_p = 8\<rparr>, 144 \<mapsto> \<lparr>ll_n = 8, ll_p = 80\<rparr>])"
proof -
  let ?m = "[8 \<mapsto> \<lparr>ll_n = 80, ll_p = 144\<rparr>, 80 \<mapsto> \<lparr>ll_n = 144, ll_p = 8\<rparr>, 144 \<mapsto> \<lparr>ll_n = 8, ll_p = 80\<rparr>]"
  have ring: "obj_ring ?m 8 16 [64, 128]" by (simp add: obj_ring_def ll_defs)
  show ?thesis
    using ps_list_foreach_visits [OF ring, of 2 "\<lambda>ob s m. Some (s @ [ob], m)" "\<lambda>ob s. s @ [ob]" "[]"]
    by simp
qed

lemma ring_second:
  assumes "obj_ring m lh off os"
  shows "\<exists>t t0. ps_list_next (if os = [] then lh - off else hd os) off m = Some t \<and>
     t = (case os of [] \<Rightarrow> t0 | [_] \<Rightarrow> lh - off | _ # b # _ \<Rightarrow> b)"
proof (cases os)
  case Nil
  with assms show ?thesis by (auto simp: obj_ring_def obj_defs)
next
  case (Cons b bs)
  with assms show ?thesis by (cases bs) (auto simp: obj_ring_def obj_defs)
qed

lemma foreach_del_removes:
  assumes "obj_ring m lh off os" and "length os \<le> k" and "tmp = (case os of [] \<Rightarrow> t0
        | [_] \<Rightarrow> lh - off | _ # b # _ \<Rightarrow> b)"
  shows "\<exists>m'. foreach_del_from k lh (if os = [] then lh - off else hd os) tmp off
       (\<lambda>ob s m. do { m \<leftarrow> ps_list_rem ob off m; Some (f ob s, m) }) s m = Some (fold f os s, m')
     \<and> obj_ring m' lh off [] \<and> (\<forall>ob \<in> set os. dll m' [ob + off])
     \<and> (\<forall>a. a \<notin> set (lh # map (\<lambda>ob. ob + off) os) \<longrightarrow> m' a = m a)"
  using assms
proof (induction os arbitrary: k s m tmp t0)
  case Nil
  then show ?case by (simp add: foreach_del_from.simps obj_defs)
next
  case (Cons ob os)
  then obtain k' where k: "k = Suc k'" by (cases k) auto
  have ring: "dll m (lh # (ob + off) # map (\<lambda>ob. ob + off) os)"
    using Cons.prems(1) by (simp add: obj_ring_def)
  then have ring': "dll m ((ob + off) # map (\<lambda>ob. ob + off) os @ [lh])"
    using dll_rotate1 [of m lh "(ob + off) # map (\<lambda>ob. ob + off) os"] by simp
  obtain m1 where m1: "ps_list_ll_rem (ob + off) m = Some m1" "dll m1 [ob + off]"
      "dll m1 (map (\<lambda>ob. ob + off) os @ [lh])"
      "\<forall>a. a \<notin> set ((ob + off) # map (\<lambda>ob. ob + off) os @ [lh]) \<longrightarrow> m1 a = m a"
    using ps_list_ll_rem_dll [OF ring'] by blast
  have or1: "obj_ring m1 lh off os" using m1(3) by (simp only: obj_ring_def dll_rotate1)
  have ne: "\<not> ps_list_is_head lh ob off" using ring by (auto simp: obj_defs)
  have tmp: "tmp = (if os = [] then lh - off else hd os)"
    using Cons.prems(3) by (simp split: list.splits)
  obtain t t0 where t: "ps_list_next tmp off m1 = Some t"
      "t = (case os of [] \<Rightarrow> t0 | [_] \<Rightarrow> lh - off | _ # b # _ \<Rightarrow> b)"
    using ring_second [OF or1] unfolding tmp by blast
  obtain m' where m': "foreach_del_from k' lh tmp t off
       (\<lambda>ob s m. do { m \<leftarrow> ps_list_rem ob off m; Some (f ob s, m) }) (f ob s) m1
         = Some (fold f os (f ob s), m')"
     "obj_ring m' lh off []" "\<forall>ob \<in> set os. dll m' [ob + off]"
     "\<forall>a. a \<notin> set (lh # map (\<lambda>ob. ob + off) os) \<longrightarrow> m' a = m1 a"
    using Cons.IH [OF or1 _ t(2), of k' "f ob s"] Cons.prems(2) k unfolding tmp by auto
  have "m' (ob + off) = m1 (ob + off)" using m'(4) ring by auto
  then have "dll m' [ob + off]" using m1(2) dll_frame [of "[ob + off]" m' m1] by simp
  moreover have "\<forall>a. a \<notin> set (lh # map (\<lambda>ob. ob + off) (ob # os)) \<longrightarrow> m' a = m a"
    using m'(4) m1(4) by auto
  ultimately show ?case using m' ne m1(1) t(1) k
    by (simp add: foreach_del_from.simps [of "Suc k'"] ps_list_rem_def)
qed

text \<open>
   \<open>ps_list_foreach_del\<close> with a body that unlinks the visited object visits every object of the
  ring once, in order, although the ring changes under the iteration, and leaves an empty list head
  and singletons.
\<close>

lemma ps_list_foreach_del_drains:
  assumes "obj_ring m lh off os" and "length os \<le> k"
  shows "\<exists>m'. ps_list_foreach_del k lh off
       (\<lambda>ob s m. do { m \<leftarrow> ps_list_rem ob off m; Some (f ob s, m) }) s m = Some (fold f os s, m')
     \<and> ps_list_head_empty lh m' = Some True \<and> (\<forall>ob \<in> set os. dll m' [ob + off])"
proof -
  let ?i = "if os = [] then lh - off else hd os"
  obtain t t0 where t: "ps_list_next ?i off m = Some t"
      "t = (case os of [] \<Rightarrow> t0 | [_] \<Rightarrow> lh - off | _ # b # _ \<Rightarrow> b)"
    using ring_second [OF assms(1)] by blast
  from foreach_del_removes [OF assms t(2), of f s] obtain m' where
    m': "foreach_del_from k lh ?i t off
       (\<lambda>ob s m. do { m \<leftarrow> ps_list_rem ob off m; Some (f ob s, m) }) s m = Some (fold f os s, m')"
     "obj_ring m' lh off []" "\<forall>ob \<in> set os. dll m' [ob + off]" by blast
  have "ps_list_head_empty lh m' = Some True"
    using m'(2) ps_list_ll_empty_dll [of m' lh "[]"] by (simp add: ps_list_head_empty_def obj_ring_def)
  with m' t(1) ring_first [OF assms(1)] show ?thesis
    by (auto simp: ps_list_foreach_del_def)
qed

section \<open>The interface a freelist of objects relies on\<close>

text \<open>
  The slab allocator and the namespace keep a pointer to some element of a ring of slabs.  What they
  need from the list is this contract; \<open>list_at\<close> is their view of the ring: the sequence of objects
  reached from the kept pointer, null when there is none.
\<close>

locale obj_ring_ops =
  fixes ring :: "'h \<Rightarrow> addr list \<Rightarrow> bool"
    and single :: "addr \<Rightarrow> 'h \<Rightarrow> bool option"
    and nxt :: "addr \<Rightarrow> 'h \<Rightarrow> addr option"
    and add :: "addr \<Rightarrow> addr \<Rightarrow> 'h \<Rightarrow> 'h option"
    and rem :: "addr \<Rightarrow> 'h \<Rightarrow> 'h option"
  assumes ring_nonempty: "\<not> ring h []"
    and ring_distinct: "ring h xs \<Longrightarrow> distinct xs"
    and ring_rotate1: "ring h (x # xs) \<longleftrightarrow> ring h (xs @ [x])"
    and ring_single: "ring h (x # xs) \<Longrightarrow> single x h = Some (xs = [])"
    and ring_next: "ring h (x # y # xs) \<Longrightarrow> nxt x h = Some y"
    and ring_add: "ring h (x # xs) \<Longrightarrow> ring h [y] \<Longrightarrow> y \<notin> set (x # xs) \<Longrightarrow>
      \<exists>h'. add x y h = Some h' \<and> ring h' (x # y # xs) \<and>
        (\<forall>ys. set ys \<inter> set (y # x # xs) = {} \<longrightarrow> ring h' ys = ring h ys)"
    and ring_rem: "ring h (x # xs) \<Longrightarrow>
      \<exists>h'. rem x h = Some h' \<and> ring h' [x] \<and> (xs \<noteq> [] \<longrightarrow> ring h' xs) \<and>
        (\<forall>ys. set ys \<inter> set (x # xs) = {} \<longrightarrow> ring h' ys = ring h ys)"
begin

definition list_at :: "'h \<Rightarrow> addr \<Rightarrow> addr list \<Rightarrow> bool" where
  "list_at h fl xs \<longleftrightarrow> null \<notin> set xs \<and> (if xs = [] then fl = null else fl = hd xs \<and> ring h xs)"

lemma ring_rotate: "ring h (xs @ ys) \<longleftrightarrow> ring h (ys @ xs)"
proof (induction xs arbitrary: ys)
  case Nil
  then show ?case by simp
next
  case (Cons x xs)
  have "ring h ((x # xs) @ ys) \<longleftrightarrow> ring h (xs @ (ys @ [x]))"
    using ring_rotate1 [of h x "xs @ ys"] by simp
  also have "\<dots> \<longleftrightarrow> ring h ((ys @ [x]) @ xs)" by (rule Cons.IH)
  finally show ?case by simp
qed

lemma list_at_add:
  assumes "list_at h fl xs" and "ring h [s]" and "s \<notin> set xs" and "s \<noteq> null"
  shows "\<exists>h'. (if fl \<noteq> null then add fl s h else Some h) = Some h'
     \<and> list_at h' s (s # tl xs @ take 1 xs)
     \<and> (\<forall>ys. set ys \<inter> set (s # xs) = {} \<longrightarrow> ring h' ys = ring h ys)"
proof (cases xs)
  case Nil
  with assms show ?thesis by (simp add: list_at_def)
next
  case (Cons x zs)
  with assms have fl: "fl = x" "x \<noteq> null" and ring: "ring h (x # zs)" by (auto simp: list_at_def)
  obtain h' where h': "add x s h = Some h'" "ring h' (x # s # zs)"
      "\<forall>ys. set ys \<inter> set (s # x # zs) = {} \<longrightarrow> ring h' ys = ring h ys"
    using ring_add [OF ring assms(2)] assms(3) Cons by auto
  have "ring h' (s # zs @ [x])" using h'(2) ring_rotate1 [of h' x "s # zs"] by simp
  with h' fl Cons assms show ?thesis by (auto simp: list_at_def)
qed

lemma list_at_rem:
  assumes "list_at h fl (us @ s # vs)"
  shows "\<exists>fl' h'. (if fl = s then Option.bind (single s h) (\<lambda>e. if e then Some null else nxt s h)
          else Some fl) = Some fl'
     \<and> rem s h = Some h' \<and> list_at h' fl' (us @ vs) \<and> ring h' [s]
     \<and> (\<forall>ys. set ys \<inter> set (us @ s # vs) = {} \<longrightarrow> ring h' ys = ring h ys)"
proof -
  from assms have ring0: "ring h (us @ s # vs)" and fl: "fl = hd (us @ s # vs)"
    and nn: "null \<notin> set (us @ s # vs)" by (auto simp: list_at_def)
  then have ring: "ring h (s # vs @ us)" using ring_rotate [of h us "s # vs"] by simp
  have dis: "distinct (us @ s # vs)" using ring0 by (rule ring_distinct)
  obtain h' where h': "rem s h = Some h'" "ring h' [s]" "vs @ us \<noteq> [] \<longrightarrow> ring h' (vs @ us)"
      "\<forall>ys. set ys \<inter> set (s # vs @ us) = {} \<longrightarrow> ring h' ys = ring h ys"
    using ring_rem [OF ring] by blast
  have r: "us @ vs \<noteq> [] \<longrightarrow> ring h' (us @ vs)"
    using h'(3) ring_rotate [of h' us vs] by auto
  have frame: "\<forall>ys. set ys \<inter> set (us @ s # vs) = {} \<longrightarrow> ring h' ys = ring h ys"
    using h'(4) by auto
  show ?thesis
  proof (cases us)
    case Nil
    have sel: "Option.bind (single s h) (\<lambda>e. if e then Some null else nxt s h)
        = Some (if vs = [] then null else hd vs)"
      using ring Nil ring_single [of h s vs] ring_next [of h s "hd vs" "tl vs"] by (cases vs) auto
    have "list_at h' (if vs = [] then null else hd vs) vs"
      using r nn Nil by (auto simp: list_at_def)
    with sel fl Nil h'(1,2) frame show ?thesis by auto
  next
    case (Cons u us')
    then have "fl \<noteq> s" "fl = u" using fl dis by auto
    then have "list_at h' fl (us @ vs)" using r nn Cons by (auto simp: list_at_def)
    with \<open>fl \<noteq> s\<close> h'(1,2) frame show ?thesis by auto
  qed
qed

end

text \<open>The rings of \<open>ps_list.h\<close>, for objects whose list field lies at offset \<open>off\<close>, keep the contract.\<close>

definition objs_dll :: "u64 \<Rightarrow> lheap \<Rightarrow> addr list \<Rightarrow> bool" where
  "objs_dll off m os = dll m (map (\<lambda>ob. ob + off) os)"

lemma objs_dll_frame:
  assumes "\<forall>a. a \<notin> set (map (\<lambda>ob. ob + off) zs) \<longrightarrow> m' a = m a" and "set ys \<inter> set zs = {}"
  shows "objs_dll off m' ys = objs_dll off m ys"
  unfolding objs_dll_def
proof (rule dll_frame)
  fix a assume "a \<in> set (map (\<lambda>ob. ob + off) ys)"
  then have "a \<notin> set (map (\<lambda>ob. ob + off) zs)" using assms(2) by auto
  with assms(1) show "m' a = m a" by blast
qed

interpretation pl: obj_ring_ops "objs_dll off" "\<lambda>ob. ps_list_singleton ob off"
  "\<lambda>ob. ps_list_next ob off" "\<lambda>ob nw. ps_list_add ob nw off" "\<lambda>ob. ps_list_rem ob off"
  for off
proof (unfold_locales, goal_cases)
  case (1 h)
  show ?case by (simp add: objs_dll_def)
next
  case (2 h xs)
  then have "distinct (map (\<lambda>ob. ob + off) xs)" by (cases xs) (auto simp: objs_dll_def)
  then show ?case by (rule distinct_map [THEN iffD1, THEN conjunct1])
next
  case (3 h x xs)
  show ?case using dll_rotate1 [of h "x + off"] by (simp add: objs_dll_def del: dll.simps)
next
  case (4 h x xs)
  then show ?case using ps_list_ll_empty_dll [of h "x + off"]
    by (simp add: objs_dll_def ps_list_singleton_def del: dll.simps)
next
  case (5 h x y xs)
  then show ?case by (auto simp: objs_dll_def obj_defs)
next
  case (6 h x xs y)
  then obtain c where c: "h (y + off) = Some c" by (auto simp: objs_dll_def get_ll_Some)
  have new: "y + off \<notin> set ((x + off) # map (\<lambda>ob. ob + off) xs)" using 6(3) by auto
  obtain h' where "ps_list_add x y off h = Some h'" "objs_dll off h' (x # y # xs)"
     "\<forall>a. a \<notin> set (map (\<lambda>ob. ob + off) (y # x # xs)) \<longrightarrow> h' a = h a"
    using ps_list_ll_add_dll [of h "x + off" "map (\<lambda>ob. ob + off) xs" "y + off" c] c new 6(1)
    by (auto simp: objs_dll_def ps_list_add_def simp del: dll.simps)
  then show ?case using objs_dll_frame by blast
next
  case (7 h x xs)
  then obtain h' where "ps_list_rem x off h = Some h'" "objs_dll off h' [x]"
     "xs \<noteq> [] \<longrightarrow> objs_dll off h' xs"
     "\<forall>a. a \<notin> set (map (\<lambda>ob. ob + off) (x # xs)) \<longrightarrow> h' a = h a"
    using ps_list_ll_rem_dll [of h "x + off" "map (\<lambda>ob. ob + off) xs"]
    by (auto simp: objs_dll_def ps_list_rem_def simp del: dll.simps)
  then show ?case using objs_dll_frame by blast
qed

text \<open>Cells that are not of the list or the object stay as they are.\<close>

lemma list_at_add_cells:
  assumes "pl.list_at off h fl xs" and "objs_dll off h [s]" and "s \<notin> set xs"
    and "(if fl \<noteq> null then ps_list_add fl s off h else Some h) = Some h'" and "a \<notin> (\<lambda>x. x + off) ` insert s (set xs)"
  shows "h' a = h a"
proof (cases xs)
  case Nil
  then show ?thesis using assms(1,4) by (simp add: pl.list_at_def)
next
  case (Cons x zs)
  then have x: "fl = x" "x \<noteq> null" "objs_dll off h (x # zs)" using assms(1) by (auto simp: pl.list_at_def)
  obtain c where c: "h (s + off) = Some c" using assms(2) by (auto simp: objs_dll_def get_ll_Some)
  have "s + off \<notin> set ((x + off) # map (\<lambda>ob. ob + off) zs)" using assms(3) Cons by auto
  from ps_list_ll_add_dll [OF x(3) [unfolded objs_dll_def list.map] c this] show ?thesis
    using assms(4,5) x(1,2) Cons by (auto simp: ps_list_add_def)
qed

lemma list_at_rem_cells:
  assumes "pl.list_at off h fl (us @ s # vs)" and "ps_list_rem s off h = Some h'" and "a \<notin> (\<lambda>x. x + off) ` set (us @ s # vs)"
  shows "h' a = h a"
proof -
  have "objs_dll off h (s # vs @ us)"
    using assms(1) pl.ring_rotate [of off h us "s # vs"] by (auto simp: pl.list_at_def split: if_splits)
  from ps_list_ll_rem_dll [OF this [unfolded objs_dll_def list.map]] show ?thesis
    using assms(2,3) by (auto simp: ps_list_rem_def)
qed

end
