(* ===== verification/Global.thy ===== *)
theory Global
  imports Arch Lists
begin

text \<open>
  The data of \<open>ps_global.h\<close>: the memory header in front of every object, the quiescence queue and the
  remote free list built from headers, the structures of \<open>struct ps_mem\<close>, and \<open>ps_rndpow2\<close>.

  Headers live in a partial heap from addresses to \<open>ps_mheader\<close>.  The quiescence queue is specified as a
  first-in-first-out sequence (locale \<open>fifo_queue\<close>), the remote free list as a stack.
\<close>

section \<open>Memory headers\<close>

record ps_mheader =
  mh_tsc_free :: u64
  mh_slab :: addr
  mh_next :: addr

type_synonym mheap = "ps_mheader heap"

definition sizeof_ps_mheader :: u64 where "sizeof_ps_mheader = 24"

definition NUM_REMOTE_LIST :: nat where "NUM_REMOTE_LIST = unat (PS_CACHE_LINE div 8)"

definition ps_mhead_get :: "addr \<Rightarrow> addr" where
  "ps_mhead_get mem = mem - sizeof_ps_mheader"

definition ps_mhead_mem :: "addr \<Rightarrow> addr" where
  "ps_mhead_mem h = h + sizeof_ps_mheader"

definition ps_mhead_isfree :: "addr \<Rightarrow> mheap \<Rightarrow> bool option" where
  "ps_mhead_isfree h m = map_option (\<lambda>c. mh_tsc_free c \<noteq> 0) (m h)"

definition upd_mh :: "addr \<Rightarrow> (ps_mheader \<Rightarrow> ps_mheader) \<Rightarrow> mheap \<Rightarrow> mheap option" where
  "upd_mh h f m = (case m h of None \<Rightarrow> None | Some c \<Rightarrow> Some (m(h \<mapsto> f c)))"

definition get_mh_next :: "addr \<Rightarrow> mheap \<Rightarrow> addr option" where
  "get_mh_next h m = map_option mh_next (m h)"

definition set_mh_next :: "addr \<Rightarrow> addr \<Rightarrow> mheap \<Rightarrow> mheap option" where
  "set_mh_next h v = upd_mh h (\<lambda>c. c\<lparr>mh_next := v\<rparr>)"

definition ps_mhead_reset :: "addr \<Rightarrow> mheap \<Rightarrow> mheap option" where
  "ps_mhead_reset h = upd_mh h (\<lambda>c. c\<lparr>mh_tsc_free := 0, mh_next := null\<rparr>)"

definition ps_mhead_setfree :: "addr \<Rightarrow> u64 \<Rightarrow> mheap \<Rightarrow> mheap option" where
  "ps_mhead_setfree h token = upd_mh h (\<lambda>c. c\<lparr>mh_tsc_free := token\<rparr>)"

definition ps_mhead_init :: "addr \<Rightarrow> addr \<Rightarrow> mheap \<Rightarrow> mheap option" where
  "ps_mhead_init h s m = do {
     m \<leftarrow> upd_mh h (\<lambda>c. c\<lparr>mh_slab := s\<rparr>) m;
     ps_mhead_setfree h 1 m }"

lemma ps_mhead_get_mem [simp]: "ps_mhead_get (ps_mhead_mem h) = h"
  by (simp add: ps_mhead_get_def ps_mhead_mem_def)

lemma ps_mhead_mem_get [simp]: "ps_mhead_mem (ps_mhead_get p) = p"
  by (simp add: ps_mhead_get_def ps_mhead_mem_def)

lemma upd_mh_Some: "m h = Some c \<Longrightarrow> upd_mh h f m = Some (m(h \<mapsto> f c))"
  by (simp add: upd_mh_def)

section \<open>The quiescence queue\<close>

record ps_qsc_list =
  ql_head :: addr
  ql_tail :: addr

definition ps_qsc_peek :: "ps_qsc_list \<Rightarrow> addr" where
  "ps_qsc_peek ql = ql_head ql"

definition ps_qsc_enqueue :: "ps_qsc_list \<Rightarrow> addr \<Rightarrow> mheap \<Rightarrow> (ps_qsc_list \<times> mheap) option" where
  "ps_qsc_enqueue ql n m =
     (let t = ql_tail ql in
      if t \<noteq> null then do { m \<leftarrow> set_mh_next t n m; Some (ql\<lparr>ql_tail := n\<rparr>, m) }
      else Some (ql\<lparr>ql_head := n, ql_tail := n\<rparr>, m))"

definition ps_qsc_dequeue :: "ps_qsc_list \<Rightarrow> mheap \<Rightarrow> (addr \<times> ps_qsc_list \<times> mheap) option" where
  "ps_qsc_dequeue ql m =
     (let a = ql_head ql in
      if a \<noteq> null then do {
        nx \<leftarrow> get_mh_next a m;
        let ql = ql\<lparr>ql_head := nx\<rparr>;
        let ql = (if ql_tail ql = a then ql\<lparr>ql_tail := null\<rparr> else ql);
        m \<leftarrow> set_mh_next a null m;
        Some (a, ql, m) }
      else Some (a, ql, m))"

definition ps_qsc_clear :: "ps_qsc_list \<Rightarrow> addr \<times> ps_qsc_list" where
  "ps_qsc_clear l = (ql_head l, l\<lparr>ql_head := null, ql_tail := null\<rparr>)"

text \<open>The queue as a sequence, and what a header must look like to be enqueued.\<close>

definition qsc_view :: "ps_qsc_list \<Rightarrow> mheap \<Rightarrow> addr list \<Rightarrow> bool" where
  "qsc_view ql m xs \<longleftrightarrow> chain mh_next m (ql_head ql) xs \<and>
     ql_tail ql = (if xs = [] then null else last xs)"

definition qsc_fresh :: "mheap \<Rightarrow> addr \<Rightarrow> bool" where
  "qsc_fresh m n \<longleftrightarrow> n \<noteq> null \<and> get_mh_next n m = Some null"

text \<open>Runs of an enqueue operation over a list, and of a dequeue operation.\<close>

fun enq_all :: "('q \<Rightarrow> addr \<Rightarrow> 'h \<Rightarrow> ('q \<times> 'h) option) \<Rightarrow> 'q \<Rightarrow> addr list \<Rightarrow> 'h \<Rightarrow> ('q \<times> 'h) option"
where
  "enq_all enq q [] h = Some (q, h)"
| "enq_all enq q (n # ns) h = do { (q, h) \<leftarrow> enq q n h; enq_all enq q ns h }"

fun deq_n :: "('q \<Rightarrow> 'h \<Rightarrow> (addr \<times> 'q \<times> 'h) option) \<Rightarrow> nat \<Rightarrow> 'q \<Rightarrow> 'h \<Rightarrow> (addr list \<times> 'q \<times> 'h) option"
where
  "deq_n deq 0 q h = Some ([], q, h)"
| "deq_n deq (Suc k) q h = do {
     (a, q, h) \<leftarrow> deq q h;
     (as, q, h) \<leftarrow> deq_n deq k q h;
     Some (a # as, q, h) }"

locale fifo_queue =
  fixes view :: "'q \<Rightarrow> 'h \<Rightarrow> addr list \<Rightarrow> bool"
    and fresh :: "'h \<Rightarrow> addr \<Rightarrow> bool"
    and peek :: "'q \<Rightarrow> addr"
    and enq :: "'q \<Rightarrow> addr \<Rightarrow> 'h \<Rightarrow> ('q \<times> 'h) option"
    and deq :: "'q \<Rightarrow> 'h \<Rightarrow> (addr \<times> 'q \<times> 'h) option"
  assumes view_distinct: "view q h xs \<Longrightarrow> distinct xs \<and> null \<notin> set xs"
    and peek_view: "view q h xs \<Longrightarrow> peek q = (if xs = [] then null else hd xs)"
    and enq_view: "view q h xs \<Longrightarrow> fresh h n \<Longrightarrow> n \<notin> set xs \<Longrightarrow>
      \<exists>q' h'. enq q n h = Some (q', h') \<and> view q' h' (xs @ [n]) \<and>
        (\<forall>y. y \<notin> set (n # xs) \<longrightarrow> fresh h' y = fresh h y)"
    and deq_view: "view q h (x # xs) \<Longrightarrow>
      \<exists>q' h'. deq q h = Some (x, q', h') \<and> view q' h' xs \<and> fresh h' x \<and>
        (\<forall>y. y \<notin> set (x # xs) \<longrightarrow> fresh h' y = fresh h y)"
    and deq_empty: "view q h [] \<Longrightarrow> deq q h = Some (null, q, h)"
begin

lemma enq_all_view:
  "view q h xs \<Longrightarrow> (\<forall>n \<in> set ns. fresh h n) \<Longrightarrow> distinct ns \<Longrightarrow> set ns \<inter> set xs = {} \<Longrightarrow>
   \<exists>q' h'. enq_all enq q ns h = Some (q', h') \<and> view q' h' (xs @ ns)"
proof (induction ns arbitrary: q h xs)
  case Nil
  then show ?case by simp
next
  case (Cons n ns)
  then obtain q1 h1 where 1: "enq q n h = Some (q1, h1)" "view q1 h1 (xs @ [n])"
      "\<forall>y. y \<notin> set (n # xs) \<longrightarrow> fresh h1 y = fresh h y"
    using enq_view [of q h xs n] by auto
  then have "\<exists>q' h'. enq_all enq q1 ns h1 = Some (q', h') \<and> view q' h' ((xs @ [n]) @ ns)"
    using Cons.prems by (intro Cons.IH) auto
  with 1 show ?case by auto
qed

lemma deq_n_view:
  "view q h (xs @ ys) \<Longrightarrow>
   \<exists>q' h'. deq_n deq (length xs) q h = Some (xs, q', h') \<and> view q' h' ys"
proof (induction xs arbitrary: q h)
  case Nil
  then show ?case by simp
next
  case (Cons x xs)
  then obtain q1 h1 where 1: "deq q h = Some (x, q1, h1)" "view q1 h1 (xs @ ys)"
    using deq_view [of q h x "xs @ ys"] by auto
  from Cons.IH [OF this(2)] 1 show ?case by auto
qed

lemma fifo_order:
  assumes "view q h []" and "\<forall>n \<in> set ns. fresh h n" and "distinct ns"
  shows "\<exists>q' h' q'' h''. enq_all enq q ns h = Some (q', h')
     \<and> deq_n deq (length ns) q' h' = Some (ns, q'', h'') \<and> view q'' h'' []"
  using enq_all_view [OF assms(1,2,3)] deq_n_view [of _ _ ns "[]"] by fastforce

end

interpretation qsc: fifo_queue qsc_view qsc_fresh ps_qsc_peek ps_qsc_enqueue ps_qsc_dequeue
proof (unfold_locales, goal_cases)
  case (1 q h xs)
  then show ?case by (auto simp: qsc_view_def dest: chain_distinct chain_nonnull_elems)
next
  case (2 q h xs)
  then show ?case by (cases xs) (auto simp: qsc_view_def ps_qsc_peek_def)
next
  case (3 q h xs n)
  show ?case
  proof (cases xs rule: rev_cases)
    case Nil
    with 3 show ?thesis
      by (auto simp: qsc_view_def qsc_fresh_def ps_qsc_enqueue_def get_mh_next_def)
  next
    case (snoc ys t)
    from 3 snoc have ch: "chain mh_next h (ql_head q) (ys @ [t])" and tl: "ql_tail q = t"
      by (simp_all add: qsc_view_def)
    from chain_dom [OF ch, of t] obtain c where c: "h t = Some c" by auto
    from chain_nonnull_elems [OF ch] have t: "t \<noteq> null" by auto
    from 3(2) obtain d where d: "h n = Some d" "mh_next d = null" "n \<noteq> null"
      by (auto simp: qsc_fresh_def get_mh_next_def)
    have "chain mh_next (h(t \<mapsto> c\<lparr>mh_next := n\<rparr>)) (ql_head q) (ys @ [t, n])"
      using chain_snoc [OF ch c _ d(3) _ _ d(1,2)] 3(3) snoc by auto
    moreover have "\<forall>y. y \<notin> set (n # xs) \<longrightarrow>
        qsc_fresh (h(t \<mapsto> c\<lparr>mh_next := n\<rparr>)) y = qsc_fresh h y"
      using snoc by (auto simp: qsc_fresh_def get_mh_next_def)
    ultimately show ?thesis using t tl c snoc
      by (auto simp: qsc_view_def ps_qsc_enqueue_def set_mh_next_def upd_mh_Some)
  qed
next
  case (4 q h x xs)
  then obtain c where c: "ql_head q = x" "x \<noteq> null" "h x = Some c"
      "chain mh_next h (mh_next c) xs" "ql_tail q = last (x # xs)"
    by (auto simp: qsc_view_def split: option.splits)
  have x: "x \<notin> set xs"
    using 4 chain_distinct [of mh_next h "ql_head q" "x # xs"] by (simp add: qsc_view_def)
  have "(if xs = [] then null else last xs) = (if last (x # xs) = x then null else last (x # xs))"
    using x by auto
  with c x show ?case
    by (auto simp: qsc_view_def ps_qsc_dequeue_def set_mh_next_def upd_mh_Some get_mh_next_def
        qsc_fresh_def)
next
  case (5 q h)
  then show ?case by (simp add: qsc_view_def ps_qsc_dequeue_def)
qed

text \<open>
  C21:  The quiescence queue is first-in first-out: headers enqueued on an empty queue are dequeued in
  the order they came in, and the queue is empty again afterwards, so memory is considered for
  reuse in the order in which it was freed.
\<close>

theorem ps_qsc_fifo:
  assumes "qsc_view ql m []" and "\<forall>n \<in> set ns. qsc_fresh m n" and "distinct ns"
  shows "\<exists>ql' m' ql'' m''. enq_all ps_qsc_enqueue ql ns m = Some (ql', m')
     \<and> deq_n ps_qsc_dequeue (length ns) ql' m' = Some (ns, ql'', m'')
     \<and> ql'' = \<lparr>ql_head = null, ql_tail = null\<rparr>"
proof -
  obtain q' h' q'' h'' where q: "enq_all ps_qsc_enqueue ql ns m = Some (q', h')"
     "deq_n ps_qsc_dequeue (length ns) q' h' = Some (ns, q'', h'')" "qsc_view q'' h'' []"
    using qsc.fifo_order [OF assms] by blast
  then have "q'' = \<lparr>ql_head = null, ql_tail = null\<rparr>"
    by (simp add: qsc_view_def ps_qsc_list.equality)
  with q show ?thesis by blast
qed

theorem ps_qsc_fifo_witness:
  "\<exists>ql' m' ql'' m''. enq_all ps_qsc_enqueue \<lparr>ql_head = 0, ql_tail = 0\<rparr> [64, 32, 96]
       (\<lambda>_. Some \<lparr>mh_tsc_free = 5, mh_slab = 16, mh_next = 0\<rparr>) = Some (ql', m')
     \<and> deq_n ps_qsc_dequeue (length [64, 32, 96 :: addr]) ql' m' = Some ([64, 32, 96], ql'', m'')
     \<and> ql'' = \<lparr>ql_head = null, ql_tail = null\<rparr>"
  by (rule ps_qsc_fifo) (auto simp: qsc_view_def qsc_fresh_def get_mh_next_def)

lemma ps_qsc_clear_view:
  "qsc_view ql m xs \<Longrightarrow>
   chain mh_next m (fst (ps_qsc_clear ql)) xs \<and> qsc_view (snd (ps_qsc_clear ql)) m []"
  by (simp add: qsc_view_def ps_qsc_clear_def)

section \<open>The remote free list of one core\<close>

text \<open>
  One attempt of each compare-and-swap loop, given the head \<open>t\<close> it read and the head \<open>cur\<close> that the
  instruction finds; the loops for a core that is not disturbed follow.  The interleaved behaviour
  is the subject of \<open>Remote_Stack\<close>.
\<close>

definition ps_rfl_push_try :: "addr \<Rightarrow> addr \<Rightarrow> addr \<Rightarrow> mheap \<Rightarrow> (bool \<times> addr \<times> mheap) option" where
  "ps_rfl_push_try t cur n m = do {
     m \<leftarrow> set_mh_next n t m;
     let (z, cur) = ps_cas cur t n;
     Some (z, cur, m) }"

definition ps_rfl_remove_try :: "addr \<Rightarrow> addr \<Rightarrow> bool \<times> addr" where
  "ps_rfl_remove_try t cur = ps_cas cur t null"

fun ps_rfl_stack_push :: "nat \<Rightarrow> addr \<Rightarrow> addr \<Rightarrow> mheap \<Rightarrow> (addr \<times> mheap) option" where
  "ps_rfl_stack_push 0 h n m = None"
| "ps_rfl_stack_push (Suc k) h n m = do {
     (z, h', m) \<leftarrow> ps_rfl_push_try h h n m;
     if z then Some (h', m) else ps_rfl_stack_push k h' n m }"

fun ps_rfl_stack_remove_all :: "nat \<Rightarrow> addr \<Rightarrow> (addr \<times> addr) option" where
  "ps_rfl_stack_remove_all 0 h = None"
| "ps_rfl_stack_remove_all (Suc k) h =
     (let (z, h') = ps_rfl_remove_try h h in
      if z then Some (h, h') else ps_rfl_stack_remove_all k h')"

text \<open>Undisturbed, one round is enough.\<close>

lemma ps_rfl_stack_push_1:
  "ps_rfl_stack_push (Suc k) h n m = map_option (\<lambda>m. (n, m)) (set_mh_next n h m)"
  by (cases "set_mh_next n h m") (simp_all add: ps_rfl_push_try_def ps_cas_def)

lemma ps_rfl_stack_remove_all_1: "ps_rfl_stack_remove_all (Suc k) h = Some (h, null)"
  by (simp add: ps_rfl_remove_try_def ps_cas_def)

section \<open>Rounding up to a power of two\<close>

text \<open>
  \<open>PS_PLAT_SHIFTR32\<close> adds the last smearing step on \<open>x86_64\<close> and is empty on 32-bit \<open>x86\<close>.
\<close>

definition ps_rndpow2 :: "u64 \<Rightarrow> u64" where
  "ps_rndpow2 v =
     (let v = v - 1;
          v = v OR drop_bit 1 v;
          v = v OR drop_bit 2 v;
          v = v OR drop_bit 4 v;
          v = v OR drop_bit 8 v;
          v = v OR drop_bit 16 v;
          v = v OR drop_bit 32 v
      in v + 1)"

definition ps_rndpow2_x86 :: "u32 \<Rightarrow> u32" where
  "ps_rndpow2_x86 v =
     (let v = v - 1;
          v = v OR drop_bit 1 v;
          v = v OR drop_bit 2 v;
          v = v OR drop_bit 4 v;
          v = v OR drop_bit 8 v;
          v = v OR drop_bit 16 v
      in v + 1)"

text \<open>
  The smearing invariant: after the steps so far, bit \<open>i\<close> is set when one of the \<open>k\<close> bits from \<open>i\<close> on
  was set at the start.
\<close>

definition smeared :: "nat \<Rightarrow> 'a :: len word \<Rightarrow> 'a word \<Rightarrow> bool" where
  "smeared k x y \<longleftrightarrow> (\<forall>i. bit y i \<longleftrightarrow> (\<exists>j. i \<le> j \<and> j < i + k \<and> bit x j))"

lemma smeared_1: "smeared 1 x x"
  by (auto simp: smeared_def) (metis le_less_Suc_eq)

lemma smeared_step:
  assumes "smeared k x y"
  shows "smeared (k + k) x (y OR drop_bit k y)"
  unfolding smeared_def
proof
  fix i
  have "(i \<le> j \<and> j < i + (k + k) \<and> bit x j) \<longleftrightarrow>
      (i \<le> j \<and> j < i + k \<and> bit x j) \<or> (i + k \<le> j \<and> j < i + k + k \<and> bit x j)" for j
    by (cases "bit x j"; simp; arith)
  then have "(\<exists>j. i \<le> j \<and> j < i + (k + k) \<and> bit x j) \<longleftrightarrow>
      (\<exists>j. i \<le> j \<and> j < i + k \<and> bit x j) \<or> (\<exists>j. i + k \<le> j \<and> j < i + k + k \<and> bit x j)"
    by (simp only: ex_disj_distrib)
  also have "\<dots> \<longleftrightarrow> bit y i \<or> bit y (i + k)" using assms by (simp only: smeared_def)
  finally show "bit (y OR drop_bit k y) i \<longleftrightarrow> (\<exists>j. i \<le> j \<and> j < i + (k + k) \<and> bit x j)"
    by (simp only: bit_or_iff bit_drop_bit_eq o_apply add.commute)
qed

lemma bit_word_unat: "bit x j \<longleftrightarrow> odd (unat (x :: 'a :: len word) div 2 ^ j)"
  by (simp add: bit_unsigned_iff bit_iff_odd [of "unat x", symmetric])

lemma smeared_mask:
  fixes x y :: "'a :: len word"
  assumes "smeared LENGTH('a) x y" and "2 ^ h \<le> unat x" and "unat x < 2 ^ Suc h"
  shows "y = mask (Suc h)"
proof (rule bit_word_eqI)
  fix i assume i: "i < LENGTH('a)"
  have top: "bit x h"
  proof -
    have "unat x div 2 ^ h = 1" using assms(2,3) by (intro div_nat_eqI) auto
    then show ?thesis by (simp add: bit_word_unat)
  qed
  have above: "\<not> bit x j" if "h < j" for j
  proof -
    have "unat x < 2 ^ j"
      using assms(3) power_increasing [of "Suc h" j "2 :: nat"] that by (simp add: Suc_le_eq)
    then show ?thesis by (simp add: bit_word_unat)
  qed
  have h: "h < LENGTH('a)" using top by (rule bit_imp_le_length)
  have "bit y i \<longleftrightarrow> i \<le> h"
  proof
    assume "bit y i"
    then obtain j where "i \<le> j" "bit x j" using assms(1) by (auto simp: smeared_def)
    with above show "i \<le> h" by (meson le_trans not_le)
  next
    assume "i \<le> h"
    then show "bit y i" using assms(1) top h unfolding smeared_def by (metis less_add_eq_less trans_less_add2)
  qed
  then show "bit y i = bit (mask (Suc h) :: 'a word) i"
    using i by (simp add: bit_mask_iff less_Suc_eq_le)
qed

lemma smeared_inc:
  fixes x y :: "'a :: len word"
  assumes "smeared LENGTH('a) x y"
  shows "\<exists>k. y + 1 = 2 ^ k \<and> unat x < 2 ^ k \<and> 2 ^ k \<le> 2 * unat x + 1"
proof (cases "x = 0")
  case True
  have "y = 0" by (rule bit_word_eqI) (use assms True in \<open>auto simp: smeared_def\<close>)
  with True show ?thesis by (intro exI [of _ 0]) simp
next
  case False
  then have "1 \<le> unat x" by (simp add: Suc_le_eq unat_gt_0)
  then obtain h where h: "2 ^ h \<le> unat x" "unat x < 2 ^ Suc h"
    using ex_power_ivl1 [of 2 "unat x"] by auto
  then have "y + 1 = 2 ^ Suc h"
    using smeared_mask [OF assms h] inc_mask_eq_exp [of "Suc h", where 'a = "'a word"] by simp
  with h show ?thesis by (intro exI [of _ "Suc h"]) auto
qed

lemma smeared_2: "smeared 2 x (x OR drop_bit 1 x)"
  using smeared_step [OF smeared_1, of x] by (simp only: one_add_one)

lemmas smear_simps = smeared_2 smeared_step [where k = 2, simplified]
  smeared_step [where k = 4, simplified] smeared_step [where k = 8, simplified]
  smeared_step [where k = 16, simplified] smeared_step [where k = 32, simplified]

lemma ps_rndpow2_smear: "\<exists>y. ps_rndpow2 v = y + 1 \<and> smeared 64 (v - 1) y"
  unfolding ps_rndpow2_def Let_def
  by (rule exI, rule conjI, rule refl) (intro smear_simps)

lemma ps_rndpow2_x86_smear: "\<exists>y. ps_rndpow2_x86 v = y + 1 \<and> smeared 32 (v - 1) y"
  unfolding ps_rndpow2_x86_def Let_def
  by (rule exI, rule conjI, rule refl) (intro smear_simps)

lemma ps_rndpow2_pow:
  assumes "1 \<le> unat v" and "unat v \<le> 2 ^ 63"
  shows "\<exists>k. unat (ps_rndpow2 v) = 2 ^ k \<and> unat v \<le> 2 ^ k \<and> 2 ^ k < 2 * unat v"
proof -
  obtain y k where k: "ps_rndpow2 v = 2 ^ k" "unat (v - 1) < 2 ^ k" "2 ^ k \<le> 2 * unat (v - 1) + 1"
    using ps_rndpow2_smear [of v] smeared_inc [where 'a = 64] by fastforce
  have v: "unat (v - 1) = unat v - 1" using assms(1) by (intro unat_dec) auto
  have "(2 :: nat) ^ k < 2 ^ 64" using k(3) v assms by simp
  then have "unat (of_nat (2 ^ k) :: u64) = 2 ^ k" by (rule unat_of_nat_small)
  then have "unat (ps_rndpow2 v) = 2 ^ k" using k(1) by simp
  with k(2,3) v assms(1) show ?thesis by (intro exI [of _ k]) auto
qed

text \<open>
   \<open>ps_rndpow2\<close> rounds up to a power of two: for every size from 1 up to \<open>2^63\<close> the result is the
  least power of two that is not smaller.
\<close>

lemma ps_rndpow2_least:
  assumes "1 \<le> unat v" and "unat v \<le> 2 ^ 63"
  shows "\<exists>k. unat (ps_rndpow2 v) = 2 ^ k \<and> unat v \<le> 2 ^ k \<and> 2 ^ k < 2 * unat v"
  by (rule ps_rndpow2_pow [OF assms])

end
