(* ===== verification/Remote_Stack.thy ===== *)
theory Remote_Stack
  imports Global
begin

text \<open>
  The lock-free remote free list (\<open>__ps_rfl_stack_push\<close> and \<open>__ps_rfl_stack_remove_all\<close> of
  \<open>ps_global.h\<close>) under arbitrary interleaving.  Any number of threads share one list head.  Every
  memory access of the two loops is a step of its own: reading the head, storing the link of the
  pushed header, and the compare-and-swap.

  The field \<open>rs_client\<close> records which headers are in the hands of the program outside these two
  functions: a thread may only push a header it took from there, and gives the headers of a removed
  chain back when it is done with it.
\<close>

datatype rs_pc =
    RIdle
  | PushRead addr
  | PushStore addr addr
  | PushCas addr addr
  | RemRead
  | RemCas addr
  | Owned addr

record rs_sys =
  rs_head :: addr
  rs_mem :: mheap
  rs_pc :: "nat \<Rightarrow> rs_pc"
  rs_client :: "addr set"

definition rs_goto :: "nat \<Rightarrow> rs_pc \<Rightarrow> rs_sys \<Rightarrow> rs_sys" where
  "rs_goto i c s = s\<lparr>rs_pc := (rs_pc s)(i := c)\<rparr>"

inductive rs_step :: "rs_sys \<Rightarrow> rs_sys \<Rightarrow> bool" where
  call_push: "rs_pc s i = RIdle \<Longrightarrow> n \<in> rs_client s \<Longrightarrow>
     rs_step s (rs_goto i (PushRead n) s\<lparr>rs_client := rs_client s - {n}\<rparr>)"
| push_read: "rs_pc s i = PushRead n \<Longrightarrow> rs_step s (rs_goto i (PushStore n (rs_head s)) s)"
| push_store: "rs_pc s i = PushStore n t \<Longrightarrow> set_mh_next n t (rs_mem s) = Some m \<Longrightarrow>
     rs_step s (rs_goto i (PushCas n t) s\<lparr>rs_mem := m\<rparr>)"
| push_cas: "rs_pc s i = PushCas n t \<Longrightarrow> ps_cas (rs_head s) t n = (z, h) \<Longrightarrow>
     rs_step s (rs_goto i (if z then RIdle else PushRead n) s\<lparr>rs_head := h\<rparr>)"
| call_remove: "rs_pc s i = RIdle \<Longrightarrow> rs_step s (rs_goto i RemRead s)"
| rem_read: "rs_pc s i = RemRead \<Longrightarrow> rs_step s (rs_goto i (RemCas (rs_head s)) s)"
| rem_cas: "rs_pc s i = RemCas t \<Longrightarrow> ps_rfl_remove_try t (rs_head s) = (z, h) \<Longrightarrow>
     rs_step s (rs_goto i (if z then Owned t else RemRead) s\<lparr>rs_head := h\<rparr>)"
| hand_back: "rs_pc s i = Owned p \<Longrightarrow> chain mh_next (rs_mem s) p ys \<Longrightarrow>
     rs_step s (rs_goto i RIdle s\<lparr>rs_client := rs_client s \<union> set ys\<rparr>)"

definition rs_start :: "addr set \<Rightarrow> mheap \<Rightarrow> rs_sys" where
  "rs_start pool m = \<lparr>rs_head = null, rs_mem = m, rs_pc = (\<lambda>_. RIdle), rs_client = pool\<rparr>"

inductive rs_reach :: "addr set \<Rightarrow> mheap \<Rightarrow> rs_sys \<Rightarrow> bool" for pool m where
  start: "rs_reach pool m (rs_start pool m)"
| step: "rs_reach pool m s \<Longrightarrow> rs_step s t \<Longrightarrow> rs_reach pool m t"

text \<open>The headers the thread at \<open>c\<close> holds: the one it is pushing, or the chain it removed.\<close>

fun rs_holds :: "mheap \<Rightarrow> rs_pc \<Rightarrow> addr list \<Rightarrow> bool" where
  "rs_holds m (PushRead n) ys \<longleftrightarrow> ys = [n]"
| "rs_holds m (PushStore n t) ys \<longleftrightarrow> ys = [n]"
| "rs_holds m (PushCas n t) ys \<longleftrightarrow> ys = [n] \<and> get_mh_next n m = Some t"
| "rs_holds m (Owned p) ys \<longleftrightarrow> chain mh_next m p ys"
| "rs_holds m RIdle ys \<longleftrightarrow> ys = []"
| "rs_holds m RemRead ys \<longleftrightarrow> ys = []"
| "rs_holds m (RemCas t) ys \<longleftrightarrow> ys = []"

text \<open>
  The invariant: the shared list is a chain \<open>xs\<close>; the headers in it, those held by the threads and
  those of the client are disjoint and together are the pool.
\<close>

definition rs_split :: "addr set \<Rightarrow> rs_sys \<Rightarrow> addr list \<Rightarrow> (nat \<Rightarrow> addr list) \<Rightarrow> bool" where
  "rs_split pool s xs own \<longleftrightarrow>
     chain mh_next (rs_mem s) (rs_head s) xs \<and>
     (\<forall>i. rs_holds (rs_mem s) (rs_pc s i) (own i)) \<and>
     (\<forall>i. set (own i) \<inter> (set xs \<union> rs_client s) = {}) \<and>
     (\<forall>i j. i \<noteq> j \<longrightarrow> set (own i) \<inter> set (own j) = {}) \<and>
     set xs \<inter> rs_client s = {} \<and>
     set xs \<union> (\<Union>i. set (own i)) \<union> rs_client s = pool \<and>
     (\<forall>n \<in> pool. n \<noteq> null \<and> rs_mem s n \<noteq> None)"

lemma rs_split_disjoint:
  assumes "rs_split pool s xs own"
  shows "set (own i) \<inter> (set xs \<union> rs_client s) = {}"
    and "i \<noteq> j \<Longrightarrow> set (own i) \<inter> set (own j) = {}"
    and "set xs \<inter> rs_client s = {}"
    and "set xs \<union> (\<Union>i. set (own i)) \<union> rs_client s = pool"
  using assms by (simp_all add: rs_split_def)

lemma rs_splitD:
  assumes "rs_split pool s xs own"
  shows "chain mh_next (rs_mem s) (rs_head s) xs" "rs_holds (rs_mem s) (rs_pc s i) (own i)"
    "x \<in> set (own i) \<Longrightarrow> x \<notin> set xs \<and> x \<notin> rs_client s \<and> x \<in> pool"
    "x \<in> set (own i) \<Longrightarrow> i \<noteq> j \<Longrightarrow> x \<notin> set (own j)"
    "x \<in> pool \<Longrightarrow> x \<noteq> null \<and> (\<exists>c. rs_mem s x = Some c)"
    "rs_client s \<subseteq> pool" "set xs \<subseteq> pool"
proof -
  show "chain mh_next (rs_mem s) (rs_head s) xs" "rs_holds (rs_mem s) (rs_pc s i) (own i)"
    "x \<in> pool \<Longrightarrow> x \<noteq> null \<and> (\<exists>c. rs_mem s x = Some c)"
    using assms by (simp_all add: rs_split_def)
  note d = rs_split_disjoint [OF assms]
  show "rs_client s \<subseteq> pool" "set xs \<subseteq> pool" using d(4) by blast+
  show "x \<in> set (own i) \<Longrightarrow> x \<notin> set xs \<and> x \<notin> rs_client s \<and> x \<in> pool"
    using d(1) [of i] d(4) by blast
  show "x \<in> set (own i) \<Longrightarrow> i \<noteq> j \<Longrightarrow> x \<notin> set (own j)" using d(2) [of i j] by blast
qed

lemma rs_goto_simps [simp]:
  "rs_head (rs_goto i c s) = rs_head s" "rs_mem (rs_goto i c s) = rs_mem s"
  "rs_client (rs_goto i c s) = rs_client s" "rs_pc (rs_goto i c s) = (rs_pc s)(i := c)"
  by (simp_all add: rs_goto_def)

lemma rs_holds_upd:
  assumes "rs_holds m c ys" and "n \<notin> set ys"
  shows "rs_holds (m(n \<mapsto> d)) c ys"
  using assms by (cases c) (auto simp: get_mh_next_def)

lemma UN_upd:
  "(\<Union>j. set ((own(i := ys)) j)) = set ys \<union> (\<Union>j \<in> UNIV - {i}. set (own j))"
  "(\<Union>j. set (own j)) = set (own i) \<union> (\<Union>j \<in> UNIV - {i}. set (own j))"
  by (auto split: if_splits)

text \<open>Moving headers between the three places keeps the split.\<close>

lemma rs_split_move:
  assumes "rs_split pool s xs own"
    and "chain mh_next (rs_mem t) (rs_head t) xs'" and "rs_holds (rs_mem t) c ys"
    and "rs_pc t = (rs_pc s)(i := c)"
    and "\<And>j. j \<noteq> i \<Longrightarrow> rs_holds (rs_mem t) (rs_pc s j) (own j)"
    and "set xs \<union> set (own i) \<union> rs_client s = set xs' \<union> set ys \<union> rs_client t"
    and "set xs' \<inter> set ys = {}" "set xs' \<inter> rs_client t = {}" "set ys \<inter> rs_client t = {}"
    and "\<And>n. rs_mem t n = None \<Longrightarrow> rs_mem s n = None"
  shows "rs_split pool t xs' (own(i := ys))"
proof -
  have dj: "set (own j) \<inter> (set xs' \<union> set ys \<union> rs_client t) = {}" if "j \<noteq> i" for j
    using rs_split_disjoint(1) [OF assms(1), of j] rs_split_disjoint(2) [OF assms(1) that]
    unfolding assms(6) [symmetric] by blast
  have un: "set xs' \<union> (\<Union>j. set ((own(i := ys)) j)) \<union> rs_client t = pool"
  proof -
    have "set xs' \<union> (\<Union>j. set ((own(i := ys)) j)) \<union> rs_client t
        = (set xs' \<union> set ys \<union> rs_client t) \<union> (\<Union>j \<in> UNIV - {i}. set (own j))"
      unfolding UN_upd(1) by blast
    also have "\<dots> = set xs \<union> (\<Union>j. set (own j)) \<union> rs_client s"
      unfolding assms(6) [symmetric] UN_upd(2) [of own i] by blast
    also have "\<dots> = pool" using assms(1) by (simp add: rs_split_def)
    finally show ?thesis .
  qed
  have "set ((own(i := ys)) j) \<inter> (set xs' \<union> rs_client t) = {}" for j
    using dj [of j] assms(7,9) by (cases "j = i") auto
  moreover have "set ((own(i := ys)) j) \<inter> set ((own(i := ys)) k) = {}" if "j \<noteq> k" for j k
    using dj [of j] dj [of k] rs_split_disjoint(2) [OF assms(1) that] that
    by (cases "j = i"; cases "k = i") auto
  moreover have "rs_holds (rs_mem t) (rs_pc t j) ((own(i := ys)) j)" for j
    using assms(3,4,5) by simp
  moreover have "\<forall>n \<in> pool. n \<noteq> null \<and> rs_mem t n \<noteq> None"
    using assms(10) rs_splitD(5) [OF assms(1)] by fastforce
  ultimately show ?thesis using assms(2,8) un by (simp add: rs_split_def)
qed

text \<open>
  What a step may do to the list: nothing, a push of the header of a thread whose
  compare-and-swap succeeded, or the removal of everything by such a thread.
\<close>

definition rs_effect :: "rs_sys \<Rightarrow> addr list \<Rightarrow> rs_sys \<Rightarrow> addr list \<Rightarrow> bool" where
  "rs_effect s xs t xs' \<longleftrightarrow> xs' = xs \<or>
     (\<exists>i n u. rs_pc s i = PushCas n u \<and> rs_pc t i = RIdle \<and> xs' = n # xs) \<or>
     (\<exists>i u. rs_pc s i = RemCas u \<and> rs_pc t i = Owned u \<and> xs' = []
        \<and> chain mh_next (rs_mem t) u xs)"

lemma rs_split_keep:
  assumes "rs_split pool s xs own" and "rs_mem t = rs_mem s" and "rs_head t = rs_head s"
    and "rs_client t = rs_client s" and "rs_pc t = (rs_pc s)(i := c)"
    and "rs_holds (rs_mem s) c (own i)"
  shows "rs_split pool t xs own"
  using rs_split_move [OF assms(1), of t xs c "own i" i] assms rs_splitD(1,2) [OF assms(1)]
    rs_split_disjoint(1) [OF assms(1), of i]
      rs_split_disjoint(3) [OF assms(1)]
  by (simp add: Int_Un_distrib Int_commute)

text \<open>The steps with more than a move of one thread: the store of the link and the two compare-and-swaps.\<close>

lemma rs_split_store:
  assumes sp0: "rs_split pool s xs own" and push_store: "rs_pc s i = PushStore n t" "set_mh_next n t (rs_mem s) = Some m"
  shows "rs_split pool (rs_goto i (PushCas n t) s\<lparr>rs_mem := m\<rparr>) xs (own(i := [n]))"
proof -
  note sp = rs_splitD [OF sp0]
  have own: "own i = [n]" using sp(2) [of i] push_store by simp
  then have n: "n \<notin> set xs" "\<And>j. j \<noteq> i \<Longrightarrow> n \<notin> set (own j)"
    using sp(3) [of n i] sp(4) [of n i] by auto
  obtain c where c: "rs_mem s n = Some c" "m = (rs_mem s)(n \<mapsto> c\<lparr>mh_next := t\<rparr>)"
    using push_store by (auto simp: set_mh_next_def upd_mh_def split: option.splits)
  have hold: "rs_holds m (rs_pc s j) (own j)" if "j \<noteq> i" for j
    using rs_holds_upd [OF sp(2) n(2) [OF that]] c(2) by simp
  have dom: "m x = None \<Longrightarrow> rs_mem s x = None" for x using c by (auto split: if_splits)
  show ?thesis
    by (rule rs_split_move [OF sp0])
      (use sp(1) n own c hold dom rs_split_disjoint(1) [OF sp0, of i]
      rs_split_disjoint(3) [OF sp0] in
        \<open>auto simp: get_mh_next_def\<close>)
qed

lemma rs_split_push_cas:
  assumes sp0: "rs_split pool s xs own" and push_cas: "rs_pc s i = PushCas n t" "ps_cas (rs_head s) t n = (z, h)"
  shows "\<exists>xs' own'. rs_split pool (rs_goto i (if z then RIdle else PushRead n) s\<lparr>rs_head := h\<rparr>) xs' own' \<and>
    rs_effect s xs (rs_goto i (if z then RIdle else PushRead n) s\<lparr>rs_head := h\<rparr>) xs'"
proof -
  note sp = rs_splitD [OF sp0]
  have own: "own i = [n]" and nx: "get_mh_next n (rs_mem s) = Some t"
    using sp(2) [of i] push_cas by auto
  show ?thesis
  proof (cases "rs_head s = t")
    case True
    then have zh: "z" "h = n" using push_cas by (auto simp: ps_cas_def)
    have "chain mh_next (rs_mem s) n (n # xs)"
      using sp(1) sp(3) [of n i] sp(5) [of n] own nx True by (auto simp: get_mh_next_def)
    then have "rs_split pool (rs_goto i RIdle s\<lparr>rs_head := n\<rparr>) (n # xs) (own(i := []))"
      using sp(1,2) own rs_split_disjoint(1) [OF sp0, of i]
      rs_split_disjoint(3) [OF sp0]
      by (intro rs_split_move [OF sp0]) auto
    moreover have "rs_effect s xs (rs_goto i RIdle s\<lparr>rs_head := n\<rparr>) (n # xs)"
      using push_cas by (auto simp: rs_effect_def)
    ultimately show ?thesis using zh by auto
  next
    case False
    then have zh: "\<not> z" "h = rs_head s" using push_cas by (auto simp: ps_cas_def)
    have "rs_split pool (rs_goto i (PushRead n) s\<lparr>rs_head := rs_head s\<rparr>) xs own"
      using own by (intro rs_split_keep [OF sp0]) auto
    with zh show ?thesis by (auto simp: rs_effect_def)
  qed
qed

lemma rs_split_rem_cas:
  assumes sp0: "rs_split pool s xs own" and rem_cas: "rs_pc s i = RemCas t" "ps_rfl_remove_try t (rs_head s) = (z, h)"
  shows "\<exists>xs' own'. rs_split pool (rs_goto i (if z then Owned t else RemRead) s\<lparr>rs_head := h\<rparr>) xs' own' \<and>
    rs_effect s xs (rs_goto i (if z then Owned t else RemRead) s\<lparr>rs_head := h\<rparr>) xs'"
proof -
  note sp = rs_splitD [OF sp0]
  have own: "own i = []" using sp(2) [of i] rem_cas by simp
  show ?thesis
  proof (cases "rs_head s = t")
    case True
    then have zh: "z" "h = null" using rem_cas by (auto simp: ps_rfl_remove_try_def ps_cas_def)
    have "rs_split pool (rs_goto i (Owned t) s\<lparr>rs_head := null\<rparr>) [] (own(i := xs))"
      using sp(1,2) own True rs_split_disjoint(3) [OF sp0]
      by (intro rs_split_move [OF sp0]) auto
    moreover have "rs_effect s xs (rs_goto i (Owned t) s\<lparr>rs_head := null\<rparr>) []"
      using rem_cas sp(1) True by (auto simp: rs_effect_def)
    ultimately show ?thesis using zh by auto
  next
    case False
    then have zh: "\<not> z" "h = rs_head s"
      using rem_cas by (auto simp: ps_rfl_remove_try_def ps_cas_def)
    have "rs_split pool (rs_goto i RemRead s\<lparr>rs_head := rs_head s\<rparr>) xs own"
      using own by (intro rs_split_keep [OF sp0]) auto
    with zh show ?thesis by (auto simp: rs_effect_def)
  qed
qed

lemma rs_step_split:
  assumes "rs_step s t" and "rs_split pool s xs own"
  shows "\<exists>xs' own'. rs_split pool t xs' own' \<and> rs_effect s xs t xs'"
  using assms
proof (induction rule: rs_step.induct)
  case (call_push s i n)
  note sp = rs_splitD [OF call_push.prems]
  have "own i = []" using sp(2) [of i] call_push by simp
  then have "rs_split pool (rs_goto i (PushRead n) s\<lparr>rs_client := rs_client s - {n}\<rparr>) xs
      (own(i := [n]))"
    using sp(1,2,6) call_push.hyps rs_split_disjoint(3) [OF call_push.prems]
    by (intro rs_split_move [OF call_push.prems]) auto
  then show ?case by (auto simp: rs_effect_def)
next
  case (push_read s i n)
  have "rs_holds (rs_mem s) (PushStore n (rs_head s)) (own i)"
    using rs_splitD(2) [OF push_read.prems, of i] push_read by simp
  then have "rs_split pool (rs_goto i (PushStore n (rs_head s)) s) xs own"
    by (intro rs_split_keep [OF push_read.prems]) auto
  then show ?case by (auto simp: rs_effect_def)
next
  case (push_store s i n t m)
  show ?case using rs_split_store [OF push_store.prems push_store.hyps] by (auto simp: rs_effect_def)
next
  case (push_cas s i n t z h)
  show ?case by (rule rs_split_push_cas [OF push_cas.prems push_cas.hyps])
next
  case (call_remove s i)
  have "own i = []" using rs_splitD(2) [OF call_remove.prems, of i] call_remove by simp
  then have "rs_split pool (rs_goto i RemRead s) xs own"
    by (intro rs_split_keep [OF call_remove.prems]) auto
  then show ?case by (auto simp: rs_effect_def)
next
  case (rem_read s i)
  have "own i = []" using rs_splitD(2) [OF rem_read.prems, of i] rem_read by simp
  then have "rs_split pool (rs_goto i (RemCas (rs_head s)) s) xs own"
    by (intro rs_split_keep [OF rem_read.prems]) auto
  then show ?case by (auto simp: rs_effect_def)
next
  case (rem_cas s i t z h)
  show ?case by (rule rs_split_rem_cas [OF rem_cas.prems rem_cas.hyps])
next
  case (hand_back s i p ys)
  note sp = rs_splitD [OF hand_back.prems]
  have own: "own i = ys" using sp(2) [of i] hand_back chain_unique by fastforce
  have "rs_split pool (rs_goto i RIdle s\<lparr>rs_client := rs_client s \<union> set ys\<rparr>) xs (own(i := []))"
    using sp(1,2) own rs_split_disjoint(1) [OF hand_back.prems, of i]
      rs_split_disjoint(3) [OF hand_back.prems]
    by (intro rs_split_move [OF hand_back.prems]) auto
  then show ?case by (auto simp: rs_effect_def)
qed

lemma rs_reach_split:
  assumes "rs_reach pool m s" and "\<forall>n \<in> pool. n \<noteq> null \<and> m n \<noteq> None"
  shows "\<exists>xs own. rs_split pool s xs own"
  using assms
proof (induction rule: rs_reach.induct)
  case start
  then have "rs_split pool (rs_start pool m) [] (\<lambda>_. [])"
    by (simp add: rs_split_def rs_start_def)
  then show ?case by blast
next
  case (step s t)
  obtain xs own where sp: "rs_split pool s xs own" using step.IH [OF step.prems] by blast
  show ?case using rs_step_split [OF step.hyps(2) sp] by blast
qed

text \<open>
  C19:  Linearisability of the remote free list: in every reachable state the shared head leads
  through a proper chain, and whatever the interleaving, a single memory access either leaves that
  list as it is, or is a successful compare-and-swap that pushes exactly the header of its thread, or
  is a successful compare-and-swap that empties the list and hands exactly its former contents to
  its thread.
\<close>

theorem ps_rfl_linearizable:
  assumes "rs_reach pool m s" and "\<forall>n \<in> pool. n \<noteq> null \<and> m n \<noteq> None" and "rs_step s t"
  shows "\<exists>xs xs'. chain mh_next (rs_mem s) (rs_head s) xs \<and> chain mh_next (rs_mem t) (rs_head t) xs'
     \<and> rs_effect s xs t xs'"
  using rs_reach_split [OF assms(1,2)] rs_step_split [OF assms(3)] rs_splitD(1) by blast

text \<open>
  C20:  No header is lost or handed out twice: in every reachable state the headers on the list,
  those held by the threads (each one being pushed or in a removed chain) and those of the client
  program are pairwise disjoint and together are the initial pool.
\<close>

theorem ps_rfl_conservation:
  assumes "rs_reach pool m s" and "\<forall>n \<in> pool. n \<noteq> null \<and> m n \<noteq> None"
  shows "\<exists>xs own. chain mh_next (rs_mem s) (rs_head s) xs
     \<and> (\<forall>i. rs_holds (rs_mem s) (rs_pc s i) (own i))
     \<and> (\<forall>i j. i \<noteq> j \<longrightarrow> set (own i) \<inter> set (own j) = {})
     \<and> (\<forall>i. set (own i) \<inter> (set xs \<union> rs_client s) = {}) \<and> set xs \<inter> rs_client s = {}
     \<and> set xs \<union> (\<Union>i. set (own i)) \<union> rs_client s = pool"
proof -
  obtain xs own where sp: "rs_split pool s xs own" using rs_reach_split [OF assms] by blast
  then show ?thesis
    by (intro exI [of _ xs] exI [of _ own]) (simp add: rs_split_def)
qed

text \<open>A run in which thread 1 pushes the header at 32.\<close>

definition rs_example_mem :: mheap where
  "rs_example_mem = [32 \<mapsto> \<lparr>mh_tsc_free = 0, mh_slab = 16, mh_next = 0\<rparr>]"

lemma rs_example:
  "rs_reach {32} rs_example_mem
     (rs_goto 1 (PushCas 32 0) (rs_start {} rs_example_mem))"
proof -
  let ?s1 = "rs_goto 1 (PushRead 32) (rs_start {} rs_example_mem)"
  let ?s2 = "rs_goto 1 (PushStore 32 0) (rs_start {} rs_example_mem)"
  have "rs_step (rs_start {32} rs_example_mem) ?s1"
    using rs_step.call_push [of "rs_start {32} rs_example_mem" 1 32]
    by (simp add: rs_start_def rs_goto_def)
  moreover have "rs_step ?s1 ?s2"
    using rs_step.push_read [of ?s1 1 32] by (simp add: rs_start_def rs_goto_def)
  moreover have "rs_step ?s2 (rs_goto 1 (PushCas 32 0) (rs_start {} rs_example_mem))"
    using rs_step.push_store [of ?s2 1 32 0 rs_example_mem]
    by (simp add: rs_start_def rs_goto_def rs_example_mem_def set_mh_next_def upd_mh_def)
  ultimately show ?thesis by (meson rs_reach.intros)
qed

theorem ps_rfl_linearizable_witness:
  "\<exists>xs xs'. chain mh_next rs_example_mem 0 xs \<and> chain mh_next rs_example_mem 32 xs'
     \<and> rs_effect (rs_goto 1 (PushCas 32 0) (rs_start {} rs_example_mem)) xs
         (rs_goto 1 RIdle (rs_start {} rs_example_mem)\<lparr>rs_head := 32\<rparr>) xs'"
proof -
  let ?s = "rs_goto 1 (PushCas 32 0) (rs_start {} rs_example_mem)"
  have st: "rs_step ?s (rs_goto 1 RIdle (rs_start {} rs_example_mem)\<lparr>rs_head := 32\<rparr>)"
    using rs_step.push_cas [of ?s 1 32 0 True 32] by (simp add: rs_start_def rs_goto_def ps_cas_def)
  have pool: "\<forall>n \<in> {32 :: addr}. n \<noteq> null \<and> rs_example_mem n \<noteq> None"
    by (simp add: rs_example_mem_def)
  show ?thesis using ps_rfl_linearizable [OF rs_example pool st] by (simp add: rs_start_def)
qed

theorem ps_rfl_conservation_witness:
  "\<exists>xs. chain mh_next rs_example_mem 0 xs \<and> xs = []"
proof -
  have pool: "\<forall>n \<in> {32 :: addr}. n \<noteq> null \<and> rs_example_mem n \<noteq> None"
    by (simp add: rs_example_mem_def)
  show ?thesis using ps_rfl_conservation [OF rs_example pool] by (auto simp: rs_start_def)
qed

end
