(* ===== verification/Smr.thy ===== *)
theory Smr
  imports Arch
begin

text \<open>
  Parallel sections and quiescence: \<open>struct parsec\<close>, \<open>ps_enter\<close>, \<open>ps_exit\<close> of \<open>ps_smr.h\<close> and
  \<open>ps_quiesce\<close>, \<open>ps_init\<close>, \<open>ps_free\<close> of \<open>ps_smr.c\<close>.

  Two things come from outside and are parameters.  \<open>clk\<close> gives the time stamps: reading number
  \<open>t\<close> of the counter returns \<open>clk t\<close>, and the state carries the number of readings so far.
  \<open>env\<close> is what other cores do to the structure (and how many readings they take) while the core
  under consideration is between its reads of a remote core's times and the reading of the counter
  that stamps them; \<open>no_env\<close> is the undisturbed run.  Fences order memory accesses, which a
  sequentially consistent model has in order already.
\<close>

record ps_quiescence_timing =
  qt_time_in :: u64
  qt_time_out :: u64
  qt_last_known_quiescence :: u64

record ps_other_core =
  oc_time_in :: u64
  oc_time_out :: u64
  oc_time_updated :: u64

record ps_smr_percore =
  sp_timing :: ps_quiescence_timing
  sp_timing_others :: "ps_other_core list"

record parsec =
  pa_refcnt :: u32
  pa_timing_info :: "ps_smr_percore list"

definition EQUIESCENCE :: int where "EQUIESCENCE = 200"

type_synonym clock = "nat \<Rightarrow> u64"
type_synonym environment = "nat \<Rightarrow> parsec \<Rightarrow> (parsec \<times> nat) option"

definition no_env :: environment where "no_env t p = Some (p, t)"

definition upd_percore :: "nat \<Rightarrow> (ps_smr_percore \<Rightarrow> ps_smr_percore) \<Rightarrow> parsec \<Rightarrow> parsec option" where
  "upd_percore c f p = do {
     me \<leftarrow> aget (pa_timing_info p) c;
     ti \<leftarrow> aset (pa_timing_info p) c (f me);
     Some (p\<lparr>pa_timing_info := ti\<rparr>) }"

definition get_timing :: "nat \<Rightarrow> parsec \<Rightarrow> ps_quiescence_timing option" where
  "get_timing c p = map_option sp_timing (aget (pa_timing_info p) c)"

definition upd_timing :: "nat \<Rightarrow> (ps_quiescence_timing \<Rightarrow> ps_quiescence_timing) \<Rightarrow> parsec \<Rightarrow> parsec option"
where
  "upd_timing c f = upd_percore c (\<lambda>me. me\<lparr>sp_timing := f (sp_timing me)\<rparr>)"

definition get_other :: "nat \<Rightarrow> nat \<Rightarrow> parsec \<Rightarrow> ps_other_core option" where
  "get_other c d p = do { me \<leftarrow> aget (pa_timing_info p) c; aget (sp_timing_others me) d }"

definition upd_other :: "nat \<Rightarrow> nat \<Rightarrow> (ps_other_core \<Rightarrow> ps_other_core) \<Rightarrow> parsec \<Rightarrow> parsec option" where
  "upd_other c d f p = do {
     oc \<leftarrow> get_other c d p;
     upd_percore c (\<lambda>me. me\<lparr>sp_timing_others := (sp_timing_others me)[d := f oc]\<rparr>) p }"

section \<open>Entering and leaving a parallel section\<close>

definition ps_enter :: "nat \<Rightarrow> u64 \<Rightarrow> parsec \<Rightarrow> parsec option" where
  "ps_enter curr_cpu curr_time = upd_timing curr_cpu (\<lambda>q. q\<lparr>qt_time_in := curr_time\<rparr>)"

definition ps_exit :: "nat \<Rightarrow> parsec \<Rightarrow> parsec option" where
  "ps_exit curr_cpu = upd_timing curr_cpu (\<lambda>q. q\<lparr>qt_time_out := qt_time_in q + 1\<rparr>)"

definition ps_in_lib :: "ps_quiescence_timing \<Rightarrow> bool" where
  "ps_in_lib q \<longleftrightarrow> qt_time_out q \<le> qt_time_in q"

section \<open>Refreshing the view of a remote core\<close>

text \<open>The statements of \<open>__ps_timing_update_remote\<close>, in order.\<close>

definition timing_read_in :: "nat \<Rightarrow> nat \<Rightarrow> parsec \<Rightarrow> parsec option" where
  "timing_read_in cpu remote p = do {
     r \<leftarrow> get_timing remote p;
     upd_other cpu remote (\<lambda>oc. oc\<lparr>oc_time_in := qt_time_in r\<rparr>) p }"

definition timing_read_out :: "nat \<Rightarrow> nat \<Rightarrow> parsec \<Rightarrow> parsec option" where
  "timing_read_out cpu remote p = do {
     r \<leftarrow> get_timing remote p;
     upd_other cpu remote (\<lambda>oc. oc\<lparr>oc_time_out := qt_time_out r\<rparr>) p }"

definition timing_stamp :: "nat \<Rightarrow> nat \<Rightarrow> u64 \<Rightarrow> parsec \<Rightarrow> parsec option" where
  "timing_stamp cpu remote ts = upd_other cpu remote (\<lambda>oc. oc\<lparr>oc_time_updated := ts\<rparr>)"

definition timing_share_qsc :: "nat \<Rightarrow> nat \<Rightarrow> parsec \<Rightarrow> parsec option" where
  "timing_share_qsc cpu remote p = do {
     r \<leftarrow> get_timing remote p;
     me \<leftarrow> get_timing cpu p;
     if qt_last_known_quiescence me < qt_last_known_quiescence r
     then upd_timing cpu
            (\<lambda>q. q\<lparr>qt_last_known_quiescence := qt_last_known_quiescence r\<rparr>) p
     else Some p }"

definition ps_timing_update_remote ::
  "environment \<Rightarrow> clock \<Rightarrow> nat \<Rightarrow> nat \<Rightarrow> parsec \<Rightarrow> nat \<Rightarrow> (parsec \<times> nat) option" where
  "ps_timing_update_remote env clk cpu remote p t = do {
     p \<leftarrow> timing_read_in cpu remote p;
     p \<leftarrow> timing_read_out cpu remote p;
     (p, t) \<leftarrow> env t p;
     p \<leftarrow> timing_stamp cpu remote (clk t) p;
     p \<leftarrow> timing_share_qsc cpu remote p;
     Some (p, Suc t) }"

section \<open>Quiescence\<close>

text \<open>
  The body of the loop of \<open>ps_quiesce\<close> for one remote core, from the label \<open>re_check\<close> on: leave the
  loop (\<open>break\<close>), go on with the next core (with the new minimum), \<open>return -1\<close>, or still trying
  after the given number of rounds.
\<close>

datatype recheck = RBreak | RNext u64 | RFail | RSpin

fun quiesce_recheck :: "nat \<Rightarrow> environment \<Rightarrow> clock \<Rightarrow> bool \<Rightarrow> bool \<Rightarrow> nat \<Rightarrow> nat \<Rightarrow> u64 \<Rightarrow> u64 \<Rightarrow>
    parsec \<Rightarrow> nat \<Rightarrow> (recheck \<times> parsec \<times> nat) option" where
  "quiesce_recheck 0 env clk blocking first_try curr_cpu qsc_cpu time_check min_known_qsc p t
     = Some (RSpin, p, t)"
| "quiesce_recheck (Suc k) env clk blocking first_try curr_cpu qsc_cpu time_check min_known_qsc p t
     = do {
     me \<leftarrow> get_timing curr_cpu p;
     if time_check < qt_last_known_quiescence me then Some (RBreak, p, t)
     else do {
       oc \<leftarrow> get_other curr_cpu qsc_cpu p;
       let tin = oc_time_in oc;
       let tout = oc_time_out oc;
       let upd = oc_time_updated oc;
       if time_check < tin \<or> (time_check < upd \<and> tin < tout) then
         Some (RNext (if tin < tout then (if min_known_qsc > upd then upd else min_known_qsc)
                      else (if min_known_qsc > tin then tin else min_known_qsc)), p, t)
       else if \<not> first_try \<and> \<not> blocking then Some (RFail, p, t)
       else do {
         (p, t) \<leftarrow> ps_timing_update_remote env clk curr_cpu qsc_cpu p t;
         quiesce_recheck k env clk blocking False curr_cpu qsc_cpu time_check min_known_qsc p t } } }"

datatype qloop = QAll u64 | QBreak | QFail | QSpin

fun quiesce_loop :: "nat \<Rightarrow> environment \<Rightarrow> clock \<Rightarrow> bool \<Rightarrow> nat \<Rightarrow> u64 \<Rightarrow> nat list \<Rightarrow> u64 \<Rightarrow>
    parsec \<Rightarrow> nat \<Rightarrow> (qloop \<times> parsec \<times> nat) option" where
  "quiesce_loop k env clk blocking curr_cpu time_check [] min_known_qsc p t
     = Some (QAll min_known_qsc, p, t)"
| "quiesce_loop k env clk blocking curr_cpu time_check (i # is) min_known_qsc p t = do {
     let qsc_cpu = (curr_cpu + i) mod PS_NUMCORES;
     c_assert (qsc_cpu \<noteq> curr_cpu);
     (r, p, t) \<leftarrow> quiesce_recheck k env clk blocking True curr_cpu qsc_cpu time_check min_known_qsc p t;
     (case r of
        RNext mn \<Rightarrow> quiesce_loop k env clk blocking curr_cpu time_check is mn p t
      | RBreak \<Rightarrow> Some (QBreak, p, t)
      | RFail \<Rightarrow> Some (QFail, p, t)
      | RSpin \<Rightarrow> Some (QSpin, p, t)) }"

text \<open>The C result and the value left in \<open>*qsc\<close>, or still inside the call.\<close>

datatype qresult = Returned int u64 | Spinning

text \<open>What follows the loop, from the test \<open>i == PS_NUMCORES\<close> on.\<close>

fun quiesce_finish :: "nat \<Rightarrow> bool \<Rightarrow> u64 \<Rightarrow> qloop \<Rightarrow> parsec \<Rightarrow> (qresult \<times> parsec) option" where
  "quiesce_finish curr_cpu inlib_curr qsc QSpin p = Some (Spinning, p)"
| "quiesce_finish curr_cpu inlib_curr qsc QFail p = Some (Returned (- 1) qsc, p)"
| "quiesce_finish curr_cpu inlib_curr qsc QBreak p = Some (Returned 0 qsc, p)"
| "quiesce_finish curr_cpu inlib_curr qsc (QAll min_known_qsc) p =
     (if PS_NUMCORES > 1 then do {
        timing_local \<leftarrow> get_timing curr_cpu p;
        let mn = (if inlib_curr \<and> min_known_qsc > qt_time_in timing_local
                  then qt_time_in timing_local else min_known_qsc);
        c_assert (mn < - 1);
        if qt_last_known_quiescence timing_local < mn then do {
          p \<leftarrow> upd_timing curr_cpu (\<lambda>q. q\<lparr>qt_last_known_quiescence := mn\<rparr>) p;
          Some (Returned 0 mn, p) }
        else Some (Returned 0 qsc, p) }
      else Some (Returned 0 qsc, p))"

definition ps_quiesce :: "nat \<Rightarrow> environment \<Rightarrow> clock \<Rightarrow> bool \<Rightarrow> nat \<Rightarrow> u64 \<Rightarrow> parsec \<Rightarrow> nat \<Rightarrow>
    (qresult \<times> parsec \<times> nat) option" where
  "ps_quiesce k env clk blocking curr_cpu tsc p t = do {
     timing_local \<leftarrow> get_timing curr_cpu p;
     let inlib_curr = ps_in_lib timing_local;
     let qsc = qt_last_known_quiescence timing_local;
     if tsc > qt_time_in timing_local \<and> inlib_curr
     then Some (Returned (- EQUIESCENCE) qsc, p, t)
     else do {
       (r, p, t) \<leftarrow> quiesce_loop k env clk blocking curr_cpu tsc [1..<PS_NUMCORES] (- 1) p t;
       (res, p) \<leftarrow> quiesce_finish curr_cpu inlib_curr qsc r p;
       Some (res, p, t) } }"

definition ps_quiesce_wait :: "nat \<Rightarrow> environment \<Rightarrow> clock \<Rightarrow> nat \<Rightarrow> u64 \<Rightarrow> parsec \<Rightarrow> nat \<Rightarrow>
    (qresult \<times> parsec \<times> nat) option" where
  "ps_quiesce_wait k env clk = ps_quiesce k env clk True"

text \<open>Two rounds per core are all the non-blocking variant can use (proved below).\<close>

definition ps_try_quiesce :: "environment \<Rightarrow> clock \<Rightarrow> nat \<Rightarrow> u64 \<Rightarrow> parsec \<Rightarrow> nat \<Rightarrow>
    (qresult \<times> parsec \<times> nat) option" where
  "ps_try_quiesce env clk = ps_quiesce 2 env clk False"

section \<open>The life of a parsec\<close>

definition ps_init :: "u64 \<Rightarrow> parsec" where
  "ps_init now =
     \<lparr>pa_refcnt = 0,
      pa_timing_info = replicate PS_NUMCORES
        \<lparr>sp_timing = \<lparr>qt_time_in = now, qt_time_out = now + 1, qt_last_known_quiescence = now\<rparr>,
         sp_timing_others = replicate PS_NUMCORES
           \<lparr>oc_time_in = now, oc_time_out = now + 1, oc_time_updated = now\<rparr>\<rparr>\<rparr>"

end
