(* ===== verification/Ertrie.thy ===== *)
theory Ertrie
  imports Arch
begin

text \<open>
  The extensible radix trie of \<open>ps_ertrie.h\<close>.  The C code is generic: every access to an entry goes
  through functions that \<open>ERT_CREATE\<close> is given and the compiler inlines.  Here these functions are the
  fields of \<open>ert_fns\<close>, over any type \<open>'w\<close> of memory, and the numeric parameters are the record
  \<open>ert_consts\<close>.  The default functions work on a heap of entries, \<open>iheap\<close>.

  A lookup starts from a local variable \<open>r\<close> that points to the root.  A pointer to an entry is
  therefore either \<open>Local v\<close>, the address of a local entry whose \<open>next\<close> is \<open>v\<close>, or \<open>Cell a\<close>, an
  entry in memory.

  \<open>1<<o\<close> is computed in \<open>int\<close>, so it is undefined from \<open>o = 31\<close> on, and shifts of an \<open>unsigned long\<close> are
  undefined from 64 on; undefined is \<open>None\<close>.
\<close>

section \<open>Parameters\<close>

datatype ert_ptr = Local addr | Cell addr

record ert_consts =
  ec_depth :: u32
  ec_order :: u32
  ec_intern_sz :: u32
  ec_last_order :: u32
  ec_last_sz :: u32

record 'w ert_fns =
  ef_initval :: addr
  ef_init :: "addr \<Rightarrow> bool \<Rightarrow> 'w \<Rightarrow> 'w option"
  ef_get :: "ert_ptr \<Rightarrow> addr \<Rightarrow> bool \<Rightarrow> 'w \<Rightarrow> addr option"
  ef_isnull :: "ert_ptr \<Rightarrow> addr \<Rightarrow> bool \<Rightarrow> 'w \<Rightarrow> bool option"
  ef_set :: "ert_ptr \<Rightarrow> addr \<Rightarrow> addr \<Rightarrow> bool \<Rightarrow> 'w \<Rightarrow> (int \<times> ert_ptr \<times> 'w) option"
  ef_alloc :: "addr \<Rightarrow> u32 \<Rightarrow> bool \<Rightarrow> 'w \<Rightarrow> (addr \<times> 'w) option"
  ef_setleaf :: "ert_ptr \<Rightarrow> addr \<Rightarrow> 'w \<Rightarrow> (int \<times> 'w) option"
  ef_getleaf :: "ert_ptr \<Rightarrow> addr \<Rightarrow> 'w \<Rightarrow> addr option"
  ef_resolve :: "ert_ptr \<Rightarrow> addr \<Rightarrow> bool \<Rightarrow> u32 \<Rightarrow> u32 \<Rightarrow> 'w \<Rightarrow> bool option"

definition EAGAIN :: int where "EAGAIN = 11"

section \<open>Default functions\<close>

type_synonym iheap = "addr heap"

text \<open>The \<open>next\<close> field of the entry a pointer points to.\<close>

fun entry_next :: "ert_ptr \<Rightarrow> iheap \<Rightarrow> addr option" where
  "entry_next (Local v) h = Some v"
| "entry_next (Cell a) h = h a"

text \<open>Storing through a pointer: a local entry changes its contents, a cell must be there.\<close>

fun set_next :: "ert_ptr \<Rightarrow> addr \<Rightarrow> iheap \<Rightarrow> (ert_ptr \<times> iheap) option" where
  "set_next (Local _) v h = Some (Local v, h)"
| "set_next (Cell a) v h = (case h a of None \<Rightarrow> None | Some _ \<Rightarrow> Some (Cell a, h(a \<mapsto> v)))"

definition ert_defget :: "ert_ptr \<Rightarrow> addr \<Rightarrow> bool \<Rightarrow> iheap \<Rightarrow> addr option" where
  "ert_defget a accum leaf h = entry_next a h"

definition ert_defgetleaf :: "ert_ptr \<Rightarrow> addr \<Rightarrow> iheap \<Rightarrow> addr option" where
  "ert_defgetleaf a accum h = entry_next a h"

definition ert_defisnull :: "ert_ptr \<Rightarrow> addr \<Rightarrow> bool \<Rightarrow> iheap \<Rightarrow> bool option" where
  "ert_defisnull a accum leaf h = map_option (\<lambda>n. n = null) (entry_next a h)"

definition ert_defresolve :: "ert_ptr \<Rightarrow> addr \<Rightarrow> bool \<Rightarrow> u32 \<Rightarrow> u32 \<Rightarrow> iheap \<Rightarrow> bool option" where
  "ert_defresolve a accum leaf order sz h = Some True"

definition ert_defset :: "ert_ptr \<Rightarrow> addr \<Rightarrow> addr \<Rightarrow> bool \<Rightarrow> iheap \<Rightarrow> (int \<times> ert_ptr \<times> iheap) option" where
  "ert_defset a v accum leaf h = do { (a, h) \<leftarrow> set_next a v h; Some (0, a, h) }"

definition ert_defsetleaf :: "ert_ptr \<Rightarrow> addr \<Rightarrow> iheap \<Rightarrow> (int \<times> iheap) option" where
  "ert_defsetleaf a data h = do { (a, h) \<leftarrow> set_next a data h; Some (0, h) }"

definition ert_definit :: "addr \<Rightarrow> bool \<Rightarrow> iheap \<Rightarrow> iheap option" where
  "ert_definit a leaf h = do { (a, h) \<leftarrow> set_next (Cell a) null h; Some h }"

section \<open>Index arithmetic\<close>

definition int_shl1 :: "u32 \<Rightarrow> u32 option" where
  "int_shl1 k = (if unat k < 31 then Some (push_bit (unat k) 1) else None)"

definition ulong_shl1 :: "u64 \<Rightarrow> u64 option" where
  "ulong_shl1 k = (if unat k < 64 then Some (push_bit (unat k) 1) else None)"

definition ulong_shr :: "u64 \<Rightarrow> u32 \<Rightarrow> u64 option" where
  "ulong_shr v k = (if unat k < 64 then Some (drop_bit (unat k) v) else None)"

definition ERT_M :: "u64 \<Rightarrow> u32 \<Rightarrow> u64 option" where
  "ERT_M i k = do { b \<leftarrow> int_shl1 k; Some (i AND ucast (b - 1)) }"

definition ert_maxid :: "ert_consts \<Rightarrow> u64 option" where
  "ert_maxid c = (
     let off = ucast (ec_order c * (ec_depth c - 1) + ec_last_order c) :: u64;
         maxoff = 64
     in if off > maxoff then ulong_shl1 maxoff else ulong_shl1 off)"

section \<open>Creating a trie\<close>

text \<open>\<open>sz * i\<close> is an \<open>int\<close>, added to a pointer with its sign.\<close>

fun ert_init_from :: "(addr \<Rightarrow> bool \<Rightarrow> 'w \<Rightarrow> 'w option) \<Rightarrow> nat list \<Rightarrow> u32 \<Rightarrow> addr \<Rightarrow> bool \<Rightarrow> 'w \<Rightarrow> 'w option" where
  "ert_init_from initfn [] sz vi isleaf w = Some w"
| "ert_init_from initfn (i # is) sz vi isleaf w = do {
     let t = vi + scast (sz * of_nat i);
     w \<leftarrow> initfn t isleaf w;
     ert_init_from initfn is sz vi isleaf w }"

definition ert_init :: "'w ert_fns \<Rightarrow> ert_consts \<Rightarrow> addr \<Rightarrow> bool \<Rightarrow> 'w \<Rightarrow> 'w option" where
  "ert_init f c vi isleaf w = do {
     c_assert (vi \<noteq> null);
     base \<leftarrow> int_shl1 (if isleaf then ec_last_order c else ec_order c);
     let sz = (if isleaf then ec_last_sz c else ec_intern_sz c);
     ert_init_from (ef_init f) [0..<unat base] sz vi isleaf w }"

text \<open>
  \<open>accum\<close> stands for the address of the local variable of that name.  The entry \<open>e\<close> is uninitialised
  until \<open>setfn\<close> stores to it.
\<close>

definition ert_alloc :: "'w ert_fns \<Rightarrow> ert_consts \<Rightarrow> addr \<Rightarrow> addr \<Rightarrow> 'w \<Rightarrow> (addr \<times> 'w) option" where
  "ert_alloc f c memctxt accum w = do {
     c_assert (ec_order c * (ec_depth c - 1) + ec_last_order c < 64);
     c_assert (ec_depth c \<ge> 1);
     (v, w) \<leftarrow> (if ec_depth c > 1
       then do { b \<leftarrow> int_shl1 (ec_order c); ef_alloc f memctxt (b * ec_intern_sz c) False w }
       else do { b \<leftarrow> int_shl1 (ec_last_order c); ef_alloc f memctxt (b * ec_last_sz c) True w });
     if v = null then Some (null, w)
     else do {
       w \<leftarrow> ert_init f c v (ec_depth c = 1) w;
       (r, e, w) \<leftarrow> ef_set f (Local null) v accum (ec_depth c = 1) w;
       case e of Local n \<Rightarrow> Some (n, w) | Cell _ \<Rightarrow> None } }"

section \<open>Walking\<close>

definition ert_walk :: "'w ert_fns \<Rightarrow> ert_consts \<Rightarrow> ert_ptr \<Rightarrow> u64 \<Rightarrow> addr \<Rightarrow> u32 \<Rightarrow> 'w \<Rightarrow> ert_ptr option" where
  "ert_walk f c vi i accum lvl w = do {
     vi \<leftarrow> ef_get f vi accum False w;
     last_off \<leftarrow> (if lvl - 1 = 0
       then do { m \<leftarrow> ERT_M i (ec_last_order c); Some (ucast (m * ucast (ec_last_sz c)) :: u32) }
       else do {
         j \<leftarrow> ulong_shr i (ec_order c * (lvl - 2) + ec_last_order c);
         m \<leftarrow> ERT_M j (ec_order c);
         Some (ucast (m * ucast (ec_intern_sz c))) });
     Some (Cell (vi + ucast last_off)) }"

text \<open>The loop of the lookup; \<open>None\<close> inside when it returns \<open>NULL\<close>.\<close>

fun ert_lookup_from :: "'w ert_fns \<Rightarrow> ert_consts \<Rightarrow> nat list \<Rightarrow> ert_ptr \<Rightarrow> u64 \<Rightarrow> addr \<Rightarrow> 'w \<Rightarrow> ert_ptr option option" where
  "ert_lookup_from f c [] n i accum w = Some (Some n)"
| "ert_lookup_from f c (l # ls) n i accum w = do {
     z \<leftarrow> ef_isnull f n accum False w;
     if z then Some None
     else do {
       n \<leftarrow> ert_walk f c n i accum (ec_depth c - of_nat l) w;
       ert_lookup_from f c ls n i accum w } }"

definition ert_lookup :: "'w ert_fns \<Rightarrow> ert_consts \<Rightarrow> addr \<Rightarrow> u64 \<Rightarrow> u32 \<Rightarrow> u32 \<Rightarrow> addr \<Rightarrow> 'w \<Rightarrow> ert_ptr option" where
  "ert_lookup f c v i dstart dlimit accum w = do {
     c_assert (v \<noteq> null);
     mx \<leftarrow> ert_maxid c;
     c_assert (i < mx);
     c_assert (dlimit \<le> ec_depth c + 1);
     c_assert (dstart \<le> dlimit);
     let limit = (if dlimit < ec_depth c then dlimit else ec_depth c);
     r \<leftarrow> ert_lookup_from f c [unat dstart..<unat limit] (Local v) i accum w;
     let k = max dstart limit;
     case r of
       None \<Rightarrow> Some (Cell null)
     | Some n \<Rightarrow> do {
         a \<leftarrow> (if k = ec_depth c then ef_resolve f n accum True (ec_last_order c) (ec_last_sz c) w else Some True);
         if \<not> a then Some (Cell null)
         else do {
           b \<leftarrow> (if k < ec_depth c then ef_resolve f n accum False (ec_order c) (ec_intern_sz c) w else Some True);
           if \<not> b then Some (Cell null)
           else if dlimit = ec_depth c + 1 then map_option Cell (ef_getleaf f n accum w)
           else Some n } } }"

section \<open>Expanding\<close>

text \<open>The loop; \<open>None\<close> inside when it returns \<open>-1\<close>.\<close>

fun ert_expand_from :: "'w ert_fns \<Rightarrow> ert_consts \<Rightarrow> nat list \<Rightarrow> ert_ptr \<Rightarrow> u64 \<Rightarrow> addr \<Rightarrow> addr \<Rightarrow> 'w \<Rightarrow>
    (ert_ptr option \<times> 'w) option" where
  "ert_expand_from f c [] n i accum memctxt w = Some (Some n, w)"
| "ert_expand_from f c (l # ls) n i accum memctxt w = do {
     n \<leftarrow> ert_walk f c n i accum (ec_depth c - of_nat l) w;
     z \<leftarrow> ef_isnull f n accum False w;
     if \<not> z then ert_expand_from f c ls n i accum memctxt w
     else do {
       (new, w) \<leftarrow> (if of_nat l + 2 < ec_depth c
         then do { b \<leftarrow> int_shl1 (ec_order c); ef_alloc f memctxt (b * ec_intern_sz c) False w }
         else do { b \<leftarrow> int_shl1 (ec_last_order c); ef_alloc f memctxt (b * ec_last_sz c) True w });
       if new = null then Some (None, w)
       else do {
         w \<leftarrow> ert_init f c new (of_nat l + 2 \<ge> ec_depth c) w;
         (r, n, w) \<leftarrow> ef_set f n new accum False w;
         ert_expand_from f c ls n i accum memctxt w } } }"

definition ert_expand :: "'w ert_fns \<Rightarrow> ert_consts \<Rightarrow> addr \<Rightarrow> u64 \<Rightarrow> u32 \<Rightarrow> u32 \<Rightarrow> addr \<Rightarrow> addr \<Rightarrow> addr \<Rightarrow> 'w \<Rightarrow>
    (int \<times> 'w) option" where
  "ert_expand f c v i dstart dlimit accum memctxt data w = do {
     c_assert (v \<noteq> null);
     mx \<leftarrow> ert_maxid c;
     c_assert (i < mx);
     c_assert (dlimit \<le> ec_depth c + 1);
     c_assert (dstart \<le> dlimit);
     let limit = (if dlimit < ec_depth c then dlimit else ec_depth c);
     (r, w) \<leftarrow> ert_expand_from f c [unat dstart..<unat (limit - 1)] (Local v) i accum memctxt w;
     case r of
       None \<Rightarrow> Some (- 1, w)
     | Some n \<Rightarrow>
         if dlimit = ec_depth c + 1 then do {
           n \<leftarrow> ert_walk f c n i accum (ec_depth c - max dstart (limit - 1)) w;
           z \<leftarrow> ef_isnull f n accum False w;
           if data \<noteq> ef_initval f \<and> \<not> z then Some (1, w)
           else do {
             (e, w) \<leftarrow> ef_setleaf f n data w;
             Some (if e \<noteq> 0 then - EAGAIN else 0, w) } }
         else Some (0, w) }"

section \<open>The functions of one trie type\<close>

text \<open>\<open>ERT_CREATE\<close>: \<open>accum\<close> of the plain lookup is the address of a local variable.\<close>

definition ert_lkup :: "'w ert_fns \<Rightarrow> ert_consts \<Rightarrow> addr \<Rightarrow> addr \<Rightarrow> u64 \<Rightarrow> 'w \<Rightarrow> ert_ptr option" where
  "ert_lkup f c accum v i w = ert_lookup f c v i 0 (ec_depth c) accum w"

definition ert_lkupa :: "'w ert_fns \<Rightarrow> ert_consts \<Rightarrow> addr \<Rightarrow> u64 \<Rightarrow> addr \<Rightarrow> 'w \<Rightarrow> ert_ptr option" where
  "ert_lkupa f c v i accum w = ert_lookup f c v i 0 (ec_depth c) accum w"

definition ert_lkupan :: "'w ert_fns \<Rightarrow> ert_consts \<Rightarrow> addr \<Rightarrow> u64 \<Rightarrow> u32 \<Rightarrow> addr \<Rightarrow> 'w \<Rightarrow> ert_ptr option" where
  "ert_lkupan f c v i dlimit accum w = ert_lookup f c v i 0 dlimit accum w"

definition ert_lkupani :: "'w ert_fns \<Rightarrow> ert_consts \<Rightarrow> addr \<Rightarrow> u64 \<Rightarrow> u32 \<Rightarrow> u32 \<Rightarrow> addr \<Rightarrow> 'w \<Rightarrow> ert_ptr option" where
  "ert_lkupani f c v i dstart dlimit accum w = ert_lookup f c v i dstart dlimit accum w"

definition ert_expandni :: "'w ert_fns \<Rightarrow> ert_consts \<Rightarrow> addr \<Rightarrow> u64 \<Rightarrow> u32 \<Rightarrow> u32 \<Rightarrow> addr \<Rightarrow> addr \<Rightarrow> addr \<Rightarrow> 'w \<Rightarrow>
    (int \<times> 'w) option" where
  "ert_expandni f c v i dstart dlimit accum memctxt data w = ert_expand f c v i dstart dlimit accum memctxt data w"

definition ert_expandn :: "'w ert_fns \<Rightarrow> ert_consts \<Rightarrow> addr \<Rightarrow> u64 \<Rightarrow> u32 \<Rightarrow> addr \<Rightarrow> addr \<Rightarrow> addr \<Rightarrow> 'w \<Rightarrow>
    (int \<times> 'w) option" where
  "ert_expandn f c v i dlimit accum memctxt data w = ert_expand f c v i 0 dlimit accum memctxt data w"

definition ert_expand_all :: "'w ert_fns \<Rightarrow> ert_consts \<Rightarrow> addr \<Rightarrow> u64 \<Rightarrow> addr \<Rightarrow> addr \<Rightarrow> addr \<Rightarrow> 'w \<Rightarrow>
    (int \<times> 'w) option" where
  "ert_expand_all f c v i accum memctxt data w = ert_expand f c v i 0 (ec_depth c) accum memctxt data w"

definition ert_maxdepth :: "ert_consts \<Rightarrow> u32" where "ert_maxdepth c = ec_depth c"

text \<open>\<open>ERT_CREATE_DEF\<close>: everything but the sizes and the allocation is the default.\<close>

definition ert_def_fns :: "(addr \<Rightarrow> u32 \<Rightarrow> bool \<Rightarrow> iheap \<Rightarrow> (addr \<times> iheap) option) \<Rightarrow> iheap ert_fns" where
  "ert_def_fns allocfn = \<lparr>ef_initval = null, ef_init = ert_definit, ef_get = ert_defget, ef_isnull = ert_defisnull,
     ef_set = ert_defset, ef_alloc = allocfn, ef_setleaf = ert_defsetleaf, ef_getleaf = ert_defgetleaf,
     ef_resolve = ert_defresolve\<rparr>"

definition ert_def_consts :: "u32 \<Rightarrow> u32 \<Rightarrow> u32 \<Rightarrow> u32 \<Rightarrow> ert_consts" where
  "ert_def_consts depth order last_order last_sz =
     \<lparr>ec_depth = depth, ec_order = order, ec_intern_sz = 8, ec_last_order = last_order, ec_last_sz = last_sz\<rparr>"

end
