(* ===== verification/Memory.thy ===== *)
theory Memory
  imports Global Smr Ertrie
begin

text \<open>
  The memory the allocator works on, and the structures of \<open>ps_global.h\<close> and \<open>ps_slab.h\<close> in it.

  The world keeps one partial heap per C type: headers, slab descriptors, list fields, allocator
  structures, trie entries.  A cell that is absent cannot be accessed, so using freed memory is a fault.  Blocks
  come from the platform allocator: which address it answers with is not the program's decision and
  is given in advance as a list (\<open>w_answers\<close>, 0 for a failure); the block then consists of zero
  cells.  The list field of a slab descriptor lies at \<open>SLAB_LIST\<close> behind the descriptor, in the list
  heap, so that the operations of \<open>ps_list.h\<close> apply to it.

  Core and locality numbers index arrays and are natural numbers here.
\<close>

section \<open>Structures\<close>

record ps_slab =
  sl_memory :: addr
  sl_start :: u64
  sl_end :: u64
  sl_memsz :: u64
  sl_coreid :: nat
  sl_freelist :: addr
  sl_nfree :: u64

text \<open>The size of a descriptor and the offset of its list field: one cache line of read-only data,
  then the pointer, the list field and the counter.\<close>

definition sizeof_ps_slab :: u64 where "sizeof_ps_slab = PS_CACHE_LINE + 8 + 16 + 8"
definition SLAB_LIST :: u64 where "SLAB_LIST = PS_CACHE_LINE + 8"

record ps_slab_info =
  si_fl :: addr
  si_salloccnt :: u64
  si_remote_token :: u64
  si_nslabs :: u64

record ps_smr_info =
  sm_ps :: addr
  sm_qsc_list :: ps_qsc_list
  sm_qmemcnt :: u64
  sm_qmemtarget :: u64

record ps_mem_percore =
  pc_slab_info :: ps_slab_info
  pc_smr_info :: ps_smr_info
  pc_slab_remote :: "addr list list"

text \<open>
  The function pointers of \<open>ps_ns_info\<close> can only point to functions that \<open>ERT_CREATE\<close> made for one set of
  constants; the constants stand for them, and no constants for a null pointer.
\<close>

record ps_ns_info =
  ns_ert :: addr
  ns_ert_depth :: u64
  ns_lkupfn :: "ert_consts option"
  ns_expandfn :: "ert_consts option"
  ns_desc_range :: u64
  ns_desc_max :: u64
  ns_lock :: u64
  ns_fl :: addr
  ns_frontier :: u64

record ps_mem =
  me_ns_info :: ps_ns_info
  me_percore :: "ps_mem_percore list"

text \<open>A free page, and the head of the list of free pages, of \<open>ps_pgalloc.h\<close>.\<close>

record ps_freelist =
  fr_pgsize :: u64
  fr_next :: addr

record world =
  w_answers :: "addr list"
  w_blocks :: "u64 heap"
  w_mh :: mheap
  w_sl :: "ps_slab heap"
  w_ls :: lheap
  w_mem :: "ps_mem heap"
  w_ps :: "parsec heap"
  w_ert :: iheap
  w_pg :: "ps_freelist heap"

section \<open>Accessing the world\<close>

definition on_mh :: "(mheap \<Rightarrow> mheap option) \<Rightarrow> world \<Rightarrow> world option" where
  "on_mh f w = map_option (\<lambda>h. w\<lparr>w_mh := h\<rparr>) (f (w_mh w))"

definition on_ls :: "(lheap \<Rightarrow> lheap option) \<Rightarrow> world \<Rightarrow> world option" where
  "on_ls f w = map_option (\<lambda>h. w\<lparr>w_ls := h\<rparr>) (f (w_ls w))"

definition upd_slab :: "addr \<Rightarrow> (ps_slab \<Rightarrow> ps_slab) \<Rightarrow> world \<Rightarrow> world option" where
  "upd_slab s f w = map_option (\<lambda>sl. w\<lparr>w_sl := (w_sl w)(s \<mapsto> f sl)\<rparr>) (w_sl w s)"

definition get_pc :: "addr \<Rightarrow> nat \<Rightarrow> world \<Rightarrow> ps_mem_percore option" where
  "get_pc m c w = do { me \<leftarrow> w_mem w m; aget (me_percore me) c }"

definition upd_pc :: "addr \<Rightarrow> nat \<Rightarrow> (ps_mem_percore \<Rightarrow> ps_mem_percore) \<Rightarrow> world \<Rightarrow> world option" where
  "upd_pc m c f w = do {
     me \<leftarrow> w_mem w m;
     pc \<leftarrow> aget (me_percore me) c;
     pcs \<leftarrow> aset (me_percore me) c (f pc);
     Some (w\<lparr>w_mem := (w_mem w)(m \<mapsto> me\<lparr>me_percore := pcs\<rparr>)\<rparr>) }"

definition get_si :: "addr \<Rightarrow> nat \<Rightarrow> world \<Rightarrow> ps_slab_info option" where
  "get_si m c w = map_option pc_slab_info (get_pc m c w)"

definition upd_si :: "addr \<Rightarrow> nat \<Rightarrow> (ps_slab_info \<Rightarrow> ps_slab_info) \<Rightarrow> world \<Rightarrow> world option" where
  "upd_si m c f = upd_pc m c (\<lambda>pc. pc\<lparr>pc_slab_info := f (pc_slab_info pc)\<rparr>)"

definition get_sm :: "addr \<Rightarrow> nat \<Rightarrow> world \<Rightarrow> ps_smr_info option" where
  "get_sm m c w = map_option pc_smr_info (get_pc m c w)"

definition upd_sm :: "addr \<Rightarrow> nat \<Rightarrow> (ps_smr_info \<Rightarrow> ps_smr_info) \<Rightarrow> world \<Rightarrow> world option" where
  "upd_sm m c f = upd_pc m c (\<lambda>pc. pc\<lparr>pc_smr_info := f (pc_smr_info pc)\<rparr>)"

definition get_remote :: "addr \<Rightarrow> nat \<Rightarrow> nat \<Rightarrow> nat \<Rightarrow> world \<Rightarrow> addr option" where
  "get_remote m c l k w = do {
     pc \<leftarrow> get_pc m c w;
     r \<leftarrow> aget (pc_slab_remote pc) l;
     aget r k }"

definition set_remote :: "addr \<Rightarrow> nat \<Rightarrow> nat \<Rightarrow> nat \<Rightarrow> addr \<Rightarrow> world \<Rightarrow> world option" where
  "set_remote m c l k v w = do {
     pc \<leftarrow> get_pc m c w;
     r \<leftarrow> aget (pc_slab_remote pc) l;
     r \<leftarrow> aset r k v;
     rs \<leftarrow> aset (pc_slab_remote pc) l r;
     upd_pc m c (\<lambda>pc. pc\<lparr>pc_slab_remote := rs\<rparr>) w }"

text \<open>The namespace part.\<close>

definition get_ns :: "addr \<Rightarrow> world \<Rightarrow> ps_ns_info option" where
  "get_ns m w = map_option me_ns_info (w_mem w m)"

definition upd_ns :: "addr \<Rightarrow> (ps_ns_info \<Rightarrow> ps_ns_info) \<Rightarrow> world \<Rightarrow> world option" where
  "upd_ns m f w = map_option (\<lambda>me. w\<lparr>w_mem := (w_mem w)(m \<mapsto> me\<lparr>me_ns_info := f (me_ns_info me)\<rparr>)\<rparr>) (w_mem w m)"

section \<open>The platform allocator\<close>

text \<open>
  \<open>aligned_alloc\<close> and \<open>free\<close> of the C library, through the answers given.  A block of \<open>sz\<close> bytes at
  \<open>a\<close> makes the addresses in it accessible, all zero; freeing makes them inaccessible.
\<close>

definition in_block :: "addr \<Rightarrow> u64 \<Rightarrow> addr \<Rightarrow> bool" where
  "in_block a sz x \<longleftrightarrow> unat a \<le> unat x \<and> unat x < unat a + unat sz"

definition fill :: "addr \<Rightarrow> u64 \<Rightarrow> 'v option \<Rightarrow> 'v heap \<Rightarrow> 'v heap" where
  "fill a sz v h = (\<lambda>x. if in_block a sz x then v else h x)"

definition zero_mheader :: ps_mheader where
  "zero_mheader = \<lparr>mh_tsc_free = 0, mh_slab = null, mh_next = null\<rparr>"

definition zero_slab :: ps_slab where
  "zero_slab = \<lparr>sl_memory = null, sl_start = 0, sl_end = 0, sl_memsz = 0, sl_coreid = 0,
     sl_freelist = null, sl_nfree = 0\<rparr>"

definition zero_list :: ps_list where "zero_list = \<lparr>ll_n = null, ll_p = null\<rparr>"

definition zero_page :: ps_freelist where "zero_page = \<lparr>fr_pgsize = 0, fr_next = null\<rparr>"

definition zero_block :: "addr \<Rightarrow> u64 \<Rightarrow> world \<Rightarrow> world" where
  "zero_block a sz w = w\<lparr>w_blocks := (w_blocks w)(a \<mapsto> sz),
     w_mh := fill a sz (Some zero_mheader) (w_mh w),
     w_sl := fill a sz (Some zero_slab) (w_sl w),
     w_ls := fill a sz (Some zero_list) (w_ls w),
     w_ert := fill a sz (Some null) (w_ert w),
     w_pg := fill a sz (Some zero_page) (w_pg w)\<rparr>"

definition drop_block :: "addr \<Rightarrow> u64 \<Rightarrow> world \<Rightarrow> world" where
  "drop_block a sz w = w\<lparr>w_blocks := (w_blocks w)(a := None),
     w_mh := fill a sz None (w_mh w),
     w_sl := fill a sz None (w_sl w),
     w_ls := fill a sz None (w_ls w),
     w_ert := fill a sz None (w_ert w),
     w_pg := fill a sz None (w_pg w)\<rparr>"

definition plat_answer :: "world \<Rightarrow> (addr \<times> world) option" where
  "plat_answer w = (case w_answers w of [] \<Rightarrow> None | a # as \<Rightarrow> Some (a, w\<lparr>w_answers := as\<rparr>))"

text \<open>The Linux backend insists on an answer; the Composite one has no memory to give.\<close>

definition ps_plat_alloc_linux :: "u64 \<Rightarrow> world \<Rightarrow> (addr \<times> world) option" where
  "ps_plat_alloc_linux sz w = do {
     (m, w) \<leftarrow> plat_answer w;
     c_assert (m \<noteq> null);
     Some (m, zero_block m sz w) }"

definition ps_plat_alloc_cos :: "u64 \<Rightarrow> world \<Rightarrow> (addr \<times> world) option" where
  "ps_plat_alloc_cos sz w = Some (null, w)"

definition ps_plat_free_linux :: "addr \<Rightarrow> world \<Rightarrow> world option" where
  "ps_plat_free_linux a w =
     (if a = null then Some w
      else case w_blocks w a of None \<Rightarrow> None | Some sz \<Rightarrow> Some (drop_block a sz w))"

definition ps_plat_free_cos :: "addr \<Rightarrow> world \<Rightarrow> world option" where
  "ps_plat_free_cos a w = Some w"

end
