(* ===== verification/Slab.thy ===== *)
theory Slab
  imports Memory Lists
begin

text \<open>
  The slab allocator of \<open>ps_slab.h\<close> and \<open>ps_slab.c\<close>, statement by statement.  A core allocates from the
  slabs on its ring of partially free slabs; a slab whose objects are all free goes back to the
  backend; an object freed on another core is pushed on a remote list of the slab's home core, which
  empties one locality's remote lists every \<open>PS_REMOTE_BATCH\<close> allocations.

  \<open>PS_SLAB_PARAMS\<close> is the record \<open>slab_params\<close>; the backend functions in it are HOL functions.
  \<open>cpu\<close> is what \<open>ps_coreid\<close> and \<open>ps_tsc_locality\<close> answer: the core and locality the call runs on.
\<close>

type_synonym cpu = "nat \<times> nat"
type_synonym ps_alloc_fn = "addr \<Rightarrow> u64 \<Rightarrow> nat \<Rightarrow> world \<Rightarrow> (addr \<times> world) option"
type_synonym ps_free_fn = "addr \<Rightarrow> addr \<Rightarrow> u64 \<Rightarrow> nat \<Rightarrow> world \<Rightarrow> world option"

record slab_params =
  sp_coreid :: nat
  sp_obj_sz :: u64
  sp_allocsz :: u64
  sp_headoff :: u64
  sp_afn :: ps_alloc_fn
  sp_ffn :: ps_free_fn

section \<open>Sizes\<close>

definition ps_slab_objmemsz :: "u64 \<Rightarrow> u64" where
  "ps_slab_objmemsz obj_sz = PS_RNDUP (obj_sz + sizeof_ps_mheader) PS_WORD"

definition ps_slab_max_nobjs :: "u64 \<Rightarrow> u64 \<Rightarrow> u64 \<Rightarrow> u64" where
  "ps_slab_max_nobjs obj_sz allocsz headoff = (allocsz - headoff) div ps_slab_objmemsz obj_sz"

text \<open>The offset of an object in its slab; \<open>memory\<close> is that of the slab.\<close>

definition ps_slab_objsoff :: "addr \<Rightarrow> addr \<Rightarrow> u64 \<Rightarrow> u64 \<Rightarrow> u64" where
  "ps_slab_objsoff memory h obj_sz headoff = (h - (memory + headoff)) div ps_slab_objmemsz obj_sz"

section \<open>The ring of partially free slabs\<close>

text \<open>Both take the ring's pointer (\<open>fl->list\<close>) and give its new value.\<close>

definition slab_freelist_rem :: "addr \<Rightarrow> addr \<Rightarrow> lheap \<Rightarrow> (addr \<times> lheap) option" where
  "slab_freelist_rem fl s ls = do {
     c_assert (s \<noteq> null);
     fl' \<leftarrow> (if fl = s then do {
               e \<leftarrow> ps_list_singleton s SLAB_LIST ls;
               if e then Some null else ps_list_next s SLAB_LIST ls }
            else Some fl);
     ls' \<leftarrow> ps_list_rem s SLAB_LIST ls;
     Some (fl', ls') }"

definition slab_freelist_add :: "addr \<Rightarrow> addr \<Rightarrow> lheap \<Rightarrow> (addr \<times> lheap) option" where
  "slab_freelist_add fl s ls = do {
     c_assert (s \<noteq> null);
     e \<leftarrow> ps_list_singleton s SLAB_LIST ls;
     c_assert e;
     c_assert (s \<noteq> fl);
     ls' \<leftarrow> (if fl \<noteq> null then ps_list_add fl s SLAB_LIST ls else Some ls);
     Some (s, ls') }"

text \<open>On the ring of core \<open>c\<close> of the allocator \<open>m\<close>.\<close>

definition on_ring :: "(addr \<Rightarrow> lheap \<Rightarrow> (addr \<times> lheap) option) \<Rightarrow> addr \<Rightarrow> nat \<Rightarrow> world \<Rightarrow> world option" where
  "on_ring f m c w = do {
     si \<leftarrow> get_si m c w;
     (fl, ls) \<leftarrow> f (si_fl si) (w_ls w);
     upd_si m c (\<lambda>si. si\<lparr>si_fl := fl\<rparr>) (w\<lparr>w_ls := ls\<rparr>) }"

section \<open>Default backend\<close>

definition ps_slab_defalloc :: "(u64 \<Rightarrow> world \<Rightarrow> (addr \<times> world) option) \<Rightarrow> ps_alloc_fn" where
  "ps_slab_defalloc plat_alloc m sz coreid w = do {
     (s, w) \<leftarrow> plat_alloc sz w;
     if s = null then Some (null, w)
     else do {
       w \<leftarrow> upd_slab s (\<lambda>sl. sl\<lparr>sl_memory := s\<rparr>) w;
       Some (s, w) } }"

definition ps_slab_deffree :: "(addr \<Rightarrow> world \<Rightarrow> world option) \<Rightarrow> ps_free_fn" where
  "ps_slab_deffree plat_free m s sz coreid w = plat_free s w"

section \<open>Setting up a slab\<close>

text \<open>The loop that strings the objects together: \<open>n\<close> objects to go, the next at \<open>alloc\<close>.\<close>

fun slab_init_loop :: "nat \<Rightarrow> u64 \<Rightarrow> addr \<Rightarrow> addr \<Rightarrow> addr \<Rightarrow> mheap \<Rightarrow> (addr \<times> mheap) option" where
  "slab_init_loop 0 objmemsz s prev alloc h = Some (alloc, h)"
| "slab_init_loop (Suc n) objmemsz s prev alloc h = do {
     h \<leftarrow> ps_mhead_init alloc s h;
     h \<leftarrow> set_mh_next prev alloc h;
     slab_init_loop n objmemsz s alloc (alloc + objmemsz) h }"

definition ps_slab_init :: "addr \<Rightarrow> addr \<Rightarrow> slab_params \<Rightarrow> cpu \<Rightarrow> world \<Rightarrow> world option" where
  "ps_slab_init s m p here w = do {
     let objmemsz = ps_slab_objmemsz (sp_obj_sz p);
     let nfree = (sp_allocsz p - sp_headoff p) div objmemsz;
     w \<leftarrow> upd_slab s (\<lambda>sl. sl\<lparr>sl_nfree := nfree, sl_memsz := sp_allocsz p, sl_coreid := fst here\<rparr>) w;
     sl \<leftarrow> w_sl w s;
     let alloc = sl_memory sl + sp_headoff p;
     w \<leftarrow> upd_slab s (\<lambda>sl. sl\<lparr>sl_freelist := alloc\<rparr>) w;
     (alloc, h) \<leftarrow> slab_init_loop (unat nfree) objmemsz s alloc alloc (w_mh w);
     let w = w\<lparr>w_mh := h\<rparr>;
     c_assert (alloc \<le> sl_memory sl + sp_allocsz p);
     w \<leftarrow> on_ls (ps_list_init s SLAB_LIST) w;
     on_ring (\<lambda>fl. slab_freelist_add fl s) m (sp_coreid p) w }"

section \<open>Freeing\<close>

definition ps_slab_mem_remote_free :: "cpu \<Rightarrow> addr \<Rightarrow> addr \<Rightarrow> nat \<Rightarrow> world \<Rightarrow> world option" where
  "ps_slab_mem_remote_free here m h core_target w = do {
     let (tmpcoreid, numaid) = here;
     r \<leftarrow> get_remote m core_target numaid (tmpcoreid mod NUM_REMOTE_LIST) w;
     (r, mh) \<leftarrow> ps_rfl_stack_push 1 r h (w_mh w);
     set_remote m core_target numaid (tmpcoreid mod NUM_REMOTE_LIST) r (w\<lparr>w_mh := mh\<rparr>) }"

text \<open>\<open>max_nobjs\<close> is an \<open>unsigned int\<close>: the number of objects is cut to 32 bits.\<close>

definition ps_slab_mem_free :: "addr \<Rightarrow> addr \<Rightarrow> slab_params \<Rightarrow> cpu \<Rightarrow> world \<Rightarrow> world option" where
  "ps_slab_mem_free buf m p here w = do {
     let max_nobjs = (ucast (ps_slab_max_nobjs (sp_obj_sz p) (sp_allocsz p) (sp_headoff p)) :: u32);
     c_assert (ps_slab_objmemsz (sp_obj_sz p) + sp_headoff p \<le> sp_allocsz p);
     let h = ps_mhead_get buf;
     f \<leftarrow> ps_mhead_isfree h (w_mh w);
     c_assert (\<not> f);
     hd \<leftarrow> w_mh w h;
     let s = mh_slab hd;
     c_assert (s \<noteq> null);
     sl \<leftarrow> w_sl w s;
     let target = sl_coreid sl;
     if target \<noteq> sp_coreid p then ps_slab_mem_remote_free here m h target w
     else do {
       w \<leftarrow> on_mh (ps_mhead_setfree h 1) w;
       let next = sl_freelist sl;
       w \<leftarrow> upd_slab s (\<lambda>sl. sl\<lparr>sl_freelist := h\<rparr>) w;
       w \<leftarrow> on_mh (set_mh_next h next) w;
       w \<leftarrow> upd_slab s (\<lambda>sl. sl\<lparr>sl_nfree := sl_nfree sl + 1\<rparr>) w;
       sl \<leftarrow> w_sl w s;
       if sl_nfree sl = ucast max_nobjs then do {
         w \<leftarrow> upd_si m (sp_coreid p) (\<lambda>si. si\<lparr>si_nslabs := si_nslabs si - 1\<rparr>) w;
         w \<leftarrow> on_ring (\<lambda>fl. slab_freelist_rem fl s) m (sp_coreid p) w;
         sp_ffn p m s (sl_memsz sl) (sp_coreid p) w }
       else if sl_nfree sl = 1 then do {
         e \<leftarrow> ps_list_singleton s SLAB_LIST (w_ls w);
         c_assert e;
         c_assert (sl_memory sl \<noteq> null \<and> sl_freelist sl \<noteq> null);
         on_ring (\<lambda>fl. slab_freelist_add fl s) m (sp_coreid p) w }
       else Some w } }"

section \<open>Taking back what other cores freed\<close>

text \<open>
  \<open>k\<close> bounds the length of a remote list and the number of localities visited; both loops end by
  themselves when the lists are proper (shown in \<open>Slab_Correct\<close>).
\<close>

fun remote_drain :: "nat \<Rightarrow> addr \<Rightarrow> nat \<Rightarrow> addr \<Rightarrow> slab_params \<Rightarrow> cpu \<Rightarrow> world \<Rightarrow> (nat \<times> world) option" where
  "remote_drain k h ret m p here w =
     (if h = null then Some (ret, w)
      else case k of 0 \<Rightarrow> None
        | Suc k \<Rightarrow> do {
            n \<leftarrow> get_mh_next h (w_mh w);
            w \<leftarrow> on_mh (set_mh_next h null) w;
            w \<leftarrow> ps_slab_mem_free (ps_mhead_mem h) m p here w;
            remote_drain k n (ret + 1) m p here w })"

declare remote_drain.simps [simp del]

fun remote_clear_from :: "nat \<Rightarrow> nat list \<Rightarrow> nat \<Rightarrow> addr \<Rightarrow> nat \<Rightarrow> slab_params \<Rightarrow> cpu \<Rightarrow> world \<Rightarrow>
    (nat \<times> world) option" where
  "remote_clear_from k [] ret m locality p here w = Some (ret, w)"
| "remote_clear_from k (i # is) ret m locality p here w = do {
     h \<leftarrow> get_remote m (sp_coreid p) locality i w;
     (h, w) \<leftarrow> (if h \<noteq> null then do {
         (h, r) \<leftarrow> ps_rfl_stack_remove_all 1 h;
         w \<leftarrow> set_remote m (sp_coreid p) locality i r w;
         Some (h, w) }
       else Some (h, w));
     (ret, w) \<leftarrow> remote_drain k h ret m p here w;
     remote_clear_from k is ret m locality p here w }"

definition ps_slab_mem_remote_clear :: "nat \<Rightarrow> addr \<Rightarrow> nat \<Rightarrow> slab_params \<Rightarrow> cpu \<Rightarrow> world \<Rightarrow>
    (nat \<times> world) option" where
  "ps_slab_mem_remote_clear k m locality p here w =
     remote_clear_from k [0..<NUM_REMOTE_LIST] 0 m locality p here w"

fun remote_process_loop :: "nat \<Rightarrow> nat \<Rightarrow> u64 \<Rightarrow> u64 \<Rightarrow> addr \<Rightarrow> slab_params \<Rightarrow> cpu \<Rightarrow> world \<Rightarrow>
    (u64 \<times> world) option" where
  "remote_process_loop k 0 token locality m p here w = None"
| "remote_process_loop k (Suc j) token locality m p here w = do {
     (ret, w) \<leftarrow> ps_slab_mem_remote_clear k m (unat locality) p here w;
     let locality = (locality + 1) mod of_nat PS_NUMLOCALITIES;
     if ret = 0 \<and> locality \<noteq> token then remote_process_loop k j token locality m p here w
     else Some (locality, w) }"

definition ps_slab_mem_remote_process :: "nat \<Rightarrow> addr \<Rightarrow> slab_params \<Rightarrow> cpu \<Rightarrow> world \<Rightarrow> world option" where
  "ps_slab_mem_remote_process k m p here w = do {
     si \<leftarrow> get_si m (sp_coreid p) w;
     (locality, w) \<leftarrow> remote_process_loop k PS_NUMLOCALITIES (si_remote_token si) (si_remote_token si) m p here w;
     upd_si m (sp_coreid p) (\<lambda>si. si\<lparr>si_remote_token := locality\<rparr>) w }"

section \<open>Allocating\<close>

text \<open>The slab to allocate from: one of the ring, or a new one, or null.\<close>

definition slab_obtain :: "addr \<Rightarrow> slab_params \<Rightarrow> cpu \<Rightarrow> world \<Rightarrow> (addr \<times> world) option" where
  "slab_obtain m p here w = do {
     si \<leftarrow> get_si m (sp_coreid p) w;
     if si_fl si = null then do {
       (s, w) \<leftarrow> sp_afn p m (sp_allocsz p) (sp_coreid p) w;
       if s = null then Some (null, w)
       else do {
         w \<leftarrow> ps_slab_init s m p here w;
         w \<leftarrow> upd_si m (sp_coreid p) (\<lambda>si. si\<lparr>si_nslabs := si_nslabs si + 1\<rparr>) w;
         sl \<leftarrow> w_sl w s;
         c_assert (sl_memory sl \<noteq> null \<and> sl_freelist sl \<noteq> null);
         Some (s, w) } }
     else Some (si_fl si, w) }"

text \<open>Taking the first free object of the slab.\<close>

definition slab_take :: "addr \<Rightarrow> addr \<Rightarrow> slab_params \<Rightarrow> world \<Rightarrow> (addr \<times> world) option" where
  "slab_take s m p w = do {
     sl \<leftarrow> w_sl w s;
     c_assert (s \<noteq> null \<and> sl_freelist sl \<noteq> null);
     let h = sl_freelist sl;
     n \<leftarrow> get_mh_next h (w_mh w);
     w \<leftarrow> upd_slab s (\<lambda>sl. sl\<lparr>sl_freelist := n\<rparr>) w;
     w \<leftarrow> on_mh (set_mh_next h null) w;
     w \<leftarrow> upd_slab s (\<lambda>sl. sl\<lparr>sl_nfree := sl_nfree sl - 1\<rparr>) w;
     w \<leftarrow> on_mh (ps_mhead_reset h) w;
     sl \<leftarrow> w_sl w s;
     w \<leftarrow> (if sl_nfree sl = 0 then do {
         w \<leftarrow> on_ring (\<lambda>fl. slab_freelist_rem fl s) m (sp_coreid p) w;
         e \<leftarrow> ps_list_singleton s SLAB_LIST (w_ls w);
         c_assert e;
         Some w }
       else Some w);
     f \<leftarrow> ps_mhead_isfree h (w_mh w);
     c_assert (\<not> f);
     Some (ps_mhead_mem h, w) }"

definition ps_slab_mem_alloc :: "nat \<Rightarrow> addr \<Rightarrow> slab_params \<Rightarrow> cpu \<Rightarrow> world \<Rightarrow> (addr \<times> world) option" where
  "ps_slab_mem_alloc k m p here w = do {
     c_assert (sp_obj_sz p + sp_headoff p \<le> sp_allocsz p);
     w \<leftarrow> upd_si m (sp_coreid p) (\<lambda>si. si\<lparr>si_salloccnt := si_salloccnt si + 1\<rparr>) w;
     si \<leftarrow> get_si m (sp_coreid p) w;
     w \<leftarrow> (if si_salloccnt si mod PS_REMOTE_BATCH = 0
          then ps_slab_mem_remote_process k m p here w else Some w);
     (s, w) \<leftarrow> slab_obtain m p here w;
     if s = null then Some (null, w) else slab_take s m p w }"

end
