(* ===== verification/Slab_Api.thy ===== *)
theory Slab_Api
  imports Slab
begin

text \<open>
  The rest of \<open>ps_slab.h\<close> and \<open>ps_slab.c\<close>: setting up and deleting an allocator structure, the functions
  the creation macros define for one object type, the statistics, the test for emptiness, and the
  consistency checks of the debug build (\<open>PS_SLAB_DEBUG\<close>).

  The loops over linked structures take a bound \<open>k\<close>; \<open>None\<close> when it is used up, as for a fault.
\<close>

section \<open>The allocator structure\<close>

definition zero_percore :: ps_mem_percore where
  "zero_percore =
     \<lparr>pc_slab_info = \<lparr>si_fl = null, si_salloccnt = 0, si_remote_token = 0, si_nslabs = 0\<rparr>,
      pc_smr_info = \<lparr>sm_ps = null, sm_qsc_list = \<lparr>ql_head = null, ql_tail = null\<rparr>, sm_qmemcnt = 0, sm_qmemtarget = 0\<rparr>,
      pc_slab_remote = replicate PS_NUMLOCALITIES (replicate NUM_REMOTE_LIST null)\<rparr>"

definition zero_mem :: ps_mem where
  "zero_mem =
     \<lparr>me_ns_info = \<lparr>ns_ert = null, ns_ert_depth = 0, ns_lkupfn = None, ns_expandfn = None, ns_desc_range = 0, ns_desc_max = 0, ns_lock = 0, ns_fl = null,
        ns_frontier = 0\<rparr>,
      me_percore = replicate PS_NUMCORES zero_percore\<rparr>"

text \<open>\<open>memset\<close> writes the whole structure, so it is there afterwards.\<close>

definition ps_slabptr_init :: "addr \<Rightarrow> world \<Rightarrow> world option" where
  "ps_slabptr_init m w = do {
     c_assert (m \<noteq> null);
     Some (w\<lparr>w_mem := (w_mem w)(m \<mapsto> zero_mem)\<rparr>) }"

text \<open>\<open>sz\<close> is \<open>sizeof(struct ps_mem)\<close>, which depends on the build's core count.\<close>

definition ps_slabptr_create :: "(u64 \<Rightarrow> world \<Rightarrow> (addr \<times> world) option) \<Rightarrow> u64 \<Rightarrow> world \<Rightarrow> (addr \<times> world) option" where
  "ps_slabptr_create plat_alloc sz w = do {
     (m, w) \<leftarrow> plat_alloc sz w;
     w \<leftarrow> (if m \<noteq> null then ps_slabptr_init m w else Some w);
     Some (m, w) }"

definition ps_slabptr_delete :: "(addr \<Rightarrow> world \<Rightarrow> world option) \<Rightarrow> addr \<Rightarrow> world \<Rightarrow> world option" where
  "ps_slabptr_delete plat_free m w = do {
     w \<leftarrow> plat_free m w;
     Some (w\<lparr>w_mem := (w_mem w)(m := None)\<rparr>) }"

section \<open>The functions of one object type\<close>

text \<open>\<open>p\<close> stands for the constants the macro fixes; the core is the one the call runs on.\<close>

definition ps_slabptr_alloc :: "nat \<Rightarrow> slab_params \<Rightarrow> addr \<Rightarrow> cpu \<Rightarrow> world \<Rightarrow> (addr \<times> world) option" where
  "ps_slabptr_alloc k p m here = ps_slab_mem_alloc k m (p\<lparr>sp_coreid := fst here\<rparr>) here"

definition ps_slabptr_free_coreid :: "slab_params \<Rightarrow> addr \<Rightarrow> addr \<Rightarrow> nat \<Rightarrow> cpu \<Rightarrow> world \<Rightarrow> world option" where
  "ps_slabptr_free_coreid p m buf coreid here = ps_slab_mem_free buf m (p\<lparr>sp_coreid := coreid\<rparr>) here"

definition ps_slabptr_free :: "slab_params \<Rightarrow> addr \<Rightarrow> addr \<Rightarrow> cpu \<Rightarrow> world \<Rightarrow> world option" where
  "ps_slabptr_free p m buf here = ps_slabptr_free_coreid p m buf (fst here) here"

definition ps_slab_objmem :: "slab_params \<Rightarrow> u64" where
  "ps_slab_objmem p = ps_slab_objmemsz (sp_obj_sz p)"

definition ps_slab_nobjs :: "slab_params \<Rightarrow> u64" where
  "ps_slab_nobjs p = ps_slab_max_nobjs (sp_obj_sz p) (sp_allocsz p) (sp_headoff p)"

text \<open>The result is an \<open>unsigned int\<close>.\<close>

definition ps_slab_objoff :: "slab_params \<Rightarrow> addr \<Rightarrow> world \<Rightarrow> u32 option" where
  "ps_slab_objoff p obj w = do {
     let h = ps_mhead_get obj;
     c \<leftarrow> w_mh w h;
     sl \<leftarrow> w_sl w (mh_slab c);
     Some (ucast (ps_slab_objsoff (sl_memory sl) h (sp_obj_sz p) (sp_headoff p))) }"

section \<open>Statistics\<close>

fun ps_remote_free_cnt :: "nat \<Rightarrow> addr \<Rightarrow> mheap \<Rightarrow> nat option" where
  "ps_remote_free_cnt k t mh =
     (if t = null then Some 0
      else case k of 0 \<Rightarrow> None
        | Suc k \<Rightarrow> do { n \<leftarrow> get_mh_next t mh; ret \<leftarrow> ps_remote_free_cnt k n mh; Some (Suc ret) })"

declare ps_remote_free_cnt.simps [simp del]

record slab_stats =
  st_nslabs :: u64
  st_npartslabs :: u64
  st_nfree :: u64
  st_nremote :: u64

fun stats_ring :: "nat \<Rightarrow> addr \<Rightarrow> addr \<Rightarrow> slab_stats \<Rightarrow> world \<Rightarrow> slab_stats option" where
  "stats_ring 0 s fl st w = None"
| "stats_ring (Suc k) s fl st w =
     (if s = null then Some st
      else do {
        sl \<leftarrow> w_sl w s;
        let st = st\<lparr>st_npartslabs := st_npartslabs st + 1, st_nfree := st_nfree st + sl_nfree sl\<rparr>;
        s \<leftarrow> ps_list_next s SLAB_LIST (w_ls w);
        if s \<noteq> fl then stats_ring k s fl st w else Some st })"

text \<open>Only the first \<open>PS_NUMLOCALITIES\<close> of the \<open>NUM_REMOTE_LIST\<close> lists of a locality are counted.\<close>

fun stats_remote :: "nat \<Rightarrow> (nat \<times> nat) list \<Rightarrow> nat \<Rightarrow> slab_stats \<Rightarrow> addr \<Rightarrow> world \<Rightarrow> slab_stats option" where
  "stats_remote k [] c st m w = Some st"
| "stats_remote k ((j, i) # jis) c st m w = do {
     h \<leftarrow> get_remote m c j i w;
     n \<leftarrow> ps_remote_free_cnt k h (w_mh w);
     stats_remote k jis c (st\<lparr>st_nremote := st_nremote st + of_nat n\<rparr>) m w }"

definition stats_core :: "nat \<Rightarrow> addr \<Rightarrow> nat \<Rightarrow> world \<Rightarrow> slab_stats option" where
  "stats_core k m c w = do {
     si \<leftarrow> get_si m c w;
     st \<leftarrow> stats_ring k (si_fl si) (si_fl si) \<lparr>st_nslabs = si_nslabs si, st_npartslabs = 0, st_nfree = 0, st_nremote = 0\<rparr> w;
     stats_remote k (List.product [0..<PS_NUMLOCALITIES] [0..<PS_NUMLOCALITIES]) c st m w }"

definition ps_slabptr_stats :: "nat \<Rightarrow> addr \<Rightarrow> world \<Rightarrow> slab_stats list option" where
  "ps_slabptr_stats k m w = those (map (\<lambda>c. stats_core k m c w) [0..<PS_NUMCORES])"

section \<open>Emptiness\<close>

text \<open>A loop whose body may return 0 early.\<close>

fun all_of :: "('a \<Rightarrow> bool option) \<Rightarrow> 'a list \<Rightarrow> bool option" where
  "all_of f [] = Some True"
| "all_of f (x # xs) = do { b \<leftarrow> f x; if b then all_of f xs else Some False }"

definition ps_slabptr_isempty :: "addr \<Rightarrow> world \<Rightarrow> bool option" where
  "ps_slabptr_isempty m w =
     all_of (\<lambda>i. do {
       si \<leftarrow> get_si m i w;
       if si_nslabs si \<noteq> 0 then Some False
       else all_of (\<lambda>j. all_of (\<lambda>k. do { h \<leftarrow> get_remote m i j k w; Some (h = null) }) [0..<PS_NUMLOCALITIES])
              [0..<PS_NUMLOCALITIES] }) [0..<PS_NUMCORES]"

section \<open>The checks of the debug build\<close>

text \<open>One round of the loop: the assertions on the header \<open>h\<close>, and where the loop goes on.\<close>

definition check_header :: "addr \<Rightarrow> addr \<Rightarrow> u32 \<Rightarrow> mheap \<Rightarrow> (addr \<times> u32) option" where
  "check_header s h i mh = do {
     c \<leftarrow> mh h;
     c_assert (mh_slab c = s);
     c_assert (mh_tsc_free c \<noteq> 0);
     Some (mh_next c, i + 1) }"

fun check_headers :: "nat \<Rightarrow> addr \<Rightarrow> addr \<Rightarrow> u32 \<Rightarrow> mheap \<Rightarrow> u32 option" where
  "check_headers k s h i mh =
     (if h = null then Some i
      else case k of 0 \<Rightarrow> None
        | Suc k \<Rightarrow> do {
            (h, i) \<leftarrow> check_header s h i mh;
            check_headers k s h i mh })"

declare check_headers.simps [simp del]

definition ps_slab_check_consistency :: "nat \<Rightarrow> addr \<Rightarrow> world \<Rightarrow> unit option" where
  "ps_slab_check_consistency k s w = do {
     c_assert (s \<noteq> null);
     sl \<leftarrow> w_sl w s;
     i \<leftarrow> check_headers k s (sl_freelist sl) 0 (w_mh w);
     c_assert (ucast i = sl_nfree sl) }"

fun freelist_check_from :: "nat \<Rightarrow> nat \<Rightarrow> addr \<Rightarrow> addr \<Rightarrow> world \<Rightarrow> unit option" where
  "freelist_check_from 0 k s fl w = None"
| "freelist_check_from (Suc n) k s fl w = do {
     sl \<leftarrow> w_sl w s;
     c_assert (sl_memory sl \<noteq> null \<and> sl_freelist sl \<noteq> null);
     a \<leftarrow> ps_list_next s SLAB_LIST (w_ls w);
     b \<leftarrow> ps_list_prev a SLAB_LIST (w_ls w);
     c_assert (b = s);
     a \<leftarrow> ps_list_prev s SLAB_LIST (w_ls w);
     b \<leftarrow> ps_list_next a SLAB_LIST (w_ls w);
     c_assert (b = s);
     ps_slab_check_consistency k s w;
     s \<leftarrow> ps_list_next s SLAB_LIST (w_ls w);
     if s \<noteq> fl then freelist_check_from n k s fl w else Some () }"

definition ps_slab_freelist_check :: "nat \<Rightarrow> nat \<Rightarrow> addr \<Rightarrow> world \<Rightarrow> unit option" where
  "ps_slab_freelist_check n k fl w = (if fl = null then Some () else freelist_check_from n k fl fl w)"

end
