(* ===== verification/Smr_Mem.thy ===== *)
theory Smr_Mem
  imports Slab_Api
begin

text \<open>
  Scalable memory reclamation on top of the slab allocator: \<open>__ps_smr_free\<close> and the functions the
  \<open>PS_PARSLAB_CREATE\<close> macros define (\<open>ps_smr.h\<close>), \<open>__ps_smr_reclaim\<close>, \<open>ps_smr_nqueued\<close>, the life of a
  \<open>struct parsec\<close> and of the reclamation part of an allocator (\<open>ps_smr.c\<close>).

  A freed object is stamped and queued on the core that frees it; when the queue has reached its
  target a batch of it is given back to the allocator, as far as its stamps are quiesced.  \<open>ql\<close> and \<open>si\<close>
  of \<open>__ps_smr_reclaim\<close> are always those of core \<open>curr\<close> (here \<open>cur\<close>) of \<open>m\<close>, so they are not arguments.  The counter
  readings so far and the clock are passed as in \<open>Smr\<close>; a world carries the \<open>struct parsec\<close> cells.
\<close>

definition PS_QLIST_BATCH :: nat where "PS_QLIST_BATCH = 128"

section \<open>Reclaiming\<close>

text \<open>One round that gives back the first object of the queue.\<close>

definition reclaim_one :: "nat \<Rightarrow> addr \<Rightarrow> ps_free_fn \<Rightarrow> world \<Rightarrow> world option" where
  "reclaim_one cur m ffn w = do {
     si \<leftarrow> get_sm m cur w;
     (a, ql, mh) \<leftarrow> ps_qsc_dequeue (sm_qsc_list si) (w_mh w);
     w \<leftarrow> upd_sm m cur (\<lambda>si. si\<lparr>sm_qsc_list := ql\<rparr>) (w\<lparr>w_mh := mh\<rparr>);
     w \<leftarrow> on_mh (ps_mhead_reset a) w;
     w \<leftarrow> upd_sm m cur (\<lambda>si. si\<lparr>sm_qmemcnt := sm_qmemcnt si - 1\<rparr>) w;
     ffn m (ps_mhead_mem a) 0 cur w }"

text \<open>The loop: \<open>i\<close> rounds to go; whether it was left early.\<close>

fun reclaim_batch :: "nat \<Rightarrow> nat \<Rightarrow> u64 \<Rightarrow> addr \<Rightarrow> ps_free_fn \<Rightarrow> world \<Rightarrow> (bool \<times> world) option" where
  "reclaim_batch 0 cur qsc m ffn w = Some (False, w)"
| "reclaim_batch (Suc i) cur qsc m ffn w = do {
     si \<leftarrow> get_sm m cur w;
     let a = ps_qsc_peek (sm_qsc_list si);
     c_assert (a \<noteq> null);
     f \<leftarrow> ps_mhead_isfree a (w_mh w);
     c_assert f;
     c \<leftarrow> w_mh w a;
     if mh_tsc_free c > qsc then Some (True, w)
     else do {
       w \<leftarrow> reclaim_one cur m ffn w;
       reclaim_batch i cur qsc m ffn w } }"

definition ps_smr_reclaim :: "environment \<Rightarrow> clock \<Rightarrow> nat \<Rightarrow> addr \<Rightarrow> ps_free_fn \<Rightarrow> world \<Rightarrow> nat \<Rightarrow>
    (world \<times> nat) option" where
  "ps_smr_reclaim env clk cur m ffn w t = do {
     si \<leftarrow> get_sm m cur w;
     let ps = sm_ps si;
     let a = ps_qsc_peek (sm_qsc_list si);
     c_assert (ps \<noteq> null);
     c_assert (a \<noteq> null);
     c \<leftarrow> w_mh w a;
     let tsc = mh_tsc_free c;
     p \<leftarrow> w_ps w ps;
     (r, p, t) \<leftarrow> ps_try_quiesce env clk cur tsc p t;
     let w = w\<lparr>w_ps := (w_ps w)(ps \<mapsto> p)\<rparr>;
     case r of
       Spinning \<Rightarrow> None
     | Returned z qsc \<Rightarrow> do {
         (early, w) \<leftarrow> reclaim_batch PS_QLIST_BATCH cur qsc m ffn w;
         let increase_backlog = (z \<noteq> 0 \<or> early);
         w \<leftarrow> (if increase_backlog
               then upd_sm m cur (\<lambda>si. si\<lparr>sm_qmemtarget := sm_qmemtarget si + of_nat PS_QLIST_BATCH\<rparr>) w
               else Some w);
         Some (w, t) } }"

section \<open>Freeing\<close>

definition ps_smr_free :: "environment \<Rightarrow> clock \<Rightarrow> cpu \<Rightarrow> addr \<Rightarrow> addr \<Rightarrow> ps_free_fn \<Rightarrow> world \<Rightarrow> nat \<Rightarrow>
    (world \<times> nat) option" where
  "ps_smr_free env clk here buf m ffn w t = do {
     let h = ps_mhead_get buf;
     let tsc = clk t;
     let curr_core = fst here;
     w \<leftarrow> on_mh (ps_mhead_setfree h tsc) w;
     si \<leftarrow> get_sm m curr_core w;
     (ql, mh) \<leftarrow> ps_qsc_enqueue (sm_qsc_list si) h (w_mh w);
     w \<leftarrow> upd_sm m curr_core (\<lambda>si. si\<lparr>sm_qsc_list := ql\<rparr>) (w\<lparr>w_mh := mh\<rparr>);
     w \<leftarrow> upd_sm m curr_core (\<lambda>si. si\<lparr>sm_qmemcnt := sm_qmemcnt si + 1\<rparr>) w;
     si \<leftarrow> get_sm m curr_core w;
     if sm_qmemcnt si \<ge> sm_qmemtarget si then ps_smr_reclaim env clk curr_core m ffn w (Suc t)
     else Some (w, Suc t) }"

definition ps_smr_nqueued :: "addr \<Rightarrow> nat \<Rightarrow> world \<Rightarrow> u64 option" where
  "ps_smr_nqueued m coreid w = map_option sm_qmemcnt (get_sm m coreid w)"

section \<open>The life of a parallel section\<close>

text \<open>\<open>sz\<close> is \<open>sizeof(struct parsec)\<close>; \<open>now\<close> is the reading of the counter in \<open>ps_init\<close>.\<close>

definition ps_alloc :: "(u64 \<Rightarrow> world \<Rightarrow> (addr \<times> world) option) \<Rightarrow> u64 \<Rightarrow> u64 \<Rightarrow> world \<Rightarrow> (addr \<times> world) option" where
  "ps_alloc plat_alloc sz now w = do {
     (ps, w) \<leftarrow> plat_alloc sz w;
     if ps = null then Some (null, w)
     else Some (ps, w\<lparr>w_ps := (w_ps w)(ps \<mapsto> ps_init now)\<rparr>) }"

text \<open>\<open>refcnt\<close> is an \<open>int\<close>: the comparison is signed.\<close>

definition ps_free :: "(addr \<Rightarrow> world \<Rightarrow> world option) \<Rightarrow> addr \<Rightarrow> world \<Rightarrow> (int \<times> world) option" where
  "ps_free plat_free ps w = do {
     p \<leftarrow> w_ps w ps;
     if sint (pa_refcnt p) > 0 then Some (- 1, w)
     else do {
       w \<leftarrow> plat_free ps w;
       Some (0, w\<lparr>w_ps := (w_ps w)(ps := None)\<rparr>) } }"

definition upd_ps :: "addr \<Rightarrow> (parsec \<Rightarrow> parsec) \<Rightarrow> world \<Rightarrow> world option" where
  "upd_ps ps f w = map_option (\<lambda>p. w\<lparr>w_ps := (w_ps w)(ps \<mapsto> f p)\<rparr>) (w_ps w ps)"

fun memptr_init_loop :: "nat list \<Rightarrow> addr \<Rightarrow> addr \<Rightarrow> world \<Rightarrow> world option" where
  "memptr_init_loop [] m ps w = Some w"
| "memptr_init_loop (i # is) m ps w = do {
     w \<leftarrow> upd_sm m i (\<lambda>si. si\<lparr>sm_qmemtarget := of_nat PS_QLIST_BATCH, sm_qmemcnt := 0, sm_ps := ps\<rparr>) w;
     w \<leftarrow> upd_ps ps (\<lambda>p. p\<lparr>pa_refcnt := pa_refcnt p + 1\<rparr>) w;
     memptr_init_loop is m ps w }"

definition ps_memptr_init :: "addr \<Rightarrow> addr \<Rightarrow> world \<Rightarrow> world option" where
  "ps_memptr_init m ps w = do {
     c_assert (m \<noteq> null \<and> ps \<noteq> null);
     memptr_init_loop [0..<PS_NUMCORES] m ps w }"

text \<open>\<open>__ps_memptr_delete\<close>, and below the function of one object type that calls it.\<close>

definition ps_memptr_delete :: "addr \<Rightarrow> world \<Rightarrow> (int \<times> world) option" where
  "ps_memptr_delete m w = do {
     si \<leftarrow> get_sm m 0 w;
     let ps = sm_ps si;
     if ps = null then Some (0, w)
     else do {
       e \<leftarrow> ps_slabptr_isempty m w;
       if \<not> e then Some (- 1, w)
       else do {
         q \<leftarrow> all_of (\<lambda>i. map_option (\<lambda>si. ps_qsc_peek (sm_qsc_list si) = null) (get_sm m i w)) [0..<PS_NUMCORES];
         if \<not> q then Some (- 1, w)
         else do {
           w \<leftarrow> upd_ps ps (\<lambda>p. p\<lparr>pa_refcnt := pa_refcnt p - 1\<rparr>) w;
           Some (0, w) } } } }"

section \<open>The functions of one object type\<close>

definition ps_parslab_free_tramp :: "slab_params \<Rightarrow> cpu \<Rightarrow> ps_free_fn" where
  "ps_parslab_free_tramp p here m s sz c = ps_slabptr_free_coreid p m s c here"

definition ps_memptr_alloc :: "nat \<Rightarrow> slab_params \<Rightarrow> addr \<Rightarrow> cpu \<Rightarrow> world \<Rightarrow> (addr \<times> world) option" where
  "ps_memptr_alloc k p m here = ps_slabptr_alloc k p m here"

definition ps_memptr_free :: "environment \<Rightarrow> clock \<Rightarrow> slab_params \<Rightarrow> addr \<Rightarrow> addr \<Rightarrow> cpu \<Rightarrow> world \<Rightarrow> nat \<Rightarrow>
    (world \<times> nat) option" where
  "ps_memptr_free env clk p m buf here = ps_smr_free env clk here buf m (ps_parslab_free_tramp p here)"

text \<open>The allocator structure named by the macro is \<open>m\<close>; \<open>ps_mem_init_\<dots>\<close> sets it up.\<close>

definition ps_mem_init :: "addr \<Rightarrow> addr \<Rightarrow> world \<Rightarrow> world option" where
  "ps_mem_init m ps w = do { w \<leftarrow> ps_slabptr_init m w; ps_memptr_init m ps w }"

definition ps_memptr_create :: "(u64 \<Rightarrow> world \<Rightarrow> (addr \<times> world) option) \<Rightarrow> u64 \<Rightarrow> addr \<Rightarrow> world \<Rightarrow>
    (addr \<times> world) option" where
  "ps_memptr_create plat_alloc sz ps w = do {
     (m, w) \<leftarrow> ps_slabptr_create plat_alloc sz w;
     if m = null then Some (null, w)
     else do { w \<leftarrow> ps_memptr_init m ps w; Some (m, w) } }"

definition ps_memptr_delete_name :: "(addr \<Rightarrow> world \<Rightarrow> world option) \<Rightarrow> addr \<Rightarrow> world \<Rightarrow> (int \<times> world) option" where
  "ps_memptr_delete_name plat_free m w = do {
     (r, w) \<leftarrow> ps_memptr_delete m w;
     if r \<noteq> 0 then Some (- 1, w)
     else do { w \<leftarrow> ps_slabptr_delete plat_free m w; Some (0, w) } }"

end
