(* ===== verification/Slab_Rep.thy ===== *)
theory Slab_Rep
  imports Slab
begin

text \<open>
  What the slab allocator's memory means.  The ghost state \<open>F\<close> gives for each slab its memory, its
  home core and the list of its free objects; \<open>R\<close> gives the ring of each core and \<open>Q\<close> the contents of
  the remote lists.  \<open>slab_inv\<close> ties them to the world; \<open>live\<close> is the set of objects (headers) that
  are handed out.
\<close>

section \<open>Layout of a slab\<close>

definition params_ok :: "slab_params \<Rightarrow> bool" where
  "params_ok p \<longleftrightarrow> unat (sp_allocsz p) < 2 ^ 32 \<and>
     unat (sp_headoff p) + 2 * (unat (sp_obj_sz p) + 32) \<le> unat (sp_allocsz p)"

abbreviation objsz :: "slab_params \<Rightarrow> nat" where
  "objsz p \<equiv> unat (ps_slab_objmemsz (sp_obj_sz p))"

definition nobjs :: "slab_params \<Rightarrow> nat" where
  "nobjs p = unat (ps_slab_max_nobjs (sp_obj_sz p) (sp_allocsz p) (sp_headoff p))"

definition obj_at :: "slab_params \<Rightarrow> addr \<Rightarrow> nat \<Rightarrow> addr" where
  "obj_at p mem i = mem + sp_headoff p + of_nat i * ps_slab_objmemsz (sp_obj_sz p)"

definition slab_objs :: "slab_params \<Rightarrow> addr \<Rightarrow> addr list" where
  "slab_objs p mem = map (obj_at p mem) [0..<nobjs p]"

definition fits :: "slab_params \<Rightarrow> addr \<Rightarrow> bool" where
  "fits p mem \<longleftrightarrow> mem \<noteq> null \<and> unat mem + unat (sp_allocsz p) < 2 ^ 64"

lemma objsz_bounds:
  assumes "params_ok p"
  shows "unat (sp_obj_sz p) + 24 \<le> objsz p" "objsz p < unat (sp_obj_sz p) + 32" "8 dvd objsz p"
proof -
  have s: "unat (sp_obj_sz p + sizeof_ps_mheader) = unat (sp_obj_sz p) + 24"
    using assms by (subst unat_add_small) (simp_all add: params_ok_def sizeof_ps_mheader_def)
  show "unat (sp_obj_sz p) + 24 \<le> objsz p" "objsz p < unat (sp_obj_sz p) + 32" "8 dvd objsz p"
    unfolding ps_slab_objmemsz_def
    using assms unat_PS_RNDUP_word [of "sp_obj_sz p + sizeof_ps_mheader"]
    by (simp_all add: s params_ok_def)
qed

lemma nobjs_div:
  assumes "params_ok p"
  shows "nobjs p = (unat (sp_allocsz p) - unat (sp_headoff p)) div objsz p"
  using assms by (simp add: nobjs_def ps_slab_max_nobjs_def unat_div unat_sub_small params_ok_def)

lemma nobjs_bounds:
  assumes "params_ok p"
  shows "1 < nobjs p" "nobjs p < 2 ^ 32" "unat (sp_headoff p) + nobjs p * objsz p \<le> unat (sp_allocsz p)"
proof -
  note o = objsz_bounds [OF assms]
  have le: "nobjs p * objsz p \<le> unat (sp_allocsz p) - unat (sp_headoff p)"
    by (simp add: nobjs_div [OF assms])
  then show "unat (sp_headoff p) + nobjs p * objsz p \<le> unat (sp_allocsz p)"
    using assms unfolding params_ok_def by linarith
  have "2 * objsz p div objsz p \<le> nobjs p"
    unfolding nobjs_div [OF assms] by (rule div_le_mono) (use o assms in \<open>auto simp: params_ok_def\<close>)
  then show "1 < nobjs p" using o by simp
  have "nobjs p * 1 \<le> nobjs p * objsz p" by (rule mult_le_mono2) (use o in simp)
  then have "nobjs p \<le> unat (sp_allocsz p)" using le by linarith
  then show "nobjs p < 2 ^ 32" using assms by (simp add: params_ok_def)
qed

lemma obj_at_0: "obj_at p mem 0 = mem + sp_headoff p"
  by (simp add: obj_at_def)

lemma obj_at_Suc: "obj_at p mem (Suc i) = obj_at p mem i + ps_slab_objmemsz (sp_obj_sz p)"
  by (simp add: obj_at_def algebra_simps)

lemma unat_obj_at:
  assumes "params_ok p" and "fits p mem" and "i \<le> nobjs p"
  shows "unat (obj_at p mem i) = unat mem + unat (sp_headoff p) + i * objsz p"
proof -
  have i: "i * objsz p \<le> nobjs p * objsz p" using assms(3) by (rule mult_le_mono1)
  have b: "unat mem + unat (sp_headoff p) + i * objsz p < 2 ^ 64"
    using i nobjs_bounds(3) [OF assms(1)] assms(2) unfolding fits_def by linarith
  have n: "unat (of_nat i :: u64) = i"
    using assms(3) nobjs_bounds(2) [OF assms(1)] by (intro unat_of_nat_small) simp
  have m: "unat (of_nat i * ps_slab_objmemsz (sp_obj_sz p)) = i * objsz p"
    using b by (subst unat_mult_small) (simp_all add: n)
  show ?thesis
    unfolding obj_at_def using b by (simp add: unat_add_small m)
qed

lemma obj_at_inj:
  assumes "params_ok p" and "fits p mem" and "i \<le> nobjs p" and "j \<le> nobjs p"
    and "obj_at p mem i = obj_at p mem j"
  shows "i = j"
proof -
  have "i * objsz p = j * objsz p"
    using arg_cong [OF assms(5), of unat] unat_obj_at [OF assms(1,2)] assms(3,4) by simp
  then show ?thesis using objsz_bounds(1) [OF assms(1)] by simp
qed

lemma distinct_slab_objs:
  assumes "params_ok p" and "fits p mem"
  shows "distinct (slab_objs p mem)"
  using obj_at_inj [OF assms] by (auto simp: slab_objs_def distinct_map inj_on_def)

lemma length_slab_objs [simp]: "length (slab_objs p mem) = nobjs p"
  by (simp add: slab_objs_def)

lemma slab_objs_nonnull:
  assumes "params_ok p" and "fits p mem" and "h \<in> set (slab_objs p mem)"
  shows "h \<noteq> null"
proof -
  obtain i where i: "i < nobjs p" "h = obj_at p mem i" using assms(3) by (auto simp: slab_objs_def)
  then have "unat h \<ge> unat mem" using unat_obj_at [OF assms(1,2), of i] by simp
  moreover have "0 < unat mem" using assms(2) by (simp add: fits_def unat_gt_0)
  ultimately show ?thesis by auto
qed

text \<open>Every object lies inside the slab's memory, behind the header, and does not reach into the next.\<close>

lemma slab_obj_extent:
  assumes "params_ok p" and "fits p mem" and "i < nobjs p"
  shows "unat mem + unat (sp_headoff p) \<le> unat (obj_at p mem i)"
    "unat (obj_at p mem i) + objsz p \<le> unat mem + unat (sp_allocsz p)"
    "i < j \<Longrightarrow> j < nobjs p \<Longrightarrow> unat (obj_at p mem i) + objsz p \<le> unat (obj_at p mem j)"
proof -
  have S: "Suc i * objsz p \<le> nobjs p * objsz p" using assms(3) by (intro mult_le_mono1) simp
  note u = unat_obj_at [OF assms(1,2)]
  show "unat mem + unat (sp_headoff p) \<le> unat (obj_at p mem i)" using u [of i] assms(3) by simp
  show "unat (obj_at p mem i) + objsz p \<le> unat mem + unat (sp_allocsz p)"
    using u [of i] assms(3) S nobjs_bounds(3) [OF assms(1)] by simp
  assume "i < j" "j < nobjs p"
  then have "Suc i * objsz p \<le> j * objsz p" by (intro mult_le_mono1) simp
  then show "unat (obj_at p mem i) + objsz p \<le> unat (obj_at p mem j)"
    using u [of i] u [of j] assms(3) \<open>j < nobjs p\<close> by simp
qed

section \<open>The representation\<close>

type_synonym slabs = "addr \<Rightarrow> (addr \<times> nat \<times> addr list) option"
type_synonym rings = "nat \<Rightarrow> addr list"
type_synonym remotes = "nat \<Rightarrow> nat \<Rightarrow> nat \<Rightarrow> addr list"

definition headers_ok :: "slab_params \<Rightarrow> mheap \<Rightarrow> addr \<Rightarrow> addr \<Rightarrow> addr list \<Rightarrow> bool" where
  "headers_ok p mh s mem fs \<longleftrightarrow> (\<forall>h \<in> set (slab_objs p mem). \<exists>hd. mh h = Some hd \<and> mh_slab hd = s \<and>
     (h \<in> set fs \<longrightarrow> mh_tsc_free hd \<noteq> 0))"

definition slab_rep :: "slab_params \<Rightarrow> world \<Rightarrow> addr \<Rightarrow> addr \<Rightarrow> nat \<Rightarrow> addr list \<Rightarrow> bool" where
  "slab_rep p w s mem c fs \<longleftrightarrow> s \<noteq> null \<and> fits p mem \<and> c < PS_NUMCORES \<and>
     (\<exists>sl. w_sl w s = Some sl \<and> sl_memory sl = mem \<and> sl_coreid sl = c \<and> sl_memsz sl = sp_allocsz p \<and>
        unat (sl_nfree sl) = length fs \<and> chain mh_next (w_mh w) (sl_freelist sl) fs) \<and>
     set fs \<subseteq> set (slab_objs p mem) \<and> headers_ok p (w_mh w) s mem fs"

definition home :: "slabs \<Rightarrow> nat \<Rightarrow> addr set" where
  "home F c = {s. \<exists>mem fs. F s = Some (mem, c, fs)}"

definition partial :: "slabs \<Rightarrow> nat \<Rightarrow> addr set" where
  "partial F c = {s. \<exists>mem fs. F s = Some (mem, c, fs) \<and> fs \<noteq> []}"

definition slabs_ok :: "slab_params \<Rightarrow> world \<Rightarrow> slabs \<Rightarrow> bool" where
  "slabs_ok p w F \<longleftrightarrow> finite (dom F) \<and> (\<forall>s mem c fs. F s = Some (mem, c, fs) \<longrightarrow> slab_rep p w s mem c fs)"

definition rings_ok :: "addr \<Rightarrow> world \<Rightarrow> slabs \<Rightarrow> rings \<Rightarrow> bool" where
  "rings_ok m w F R \<longleftrightarrow> (\<forall>c < PS_NUMCORES. \<exists>si. get_si m c w = Some si \<and>
       pl.list_at SLAB_LIST (w_ls w) (si_fl si) (R c) \<and> set (R c) = partial F c) \<and>
     (\<forall>s mem c. F s = Some (mem, c, []) \<longrightarrow> objs_dll SLAB_LIST (w_ls w) [s])"

definition counts_ok :: "addr \<Rightarrow> world \<Rightarrow> slabs \<Rightarrow> bool" where
  "counts_ok m w F \<longleftrightarrow> (\<forall>c < PS_NUMCORES. \<exists>si. get_si m c w = Some si \<and>
     unat (si_nslabs si) = card (home F c) \<and> unat (si_remote_token si) < PS_NUMLOCALITIES)"

definition waiting :: "slab_params \<Rightarrow> world \<Rightarrow> slabs \<Rightarrow> nat \<Rightarrow> addr \<Rightarrow> bool" where
  "waiting p w F c h \<longleftrightarrow> (\<exists>hd. w_mh w h = Some hd \<and> mh_tsc_free hd = 0) \<and>
     (\<exists>s mem fs. F s = Some (mem, c, fs) \<and> h \<in> set (slab_objs p mem))"

definition remote_rep :: "slab_params \<Rightarrow> addr \<Rightarrow> world \<Rightarrow> slabs \<Rightarrow> nat \<Rightarrow> nat \<Rightarrow> nat \<Rightarrow> addr list \<Rightarrow> bool" where
  "remote_rep p m w F c l k q \<longleftrightarrow> (\<exists>a. get_remote m c l k w = Some a \<and> chain mh_next (w_mh w) a q) \<and>
     (\<forall>h \<in> set q. waiting p w F c h)"

definition in_range :: "nat \<Rightarrow> nat \<Rightarrow> nat \<Rightarrow> bool" where
  "in_range c l k \<longleftrightarrow> c < PS_NUMCORES \<and> l < PS_NUMLOCALITIES \<and> k < NUM_REMOTE_LIST"

definition remotes_ok :: "slab_params \<Rightarrow> addr \<Rightarrow> world \<Rightarrow> slabs \<Rightarrow> remotes \<Rightarrow> bool" where
  "remotes_ok p m w F Q \<longleftrightarrow>
     (\<forall>c l k. if in_range c l k then remote_rep p m w F c l k (Q c l k) else Q c l k = []) \<and>
     (\<forall>c l k c' l' k'. (c, l, k) \<noteq> (c', l', k') \<longrightarrow> set (Q c l k) \<inter> set (Q c' l' k') = {})"

definition slab_inv :: "slab_params \<Rightarrow> addr \<Rightarrow> world \<Rightarrow> slabs \<Rightarrow> rings \<Rightarrow> remotes \<Rightarrow> bool" where
  "slab_inv p m w F R Q \<longleftrightarrow> slabs_ok p w F \<and> rings_ok m w F R \<and> counts_ok m w F \<and> remotes_ok p m w F Q \<and>
     (\<forall>s mem c fs. F s = Some (mem, c, fs) \<longrightarrow> length fs < nobjs p)"

text \<open>The objects handed out: of some slab, not free there and not waiting in a remote list.\<close>

definition owned :: "slab_params \<Rightarrow> slabs \<Rightarrow> addr set" where
  "owned p F = {h. \<exists>s mem c fs. F s = Some (mem, c, fs) \<and> h \<in> set (slab_objs p mem) - set fs}"

definition pending :: "remotes \<Rightarrow> addr set" where
  "pending Q = {h. \<exists>c l k. h \<in> set (Q c l k)}"

definition live :: "slab_params \<Rightarrow> slabs \<Rightarrow> remotes \<Rightarrow> addr set" where
  "live p F Q = owned p F - pending Q"

text \<open>The memory of each slab.\<close>

definition mems :: "slabs \<Rightarrow> addr \<Rightarrow> addr option" where
  "mems F s = map_option fst (F s)"

section \<open>What belongs to an allocator\<close>

text \<open>The list fields and the headers of the slabs \<open>M\<close>.\<close>

definition slab_links :: "(addr \<Rightarrow> addr option) \<Rightarrow> addr set" where
  "slab_links M = (\<lambda>s. s + SLAB_LIST) ` dom M"

definition slab_heads :: "slab_params \<Rightarrow> (addr \<Rightarrow> addr option) \<Rightarrow> addr set" where
  "slab_heads p M = (\<Union>mem \<in> ran M. set (slab_objs p mem))"

text \<open>The part of a descriptor that the allocator leaves to its backend.\<close>

definition slab_ids :: "ps_slab \<Rightarrow> addr \<times> u64 \<times> u64" where
  "slab_ids sl = (sl_memory sl, sl_start sl, sl_end sl)"

text \<open>A step of the allocator itself: nothing changes but its own structure, less its namespace part, and
  its slabs' descriptors, less the part above, list fields and headers.\<close>

definition own_step :: "slab_params \<Rightarrow> addr \<Rightarrow> (addr \<Rightarrow> addr option) \<Rightarrow> world \<Rightarrow> world \<Rightarrow> bool" where
  "own_step p m M w w' \<longleftrightarrow> w_blocks w' = w_blocks w \<and> w_answers w' = w_answers w \<and> w_ert w' = w_ert w \<and> w_pg w' = w_pg w \<and>
     (\<forall>m'. m' \<noteq> m \<longrightarrow> w_mem w' m' = w_mem w m') \<and> get_ns m w' = get_ns m w \<and>
     (\<forall>s. map_option slab_ids (w_sl w' s) = map_option slab_ids (w_sl w s)) \<and>
     (\<forall>s. s \<notin> dom M \<longrightarrow> w_sl w' s = w_sl w s) \<and>
     (\<forall>x. x \<notin> slab_links M \<longrightarrow> w_ls w' x = w_ls w x) \<and> (\<forall>x. x \<notin> slab_heads p M \<longrightarrow> w_mh w' x = w_mh w x)"

lemma own_step_refl: "own_step p m M w w"
  by (simp add: own_step_def)

lemma own_step_trans: "own_step p m M w w1 \<Longrightarrow> own_step p m M w1 w2 \<Longrightarrow> own_step p m M w w2"
  by (auto simp: own_step_def)

lemma own_step_basic: "own_step p m M w w' \<Longrightarrow> w_blocks w' = w_blocks w \<and> w_answers w' = w_answers w"
  by (simp add: own_step_def)

lemma slab_headsI: "F s = Some (mem, c, fs) \<Longrightarrow> h \<in> set (slab_objs p mem) \<Longrightarrow> h \<in> slab_heads p (mems F)"
  by (auto simp: slab_heads_def mems_def ran_def)

lemma own_step_mh: "h \<in> slab_heads p M \<Longrightarrow> own_step p m M w (w\<lparr>w_mh := (w_mh w)(h := x)\<rparr>)"
  by (auto simp: own_step_def get_ns_def)

lemma own_step_ls: "\<forall>x. x \<notin> slab_links M \<longrightarrow> ls x = w_ls w x \<Longrightarrow> own_step p m M w (w\<lparr>w_ls := ls\<rparr>)"
  by (auto simp: own_step_def get_ns_def)

end
