(* ===== verification/Slab_Ops.thy ===== *)
theory Slab_Ops
  imports Slab_Rep
begin

text \<open>
  What the steps of the slab allocator do to the world and to the parts of the invariant: updates of
  the per-core structures as total functions with rewrite rules, adding a slab to a ring and taking it
  off, taking an object from a slab and putting it back, setting up a fresh slab.
\<close>

named_theorems world_simps
  \<comment> \<open>what an update of one part of the world leaves alone\<close>

section \<open>Per-core structures\<close>

definition set_pc :: "addr \<Rightarrow> nat \<Rightarrow> ps_mem_percore \<Rightarrow> world \<Rightarrow> world" where
  "set_pc m c pc w = w\<lparr>w_mem := (w_mem w)(m := map_option (\<lambda>me. me\<lparr>me_percore := (me_percore me)[c := pc]\<rparr>)
     (w_mem w m))\<rparr>"

definition set_si :: "addr \<Rightarrow> nat \<Rightarrow> ps_slab_info \<Rightarrow> world \<Rightarrow> world" where
  "set_si m c si w = set_pc m c ((the (get_pc m c w))\<lparr>pc_slab_info := si\<rparr>) w"

lemma set_pc_fields [simp, world_simps]:
  "w_mh (set_pc m c pc w) = w_mh w" "w_sl (set_pc m c pc w) = w_sl w" "w_ls (set_pc m c pc w) = w_ls w"
  "w_blocks (set_pc m c pc w) = w_blocks w" "w_answers (set_pc m c pc w) = w_answers w"
  "w_ps (set_pc m c pc w) = w_ps w" "w_ert (set_pc m c pc w) = w_ert w" "w_pg (set_pc m c pc w) = w_pg w"
  by (simp_all add: set_pc_def)

lemma set_si_fields [simp, world_simps]:
  "w_mh (set_si m c si w) = w_mh w" "w_sl (set_si m c si w) = w_sl w" "w_ls (set_si m c si w) = w_ls w"
  "w_blocks (set_si m c si w) = w_blocks w" "w_answers (set_si m c si w) = w_answers w"
  "w_ps (set_si m c si w) = w_ps w" "w_ert (set_si m c si w) = w_ert w" "w_pg (set_si m c si w) = w_pg w"
  by (simp_all add: set_si_def)

lemma get_pc_cong: "w_mem w' m = w_mem w m \<Longrightarrow> get_pc m c w' = get_pc m c w"
  by (simp add: get_pc_def)

lemma get_si_cong: "w_mem w' m = w_mem w m \<Longrightarrow> get_si m c w' = get_si m c w"
  by (simp add: get_si_def get_pc_def)

lemma get_remote_cong: "w_mem w' m = w_mem w m \<Longrightarrow> get_remote m c l k w' = get_remote m c l k w"
  by (simp add: get_remote_def get_pc_def)

lemma get_pc_updates [simp, world_simps]:
  "get_pc m c (w_mh_update f w) = get_pc m c w" "get_pc m c (w_sl_update g w) = get_pc m c w"
  "get_pc m c (w_ls_update h w) = get_pc m c w" "get_pc m c (w_blocks_update b w) = get_pc m c w"
  "get_pc m c (w_answers_update a w) = get_pc m c w" "get_pc m c (w_ps_update r w) = get_pc m c w"
  "get_pc m c (w_ert_update e w) = get_pc m c w"
  "get_pc m c (w_pg_update pg w) = get_pc m c w"
  by (simp_all add: get_pc_def)

lemma get_si_updates [simp, world_simps]:
  "get_si m c (w_mh_update f w) = get_si m c w" "get_si m c (w_sl_update g w) = get_si m c w"
  "get_si m c (w_ls_update h w) = get_si m c w" "get_si m c (w_blocks_update b w) = get_si m c w"
  "get_si m c (w_answers_update a w) = get_si m c w" "get_si m c (w_ps_update r w) = get_si m c w"
  "get_si m c (w_ert_update e w) = get_si m c w"
  "get_si m c (w_pg_update pg w) = get_si m c w"
  by (simp_all add: get_si_def)

lemma get_remote_updates [simp, world_simps]:
  "get_remote m c l k (w_mh_update f w) = get_remote m c l k w"
  "get_remote m c l k (w_sl_update g w) = get_remote m c l k w"
  "get_remote m c l k (w_ls_update h w) = get_remote m c l k w"
  "get_remote m c l k (w_blocks_update b w) = get_remote m c l k w"
  "get_remote m c l k (w_answers_update a w) = get_remote m c l k w"
  "get_remote m c l k (w_ps_update r w) = get_remote m c l k w"
  "get_remote m c l k (w_ert_update e w) = get_remote m c l k w"
  "get_remote m c l k (w_pg_update pg w) = get_remote m c l k w"
  by (simp_all add: get_remote_def)

lemma set_pc_other: "m' \<noteq> m \<Longrightarrow> w_mem (set_pc m c pc w) m' = w_mem w m'"
  by (simp add: set_pc_def)

lemma get_ns_set_pc [simp]: "get_ns m' (set_pc m c pc w) = get_ns m' w"
  by (cases "w_mem w m") (auto simp: get_ns_def set_pc_def)

lemma get_ns_set_si [simp]: "get_ns m' (set_si m c si w) = get_ns m' w"
  by (simp add: set_si_def)

lemma set_si_other: "m' \<noteq> m \<Longrightarrow> w_mem (set_si m c si w) m' = w_mem w m'"
  by (simp add: set_si_def set_pc_other)

lemma get_set_pc:
  "get_pc m c' (set_pc m c pc w) =
     (if c' = c \<and> get_pc m c w \<noteq> None then Some pc else get_pc m c' w)"
  by (cases "w_mem w m") (auto simp: get_pc_def set_pc_def aget_def)

lemma upd_pc_set: "get_pc m c w = Some pc \<Longrightarrow> upd_pc m c f w = Some (set_pc m c (f pc) w)"
  by (auto simp: upd_pc_def get_pc_def set_pc_def bind_eq_Some_conv aget_Some array_simps)

lemma get_si_SomeD: "get_si m c w = Some si \<Longrightarrow> \<exists>pc. get_pc m c w = Some pc \<and> si = pc_slab_info pc"
  by (auto simp: get_si_def)

lemma upd_si_set:
  assumes "get_si m c w = Some si"
  shows "upd_si m c f w = Some (set_si m c (f si) w)"
proof -
  obtain pc where "get_pc m c w = Some pc" "si = pc_slab_info pc" using get_si_SomeD [OF assms] by blast
  then show ?thesis by (simp add: upd_si_def set_si_def upd_pc_set)
qed

lemma get_set_si:
  assumes "get_si m c w = Some si0"
  shows "get_si m c' (set_si m c si w) = (if c' = c then Some si else get_si m c' w)"
  using get_si_SomeD [OF assms] by (auto simp: get_si_def set_si_def get_set_pc)

lemma get_remote_set_si [simp, world_simps]: "get_remote m c' l k (set_si m c si w) = get_remote m c' l k w"
  by (cases "get_pc m c w") (auto simp: get_remote_def set_si_def get_set_pc)

lemma on_ring_set:
  assumes "get_si m c w = Some si" and "f (si_fl si) (w_ls w) = Some (fl, ls)"
  shows "on_ring f m c w = Some (set_si m c (si\<lparr>si_fl := fl\<rparr>) (w\<lparr>w_ls := ls\<rparr>))"
  using assms by (simp add: on_ring_def upd_si_set)

text \<open>Writing a remote list.\<close>

lemma set_remote_effect:
  assumes "get_remote m c l k w = Some a"
  shows "\<exists>w'. set_remote m c l k v w = Some w' \<and> w' = w\<lparr>w_mem := w_mem w'\<rparr> \<and>
     (\<forall>c'. get_si m c' w' = get_si m c' w) \<and>
     (\<forall>c' l' k'. get_remote m c' l' k' w' = (if (c', l', k') = (c, l, k) then Some v else get_remote m c' l' k' w)) \<and>
     (\<forall>m'. m' \<noteq> m \<longrightarrow> w_mem w' m' = w_mem w m') \<and> get_ns m w' = get_ns m w"
proof -
  obtain pc r where pc: "get_pc m c w = Some pc" and r: "aget (pc_slab_remote pc) l = Some r"
    and k: "aget r k = Some a"
    using assms by (auto simp: get_remote_def bind_eq_Some_conv)
  let ?w = "set_pc m c (pc\<lparr>pc_slab_remote := (pc_slab_remote pc)[l := r[k := v]]\<rparr>) w"
  have 1: "set_remote m c l k v w = Some ?w"
    using pc r k by (auto simp: set_remote_def aget_Some array_simps upd_pc_set)
  have 2: "?w = w\<lparr>w_mem := w_mem ?w\<rparr>" by (simp add: set_pc_def)
  have 3: "get_si m c' ?w = get_si m c' w" for c'
    using pc by (auto simp: get_si_def get_set_pc)
  have 4: "get_remote m c' l' k' ?w = (if (c', l', k') = (c, l, k) then Some v else get_remote m c' l' k' w)"
    for c' l' k'
    using pc r k by (auto simp: get_remote_def get_set_pc aget_def nth_list_update split: if_splits)
  have 5: "\<forall>m'. m' \<noteq> m \<longrightarrow> w_mem ?w m' = w_mem w m'" by (simp add: set_pc_other)
  have 6: "get_ns m ?w = get_ns m w" by simp
  from 1 2 3 4 5 6 show ?thesis by blast
qed

section \<open>The parts of the invariant and what they depend on\<close>

lemma slab_rep_cong:
  assumes "w_sl w' s = w_sl w s" and "\<And>h. h \<in> set (slab_objs p mem) \<Longrightarrow> w_mh w' h = w_mh w h"
  shows "slab_rep p w' s mem c fs = slab_rep p w s mem c fs"
proof -
  have "chain mh_next (w_mh w') a fs = chain mh_next (w_mh w) a fs" if "set fs \<subseteq> set (slab_objs p mem)" for a
    by (rule chain_cong) (use that assms(2) in auto)
  then show ?thesis using assms by (auto simp: slab_rep_def headers_ok_def)
qed

lemma slabs_ok_cong:
  "w_sl w' = w_sl w \<Longrightarrow> w_mh w' = w_mh w \<Longrightarrow> slabs_ok p w' F = slabs_ok p w F"
  by (simp add: slabs_ok_def slab_rep_def)

lemma rings_ok_cong:
  assumes "w_ls w' = w_ls w" and "\<And>c. map_option si_fl (get_si m c w') = map_option si_fl (get_si m c w)"
    and "rings_ok m w F R"
  shows "rings_ok m w' F R"
proof -
  have "\<exists>si. get_si m c w' = Some si \<and> pl.list_at SLAB_LIST (w_ls w') (si_fl si) (R c) \<and> set (R c) = partial F c"
    if "c < PS_NUMCORES" for c
  proof -
    obtain si where si: "get_si m c w = Some si" "pl.list_at SLAB_LIST (w_ls w) (si_fl si) (R c)"
      "set (R c) = partial F c" using assms(3) \<open>c < PS_NUMCORES\<close> unfolding rings_ok_def by blast
    then obtain si' where "get_si m c w' = Some si'" "si_fl si' = si_fl si" using assms(2) [of c] by auto
    with si assms(1) show ?thesis by simp
  qed
  then show ?thesis using assms(1,3) by (simp add: rings_ok_def)
qed

lemma remotes_ok_cong:
  "w_mh w' = w_mh w \<Longrightarrow> (\<And>c l k. get_remote m c l k w' = get_remote m c l k w) \<Longrightarrow>
   remotes_ok p m w' F Q = remotes_ok p m w F Q"
  by (simp add: remotes_ok_def remote_rep_def waiting_def)

lemma counts_ok_cong:
  "(\<And>c. get_si m c w' = get_si m c w) \<Longrightarrow> counts_ok m w' F = counts_ok m w F"
  by (simp add: counts_ok_def)

lemma slabs_okD:
  assumes "slabs_ok p w F" and "F s = Some (mem, c, fs)"
  shows "slab_rep p w s mem c fs"
  using assms by (simp add: slabs_ok_def)

lemma header_slab:
  assumes "slabs_ok p w F" and "F s = Some (mem, c, fs)" and "h \<in> set (slab_objs p mem)"
  shows "\<exists>hd. w_mh w h = Some hd \<and> mh_slab hd = s \<and> (h \<in> set fs \<longrightarrow> mh_tsc_free hd \<noteq> 0)"
  using slabs_okD [OF assms(1,2)] assms(3) by (auto simp: slab_rep_def headers_ok_def)

text \<open>The slabs have their objects to themselves.\<close>

lemma objs_unique:
  assumes "slabs_ok p w F" and "F s = Some (mem, c, fs)" and "h \<in> set (slab_objs p mem)"
    and "F s' = Some (mem', c', fs')" and "h \<in> set (slab_objs p mem')"
  shows "s' = s \<and> mem' = mem \<and> c' = c \<and> fs' = fs"
proof -
  have "s' = s" using header_slab [OF assms(1-3)] header_slab [OF assms(1,4,5)] by auto
  then show ?thesis using assms(2,4) by simp
qed

text \<open>A waiting object is not free in its slab.\<close>

lemma remotes_okD:
  assumes "remotes_ok p m w F Q"
  shows "in_range c l k \<Longrightarrow> remote_rep p m w F c l k (Q c l k)"
    and "\<not> in_range c l k \<Longrightarrow> Q c l k = []"
    and "h \<in> set (Q c l k) \<Longrightarrow> in_range c l k \<and> waiting p w F c h"
    and "h \<in> set (Q c l k) \<Longrightarrow> h \<in> set (Q c' l' k') \<Longrightarrow> c' = c \<and> l' = l \<and> k' = k"
proof -
  have q: "if in_range c l k then remote_rep p m w F c l k (Q c l k) else Q c l k = []"
    using assms by (simp add: remotes_ok_def)
  show 1: "in_range c l k \<Longrightarrow> remote_rep p m w F c l k (Q c l k)" using q by simp
  show 2: "\<not> in_range c l k \<Longrightarrow> Q c l k = []" using q by simp
  show "in_range c l k \<and> waiting p w F c h" if "h \<in> set (Q c l k)"
    using 1 2 that by (cases "in_range c l k") (auto simp: remote_rep_def)
  show "h \<in> set (Q c l k) \<Longrightarrow> h \<in> set (Q c' l' k') \<Longrightarrow> c' = c \<and> l' = l \<and> k' = k"
    using assms unfolding remotes_ok_def by blast
qed

lemma pending_waiting: "remotes_ok p m w F Q \<Longrightarrow> h \<in> pending Q \<Longrightarrow> \<exists>c. waiting p w F c h"
  using remotes_okD(3) by (fastforce simp: pending_def)

lemma pending_not_free:
  assumes "slabs_ok p w F" and "remotes_ok p m w F Q" and "h \<in> pending Q" and "F s = Some (mem, c, fs)"
  shows "h \<notin> set fs"
proof
  assume f: "h \<in> set fs"
  then have "h \<in> set (slab_objs p mem)" using slabs_okD [OF assms(1,4)] by (auto simp: slab_rep_def)
  then have "\<exists>hd. w_mh w h = Some hd \<and> mh_tsc_free hd \<noteq> 0"
    using f header_slab [OF assms(1,4)] by blast
  with pending_waiting [OF assms(2,3)] show False by (auto simp: waiting_def)
qed

section \<open>Changing one slab\<close>

lemma slabs_ok_change:
  assumes "slabs_ok p w F" and "F s = Some (mem, c, fs)" and "slab_rep p w' s mem c fs'"
    and "\<And>s'. s' \<noteq> s \<Longrightarrow> w_sl w' s' = w_sl w s'"
    and "\<And>h. h \<notin> set (slab_objs p mem) \<Longrightarrow> w_mh w' h = w_mh w h"
  shows "slabs_ok p w' (F(s \<mapsto> (mem, c, fs')))"
  unfolding slabs_ok_def
proof (intro conjI allI impI)
  show "finite (dom (F(s \<mapsto> (mem, c, fs'))))" using assms(1) by (simp add: slabs_ok_def)
  fix s' mem' c' fs'' assume "(F(s \<mapsto> (mem, c, fs'))) s' = Some (mem', c', fs'')"
  then consider "s' = s" "mem' = mem" "c' = c" "fs'' = fs'" | "s' \<noteq> s" "F s' = Some (mem', c', fs'')"
    by (auto split: if_splits)
  then show "slab_rep p w' s' mem' c' fs''"
  proof cases
    case 2
    have "slab_rep p w' s' mem' c' fs'' = slab_rep p w s' mem' c' fs''"
      using assms(4) [OF 2(1)] objs_unique [OF assms(1,2) _ 2(2)] 2(1) assms(5)
      by (intro slab_rep_cong) blast+
    then show ?thesis using slabs_okD [OF assms(1) 2(2)] by simp
  qed (use assms(3) in simp)
qed

lemma slabs_ok_drop: "slabs_ok p w F \<Longrightarrow> slabs_ok p w (F(s := None))"
  by (auto simp: slabs_ok_def split: if_splits)

lemma slabs_ok_new:
  assumes "slabs_ok p w F" and "F s = None" and "slab_rep p w' s mem c fs"
    and "\<And>s' mem' c' fs'. F s' = Some (mem', c', fs') \<Longrightarrow>
       w_sl w' s' = w_sl w s' \<and> (\<forall>h \<in> set (slab_objs p mem'). w_mh w' h = w_mh w h)"
  shows "slabs_ok p w' (F(s \<mapsto> (mem, c, fs)))"
  unfolding slabs_ok_def
proof (intro conjI allI impI)
  show "finite (dom (F(s \<mapsto> (mem, c, fs))))" using assms(1) by (simp add: slabs_ok_def)
  fix s' mem' c' fs'' assume "(F(s \<mapsto> (mem, c, fs))) s' = Some (mem', c', fs'')"
  then consider "s' = s" "mem' = mem" "c' = c" "fs'' = fs" | "s' \<noteq> s" "F s' = Some (mem', c', fs'')"
    by (auto split: if_splits)
  then show "slab_rep p w' s' mem' c' fs''"
  proof cases
    case 2
    have "slab_rep p w' s' mem' c' fs'' = slab_rep p w s' mem' c' fs''"
      using assms(4) [OF 2(2)] by (intro slab_rep_cong) auto
    then show ?thesis using slabs_okD [OF assms(1) 2(2)] by simp
  qed (use assms(3) in simp)
qed

lemma free_distinct:
  assumes "slab_rep p w s mem c fs"
  shows "distinct fs" "null \<notin> set fs"
  using assms by (auto simp: slab_rep_def dest: chain_distinct chain_nonnull_elems)

lemma free_length:
  assumes "distinct xs" and "set xs \<subseteq> set (slab_objs p mem)"
  shows "length xs \<le> nobjs p"
  using card_mono [OF finite_set assms(2)] card_length [of "slab_objs p mem"]
  by (simp add: distinct_card [OF assms(1)])

text \<open>Putting an object on the free list of its slab, and taking the first one off it.\<close>

definition put_obj :: "addr \<Rightarrow> addr \<Rightarrow> world \<Rightarrow> world" where
  "put_obj s h w = w\<lparr>w_mh := (w_mh w)(h \<mapsto> (the (w_mh w h))\<lparr>mh_tsc_free := 1, mh_next := sl_freelist (the (w_sl w s))\<rparr>),
     w_sl := (w_sl w)(s \<mapsto> (the (w_sl w s))\<lparr>sl_freelist := h, sl_nfree := sl_nfree (the (w_sl w s)) + 1\<rparr>)\<rparr>"

definition take_obj :: "addr \<Rightarrow> addr \<Rightarrow> world \<Rightarrow> world" where
  "take_obj s h w = w\<lparr>w_sl := (w_sl w)(s \<mapsto> (the (w_sl w s))\<lparr>sl_freelist := mh_next (the (w_mh w h)),
       sl_nfree := sl_nfree (the (w_sl w s)) - 1\<rparr>),
     w_mh := (w_mh w)(h \<mapsto> (the (w_mh w h))\<lparr>mh_tsc_free := 0, mh_next := null\<rparr>)\<rparr>"

lemma put_take_fields [simp, world_simps]:
  "w_ls (put_obj s h w) = w_ls w" "w_blocks (put_obj s h w) = w_blocks w"
  "w_answers (put_obj s h w) = w_answers w" "w_mem (put_obj s h w) = w_mem w"
  "w_ps (put_obj s h w) = w_ps w" "w_ls (take_obj s h w) = w_ls w" "w_blocks (take_obj s h w) = w_blocks w"
  "w_answers (take_obj s h w) = w_answers w" "w_mem (take_obj s h w) = w_mem w"
  "w_ps (take_obj s h w) = w_ps w"
  "get_si m c (put_obj s h w) = get_si m c w" "get_si m c (take_obj s h w) = get_si m c w"
  "get_remote m c l k (put_obj s h w) = get_remote m c l k w"
  "get_remote m c l k (take_obj s h w) = get_remote m c l k w"
  by (simp_all add: put_obj_def take_obj_def)

lemma put_slab_rep:
  assumes "params_ok p" and "slab_rep p w s mem c fs" and "h \<in> set (slab_objs p mem)" and "h \<notin> set fs"
  shows "slab_rep p (put_obj s h w) s mem c (h # fs)"
proof -
  obtain sl where sl: "w_sl w s = Some sl" "sl_memory sl = mem" "sl_coreid sl = c" "sl_memsz sl = sp_allocsz p"
    "unat (sl_nfree sl) = length fs" "chain mh_next (w_mh w) (sl_freelist sl) fs"
    using assms(2) by (auto simp: slab_rep_def)
  obtain hd where hd: "w_mh w h = Some hd" "mh_slab hd = s"
    using assms(2,3) by (auto simp: slab_rep_def headers_ok_def)
  have sub: "set fs \<subseteq> set (slab_objs p mem)" "s \<noteq> null" "fits p mem" "c < PS_NUMCORES"
    "headers_ok p (w_mh w) s mem fs"
    using assms(2) by (auto simp: slab_rep_def)
  have nn: "h \<noteq> null" by (rule slab_objs_nonnull [OF assms(1) sub(3) assms(3)])
  have "length (h # fs) \<le> nobjs p"
    using free_length [of "h # fs" p mem] free_distinct [OF assms(2)] assms(3,4) sub(1) by simp
  then have n: "unat (sl_nfree sl + 1) = Suc (length fs)"
    using nobjs_bounds(2) [OF assms(1)] sl(5) by (subst unat_add_small) simp_all
  have ch: "chain mh_next ((w_mh w)(h \<mapsto> hd\<lparr>mh_tsc_free := 1, mh_next := sl_freelist sl\<rparr>)) h (h # fs)"
    using sl(6) nn assms(4) by simp
  have hs: "headers_ok p ((w_mh w)(h \<mapsto> hd\<lparr>mh_tsc_free := 1, mh_next := sl_freelist sl\<rparr>)) s mem (h # fs)"
    using sub(5) hd by (auto simp: headers_ok_def)
  show ?thesis
    using sl hd sub n ch hs assms(3) by (auto simp: slab_rep_def put_obj_def)
qed

lemma take_slab_rep:
  assumes "slab_rep p w s mem c (h # fs)"
  shows "slab_rep p (take_obj s h w) s mem c fs"
proof -
  obtain sl hd where sl: "w_sl w s = Some sl" "sl_memory sl = mem" "sl_coreid sl = c" "sl_memsz sl = sp_allocsz p"
    "unat (sl_nfree sl) = Suc (length fs)" and hd: "w_mh w h = Some hd" "chain mh_next (w_mh w) (mh_next hd) fs"
    using assms by (auto simp: slab_rep_def split: option.splits)
  have nh: "h \<notin> set fs" using free_distinct(1) [OF assms] by simp
  have n: "unat (sl_nfree sl - 1) = length fs"
    using sl(5) by (subst unat_dec) auto
  have hs: "headers_ok p ((w_mh w)(h \<mapsto> hd\<lparr>mh_tsc_free := 0, mh_next := null\<rparr>)) s mem fs"
    using assms hd nh by (auto simp: slab_rep_def headers_ok_def)
  show ?thesis
    using assms sl hd nh n hs by (auto simp: slab_rep_def take_obj_def)
qed

lemma put_slabs_ok:
  assumes "params_ok p" and "slabs_ok p w F" and "F s = Some (mem, c, fs)"
    and "h \<in> set (slab_objs p mem)" and "h \<notin> set fs"
  shows "slabs_ok p (put_obj s h w) (F(s \<mapsto> (mem, c, h # fs)))"
  by (rule slabs_ok_change [OF assms(2,3) put_slab_rep [OF assms(1) slabs_okD [OF assms(2,3)] assms(4,5)]])
    (use assms(4) in \<open>auto simp: put_obj_def\<close>)

lemma take_slabs_ok:
  assumes "slabs_ok p w F" and "F s = Some (mem, c, h # fs)"
  shows "slabs_ok p (take_obj s h w) (F(s \<mapsto> (mem, c, fs)))"
proof -
  note rep = slabs_okD [OF assms]
  have "h \<in> set (slab_objs p mem)" using rep by (simp add: slab_rep_def)
  then show ?thesis
    by (intro slabs_ok_change [OF assms take_slab_rep [OF rep]]) (auto simp: take_obj_def)
qed

section \<open>The remote lists\<close>

lemma waiting_cong:
  assumes "waiting p w F c h" and "w_mh w' h = w_mh w h"
    and "\<And>s mem fs. F s = Some (mem, c, fs) \<Longrightarrow> h \<in> set (slab_objs p mem) \<Longrightarrow> \<exists>fs'. F' s = Some (mem, c, fs')"
  shows "waiting p w' F' c h"
proof -
  obtain s mem fs where "F s = Some (mem, c, fs)" "h \<in> set (slab_objs p mem)"
    using assms(1) by (auto simp: waiting_def)
  moreover from this obtain fs' where "F' s = Some (mem, c, fs')" using assms(3) by blast
  ultimately show ?thesis using assms(1,2) unfolding waiting_def by auto
qed

lemma remote_rep_cong:
  assumes "remote_rep p m w F c l k q" and "\<And>h. h \<in> set q \<Longrightarrow> w_mh w' h = w_mh w h"
    and "get_remote m c l k w' = get_remote m c l k w"
    and "\<And>s mem fs h. F s = Some (mem, c, fs) \<Longrightarrow> h \<in> set (slab_objs p mem) \<Longrightarrow> h \<in> set q \<Longrightarrow>
       \<exists>fs'. F' s = Some (mem, c, fs')"
  shows "remote_rep p m w' F' c l k q"
proof -
  have "chain mh_next (w_mh w') a q = chain mh_next (w_mh w) a q" for a
    by (rule chain_cong) (simp add: assms(2))
  moreover have "waiting p w' F' c h" if "h \<in> set q" for h
  proof (rule waiting_cong)
    show "waiting p w F c h" using assms(1) that by (simp add: remote_rep_def)
  qed (use that assms(2,4) in auto)
  ultimately show ?thesis using assms(1,3) by (simp add: remote_rep_def)
qed

lemma remotes_ok_change:
  assumes "remotes_ok p m w F Q" and "\<And>h. h \<in> pending Q \<Longrightarrow> w_mh w' h = w_mh w h"
    and "\<And>c l k. get_remote m c l k w' = get_remote m c l k w"
    and "\<And>s mem c fs h. F s = Some (mem, c, fs) \<Longrightarrow> h \<in> set (slab_objs p mem) \<Longrightarrow> h \<in> pending Q \<Longrightarrow>
       \<exists>fs'. F' s = Some (mem, c, fs')"
  shows "remotes_ok p m w' F' Q"
proof -
  have "remote_rep p m w' F' c l k (Q c l k)" if "in_range c l k" for c l k
  proof (rule remote_rep_cong)
    show "remote_rep p m w F c l k (Q c l k)" by (rule remotes_okD(1) [OF assms(1) that])
    show "w_mh w' h = w_mh w h" if "h \<in> set (Q c l k)" for h
      using that by (intro assms(2)) (auto simp: pending_def)
    show "\<exists>fs'. F' s = Some (mem, c, fs')"
      if "F s = Some (mem, c, fs)" "h \<in> set (slab_objs p mem)" "h \<in> set (Q c l k)" for s mem fs h
      using that by (intro assms(4)) (auto simp: pending_def)
  qed (rule assms(3))
  then show ?thesis using assms(1) remotes_okD(2) [OF assms(1)] by (simp add: remotes_ok_def)
qed

section \<open>The rings\<close>

lemma partial_upd:
  assumes "F s = Some (mem, c, fs) \<or> F s = None"
  shows "partial (F(s \<mapsto> (mem, c, fs'))) c' =
     (if c' = c then (if fs' = [] then partial F c - {s} else insert s (partial F c)) else partial F c')"
  using assms by (auto simp: partial_def)

lemma home_upd: "F s = Some (mem, c, fs) \<Longrightarrow> home (F(s \<mapsto> (mem, c, fs'))) c' = home F c'"
  by (auto simp: home_def)

lemma home_drop: "home (F(s := None)) c = home F c - {s}"
  by (auto simp: home_def)

lemma home_new: "F s = None \<Longrightarrow> home (F(s \<mapsto> (mem, c, fs))) c' = (if c' = c then insert s (home F c) else home F c')"
  by (auto simp: home_def)

lemma finite_home: "finite (dom F) \<Longrightarrow> finite (home F c)"
  by (rule finite_subset [of _ "dom F"]) (auto simp: home_def)

lemma partial_disjoint: "c \<noteq> c' \<Longrightarrow> partial F c \<inter> partial F c' = {}"
  by (auto simp: partial_def)

lemma rings_okD:
  assumes "rings_ok m w F R" and "c < PS_NUMCORES"
  obtains si where "get_si m c w = Some si" "pl.list_at SLAB_LIST (w_ls w) (si_fl si) (R c)"
    "set (R c) = partial F c"
  using assms by (auto simp: rings_ok_def)

text \<open>After a change of the list heap that spares all other slabs.\<close>

lemma rings_ok_change:
  assumes "rings_ok m w F R" and "F s = Some (mem, c, fs)" and "c < PS_NUMCORES" and "get_si m c w = Some si"
    and "pl.list_at SLAB_LIST ls (fl) xs" and "set xs = partial (F(s \<mapsto> (mem, c, fs'))) c"
    and "fs' = [] \<longrightarrow> objs_dll SLAB_LIST ls [s]"
    and "\<And>ys. set ys \<inter> insert s (set (R c)) = {} \<Longrightarrow> objs_dll SLAB_LIST ls ys = objs_dll SLAB_LIST (w_ls w) ys"
  shows "rings_ok m (set_si m c (si\<lparr>si_fl := fl\<rparr>) (w\<lparr>w_ls := ls\<rparr>)) (F(s \<mapsto> (mem, c, fs'))) (R(c := xs))"
    (is "rings_ok m ?w ?F ?R")
proof -
  have g: "get_si m c' ?w = (if c' = c then Some (si\<lparr>si_fl := fl\<rparr>) else get_si m c' w)" for c'
    using assms(4) by (subst get_set_si [of _ _ _ si]) simp_all
  have Rc: "set (R c) = partial F c" by (rule rings_okD [OF assms(1,3)]) simp
  have one: "\<exists>si. get_si m c' ?w = Some si \<and> pl.list_at SLAB_LIST ls (si_fl si) (?R c') \<and> set (?R c') = partial ?F c'"
    if c': "c' < PS_NUMCORES" for c'
  proof (cases "c' = c")
    case True
    then show ?thesis using g assms(5,6) by simp
  next
    case False
    obtain si' where si': "get_si m c' w = Some si'" "pl.list_at SLAB_LIST (w_ls w) (si_fl si') (R c')"
      "set (R c') = partial F c'" using rings_okD [OF assms(1) c'] by blast
    have "s \<notin> partial F c'" using assms(2) False by (auto simp: partial_def)
    then have "set (R c') \<inter> insert s (set (R c)) = {}"
      using partial_disjoint [OF False, of F] si'(3) Rc by auto
    then have "pl.list_at SLAB_LIST ls (si_fl si') (R c')"
      using si'(2) assms(8) by (simp add: pl.list_at_def)
    then show ?thesis using si' g False partial_upd [of F s mem c fs fs' c'] assms(2) by simp
  qed
  have two: "objs_dll SLAB_LIST ls [s']" if "?F s' = Some (mem', c', [])" for s' mem' c'
  proof (cases "s' = s")
    case True
    then show ?thesis using that assms(7) by auto
  next
    case False
    then have F: "F s' = Some (mem', c', [])" using that by simp
    then have "s' \<notin> set (R c)" unfolding Rc by (auto simp: partial_def)
    then have "objs_dll SLAB_LIST ls [s'] = objs_dll SLAB_LIST (w_ls w) [s']"
      using False by (intro assms(8)) auto
    then show ?thesis using F assms(1) unfolding rings_ok_def by blast
  qed
  show ?thesis unfolding rings_ok_def
  proof (intro conjI allI impI)
    fix c' assume "c' < PS_NUMCORES"
    from one [OF this] show "\<exists>si. get_si m c' ?w = Some si \<and> pl.list_at SLAB_LIST (w_ls ?w) (si_fl si) (?R c') \<and>
       set (?R c') = partial ?F c'" by simp
  next
    fix s' mem' c' assume "?F s' = Some (mem', c', [])"
    from two [OF this] show "objs_dll SLAB_LIST (w_ls ?w) [s']" by simp
  qed
qed

lemma slab_linksI: "F s = Some (mem, c, fs) \<Longrightarrow> s + SLAB_LIST \<in> slab_links (mems F)"
  by (auto simp: slab_links_def mems_def)

lemma ring_links: "set xs = partial F c \<Longrightarrow> (\<lambda>y. y + SLAB_LIST) ` set xs \<subseteq> slab_links (mems F)"
  by (auto simp: slab_links_def mems_def partial_def)

lemma ring_add:
  assumes "rings_ok m w F R" and "F s = Some (mem, c, [])" and "c < PS_NUMCORES" and "s \<noteq> null" and "fs' \<noteq> []"
  shows "\<exists>si ls. get_si m c w = Some si \<and> ps_list_singleton s SLAB_LIST (w_ls w) = Some True \<and>
     slab_freelist_add (si_fl si) s (w_ls w) = Some (s, ls) \<and>
     rings_ok m (set_si m c (si\<lparr>si_fl := s\<rparr>) (w\<lparr>w_ls := ls\<rparr>)) (F(s \<mapsto> (mem, c, fs')))
       (R(c := s # tl (R c) @ take 1 (R c))) \<and>
     (\<forall>x. x \<notin> slab_links (mems F) \<longrightarrow> ls x = w_ls w x)"
proof -
  obtain si where si: "get_si m c w = Some si" "pl.list_at SLAB_LIST (w_ls w) (si_fl si) (R c)"
    "set (R c) = partial F c" using rings_okD [OF assms(1,3)] by blast
  have s: "s \<notin> set (R c)" unfolding si(3) using assms(2) by (auto simp: partial_def)
  have single: "objs_dll SLAB_LIST (w_ls w) [s]" using assms(1,2) unfolding rings_ok_def by blast
  obtain ls where ls: "(if si_fl si \<noteq> null then ps_list_add (si_fl si) s SLAB_LIST (w_ls w) else Some (w_ls w)) = Some ls"
    "pl.list_at SLAB_LIST ls s (s # tl (R c) @ take 1 (R c))"
    "\<forall>ys. set ys \<inter> set (s # R c) = {} \<longrightarrow> objs_dll SLAB_LIST ls ys = objs_dll SLAB_LIST (w_ls w) ys"
    using pl.list_at_add [OF si(2) single s assms(4)] by blast
  have e: "ps_list_singleton s SLAB_LIST (w_ls w) = Some True" using pl.ring_single [OF single] by simp
  have ne: "s \<noteq> si_fl si" using si(2) s assms(4) by (cases "R c") (auto simp: pl.list_at_def)
  have add: "slab_freelist_add (si_fl si) s (w_ls w) = Some (s, ls)"
    using assms(4) e ne ls(1) by (simp add: slab_freelist_add_def)
  have "set (s # tl (R c) @ take 1 (R c)) = insert s (set (R c))" by (cases "R c") auto
  then have set: "set (s # tl (R c) @ take 1 (R c)) = partial (F(s \<mapsto> (mem, c, fs'))) c"
    using si(3) partial_upd [of F s mem c "[]" fs' c] assms(2,5) by simp
  have "rings_ok m (set_si m c (si\<lparr>si_fl := s\<rparr>) (w\<lparr>w_ls := ls\<rparr>)) (F(s \<mapsto> (mem, c, fs')))
       (R(c := s # tl (R c) @ take 1 (R c)))"
    by (rule rings_ok_change [OF assms(1-3) si(1) ls(2) set]) (use assms(5) ls(3) in auto)
  moreover have "\<forall>x. x \<notin> slab_links (mems F) \<longrightarrow> ls x = w_ls w x"
  proof (intro allI impI)
    fix x assume x: "x \<notin> slab_links (mems F)"
    have "(\<lambda>y. y + SLAB_LIST) ` insert s (set (R c)) \<subseteq> slab_links (mems F)"
      using slab_linksI [of F s mem c "[]"] assms(2) ring_links [OF si(3)] by simp
    with x show "ls x = w_ls w x" by (intro list_at_add_cells [OF si(2) single s ls(1)]) blast
  qed
  ultimately show ?thesis using si(1) e add by blast
qed

lemma ring_rem:
  assumes "rings_ok m w F R" and "F s = Some (mem, c, fs)" and "fs \<noteq> []" and "c < PS_NUMCORES" and "s \<noteq> null"
  shows "\<exists>si fl ls. get_si m c w = Some si \<and> slab_freelist_rem (si_fl si) s (w_ls w) = Some (fl, ls) \<and>
     ps_list_singleton s SLAB_LIST ls = Some True \<and>
     rings_ok m (set_si m c (si\<lparr>si_fl := fl\<rparr>) (w\<lparr>w_ls := ls\<rparr>)) (F(s \<mapsto> (mem, c, []))) (R(c := remove1 s (R c))) \<and>
     (\<forall>x. x \<notin> slab_links (mems F) \<longrightarrow> ls x = w_ls w x)"
proof -
  obtain si where si: "get_si m c w = Some si" "pl.list_at SLAB_LIST (w_ls w) (si_fl si) (R c)"
    "set (R c) = partial F c" using rings_okD [OF assms(1,4)] by blast
  have s: "s \<in> set (R c)" unfolding si(3) using assms(2,3) by (auto simp: partial_def)
  then obtain us vs where R: "R c = us @ s # vs" by (meson split_list)
  have dis: "distinct (us @ s # vs)"
    using si(2) R pl.ring_distinct [of SLAB_LIST "w_ls w" "R c"] by (auto simp: pl.list_at_def)
  then have rem: "remove1 s (R c) = us @ vs" using R by (simp add: remove1_append)
  obtain fl ls where ls: "(if si_fl si = s then Option.bind (ps_list_singleton s SLAB_LIST (w_ls w))
        (\<lambda>e. if e then Some null else ps_list_next s SLAB_LIST (w_ls w)) else Some (si_fl si)) = Some fl"
    "ps_list_rem s SLAB_LIST (w_ls w) = Some ls" "pl.list_at SLAB_LIST ls fl (us @ vs)"
    "objs_dll SLAB_LIST ls [s]"
    "\<forall>ys. set ys \<inter> set (us @ s # vs) = {} \<longrightarrow> objs_dll SLAB_LIST ls ys = objs_dll SLAB_LIST (w_ls w) ys"
    using pl.list_at_rem [OF si(2) [unfolded R]] by blast
  have e: "ps_list_singleton s SLAB_LIST ls = Some True" using pl.ring_single [OF ls(4)] by simp
  have r: "slab_freelist_rem (si_fl si) s (w_ls w) = Some (fl, ls)"
    using assms(5) ls(1,2) by (simp add: slab_freelist_rem_def)
  have set: "set (us @ vs) = partial (F(s \<mapsto> (mem, c, []))) c"
    using si(3) partial_upd [of F s mem c fs "[]" c] assms(2) R dis by auto
  have "rings_ok m (set_si m c (si\<lparr>si_fl := fl\<rparr>) (w\<lparr>w_ls := ls\<rparr>)) (F(s \<mapsto> (mem, c, []))) (R(c := us @ vs))"
    by (rule rings_ok_change [OF assms(1,2,4) si(1) ls(3) set]) (use ls(4,5) R in auto)
  moreover have "\<forall>x. x \<notin> slab_links (mems F) \<longrightarrow> ls x = w_ls w x"
  proof (intro allI impI)
    fix x assume "x \<notin> slab_links (mems F)"
    with ring_links [OF si(3)] show "ls x = w_ls w x"
      unfolding R by (intro list_at_rem_cells [OF si(2) [unfolded R] ls(2)]) blast
  qed
  ultimately show ?thesis using si(1) e r rem by auto
qed

lemma rings_ok_keep:
  assumes "rings_ok m w F R" and "F s = Some (mem, c, fs)" and "(fs' = []) = (fs = [])"
  shows "rings_ok m w (F(s \<mapsto> (mem, c, fs'))) R"
proof -
  have "partial (F(s \<mapsto> (mem, c, fs'))) c' = partial F c'" for c'
    using assms(2,3) by (auto simp: partial_def)
  then show ?thesis using assms unfolding rings_ok_def by (auto split: if_splits)
qed

lemma rings_ok_drop:
  assumes "rings_ok m w F R" and "F s = Some (mem, c, [])"
  shows "rings_ok m w (F(s := None)) R"
proof -
  have "partial (F(s := None)) c' = partial F c'" for c' using assms(2) by (auto simp: partial_def)
  then show ?thesis using assms unfolding rings_ok_def by (auto split: if_splits)
qed

lemma rings_ok_new:
  assumes "rings_ok m w F R" and "F s = None" and "objs_dll SLAB_LIST (w_ls w) [s]"
  shows "rings_ok m w (F(s \<mapsto> (mem, c, []))) R"
proof -
  have "partial (F(s \<mapsto> (mem, c, []))) c' = partial F c'" for c' using assms(2) by (auto simp: partial_def)
  then show ?thesis using assms unfolding rings_ok_def by (auto split: if_splits)
qed

section \<open>Steps of the allocator itself\<close>

lemma own_step_set_si: "own_step p m M w (set_si m c si w)"
  by (simp add: own_step_def set_si_other)

lemma own_step_put:
  assumes "F s = Some (mem, c, fs)" and "w_sl w s = Some sl" and "h \<in> set (slab_objs p mem)"
  shows "own_step p m (mems F) w (put_obj s h w)"
  using assms slab_headsI [where F = F and s = s, OF assms(1,3)]
  by (auto simp: own_step_def put_obj_def get_ns_def slab_ids_def mems_def)

lemma own_step_take:
  assumes "F s = Some (mem, c, fs)" and "w_sl w s = Some sl" and "h \<in> set (slab_objs p mem)"
  shows "own_step p m (mems F) w (take_obj s h w)"
  using assms slab_headsI [where F = F and s = s, OF assms(1,3)]
  by (auto simp: own_step_def take_obj_def get_ns_def slab_ids_def mems_def)

text \<open>A change of a ring, and of the core's record with it.\<close>

lemma own_step_ring:
  "\<forall>x. x \<notin> slab_links M \<longrightarrow> ls x = w_ls w x \<Longrightarrow> own_step p m M w (set_si m c si (w\<lparr>w_ls := ls\<rparr>))"
  by (rule own_step_trans [OF own_step_ls own_step_set_si])

lemma own_step_remote:
  assumes "w' = w\<lparr>w_mem := w_mem w'\<rparr>" and "\<forall>m'. m' \<noteq> m \<longrightarrow> w_mem w' m' = w_mem w m'" and "get_ns m w' = get_ns m w"
  shows "own_step p m M w w'"
proof -
  have "w_blocks w' = w_blocks w" "w_answers w' = w_answers w" "w_ert w' = w_ert w" "w_pg w' = w_pg w"
    "w_sl w' = w_sl w" "w_ls w' = w_ls w" "w_mh w' = w_mh w" by (subst assms(1), simp)+
  then show ?thesis using assms(2,3) by (simp add: own_step_def)
qed

end
