(* ===== verification/Slab_Correct.thy ===== *)
theory Slab_Correct
  imports Slab_Ops
begin

text \<open>
  Correctness of the slab allocator: setting up a slab strings its objects together; freeing an object
  removes exactly it from the live set, locally or through a remote list; draining the remote lists
  ends and leaves the live set alone; allocating adds exactly one object, or nothing.  The backend the
  allocator gets its memory from enters through the locale \<open>slab_backend\<close>.
\<close>

section \<open>Setting up a slab\<close>

lemma slab_init_loop_spec:
  assumes "\<And>j. f (Suc j) = f j + sz" and "inj_on f {i..i + n}"
    and "h (f i) = Some hp" and "\<And>j. i < j \<Longrightarrow> j \<le> i + n \<Longrightarrow> h (f j) = Some zero_mheader"
  shows "\<exists>h'. slab_init_loop n sz s (f i) (f (Suc i)) h = Some (f (Suc (i + n)), h') \<and>
    (\<forall>x. x \<notin> f ` {i..i + n} \<longrightarrow> h' x = h x) \<and>
    h' (f i) = Some (if n = 0 then hp else hp\<lparr>mh_next := f (Suc i)\<rparr>) \<and>
    (\<forall>j. i < j \<and> j \<le> i + n \<longrightarrow> h' (f j) = Some \<lparr>mh_tsc_free = 1, mh_slab = s,
       mh_next = (if j < i + n then f (Suc j) else null)\<rparr>)"
  using assms(2-4)
proof (induction n arbitrary: i h hp)
  case 0
  then show ?case by auto
next
  case (Suc n)
  have inj: "f a = f b \<longleftrightarrow> a = b" if "a \<in> {i..i + Suc n}" "b \<in> {i..i + Suc n}" for a b
    using inj_on_eq_iff [OF Suc.prems(1)] that by blast
  define h1 where "h1 = h(f (Suc i) \<mapsto> \<lparr>mh_tsc_free = 1, mh_slab = s, mh_next = null\<rparr>)"
  define h2 where "h2 = h1(f i \<mapsto> hp\<lparr>mh_next := f (Suc i)\<rparr>)"
  have z: "h (f (Suc i)) = Some zero_mheader" using Suc.prems(3) by simp
  have ne: "f (Suc i) \<noteq> f i" using inj [of "Suc i" i] by simp
  have i1: "ps_mhead_init (f (Suc i)) s h = Some h1"
    using z by (simp add: ps_mhead_init_def ps_mhead_setfree_def upd_mh_def h1_def zero_mheader_def)
  have i2: "set_mh_next (f i) (f (Suc i)) h1 = Some h2"
    using Suc.prems(2) ne by (simp add: set_mh_next_def upd_mh_def h1_def h2_def)
  have "\<exists>h'. slab_init_loop n sz s (f (Suc i)) (f (Suc (Suc i))) h2 = Some (f (Suc (Suc i + n)), h') \<and>
    (\<forall>x. x \<notin> f ` {Suc i..Suc i + n} \<longrightarrow> h' x = h2 x) \<and>
    h' (f (Suc i)) = Some (if n = 0 then \<lparr>mh_tsc_free = 1, mh_slab = s, mh_next = null\<rparr>
       else \<lparr>mh_tsc_free = 1, mh_slab = s, mh_next = null\<rparr>\<lparr>mh_next := f (Suc (Suc i))\<rparr>) \<and>
    (\<forall>j. Suc i < j \<and> j \<le> Suc i + n \<longrightarrow> h' (f j) = Some \<lparr>mh_tsc_free = 1, mh_slab = s,
       mh_next = (if j < Suc i + n then f (Suc j) else null)\<rparr>)"
  proof (rule Suc.IH)
    show "inj_on f {Suc i..Suc i + n}" by (rule inj_on_subset [OF Suc.prems(1)]) auto
    show "h2 (f (Suc i)) = Some \<lparr>mh_tsc_free = 1, mh_slab = s, mh_next = null\<rparr>"
      using ne by (simp add: h1_def h2_def)
    fix j assume "Suc i < j" "j \<le> Suc i + n"
    then show "h2 (f j) = Some zero_mheader"
      using Suc.prems(3) [of j] inj [of j i] inj [of j "Suc i"] by (simp add: h1_def h2_def)
  qed
  then obtain h' where h': "slab_init_loop n sz s (f (Suc i)) (f (Suc (Suc i))) h2 = Some (f (Suc (Suc i + n)), h')"
    and out: "\<And>x. x \<notin> f ` {Suc i..Suc i + n} \<Longrightarrow> h' x = h2 x"
    and first: "h' (f (Suc i)) = Some \<lparr>mh_tsc_free = 1, mh_slab = s, mh_next = (if n = 0 then null else f (Suc (Suc i)))\<rparr>"
    and rest: "\<And>j. Suc i < j \<Longrightarrow> j \<le> Suc i + n \<Longrightarrow> h' (f j) = Some \<lparr>mh_tsc_free = 1, mh_slab = s,
       mh_next = (if j < Suc i + n then f (Suc j) else null)\<rparr>"
    by auto
  have run: "slab_init_loop (Suc n) sz s (f i) (f (Suc i)) h = Some (f (Suc (i + Suc n)), h')"
    using i1 i2 h' assms(1) [of "Suc i"] by simp
  have "f i \<notin> f ` {Suc i..Suc i + n}"
  proof
    assume "f i \<in> f ` {Suc i..Suc i + n}"
    then obtain j where "j \<in> {Suc i..Suc i + n}" "f i = f j" by blast
    then show False using inj [of i j] by auto
  qed
  then have fi: "h' (f i) = Some (hp\<lparr>mh_next := f (Suc i)\<rparr>)" using out by (simp add: h2_def)
  have outside: "h' x = h x" if "x \<notin> f ` {i..i + Suc n}" for x
  proof -
    have "x \<noteq> f i" "x \<noteq> f (Suc i)" "x \<notin> f ` {Suc i..Suc i + n}" using that by auto
    then show ?thesis using out by (simp add: h1_def h2_def)
  qed
  have objs: "h' (f j) = Some \<lparr>mh_tsc_free = 1, mh_slab = s,
       mh_next = (if j < i + Suc n then f (Suc j) else null)\<rparr>" if "i < j" "j \<le> i + Suc n" for j
    using that first rest [of j] by (cases "j = Suc i") auto
  from run fi outside objs show ?case by auto
qed

text \<open>The whole slab: its free list is all its objects in order.\<close>

lemma slab_init_objs:
  assumes "params_ok p" and "fits p mem" and "\<And>h. h \<in> set (slab_objs p mem) \<Longrightarrow> mh h = Some zero_mheader"
  shows "\<exists>mh'. slab_init_loop (nobjs p) (ps_slab_objmemsz (sp_obj_sz p)) s (mem + sp_headoff p) (mem + sp_headoff p) mh
      = Some (obj_at p mem (nobjs p), mh') \<and>
    (\<forall>x. x \<notin> set (slab_objs p mem) \<longrightarrow> mh' x = mh x) \<and>
    chain mh_next mh' (mem + sp_headoff p) (slab_objs p mem) \<and>
    headers_ok p mh' s mem (slab_objs p mem)"
proof -
  let ?f = "obj_at p mem" and ?sz = "ps_slab_objmemsz (sp_obj_sz p)"
  obtain n where n: "nobjs p = Suc n" "0 < n" using nobjs_bounds(1) [OF assms(1)] by (cases "nobjs p") auto
  have set: "set (slab_objs p mem) = ?f ` {0..n}"
    by (simp only: slab_objs_def n set_map set_upt atLeastLessThanSuc_atLeastAtMost)
  have inj: "inj_on ?f {0..0 + n}" using obj_at_inj [OF assms(1,2)] n(1) by (auto intro!: inj_onI)
  define mh1 where "mh1 = mh(?f 0 \<mapsto> \<lparr>mh_tsc_free = 1, mh_slab = s, mh_next = ?f 0\<rparr>)"
  have z: "mh (?f j) = Some zero_mheader" if "j \<le> n" for j using that set assms(3) by auto
  have z1: "mh1 (?f j) = Some zero_mheader" if "0 < j" "j \<le> 0 + n" for j
    using that z [of j] inj_on_eq_iff [OF inj, of j 0] by (auto simp: mh1_def)
  obtain mh' where mh': "slab_init_loop n ?sz s (?f 0) (?f (Suc 0)) mh1 = Some (?f (Suc (0 + n)), mh')"
    and out: "\<And>x. x \<notin> ?f ` {0..0 + n} \<Longrightarrow> mh' x = mh1 x"
    and first: "mh' (?f 0) = Some (\<lparr>mh_tsc_free = 1, mh_slab = s, mh_next = ?f 0\<rparr>\<lparr>mh_next := ?f (Suc 0)\<rparr>)"
    and rest: "\<And>j. 0 < j \<Longrightarrow> j \<le> 0 + n \<Longrightarrow> mh' (?f j) = Some \<lparr>mh_tsc_free = 1, mh_slab = s,
       mh_next = (if j < 0 + n then ?f (Suc j) else null)\<rparr>"
    using slab_init_loop_spec [of ?f ?sz 0 n mh1 "\<lparr>mh_tsc_free = 1, mh_slab = s, mh_next = ?f 0\<rparr>" s,
        OF obj_at_Suc inj _ z1] n(2) by (auto simp: mh1_def)
  have "ps_mhead_init (?f 0) s mh = Some (mh(?f 0 \<mapsto> \<lparr>mh_tsc_free = 1, mh_slab = s, mh_next = null\<rparr>))"
    using z [of 0] by (simp add: ps_mhead_init_def ps_mhead_setfree_def upd_mh_def zero_mheader_def)
  then have run: "slab_init_loop (nobjs p) ?sz s (mem + sp_headoff p) (mem + sp_headoff p) mh = Some (?f (nobjs p), mh')"
    using mh' by (simp add: n set_mh_next_def upd_mh_def mh1_def obj_at_Suc obj_at_0 [symmetric] del: obj_at_0)
  have cell: "mh' (?f j) = Some \<lparr>mh_tsc_free = 1, mh_slab = s, mh_next = (if j < n then ?f (Suc j) else null)\<rparr>"
    if "j \<le> n" for j using that first rest [of j] n(2) by (cases "j = 0") auto
  have nn: "null \<notin> set (slab_objs p mem)" using slab_objs_nonnull [OF assms(1,2)] by blast
  have "chain mh_next mh' (if slab_objs p mem = [] then null else hd (slab_objs p mem)) (slab_objs p mem)"
  proof (rule chain_nth [OF _ nn])
    fix j assume "j < length (slab_objs p mem)"
    then have "j \<le> n" by (simp add: n)
    from cell [OF this] this show "\<exists>c. mh' (slab_objs p mem ! j) = Some c \<and>
       mh_next c = (if Suc j < length (slab_objs p mem) then slab_objs p mem ! Suc j else null)"
      by (simp add: slab_objs_def n del: upt_Suc)
  qed
  moreover have "hd (slab_objs p mem) = mem + sp_headoff p" "slab_objs p mem \<noteq> []"
    by (simp_all add: slab_objs_def n upt_conv_Cons obj_at_0 del: upt_Suc)
  moreover have "headers_ok p mh' s mem (slab_objs p mem)"
    unfolding headers_ok_def set using cell by auto
  moreover have "mh' x = mh x" if "x \<notin> set (slab_objs p mem)" for x
  proof -
    have "x \<notin> ?f ` {0..0 + n}" "x \<noteq> ?f 0" using that unfolding set by auto
    then show ?thesis using out by (simp add: mh1_def)
  qed
  ultimately show ?thesis using run by auto
qed

lemma rings_ok_frame:
  assumes "rings_ok m w F R" and "\<And>c. get_si m c w' = get_si m c w"
    and "\<And>s x. F s = Some x \<Longrightarrow> w_ls w' (s + SLAB_LIST) = w_ls w (s + SLAB_LIST)"
  shows "rings_ok m w' F R"
proof -
  have d: "objs_dll SLAB_LIST (w_ls w') xs = objs_dll SLAB_LIST (w_ls w) xs"
    if "\<And>s. s \<in> set xs \<Longrightarrow> \<exists>x. F s = Some x" for xs
    unfolding objs_dll_def by (rule dll_frame) (use that assms(3) in fastforce)
  have "\<exists>si. get_si m c w' = Some si \<and> pl.list_at SLAB_LIST (w_ls w') (si_fl si) (R c) \<and> set (R c) = partial F c"
    if "c < PS_NUMCORES" for c
  proof -
    obtain si where si: "get_si m c w = Some si" "pl.list_at SLAB_LIST (w_ls w) (si_fl si) (R c)"
      "set (R c) = partial F c" using rings_okD [OF assms(1) \<open>c < PS_NUMCORES\<close>] by blast
    then have "objs_dll SLAB_LIST (w_ls w') (R c) = objs_dll SLAB_LIST (w_ls w) (R c)"
      by (intro d) (auto simp: partial_def)
    with si assms(2) show ?thesis by (simp add: pl.list_at_def)
  qed
  moreover have "objs_dll SLAB_LIST (w_ls w') [s]" if "F s = Some (mem, c, [])" for s mem c
    using d [of "[s]"] assms(1) that unfolding rings_ok_def by auto
  ultimately show ?thesis by (simp add: rings_ok_def)
qed

lemma ps_slab_init_ok:
  assumes "params_ok p" and "fits p mem" and "s \<noteq> null" and "c < PS_NUMCORES" and "sp_coreid p = c" and "fst here = c"
    and "w_sl w s = Some sl" and "sl_memory sl = mem" and "\<forall>h \<in> set (slab_objs p mem). w_mh w h = Some zero_mheader"
    and "w_ls w (s + SLAB_LIST) = Some l"
    and "slabs_ok p w F" and "rings_ok m w F R" and "F s = None"
    and "\<forall>s' mem' c' fs'. F s' = Some (mem', c', fs') \<longrightarrow> set (slab_objs p mem') \<inter> set (slab_objs p mem) = {}"
  shows "\<exists>w1 w2 si. ps_slab_init s m p here w = Some w1 \<and> slabs_ok p w1 (F(s \<mapsto> (mem, c, slab_objs p mem))) \<and>
     rings_ok m w1 (F(s \<mapsto> (mem, c, slab_objs p mem))) (R(c := s # tl (R c) @ take 1 (R c))) \<and>
     get_si m c w = Some si \<and> w1 = set_si m c (si\<lparr>si_fl := s\<rparr>) w2 \<and> w_mem w2 = w_mem w \<and>
     own_step p m (mems (F(s \<mapsto> (mem, c, slab_objs p mem)))) w w1 \<and>
     (\<forall>h. h \<notin> set (slab_objs p mem) \<longrightarrow> w_mh w1 h = w_mh w h) \<and>
     (\<exists>sl'. w_sl w1 s = Some sl' \<and> sl_memory sl' = mem \<and> sl_freelist sl' \<noteq> null)"
proof -
  let ?objs = "slab_objs p mem"
  let ?sl = "sl\<lparr>sl_nfree := ps_slab_max_nobjs (sp_obj_sz p) (sp_allocsz p) (sp_headoff p),
     sl_memsz := sp_allocsz p, sl_coreid := c, sl_freelist := mem + sp_headoff p\<rparr>"
  obtain mh where mh: "slab_init_loop (nobjs p) (ps_slab_objmemsz (sp_obj_sz p)) s (mem + sp_headoff p)
      (mem + sp_headoff p) (w_mh w) = Some (obj_at p mem (nobjs p), mh)"
    and out: "\<forall>x. x \<notin> set ?objs \<longrightarrow> mh x = w_mh w x" and ch: "chain mh_next mh (mem + sp_headoff p) ?objs"
    and hs: "headers_ok p mh s mem ?objs"
    using slab_init_objs [of p mem "w_mh w" s, OF assms(1,2)] assms(9) by blast
  obtain ls where ls: "ps_list_init s SLAB_LIST (w_ls w) = Some ls" "objs_dll SLAB_LIST ls [s]"
    "\<forall>a. a \<noteq> s + SLAB_LIST \<longrightarrow> ls a = w_ls w a"
    using ps_list_ll_init_dll [of "w_ls w" "s + SLAB_LIST" l] assms(10) by (auto simp: ps_list_init_def objs_dll_def)
  define w2 where "w2 = w\<lparr>w_sl := (w_sl w)(s \<mapsto> ?sl), w_mh := mh, w_ls := ls\<rparr>"
  have nn: "mem + sp_headoff p \<noteq> null"
  proof -
    have "obj_at p mem 0 \<in> set (slab_objs p mem)"
      unfolding slab_objs_def set_map using nobjs_bounds(1) [OF assms(1)] by (intro imageI) simp
    then show ?thesis using slab_objs_nonnull [OF assms(1,2)] by (simp add: obj_at_0)
  qed
  have "unat (obj_at p mem (nobjs p)) \<le> unat mem + unat (sp_allocsz p)"
    using unat_obj_at [OF assms(1,2), of "nobjs p"] nobjs_bounds(3) [OF assms(1)] by simp
  also have "\<dots> = unat (mem + sp_allocsz p)"
    using assms(2) by (simp add: fits_def unat_add_small)
  finally have fit: "obj_at p mem (nobjs p) \<le> mem + sp_allocsz p" by (simp add: word_le_nat_alt)
  have run: "ps_slab_init s m p here w = on_ring (\<lambda>fl. slab_freelist_add fl s) m c w2"
    using assms(5-8) mh fit ls(1)
    by (simp add: ps_slab_init_def upd_slab_def on_ls_def w2_def nobjs_def ps_slab_max_nobjs_def Let_def)
  have rep: "slab_rep p w2 s mem c ?objs"
    using assms(2-4,8) ch hs by (simp add: slab_rep_def w2_def nobjs_def)
  have sl2: "slabs_ok p w2 (F(s \<mapsto> (mem, c, ?objs)))"
  proof (rule slabs_ok_new [OF assms(11,13) rep])
    fix s' mem' c' fs' assume F: "F s' = Some (mem', c', fs')"
    then have "s' \<noteq> s" using assms(13) by auto
    then show "w_sl w2 s' = w_sl w s' \<and> (\<forall>h \<in> set (slab_objs p mem'). w_mh w2 h = w_mh w h)"
      using assms(14) F out by (fastforce simp: w2_def)
  qed
  have "rings_ok m w2 F R"
  proof (rule rings_ok_frame [OF assms(12)])
    fix s' x assume "F s' = Some x"
    then have "s' \<noteq> s" using assms(13) by auto
    then show "w_ls w2 (s' + SLAB_LIST) = w_ls w (s' + SLAB_LIST)" using ls(3) by (simp add: w2_def)
  qed (simp add: w2_def)
  then have "rings_ok m w2 (F(s \<mapsto> (mem, c, []))) R"
    by (rule rings_ok_new [of m w2 F R s, OF _ assms(13)]) (simp add: w2_def ls(2))
  have ne: "?objs \<noteq> []" using nobjs_bounds(1) [OF assms(1)] by (auto simp: slab_objs_def)
  from ring_add [OF \<open>rings_ok m w2 (F(s \<mapsto> (mem, c, []))) R\<close> _ assms(4,3) ne, of mem] obtain si ls' where
    si: "get_si m c w2 = Some si" "slab_freelist_add (si_fl si) s (w_ls w2) = Some (s, ls')"
    and r: "rings_ok m (set_si m c (si\<lparr>si_fl := s\<rparr>) (w2\<lparr>w_ls := ls'\<rparr>))
       (F(s \<mapsto> (mem, c, ?objs))) (R(c := s # tl (R c) @ take 1 (R c)))"
    and lk: "\<forall>x. x \<notin> slab_links (mems (F(s \<mapsto> (mem, c, [])))) \<longrightarrow> ls' x = w_ls w2 x"
    by auto
  let ?w1 = "set_si m c (si\<lparr>si_fl := s\<rparr>) (w2\<lparr>w_ls := ls'\<rparr>)"
  have "ps_slab_init s m p here w = Some ?w1" unfolding run
    by (rule on_ring_set [where f = "\<lambda>fl. slab_freelist_add fl s", OF si])
  moreover have "slabs_ok p ?w1 (F(s \<mapsto> (mem, c, ?objs)))"
    using sl2 by (subst slabs_ok_cong [of _ w2]) simp_all
  moreover have "get_si m c w = Some si" using si(1) by (simp add: w2_def)
  moreover have "own_step p m (mems (F(s \<mapsto> (mem, c, ?objs)))) w ?w1"
  proof (rule own_step_trans [OF _ own_step_ring])
    let ?M = "mems (F(s \<mapsto> (mem, c, ?objs)))"
    have sm: "s \<in> dom ?M" by (auto simp: mems_def)
    have "ls x = w_ls w x" if "x \<notin> slab_links ?M" for x
    proof -
      have "x \<noteq> s + SLAB_LIST" using that sm unfolding slab_links_def by blast
      then show ?thesis using ls(3) by simp
    qed
    moreover note sm
    moreover have "x \<in> slab_heads p ?M" if "x \<in> set ?objs" for x
      by (rule slab_headsI [where F = "F(s \<mapsto> (mem, c, ?objs))" and s = s, OF _ that]) simp
    ultimately show "own_step p m ?M w w2"
      using out assms(7) by (auto simp: own_step_def w2_def get_ns_def slab_ids_def)
    have "mems (F(s \<mapsto> (mem, c, []))) = ?M" by (auto simp: mems_def)
    then show "\<forall>x. x \<notin> slab_links ?M \<longrightarrow> ls' x = w_ls w2 x" using lk by simp
  qed
  ultimately show ?thesis
    using r out nn assms(8)
    by (intro exI [of _ ?w1] exI [of _ "w2\<lparr>w_ls := ls'\<rparr>"] exI [of _ si]) (simp add: w2_def)
qed

section \<open>The live set\<close>

lemma ownedI: "F s = Some (mem, c, fs) \<Longrightarrow> h \<in> set (slab_objs p mem) \<Longrightarrow> h \<notin> set fs \<Longrightarrow> h \<in> owned p F"
  by (auto simp: owned_def)

lemma ownedE:
  assumes "h \<in> owned p F"
  obtains s mem c fs where "F s = Some (mem, c, fs)" "h \<in> set (slab_objs p mem)" "h \<notin> set fs"
  using assms by (auto simp: owned_def)

lemma not_owned_free:
  assumes "slabs_ok p w F" and "F s = Some (mem, c, fs)" and "h \<in> set fs"
  shows "h \<notin> owned p F"
proof
  assume "h \<in> owned p F"
  then obtain s' mem' c' fs' where 1: "F s' = Some (mem', c', fs')" "h \<in> set (slab_objs p mem')" "h \<notin> set fs'"
    by (auto simp: owned_def)
  have "h \<in> set (slab_objs p mem)" using slabs_okD [OF assms(1,2)] assms(3) by (auto simp: slab_rep_def)
  from objs_unique [OF assms(1,2) this 1(1,2)] 1(3) assms(3) show False by simp
qed

lemma owned_put:
  assumes "slabs_ok p w F" and "F s = Some (mem, c, fs)" and "h \<in> set (slab_objs p mem)"
  shows "owned p (F(s \<mapsto> (mem, c, h # fs))) = owned p F - {h}" (is "owned p ?F = _")
proof (intro set_eqI iffI)
  fix x assume "x \<in> owned p ?F"
  then obtain s' mem' c' fs' where 1: "?F s' = Some (mem', c', fs')" "x \<in> set (slab_objs p mem')" "x \<notin> set fs'"
    by (auto simp: owned_def)
  show "x \<in> owned p F - {h}"
  proof (cases "s' = s")
    case True
    then show ?thesis using 1 ownedI [of F s mem c fs x p] assms(2) by auto
  next
    case False
    then have "F s' = Some (mem', c', fs')" using 1(1) by simp
    moreover from this have "x \<noteq> h" using objs_unique [OF assms(1-3), of s' mem' c' fs'] 1(2) False by auto
    ultimately show ?thesis using 1 by (auto simp: owned_def)
  qed
next
  fix x assume x: "x \<in> owned p F - {h}"
  then obtain s' mem' c' fs' where 1: "F s' = Some (mem', c', fs')" "x \<in> set (slab_objs p mem')" "x \<notin> set fs'"
    by (auto simp: owned_def)
  then show "x \<in> owned p ?F"
    using x assms(2) ownedI [of ?F s' mem' c' fs' x p] ownedI [of ?F s mem c "h # fs" x p]
    by (cases "s' = s") auto
qed

lemma owned_take:
  assumes "slabs_ok p w F" and "F s = Some (mem, c, h # fs)"
  shows "owned p (F(s \<mapsto> (mem, c, fs))) = insert h (owned p F)"
proof -
  have h: "h \<in> set (slab_objs p mem)" "h \<notin> set fs"
    using slabs_okD [OF assms] free_distinct(1) [OF slabs_okD [OF assms]] by (auto simp: slab_rep_def)
  let ?F = "F(s \<mapsto> (mem, c, fs))"
  have "slabs_ok p (take_obj s h w) ?F" by (rule take_slabs_ok [OF assms])
  from owned_put [OF this, of s mem c fs h] h have "owned p (F(s \<mapsto> (mem, c, h # fs))) = owned p ?F - {h}"
    by simp
  moreover have "F(s \<mapsto> (mem, c, h # fs)) = F" using assms(2) by auto
  moreover have "h \<in> owned p ?F" using h by (auto simp: owned_def)
  ultimately show ?thesis by auto
qed

lemma owned_drop:
  assumes "F s = Some (mem, c, fs)" and "set (slab_objs p mem) \<subseteq> set fs"
  shows "owned p (F(s := None)) = owned p F"
proof (intro set_eqI iffI)
  fix x assume "x \<in> owned p (F(s := None))"
  then show "x \<in> owned p F" by (auto elim!: ownedE intro: ownedI split: if_splits)
next
  fix x assume "x \<in> owned p F"
  then obtain s' mem' c' fs' where 1: "F s' = Some (mem', c', fs')" "x \<in> set (slab_objs p mem')" "x \<notin> set fs'"
    by (rule ownedE)
  then have "s' \<noteq> s" using assms by auto
  with 1 show "x \<in> owned p (F(s := None))" by (intro ownedI [of _ s' mem' c' fs']) auto
qed

lemma owned_new:
  assumes "F s = None"
  shows "owned p (F(s \<mapsto> (mem, c, slab_objs p mem))) = owned p F"
  using owned_drop [of "F(s \<mapsto> (mem, c, slab_objs p mem))" s mem c "slab_objs p mem" p] assms
  by (simp add: fun_upd_idem)

text \<open>A free list that is as long as the slab has objects holds all of them.\<close>

lemma all_free:
  assumes "params_ok p" and "slab_rep p w s mem c fs" and "length fs = nobjs p"
  shows "set fs = set (slab_objs p mem)"
proof (rule card_subset_eq)
  show "set fs \<subseteq> set (slab_objs p mem)" using assms(2) by (simp add: slab_rep_def)
  have "fits p mem" using assms(2) by (simp add: slab_rep_def)
  then show "card (set fs) = card (set (slab_objs p mem))"
    using assms(3) free_distinct(1) [OF assms(2)] distinct_slab_objs [OF assms(1)]
    by (simp add: distinct_card)
qed simp

section \<open>Freeing\<close>

text \<open>The sizes as \<open>ps_slab_mem_free\<close> computes them.\<close>

lemma max_nobjs_u32:
  assumes "params_ok p"
  shows "unat (ucast (ucast (ps_slab_max_nobjs (sp_obj_sz p) (sp_allocsz p) (sp_headoff p)) :: u32) :: u64) = nobjs p"
proof -
  let ?n = "ps_slab_max_nobjs (sp_obj_sz p) (sp_allocsz p) (sp_headoff p)"
  have "unat ?n < 2 ^ 32" using nobjs_bounds(2) [OF assms] by (simp add: nobjs_def)
  then show ?thesis
    by (simp add: nobjs_def unsigned_ucast_eq unat_take_bit_u64)
qed

lemma size_check:
  assumes "params_ok p"
  shows "ps_slab_objmemsz (sp_obj_sz p) + sp_headoff p \<le> sp_allocsz p" "sp_obj_sz p + sp_headoff p \<le> sp_allocsz p"
  using objsz_bounds [OF assms] assms
  by (auto simp: word_le_nat_alt params_ok_def unat_add_small)

text \<open>The local case up to the decision what becomes of the slab.\<close>

lemma mem_free_local:
  assumes "params_ok p" and "w_mh w h = Some d" and "mh_tsc_free d = 0" and "mh_slab d = s" and "s \<noteq> null"
    and "w_sl w s = Some sl" and "sl_coreid sl = sp_coreid p"
  shows "ps_slab_mem_free (ps_mhead_mem h) m p here w = (let w = put_obj s h w in
     if unat (sl_nfree sl + 1) = nobjs p then do {
         w \<leftarrow> upd_si m (sp_coreid p) (\<lambda>si. si\<lparr>si_nslabs := si_nslabs si - 1\<rparr>) w;
         w \<leftarrow> on_ring (\<lambda>fl. slab_freelist_rem fl s) m (sp_coreid p) w;
         sp_ffn p m s (sl_memsz sl) (sp_coreid p) w }
       else if sl_nfree sl + 1 = 1 then do {
         e \<leftarrow> ps_list_singleton s SLAB_LIST (w_ls w);
         c_assert e;
         c_assert (sl_memory sl \<noteq> null \<and> h \<noteq> null);
         on_ring (\<lambda>fl. slab_freelist_add fl s) m (sp_coreid p) w }
       else Some w)"
proof -
  have n: "sl_nfree sl + 1 = ucast (ucast (ps_slab_max_nobjs (sp_obj_sz p) (sp_allocsz p) (sp_headoff p)) :: u32)
    \<longleftrightarrow> unat (sl_nfree sl + 1) = nobjs p"
    using max_nobjs_u32 [OF assms(1)] by (metis word_unat_eq_iff)
  show ?thesis
    using assms(2-7) size_check(1) [OF assms(1)] n
    by (simp add: ps_slab_mem_free_def ps_mhead_isfree_def on_mh_def ps_mhead_setfree_def set_mh_next_def
        upd_mh_def upd_slab_def put_obj_def Let_def)
qed

text \<open>On another core than the home of the slab: pushed on the remote list of the freeing core.\<close>

lemma slab_invD:
  assumes "slab_inv p m w F R Q"
  shows "slabs_ok p w F" "rings_ok m w F R" "counts_ok m w F" "remotes_ok p m w F Q"
    "F s = Some (mem, c, fs) \<Longrightarrow> length fs < nobjs p"
  using assms by (simp_all add: slab_inv_def)

lemma liveE:
  assumes "h \<in> live p F Q" and "slabs_ok p w F"
  obtains s mem c fs where "F s = Some (mem, c, fs)" "h \<in> set (slab_objs p mem)" "h \<notin> set fs" "h \<notin> pending Q"
    "s \<noteq> null" "c < PS_NUMCORES" "fits p mem"
  using assms by (auto simp: live_def slab_rep_def elim!: ownedE dest: slabs_okD)

lemma mem_free_remote:
  assumes "params_ok p" and "slab_inv p m w F R Q" and "h \<in> live p F Q" and "w_mh w h = Some d"
    and "mh_tsc_free d = 0" and "snd here < PS_NUMLOCALITIES"
    and "F s = Some (mem, c, fs)" and "h \<in> set (slab_objs p mem)" and "c \<noteq> sp_coreid p"
  defines "k \<equiv> fst here mod NUM_REMOTE_LIST"
  shows "\<exists>w'. ps_slab_mem_free (ps_mhead_mem h) m p here w = Some w' \<and>
    slab_inv p m w' F R (\<lambda>a b e. if (a, b, e) = (c, snd here, k) then h # Q a b e else Q a b e) \<and>
    own_step p m (mems F) w w' \<and> (\<forall>x. x \<noteq> h \<longrightarrow> w_mh w' x = w_mh w x)"
proof -
  note inv = slab_invD [OF assms(2)]
  let ?Q = "\<lambda>a b e. if (a, b, e) = (c, snd here, k) then h # Q a b e else Q a b e"
  note rep = slabs_okD [OF inv(1) assms(7)]
  have hs: "mh_slab d = s" using header_slab [OF inv(1) assms(7,8)] assms(4) by simp
  have nf: "h \<notin> set fs" "h \<notin> pending Q" "h \<in> owned p F"
    using assms(3,7) not_owned_free [OF inv(1) assms(7)] by (auto simp: live_def)
  have hn: "h \<noteq> null" using slab_objs_nonnull [OF assms(1) _ assms(8)] rep by (simp add: slab_rep_def)
  have rng: "in_range c (snd here) k"
    using rep assms(6) by (simp add: in_range_def slab_rep_def k_def NUM_REMOTE_LIST_def PS_CACHE_LINE_def)
  obtain a where a: "get_remote m c (snd here) k w = Some a" "chain mh_next (w_mh w) a (Q c (snd here) k)"
    using remotes_okD(1) [OF inv(4) rng] by (auto simp: remote_rep_def)
  define mh where "mh = (w_mh w)(h \<mapsto> d\<lparr>mh_next := a\<rparr>)"
  have a': "get_remote m c (snd here) k (w\<lparr>w_mh := mh\<rparr>) = Some a" using a(1) by simp
  obtain w' where w': "set_remote m c (snd here) k h (w\<lparr>w_mh := mh\<rparr>) = Some w'"
    "w' = (w\<lparr>w_mh := mh\<rparr>)\<lparr>w_mem := w_mem w'\<rparr>" "\<forall>c'. get_si m c' w' = get_si m c' w"
    "\<forall>c' l' k'. get_remote m c' l' k' w' = (if (c', l', k') = (c, snd here, k) then Some h else get_remote m c' l' k' w)"
    "\<forall>m'. m' \<noteq> m \<longrightarrow> w_mem w' m' = w_mem (w\<lparr>w_mh := mh\<rparr>) m'" "get_ns m w' = get_ns m (w\<lparr>w_mh := mh\<rparr>)"
    using set_remote_effect [OF a', of h] unfolding get_si_updates get_remote_updates by blast
  have f: "w_mh w' = mh" "w_sl w' = w_sl w" "w_ls w' = w_ls w" "w_blocks w' = w_blocks w" "w_answers w' = w_answers w"
    by (subst w'(2), simp)+
  have run: "ps_slab_mem_free (ps_mhead_mem h) m p here w = Some w'"
  proof -
    obtain sl where "w_sl w s = Some sl" "sl_coreid sl = c" "s \<noteq> null" using rep by (auto simp: slab_rep_def)
    then have "ps_slab_mem_free (ps_mhead_mem h) m p here w = ps_slab_mem_remote_free here m h c w"
      using assms(4,5,9) hs size_check(1) [OF assms(1)]
      by (simp add: ps_slab_mem_free_def ps_mhead_isfree_def)
    also have "\<dots> = Some w'"
      using a(1) w'(1) assms(4)
      by (simp add: ps_slab_mem_remote_free_def k_def [symmetric] split_beta ps_rfl_stack_push_1 [of 0, simplified]
          set_mh_next_def upd_mh_def mh_def)
    finally show ?thesis .
  qed
  have mh: "mh x = w_mh w x" if "x \<noteq> h" for x using that by (simp add: mh_def)
  have sl: "slabs_ok p w' F"
  proof -
    have "slab_rep p w' s mem c fs"
    proof -
      have "chain mh_next mh b fs = chain mh_next (w_mh w) b fs" for b using nf(1) by (simp add: mh_def)
      moreover have "headers_ok p mh s mem fs"
        using rep nf(1) assms(4) by (auto simp: slab_rep_def headers_ok_def mh_def)
      ultimately show ?thesis using rep by (simp add: slab_rep_def f)
    qed
    from slabs_ok_change [OF inv(1) assms(7) this] assms(7,8) f mh show ?thesis
      by (simp add: fun_upd_idem) metis
  qed
  have rg: "rings_ok m w' F R" using rings_ok_cong [of w' w m F R] w'(3) f inv(2) by simp
  have ct: "counts_ok m w' F" using counts_ok_cong [of m w' w F] w'(3) inv(3) by simp
  have wt: "waiting p w' F a' x" if "waiting p w F a' x" "x \<noteq> h" for a' x
    using waiting_cong [OF that(1), of w' F] mh [OF that(2)] f by auto
  have wh: "waiting p w' F c h" using assms(5,7,8) f by (auto simp: waiting_def mh_def)
  have rm: "remotes_ok p m w' F ?Q"
  proof -
    have "remote_rep p m w' F a' b e (?Q a' b e)" if r: "in_range a' b e" for a' b e
    proof -
      have q: "h \<notin> set (Q a' b e)" using nf(2) by (auto simp: pending_def)
      obtain z where z: "get_remote m a' b e w = Some z" "chain mh_next (w_mh w) z (Q a' b e)"
        "\<forall>x \<in> set (Q a' b e). waiting p w F a' x"
        using remotes_okD(1) [OF inv(4) r] by (auto simp: remote_rep_def)
      have "chain mh_next mh z (Q a' b e)" using z(2) q by (simp add: mh_def)
      moreover have "\<forall>x \<in> set (Q a' b e). waiting p w' F a' x" using z(3) wt q by metis
      ultimately show ?thesis
        using z(1) a w'(4) wh hn f by (auto simp: remote_rep_def mh_def)
    qed
    moreover have "?Q a' b e = []" if "\<not> in_range a' b e" for a' b e
      using remotes_okD(2) [OF inv(4) that] rng that by auto
    moreover have "set (?Q a' b e) \<inter> set (?Q a2 b2 e2) = {}" if "(a', b, e) \<noteq> (a2, b2, e2)" for a' b e a2 b2 e2
      using remotes_okD(4) [OF inv(4)] that nf(2) by (auto simp: pending_def)
    ultimately show ?thesis unfolding remotes_ok_def by auto
  qed
  have "slab_inv p m w' F R ?Q" using sl rg ct rm inv(5) by (simp add: slab_inv_def)
  moreover have "own_step p m (mems F) w w'"
    unfolding mh_def
  proof (rule own_step_trans [OF own_step_mh own_step_remote])
    show "h \<in> slab_heads p (mems F)" by (rule slab_headsI [where F = F and s = s, OF assms(7,8)])
  qed (use w'(2,5,6) in \<open>simp_all add: mh_def\<close>)
  ultimately show ?thesis using run f mh by auto
qed

text \<open>On the home core: three cases, by the number of free objects the slab then has.\<close>

lemma counts_ok_upd:
  assumes "counts_ok m w F" and "get_si m c w = Some si" and "\<And>c'. c' \<noteq> c \<Longrightarrow> home F' c' = home F c'"
    and "\<And>c'. get_si m c' w' = (if c' = c then Some si' else get_si m c' w)"
    and "c < PS_NUMCORES \<Longrightarrow> unat (si_nslabs si') = card (home F' c) \<and> si_remote_token si' = si_remote_token si"
  shows "counts_ok m w' F'"
  using assms unfolding counts_ok_def by (metis option.inject)

lemma counts_home:
  assumes "counts_ok m w F" and "get_si m c w = Some si" and "c < PS_NUMCORES"
  shows "unat (si_nslabs si) = card (home F c)" "unat (si_remote_token si) < PS_NUMLOCALITIES"
  using assms by (auto simp: counts_ok_def)

lemma mem_free_local_keep:
  assumes "params_ok p" and "slab_inv p m w F R Q" and "h \<in> live p F Q" and "w_mh w h = Some d"
    and "mh_tsc_free d = 0" and "F s = Some (mem, c, fs)" and "h \<in> set (slab_objs p mem)" and "c = sp_coreid p"
    and "Suc (length fs) < nobjs p"
  shows "\<exists>w' R'. ps_slab_mem_free (ps_mhead_mem h) m p here w = Some w' \<and>
    slab_inv p m w' (F(s \<mapsto> (mem, c, h # fs))) R' Q \<and> own_step p m (mems F) w w' \<and> (\<forall>x. x \<noteq> h \<longrightarrow> w_mh w' x = w_mh w x)"
proof -
  note inv = slab_invD [OF assms(2)]
  let ?F = "F(s \<mapsto> (mem, c, h # fs))" and ?w = "put_obj s h w"
  note rep = slabs_okD [OF inv(1) assms(6)]
  have hs: "mh_slab d = s" using header_slab [OF inv(1) assms(6,7)] assms(4) by simp
  have nf: "h \<notin> set fs" "h \<notin> pending Q"
    using assms(3,6) not_owned_free [OF inv(1) assms(6)] by (auto simp: live_def)
  have hn: "h \<noteq> null" using slab_objs_nonnull [OF assms(1) _ assms(7)] rep by (simp add: slab_rep_def)
  obtain sl where sl: "w_sl w s = Some sl" "sl_coreid sl = c" "sl_memory sl = mem" "mem \<noteq> null"
    "unat (sl_nfree sl) = length fs" "s \<noteq> null" "c < PS_NUMCORES"
    using rep by (auto simp: slab_rep_def fits_def)
  have n: "unat (sl_nfree sl + 1) = Suc (length fs)"
    using sl(5) assms(9) nobjs_bounds(2) [OF assms(1)] by (subst unat_add_small) simp_all
  have one: "sl_nfree sl + 1 = 1 \<longleftrightarrow> fs = []" using sl(5) by (auto simp: unat_eq_0)
  note fr = mem_free_local [OF assms(1,4,5) hs sl(6,1), of m here]
  have slabs: "slabs_ok p ?w ?F" by (rule put_slabs_ok [OF assms(1) inv(1) assms(6,7) nf(1)])
  have mh: "w_mh ?w x = w_mh w x" if "x \<noteq> h" for x using that by (simp add: put_obj_def)
  have px: "w_mh ?w x = w_mh w x" if "x \<in> pending Q" for x using mh nf(2) that by (cases "x = h") auto
  have rem: "remotes_ok p m ?w ?F Q"
    by (rule remotes_ok_change [OF inv(4) px]) (use assms(6) in auto)
  have cnt: "counts_ok m ?w ?F"
    using inv(3) home_upd [of F s mem c fs "h # fs"] assms(6) by (simp add: counts_ok_def)
  have len: "?F s' = Some (mem', c', fs') \<Longrightarrow> length fs' < nobjs p" for s' mem' c' fs'
    using inv(5) assms(9) by (auto split: if_splits)
  have own: "own_step p m (mems F) w ?w" by (rule own_step_put [where F = F and s = s, OF assms(6) sl(1) assms(7)])
  show ?thesis
  proof (cases "fs = []")
    case False
    have "rings_ok m ?w F R" by (rule rings_ok_cong [OF _ _ inv(2)]) simp_all
    then have "rings_ok m ?w ?F R" using rings_ok_keep [of m ?w F R s mem c fs "h # fs"] assms(6) False by simp
    then have "slab_inv p m ?w ?F R Q" using slabs rem cnt len by (simp add: slab_inv_def)
    moreover have "ps_slab_mem_free (ps_mhead_mem h) m p here w = Some ?w"
      using fr n one False sl(2) assms(8,9) by (simp add: Let_def)
    ultimately show ?thesis using mh own by (intro exI [of _ ?w] exI [of _ R]) simp
  next
    case True
    have "rings_ok m ?w F R" by (rule rings_ok_cong [OF _ _ inv(2)]) simp_all
    from ring_add [OF this, of s mem c "h # fs"] obtain si ls where
      si: "get_si m c ?w = Some si" and e: "ps_list_singleton s SLAB_LIST (w_ls ?w) = Some True"
      and add: "slab_freelist_add (si_fl si) s (w_ls ?w) = Some (s, ls)"
      and r: "rings_ok m (set_si m c (si\<lparr>si_fl := s\<rparr>) (?w\<lparr>w_ls := ls\<rparr>)) ?F (R(c := s # tl (R c) @ take 1 (R c)))"
      and lk: "\<forall>x. x \<notin> slab_links (mems F) \<longrightarrow> ls x = w_ls ?w x"
      using assms(6) True sl(6,7) by blast
    let ?w' = "set_si m c (si\<lparr>si_fl := s\<rparr>) (?w\<lparr>w_ls := ls\<rparr>)"
    have g: "get_si m c' ?w' = (if c' = c then Some (si\<lparr>si_fl := s\<rparr>) else get_si m c' ?w)" for c'
      using si by (subst get_set_si [of _ _ _ si]) simp_all
    have "counts_ok m ?w' ?F"
      by (rule counts_ok_upd [OF cnt si _ g]) (use counts_home [OF cnt si] in auto)
    moreover have "slabs_ok p ?w' ?F" using slabs by (subst slabs_ok_cong [of _ ?w]) simp_all
    moreover have "remotes_ok p m ?w' ?F Q" using rem by (subst remotes_ok_cong [of _ ?w]) simp_all
    ultimately have "slab_inv p m ?w' ?F (R(c := s # tl (R c) @ take 1 (R c))) Q"
      using r len by (simp add: slab_inv_def)
    moreover have "ps_slab_mem_free (ps_mhead_mem h) m p here w = Some ?w'"
      using fr n one True sl(2,3,4) assms(8,9) e hn on_ring_set [where f = "\<lambda>fl. slab_freelist_add fl s", OF si add]
      by (simp add: Let_def)
    moreover have "own_step p m (mems F) w ?w'" by (rule own_step_trans [OF own own_step_ring [OF lk]])
    ultimately show ?thesis using mh
      by (intro exI [of _ ?w'] exI [of _ "R(c := s # tl (R c) @ take 1 (R c))"]) simp
  qed
qed

text \<open>The slab becomes free entirely: it leaves the ring and what is left to do is the backend's.\<close>

lemma mem_free_local_full:
  assumes "params_ok p" and "slab_inv p m w F R Q" and "h \<in> live p F Q" and "w_mh w h = Some d"
    and "mh_tsc_free d = 0" and "F s = Some (mem, c, fs)" and "h \<in> set (slab_objs p mem)" and "c = sp_coreid p"
    and "Suc (length fs) = nobjs p"
  shows "\<exists>w' R'. ps_slab_mem_free (ps_mhead_mem h) m p here w = sp_ffn p m s (sp_allocsz p) c w' \<and>
    slab_inv p m w' (F(s := None)) R' Q \<and> set (slab_objs p mem) = set (h # fs) \<and> own_step p m (mems F) w w' \<and>
    (\<forall>x. x \<noteq> h \<longrightarrow> w_mh w' x = w_mh w x) \<and> objs_dll SLAB_LIST (w_ls w') [s]"
proof -
  note inv = slab_invD [OF assms(2)]
  let ?F = "F(s \<mapsto> (mem, c, h # fs))" and ?w = "put_obj s h w"
  note rep = slabs_okD [OF inv(1) assms(6)]
  have hs: "mh_slab d = s" using header_slab [OF inv(1) assms(6,7)] assms(4) by simp
  have nf: "h \<notin> set fs" "h \<notin> pending Q"
    using assms(3,6) not_owned_free [OF inv(1) assms(6)] by (auto simp: live_def)
  obtain sl where sl: "w_sl w s = Some sl" "sl_coreid sl = c" "sl_memsz sl = sp_allocsz p"
    "unat (sl_nfree sl) = length fs" "s \<noteq> null" "c < PS_NUMCORES"
    using rep by (auto simp: slab_rep_def)
  have n: "unat (sl_nfree sl + 1) = nobjs p"
    using sl(4) assms(9) nobjs_bounds(2) [OF assms(1)] by (subst unat_add_small) simp_all
  have ne: "fs \<noteq> []" using assms(9) nobjs_bounds(1) [OF assms(1)] by auto
  note fr = mem_free_local [OF assms(1,4,5) hs sl(5,1), of m here]
  have slabs: "slabs_ok p ?w ?F" by (rule put_slabs_ok [OF assms(1) inv(1) assms(6,7) nf(1)])
  have mh: "w_mh ?w x = w_mh w x" if "x \<noteq> h" for x using that by (simp add: put_obj_def)
  have all: "set (h # fs) = set (slab_objs p mem)"
    by (rule all_free [OF assms(1) slabs_okD [OF slabs, of s mem c "h # fs"]]) (use assms(9) in simp_all)
  have out: "x \<notin> set (slab_objs p mem)" if "x \<in> pending Q" for x
    using that nf(2) pending_not_free [OF inv(1,4) that assms(6)] unfolding all [symmetric] by auto
  have px: "w_mh ?w x = w_mh w x" if "x \<in> pending Q" for x using mh nf(2) that by (cases "x = h") auto
  have rem: "remotes_ok p m ?w (F(s := None)) Q"
    by (rule remotes_ok_change [OF inv(4) px]) (use assms(6) out in \<open>auto split: if_splits\<close>)
  obtain si0 where si0: "get_si m c ?w = Some si0" using inv(3) sl(6) by (auto simp: counts_ok_def)
  let ?si1 = "si0\<lparr>si_nslabs := si_nslabs si0 - 1\<rparr>"
  define w1 where "w1 = set_si m c ?si1 ?w"
  have u1: "upd_si m c (\<lambda>si. si\<lparr>si_nslabs := si_nslabs si - 1\<rparr>) ?w = Some w1"
    unfolding w1_def by (rule upd_si_set [OF si0])
  have g1: "get_si m c' w1 = (if c' = c then Some ?si1 else get_si m c' ?w)" for c'
    unfolding w1_def by (rule get_set_si [OF si0])
  have "rings_ok m w1 F R"
    by (rule rings_ok_cong [OF _ _ inv(2)]) (use g1 si0 in \<open>auto simp: w1_def\<close>)
  from ring_rem [OF this assms(6) ne sl(6,5)] obtain si fl ls where si: "get_si m c w1 = Some si"
    and r: "slab_freelist_rem (si_fl si) s (w_ls w1) = Some (fl, ls)"
    and ok: "rings_ok m (set_si m c (si\<lparr>si_fl := fl\<rparr>) (w1\<lparr>w_ls := ls\<rparr>)) (F(s \<mapsto> (mem, c, [])))
       (R(c := remove1 s (R c)))"
    and lk: "\<forall>x. x \<notin> slab_links (mems F) \<longrightarrow> ls x = w_ls w1 x" by blast
  let ?w' = "set_si m c (si\<lparr>si_fl := fl\<rparr>) (w1\<lparr>w_ls := ls\<rparr>)"
  have si1: "si = ?si1" using si g1 by simp
  have g: "get_si m c' ?w' = (if c' = c then Some (si\<lparr>si_fl := fl\<rparr>) else get_si m c' w)" for c'
    using si g1 by (subst get_set_si [of _ _ _ si]) simp_all
  have rings: "rings_ok m ?w' (F(s := None)) (R(c := remove1 s (R c)))"
    using rings_ok_drop [OF ok, of s mem c] by simp
  have "s \<in> home F c" using assms(6) by (auto simp: home_def)
  moreover have fin: "finite (home F c)" using inv(1) by (intro finite_home) (simp add: slabs_ok_def)
  ultimately have "card (home F c) \<noteq> 0" "card (home F c - {s}) = card (home F c) - 1" by auto
  moreover have "unat (si_nslabs si0) = card (home F c)" using counts_home [OF inv(3) _ sl(6), of si0] si0 by simp
  ultimately have "unat (si_nslabs si0) \<noteq> 0" and c1: "card (home F c - {s}) = unat (si_nslabs si0) - 1"
    by simp_all
  then have "si_nslabs si0 \<noteq> 0" by auto
  from unat_dec [OF this] c1 have "unat (si_nslabs si) = card (home (F(s := None)) c)"
    by (simp add: si1 home_drop)
  moreover have "home (F(s := None)) c' = home F c'" if "c' \<noteq> c" for c'
    using that assms(6) by (auto simp: home_def)
  ultimately have cnt: "counts_ok m ?w' (F(s := None))"
    by (intro counts_ok_upd [OF inv(3) _ _ g, of si0]) (use si0 si1 in auto)
  have "slabs_ok p ?w (F(s := None))" using slabs_ok_drop [OF slabs, of s] by simp
  then have "slabs_ok p ?w' (F(s := None))" by (subst slabs_ok_cong [of _ ?w]) (simp_all add: w1_def)
  moreover have "remotes_ok p m ?w' (F(s := None)) Q"
    using rem by (subst remotes_ok_cong [of _ ?w]) (simp_all add: w1_def)
  moreover have "(F(s := None)) s' = Some (mem', c', fs') \<Longrightarrow> length fs' < nobjs p" for s' mem' c' fs'
    using inv(5) by (auto split: if_splits)
  ultimately have "slab_inv p m ?w' (F(s := None)) (R(c := remove1 s (R c))) Q"
    using rings cnt unfolding slab_inv_def by blast
  moreover have "ps_slab_mem_free (ps_mhead_mem h) m p here w = sp_ffn p m s (sp_allocsz p) c ?w'"
    using fr n sl(2,3) assms(8) u1 on_ring_set [where f = "\<lambda>fl. slab_freelist_rem fl s", OF si r]
    by (simp add: Let_def)
  moreover have "\<forall>x. x \<noteq> h \<longrightarrow> w_mh ?w' x = w_mh w x" using mh by (simp add: w1_def)
  moreover have "own_step p m (mems F) w ?w'"
  proof (rule own_step_trans [OF own_step_put own_step_trans [OF _ own_step_ring [OF lk]]])
    show "own_step p m (mems F) ?w w1" unfolding w1_def by (rule own_step_set_si)
  qed (rule assms(6) sl(1) assms(7))+
  moreover have "objs_dll SLAB_LIST (w_ls ?w') [s]"
    using ok unfolding rings_ok_def by (metis fun_upd_same)
  ultimately show ?thesis using all by blast
qed

section \<open>Allocating from a slab\<close>

lemma slab_take_ok:
  assumes "slabs_ok p w F" and "rings_ok m w F R" and "counts_ok m w F" and "remotes_ok p m w F Q"
    and "F s = Some (mem, sp_coreid p, h # fs)" and "length (h # fs) \<le> nobjs p"
    and "\<forall>s' mem' c' fs'. s' \<noteq> s \<longrightarrow> F s' = Some (mem', c', fs') \<longrightarrow> length fs' < nobjs p"
  shows "\<exists>w' R'. slab_take s m p w = Some (ps_mhead_mem h, w') \<and>
    slab_inv p m w' (F(s \<mapsto> (mem, sp_coreid p, fs))) R' Q \<and> own_step p m (mems F) w w' \<and>
    (\<forall>x. x \<noteq> h \<longrightarrow> w_mh w' x = w_mh w x) \<and> w_mh w' h = Some \<lparr>mh_tsc_free = 0, mh_slab = s, mh_next = null\<rparr>"
proof -
  let ?c = "sp_coreid p" and ?w = "take_obj s h w"
  let ?F = "F(s \<mapsto> (mem, ?c, fs))"
  note rep = slabs_okD [OF assms(1,5)]
  obtain sl where sl: "w_sl w s = Some sl" "sl_freelist sl = h" "unat (sl_nfree sl) = Suc (length fs)"
    and s: "s \<noteq> null" "h \<noteq> null" "?c < PS_NUMCORES" and hm: "h \<in> set (slab_objs p mem)"
    using rep by (auto simp: slab_rep_def split: option.splits)
  obtain d where d: "w_mh w h = Some d" "mh_slab d = s" using header_slab [OF assms(1,5) hm] by auto
  have n: "unat (sl_nfree sl - 1) = length fs"
  proof -
    have "sl_nfree sl \<noteq> 0" using sl(3) by auto
    from unat_dec [OF this] sl(3) show ?thesis by simp
  qed
  then have z: "sl_nfree sl - 1 = 0 \<longleftrightarrow> fs = []" by (auto simp: unat_eq_0 [symmetric])
  have cell: "w_mh ?w h = Some \<lparr>mh_tsc_free = 0, mh_slab = s, mh_next = null\<rparr>"
    using d by (cases d) (simp add: take_obj_def)
  have run: "slab_take s m p w = (do {
      w \<leftarrow> (if fs = [] then do {
         w \<leftarrow> on_ring (\<lambda>fl. slab_freelist_rem fl s) m ?c ?w;
         e \<leftarrow> ps_list_singleton s SLAB_LIST (w_ls w);
         c_assert e;
         Some w } else Some ?w);
      f \<leftarrow> ps_mhead_isfree h (w_mh w);
      c_assert (\<not> f);
      Some (ps_mhead_mem h, w) })"
    using sl s d z
    by (cases "fs = []") (simp_all add: slab_take_def get_mh_next_def upd_slab_def on_mh_def set_mh_next_def upd_mh_def ps_mhead_reset_def
        take_obj_def Let_def cong: if_cong)
  have slabs: "slabs_ok p ?w ?F" by (rule take_slabs_ok [OF assms(1,5)])
  have hp: "h \<notin> pending Q" using pending_not_free [OF assms(1,4) _ assms(5)] by auto
  have mh: "w_mh ?w x = w_mh w x" if "x \<noteq> h" for x using that by (simp add: take_obj_def)
  have px: "w_mh ?w x = w_mh w x" if "x \<in> pending Q" for x using hp mh that by (cases "x = h") auto
  have rem: "remotes_ok p m ?w ?F Q"
    by (rule remotes_ok_change [OF assms(4) px]) (use assms(5) in auto)
  have cnt: "counts_ok m ?w ?F"
    using assms(3) home_upd [of F s mem ?c "h # fs" fs] assms(5) by (simp add: counts_ok_def)
  have len: "?F s' = Some (mem', c', fs') \<Longrightarrow> length fs' < nobjs p" for s' mem' c' fs'
    using assms(6,7) by (auto split: if_splits)
  have rings: "rings_ok m ?w F R" by (rule rings_ok_cong [OF _ _ assms(2)]) simp_all
  have own: "own_step p m (mems F) w ?w" by (rule own_step_take [where F = F and s = s, OF assms(5) sl(1) hm])
  show ?thesis
  proof (cases "fs = []")
    case False
    have "rings_ok m ?w ?F R" using rings_ok_keep [OF rings assms(5), of fs] False by simp
    then have "slab_inv p m ?w ?F R Q" using slabs rem cnt len by (simp add: slab_inv_def)
    moreover have "slab_take s m p w = Some (ps_mhead_mem h, ?w)"
      using run False cell by (simp add: ps_mhead_isfree_def)
    ultimately show ?thesis using mh cell own by (intro exI [of _ ?w] exI [of _ R]) simp
  next
    case True
    obtain si fl ls where si: "get_si m ?c ?w = Some si"
      and r: "slab_freelist_rem (si_fl si) s (w_ls ?w) = Some (fl, ls)"
      and e: "ps_list_singleton s SLAB_LIST ls = Some True"
      and ok: "rings_ok m (set_si m ?c (si\<lparr>si_fl := fl\<rparr>) (?w\<lparr>w_ls := ls\<rparr>)) ?F (R(?c := remove1 s (R ?c)))"
      and lk: "\<forall>x. x \<notin> slab_links (mems F) \<longrightarrow> ls x = w_ls ?w x"
      using ring_rem [OF rings assms(5) _ s(3,1)] True by blast
    let ?w' = "set_si m ?c (si\<lparr>si_fl := fl\<rparr>) (?w\<lparr>w_ls := ls\<rparr>)"
    have g: "get_si m c' ?w' = (if c' = ?c then Some (si\<lparr>si_fl := fl\<rparr>) else get_si m c' ?w)" for c'
      using si by (subst get_set_si [of _ _ _ si]) simp_all
    have "counts_ok m ?w' ?F"
      by (rule counts_ok_upd [OF cnt si _ g]) (use counts_home [OF cnt si] in auto)
    moreover have "slabs_ok p ?w' ?F" using slabs by (subst slabs_ok_cong [of _ ?w]) simp_all
    moreover have "remotes_ok p m ?w' ?F Q" using rem by (subst remotes_ok_cong [of _ ?w]) simp_all
    ultimately have "slab_inv p m ?w' ?F (R(?c := remove1 s (R ?c))) Q"
      using ok len by (simp add: slab_inv_def)
    moreover have "slab_take s m p w = Some (ps_mhead_mem h, ?w')"
      using run True cell e on_ring_set [where f = "\<lambda>fl. slab_freelist_rem fl s", OF si r]
      by (simp add: ps_mhead_isfree_def)
    moreover have "own_step p m (mems F) w ?w'" by (rule own_step_trans [OF own own_step_ring [OF lk]])
    ultimately show ?thesis using mh cell
      by (intro exI [of _ ?w'] exI [of _ "R(?c := remove1 s (R ?c))"]) simp
  qed
qed

text \<open>Objects lie far enough from the end of the address space for their memory not to be null.\<close>

lemma mhead_mem_nonnull:
  assumes "params_ok p" and "fits p mem" and "h \<in> set (slab_objs p mem)"
  shows "ps_mhead_mem h \<noteq> null"
proof -
  obtain i where i: "i < nobjs p" "h = obj_at p mem i" using assms(3) by (auto simp: slab_objs_def)
  have "unat h + 24 < 2 ^ 64"
    using slab_obj_extent(2) [OF assms(1,2) i(1)] objsz_bounds(1) [OF assms(1)] assms(2)
    unfolding fits_def i(2) by linarith
  then have "unat (ps_mhead_mem h) = unat h + 24"
    unfolding ps_mhead_mem_def by (subst unat_add_small) (simp_all add: sizeof_ps_mheader_def)
  then show ?thesis by auto
qed

end
