(* ===== verification/Slab_Backend.thy ===== *)
theory Slab_Backend
  imports Slab_Correct
begin

text \<open>
  The slab allocator over any backend that keeps the contract \<open>slab_backend\<close>: what the functions
  \<open>afn\<close> and \<open>ffn\<close> must do for the allocator to be correct.  Inside the locale: freeing, draining the
  remote lists and allocating preserve the invariant and change the live set as they should.
\<close>

definition same_cells :: "slab_params \<Rightarrow> world \<Rightarrow> world \<Rightarrow> addr \<Rightarrow> addr \<Rightarrow> bool" where
  "same_cells p w w' s mem \<longleftrightarrow> w_sl w' s = w_sl w s \<and> w_ls w' (s + SLAB_LIST) = w_ls w (s + SLAB_LIST) \<and>
     (\<forall>h \<in> set (slab_objs p mem). w_mh w' h = w_mh w h)"

definition fresh_slab :: "slab_params \<Rightarrow> world \<Rightarrow> addr \<Rightarrow> addr \<Rightarrow> bool" where
  "fresh_slab p w s mem \<longleftrightarrow> s \<noteq> null \<and> fits p mem \<and> (\<exists>sl. w_sl w s = Some sl \<and> sl_memory sl = mem) \<and>
     (\<forall>h \<in> set (slab_objs p mem). w_mh w h = Some zero_mheader) \<and> (\<exists>l. w_ls w (s + SLAB_LIST) = Some l)"

text \<open>An object belongs to a core through the slab it lies in.\<close>

definition belongs :: "slab_params \<Rightarrow> slabs \<Rightarrow> nat \<Rightarrow> addr \<Rightarrow> bool" where
  "belongs p F c h \<longleftrightarrow> (\<exists>s mem fs. F s = Some (mem, c, fs) \<and> h \<in> set (slab_objs p mem))"

lemma waiting_belongs: "waiting p w F c h \<longleftrightarrow> (\<exists>d. w_mh w h = Some d \<and> mh_tsc_free d = 0) \<and> belongs p F c h"
  by (simp add: waiting_def belongs_def)

lemma belongs_upd:
  assumes "F s = Some (mem, c, fs)"
  shows "belongs p (F(s \<mapsto> (mem, c, fs'))) = belongs p F"
proof (intro ext iffI)
  fix c' h assume "belongs p (F(s \<mapsto> (mem, c, fs'))) c' h"
  then show "belongs p F c' h" using assms by (auto simp: belongs_def split: if_splits)
next
  fix c' h assume "belongs p F c' h"
  then obtain s' mem' fs'' where 1: "F s' = Some (mem', c', fs'')" "h \<in> set (slab_objs p mem')"
    by (auto simp: belongs_def)
  then show "belongs p (F(s \<mapsto> (mem, c, fs'))) c' h"
    using assms unfolding belongs_def by (intro exI [where x = s'] exI [where x = mem']) auto
qed

text \<open>An object that a step leaves alone: its header, its home, and the identity of its slab.\<close>

definition obj_ids :: "world \<Rightarrow> addr \<Rightarrow> (addr \<times> u64 \<times> u64) option option" where
  "obj_ids w x = map_option (\<lambda>d. map_option slab_ids (w_sl w (mh_slab d))) (w_mh w x)"

definition same_obj :: "slab_params \<Rightarrow> world \<Rightarrow> slabs \<Rightarrow> world \<Rightarrow> slabs \<Rightarrow> addr \<Rightarrow> bool" where
  "same_obj p w F w' F' x \<longleftrightarrow> w_mh w' x = w_mh w x \<and> obj_ids w' x = obj_ids w x \<and>
     (\<forall>c. belongs p F c x \<longrightarrow> belongs p F' c x)"

lemma same_obj_refl: "same_obj p w F w F x"
  by (simp add: same_obj_def)

lemma same_obj_trans: "same_obj p w F w1 F1 x \<Longrightarrow> same_obj p w1 F1 w2 F2 x \<Longrightarrow> same_obj p w F w2 F2 x"
  by (simp add: same_obj_def)

lemma own_step_obj_ids: "own_step p m M w w' \<Longrightarrow> w_mh w' x = w_mh w x \<Longrightarrow> obj_ids w' x = obj_ids w x"
  by (cases "w_mh w x") (simp_all add: own_step_def obj_ids_def)

lemma same_obj_own: "own_step p m M w w' \<Longrightarrow> w_mh w' x = w_mh w x \<Longrightarrow> same_obj p w F w' F x"
  by (simp add: same_obj_def own_step_obj_ids)

lemma same_cells_obj:
  assumes "slabs_ok p w F" and "F s = Some (mem, c, fs)" and "x \<in> set (slab_objs p mem)" and "same_cells p w w' s mem"
  shows "w_mh w' x = w_mh w x" "obj_ids w' x = obj_ids w x"
proof -
  show "w_mh w' x = w_mh w x" using assms(3,4) by (simp add: same_cells_def)
  moreover obtain d where "w_mh w x = Some d" "mh_slab d = s"
    using slabs_okD [OF assms(1,2)] assms(3) by (auto simp: slab_rep_def headers_ok_def)
  ultimately show "obj_ids w' x = obj_ids w x" using assms(4) by (simp add: obj_ids_def same_cells_def)
qed

text \<open>Slabs may go; those that stay are the same.\<close>

definition shrinks :: "world \<Rightarrow> slabs \<Rightarrow> world \<Rightarrow> slabs \<Rightarrow> bool" where
  "shrinks w F w' F' \<longleftrightarrow> (\<forall>s mem. mems F' s = Some mem \<longrightarrow>
     mems F s = Some mem \<and> map_option slab_ids (w_sl w' s) = map_option slab_ids (w_sl w s))"

lemma mems_upd: "F s = Some (mem, c, fs) \<Longrightarrow> mems (F(s \<mapsto> (mem, c', fs'))) = mems F"
  by (auto simp: mems_def)

lemma mems_new: "mems (F(s \<mapsto> (mem, c, fs))) = (mems F)(s \<mapsto> mem)"
  by (auto simp: mems_def)

lemma mems_drop: "mems (F(s := None)) = (mems F)(s := None)"
  by (auto simp: mems_def)

lemma pendingI: "h \<in> set (Q a b e) \<Longrightarrow> h \<in> pending Q"
  by (auto simp: pending_def)

lemma pending_push:
  "pending (\<lambda>x y z. if (x, y, z) = (c, l, i) then h # Q x y z else Q x y z) = insert h (pending Q)"
  (is "pending ?Q = _")
proof (intro set_eqI iffI)
  fix x assume "x \<in> insert h (pending Q)"
  then consider "x = h" | a b e where "x \<in> set (Q a b e)" by (auto simp: pending_def)
  then show "x \<in> pending ?Q"
  proof cases
    case 1
    then show ?thesis using pendingI [of x ?Q c l i] by simp
  next
    case 2
    then have "x \<in> set (?Q a b e)" by auto
    then show ?thesis by (rule pendingI)
  qed
qed (auto simp: pending_def split: if_splits)

lemma pending_cut:
  assumes "\<And>x y z h. h \<in> set (Q c l i) \<Longrightarrow> h \<in> set (Q x y z) \<Longrightarrow> (x, y, z) = (c, l, i)"
  shows "pending (\<lambda>x y z. if (x, y, z) = (c, l, i) then [] else Q x y z) = pending Q - set (Q c l i)"
  (is "pending ?Q = _")
proof (intro set_eqI iffI)
  fix h assume "h \<in> pending Q - set (Q c l i)"
  then obtain x y z where "h \<in> set (Q x y z)" "(x, y, z) \<noteq> (c, l, i)" by (auto simp: pending_def)
  then show "h \<in> pending ?Q" using pendingI [of h ?Q x y z] by simp
next
  fix h assume "h \<in> pending ?Q"
  then obtain x y z where "h \<in> set (Q x y z)" "(x, y, z) \<noteq> (c, l, i)" by (auto simp: pending_def split: if_splits)
  then show "h \<in> pending Q - set (Q c l i)" using assms pendingI [of h Q x y z] by blast
qed

text \<open>The invariant only looks at the cells of its slabs and the allocator's own structure.\<close>

lemma slab_inv_frame:
  assumes "slab_inv p m w F R Q" and "\<And>c. get_pc m c w' = get_pc m c w"
    and "\<And>s mem. mems F s = Some mem \<Longrightarrow> same_cells p w w' s mem"
  shows "slab_inv p m w' F R Q"
proof -
  note inv = slab_invD [OF assms(1)]
  have sc: "same_cells p w w' s mem" if "F s = Some (mem, c, fs)" for s mem c fs
    using assms(3) [of s mem] that by (simp add: mems_def)
  have m: "get_si m c w' = get_si m c w" "get_remote m c l k w' = get_remote m c l k w" for c l k
    using assms(2) by (simp_all add: get_si_def get_remote_def)
  have "slabs_ok p w' F"
    unfolding slabs_ok_def
  proof (intro conjI allI impI)
    show "finite (dom F)" using inv(1) by (simp add: slabs_ok_def)
    fix s mem c fs assume F: "F s = Some (mem, c, fs)"
    have "slab_rep p w' s mem c fs = slab_rep p w s mem c fs"
      using sc [OF F] by (intro slab_rep_cong) (auto simp: same_cells_def)
    then show "slab_rep p w' s mem c fs" using slabs_okD [OF inv(1) F] by simp
  qed
  moreover have "rings_ok m w' F R"
  proof (rule rings_ok_frame [OF inv(2) m(1)])
    fix s x assume "F s = Some x"
    then show "w_ls w' (s + SLAB_LIST) = w_ls w (s + SLAB_LIST)"
      using sc by (cases x) (auto simp: same_cells_def)
  qed
  moreover have "counts_ok m w' F" using inv(3) counts_ok_cong [of m w' w F] m(1) by simp
  moreover have "remotes_ok p m w' F Q"
  proof (rule remotes_ok_change [OF inv(4) _ m(2)])
    fix h assume "h \<in> pending Q"
    then obtain c where "waiting p w F c h" using pending_waiting [OF inv(4)] by blast
    then obtain s mem fs where "F s = Some (mem, c, fs)" "h \<in> set (slab_objs p mem)" by (auto simp: waiting_def)
    then show "w_mh w' h = w_mh w h" using sc by (auto simp: same_cells_def)
  qed auto
  ultimately show ?thesis using inv(5) unfolding slab_inv_def by blast
qed

text \<open>The header of a live object is the client's, except for its slab pointer.\<close>

lemma slab_inv_header:
  assumes "slab_inv p m w F R Q" and "h \<in> live p F Q" and "w_mh w h = Some d" and "mh_slab d' = mh_slab d"
  shows "slab_inv p m (w\<lparr>w_mh := (w_mh w)(h \<mapsto> d')\<rparr>) F R Q"
proof -
  note inv = slab_invD [OF assms(1)]
  let ?w = "w\<lparr>w_mh := (w_mh w)(h \<mapsto> d')\<rparr>"
  obtain s mem c fs where F: "F s = Some (mem, c, fs)" "h \<in> set (slab_objs p mem)" "h \<notin> set fs" "h \<notin> pending Q"
    using liveE [OF assms(2) inv(1)] by metis
  note rep = slabs_okD [OF inv(1) F(1)]
  have "headers_ok p ((w_mh w)(h \<mapsto> d')) s mem fs"
    using rep assms(3,4) F(3) by (auto simp: slab_rep_def headers_ok_def)
  moreover have "chain mh_next ((w_mh w)(h \<mapsto> d')) a fs = chain mh_next (w_mh w) a fs" for a
    using F(3) by simp
  ultimately have rep': "slab_rep p ?w s mem c fs" using rep by (simp add: slab_rep_def)
  have "slabs_ok p ?w (F(s \<mapsto> (mem, c, fs)))"
    by (rule slabs_ok_change [OF inv(1) F(1) rep']) (use F(2) in auto)
  then have "slabs_ok p ?w F" using F(1) by (simp add: fun_upd_idem)
  moreover have "rings_ok m ?w F R" by (rule rings_ok_cong [OF _ _ inv(2)]) simp_all
  moreover have "counts_ok m ?w F" using inv(3) by (simp add: counts_ok_def)
  moreover have "remotes_ok p m ?w F Q"
    by (rule remotes_ok_change [OF inv(4)]) (use F(4) in auto)
  ultimately show ?thesis using inv(5) unfolding slab_inv_def by blast
qed

section \<open>The contract of a backend\<close>

locale slab_backend =
  fixes p :: slab_params
    and binv :: "addr \<Rightarrow> world \<Rightarrow> (addr \<Rightarrow> addr option) \<Rightarrow> bool"
    and ready :: "addr \<Rightarrow> world \<Rightarrow> bool"
  assumes own: "own_step p m M w w' \<Longrightarrow> binv m w M \<Longrightarrow> binv m w' M \<and> ready m w' = ready m w"
    and sizes: "binv m w M \<Longrightarrow> params_ok p"
    and afn: "binv m w M \<Longrightarrow> ready m w \<Longrightarrow>
      \<exists>s w'. sp_afn p m (sp_allocsz p) (sp_coreid p) w = Some (s, w') \<and> (\<forall>c. get_pc m c w' = get_pc m c w) \<and>
        (\<forall>s' mem'. M s' = Some mem' \<longrightarrow> same_cells p w w' s' mem') \<and>
        (if s = null then binv m w' M
         else M s = None \<and> (\<exists>mem. fresh_slab p w' s mem \<and> binv m w' (M(s \<mapsto> mem)) \<and>
           (\<forall>s' mem'. M s' = Some mem' \<longrightarrow> set (slab_objs p mem') \<inter> set (slab_objs p mem) = {})))"
    and ffn: "binv m w M \<Longrightarrow> M s = Some mem \<Longrightarrow> objs_dll SLAB_LIST (w_ls w) [s] \<Longrightarrow>
      \<exists>w'. sp_ffn p m s (sp_allocsz p) (sp_coreid p) w = Some w' \<and> (\<forall>c. get_pc m c w' = get_pc m c w) \<and>
        binv m w' (M(s := None)) \<and> (ready m w \<longrightarrow> ready m w') \<and>
        (\<forall>s' mem'. M s' = Some mem' \<longrightarrow> s' \<noteq> s \<longrightarrow> same_cells p w w' s' mem')"
begin

definition sinv :: "addr \<Rightarrow> world \<Rightarrow> slabs \<Rightarrow> rings \<Rightarrow> remotes \<Rightarrow> bool" where
  "sinv m w F R Q \<longleftrightarrow> slab_inv p m w F R Q \<and> binv m w (mems F)"

text \<open>What a step may do besides: the objects still live keep their headers and their home.\<close>

definition keeps :: "addr \<Rightarrow> world \<Rightarrow> slabs \<Rightarrow> world \<Rightarrow> slabs \<Rightarrow> addr set \<Rightarrow> bool" where
  "keeps m w F w' F' L \<longleftrightarrow> (\<forall>x \<in> L. same_obj p w F w' F' x) \<and> (ready m w \<longrightarrow> ready m w')"

lemma keeps_trans: "keeps m w F w1 F1 L \<Longrightarrow> keeps m w1 F1 w2 F2 L' \<Longrightarrow> L' \<subseteq> L \<Longrightarrow> keeps m w F w2 F2 L'"
  unfolding keeps_def using same_obj_trans by blast

lemma keeps_refl: "keeps m w F w F L"
  by (simp add: keeps_def same_obj_refl)

lemma keeps_own:
  assumes "own_step p m (mems F) w w'" and "binv m w (mems F)" and "\<And>x. x \<in> L \<Longrightarrow> w_mh w' x = w_mh w x"
  shows "keeps m w F w' F L"
  using assms own [OF assms(1,2)] same_obj_own [OF assms(1)] by (simp add: keeps_def)

lemma free_home_ok:
  assumes "sinv m w F R Q" and "h \<in> live p F Q" and "w_mh w h = Some d" and "mh_tsc_free d = 0"
    and "belongs p F (sp_coreid p) h"
  shows "\<exists>w' F' R'. ps_slab_mem_free (ps_mhead_mem h) m p here w = Some w' \<and> sinv m w' F' R' Q \<and>
    owned p F' = owned p F - {h} \<and> keeps m w F w' F' (owned p F') \<and> shrinks w F w' F'"
proof -
  have inv0: "slab_inv p m w F R Q" and b: "binv m w (mems F)" using assms(1) by (simp_all add: sinv_def)
  note ok = sizes [OF b]
  note inv = slab_invD [OF inv0]
  obtain s mem fs where F: "F s = Some (mem, sp_coreid p, fs)" "h \<in> set (slab_objs p mem)"
    using assms(5) by (auto simp: belongs_def)
  let ?c = "sp_coreid p"
  have nf: "h \<notin> set fs" using assms(2) F not_owned_free [OF inv(1) F(1)] by (auto simp: live_def)
  have put: "owned p (F(s \<mapsto> (mem, ?c, h # fs))) = owned p F - {h}" by (rule owned_put [OF inv(1) F])
  consider (keep) "Suc (length fs) < nobjs p" | (full) "Suc (length fs) = nobjs p"
    using inv(5) [OF F(1)] by linarith
  then show ?thesis
  proof cases
    case keep
    let ?F = "F(s \<mapsto> (mem, ?c, h # fs))"
    obtain w' R' where w': "ps_slab_mem_free (ps_mhead_mem h) m p here w = Some w'" "slab_inv p m w' ?F R' Q"
      "own_step p m (mems F) w w'" "\<forall>x. x \<noteq> h \<longrightarrow> w_mh w' x = w_mh w x"
      using mem_free_local_keep [OF ok inv0 assms(2-4) F refl keep] by blast
    note pr = own [OF w'(3) b]
    have "belongs p ?F = belongs p F" by (rule belongs_upd [where F = F and s = s, OF F(1)])
    then have "keeps m w F w' ?F (owned p ?F)" unfolding keeps_def put
      using w'(4) pr same_obj_own [OF w'(3), of _ F] by (auto simp: same_obj_def)
    moreover have "sinv m w' ?F R' Q" using w'(2) pr mems_upd [of F s mem ?c fs] F(1) by (simp add: sinv_def)
    moreover have "shrinks w F w' ?F" using w'(3) mems_upd [of F s mem ?c fs] F(1) by (simp add: shrinks_def own_step_def)
    ultimately show ?thesis using w'(1) put by blast
  next
    case full
    let ?F = "F(s := None)"
    obtain w1 R' where w1: "ps_slab_mem_free (ps_mhead_mem h) m p here w = sp_ffn p m s (sp_allocsz p) ?c w1"
      "slab_inv p m w1 ?F R' Q" "set (slab_objs p mem) = set (h # fs)"
      "own_step p m (mems F) w w1" "\<forall>x. x \<noteq> h \<longrightarrow> w_mh w1 x = w_mh w x" "objs_dll SLAB_LIST (w_ls w1) [s]"
      using mem_free_local_full [OF ok inv0 assms(2-4) F refl full] by blast
    note pr = own [OF w1(4) b]
    have ms: "mems F s = Some mem" using F(1) by (simp add: mems_def)
    obtain w' where w': "sp_ffn p m s (sp_allocsz p) ?c w1 = Some w'" "\<forall>c. get_pc m c w' = get_pc m c w1"
      "binv m w' ((mems F)(s := None))" "ready m w1 \<longrightarrow> ready m w'"
      "\<forall>s' mem'. mems F s' = Some mem' \<longrightarrow> s' \<noteq> s \<longrightarrow> same_cells p w1 w' s' mem'"
      using ffn [of m w1 "mems F" s mem] pr ms w1(6) by blast
    have sc: "same_cells p w1 w' s' mem'" if "mems ?F s' = Some mem'" for s' mem'
      using w'(5) that by (auto simp: mems_drop split: if_splits)
    have i: "sinv m w' ?F R' Q"
      using slab_inv_frame [OF w1(2) w'(2) [THEN spec] sc] w'(3) by (simp add: sinv_def mems_drop)
    have l: "owned p ?F = owned p F - {h}"
      using owned_drop [of "F(s \<mapsto> (mem, ?c, h # fs))" s mem ?c "h # fs" p] w1(3) put by simp
    have "same_obj p w F w' ?F x" if x: "x \<in> owned p ?F" for x
    proof -
      obtain s' mem' c' fs' where x': "?F s' = Some (mem', c', fs')" "x \<in> set (slab_objs p mem')"
        using x by (auto elim!: ownedE)
      then have F': "F s' = Some (mem', c', fs')" "s' \<noteq> s" by (auto split: if_splits)
      have "same_cells p w1 w' s' mem'" using sc x'(1) by (simp add: mems_def)
      note same = same_cells_obj [OF slab_invD(1) [OF w1(2)] x' this]
      have mh: "w_mh w1 x = w_mh w x" using x l w1(5) by auto
      moreover have "obj_ids w' x = obj_ids w x" using same(2) own_step_obj_ids [OF w1(4) mh] by simp
      moreover have "belongs p ?F c x" if bl: "belongs p F c x" for c
      proof -
        obtain s2 mem2 fs2 where 2: "F s2 = Some (mem2, c, fs2)" "x \<in> set (slab_objs p mem2)"
          using bl by (auto simp: belongs_def)
        then have "s2 = s'" using objs_unique [OF inv(1) F'(1) x'(2) 2] by simp
        with 2 F'(2) have "?F s2 = Some (mem2, c, fs2)" by simp
        with 2(2) show ?thesis unfolding belongs_def by blast
      qed
      ultimately show ?thesis using same(1) by (simp add: same_obj_def)
    qed
    then have "keeps m w F w' ?F (owned p ?F)" using w'(4) pr by (auto simp: keeps_def)
    moreover have "shrinks w F w' ?F" unfolding shrinks_def
    proof (intro allI impI)
      fix t mem' assume t: "mems ?F t = Some mem'"
      then have "w_sl w' t = w_sl w1 t" using sc by (simp add: same_cells_def)
      then show "mems F t = Some mem' \<and> map_option slab_ids (w_sl w' t) = map_option slab_ids (w_sl w t)"
        using t w1(4) by (auto simp: mems_drop own_step_def split: if_splits)
    qed
    ultimately show ?thesis using w1(1) w'(1) i l by metis
  qed
qed

lemma free_remote_ok:
  assumes "sinv m w F R Q" and "h \<in> live p F Q" and "w_mh w h = Some d" and "mh_tsc_free d = 0"
    and "belongs p F c h" and "c \<noteq> sp_coreid p" and "snd here < PS_NUMLOCALITIES"
  shows "\<exists>w' Q'. ps_slab_mem_free (ps_mhead_mem h) m p here w = Some w' \<and> sinv m w' F R Q' \<and>
    live p F Q' = live p F Q - {h} \<and> keeps m w F w' F (live p F Q') \<and> own_step p m (mems F) w w'"
proof -
  have inv0: "slab_inv p m w F R Q" and b: "binv m w (mems F)" using assms(1) by (simp_all add: sinv_def)
  obtain s mem fs where F: "F s = Some (mem, c, fs)" "h \<in> set (slab_objs p mem)"
    using assms(5) by (auto simp: belongs_def)
  define k where "k = fst here mod NUM_REMOTE_LIST"
  let ?Q = "\<lambda>a b e. if (a, b, e) = (c, snd here, k) then h # Q a b e else Q a b e"
  obtain w' where w': "ps_slab_mem_free (ps_mhead_mem h) m p here w = Some w'" "slab_inv p m w' F R ?Q"
    "own_step p m (mems F) w w'" "\<forall>x. x \<noteq> h \<longrightarrow> w_mh w' x = w_mh w x"
    using mem_free_remote [OF sizes [OF b] inv0 assms(2-4,7) F assms(6)] unfolding k_def by blast
  note pr = own [OF w'(3) b]
  have "pending ?Q = insert h (pending Q)" by (rule pending_push)
  then have l: "live p F ?Q = live p F Q - {h}" by (auto simp: live_def)
  have "keeps m w F w' F (live p F ?Q)" by (rule keeps_own [OF w'(3) b]) (use l w'(4) in auto)
  moreover have "sinv m w' F R ?Q" using w'(2) pr by (simp add: sinv_def)
  ultimately show ?thesis using w'(1,3) l by blast
qed

lemma keeps_mono: "keeps m w F w' F' L \<Longrightarrow> L' \<subseteq> L \<Longrightarrow> keeps m w F w' F' L'"
  by (auto simp: keeps_def)

lemma free_home_live:
  assumes "sinv m w F R Q" and "h \<in> live p F Q" and "w_mh w h = Some d" and "mh_tsc_free d = 0"
    and "belongs p F (sp_coreid p) h"
  shows "\<exists>w' F' R'. ps_slab_mem_free (ps_mhead_mem h) m p here w = Some w' \<and> sinv m w' F' R' Q \<and>
    live p F' Q = live p F Q - {h} \<and> keeps m w F w' F' (live p F' Q)"
proof -
  obtain w' F' R' where "ps_slab_mem_free (ps_mhead_mem h) m p here w = Some w'" "sinv m w' F' R' Q"
    "owned p F' = owned p F - {h}" "keeps m w F w' F' (owned p F')"
    using free_home_ok [OF assms, of here] by (elim exE conjE) (rule that)
  moreover have "live p F' Q \<subseteq> owned p F'" by (auto simp: live_def)
  ultimately show ?thesis using keeps_mono by (intro exI [of _ w'] exI [of _ F'] exI [of _ R']) (auto simp: live_def)
qed

lemma free_ok:
  assumes "sinv m w F R Q" and "h \<in> live p F Q" and "w_mh w h = Some d" and "mh_tsc_free d = 0"
    and "snd here < PS_NUMLOCALITIES"
  shows "\<exists>w' F' R' Q'. ps_slab_mem_free (ps_mhead_mem h) m p here w = Some w' \<and> sinv m w' F' R' Q' \<and>
    live p F' Q' = live p F Q - {h} \<and> keeps m w F w' F' (live p F' Q')"
proof -
  have "slabs_ok p w F" using assms(1) by (simp add: sinv_def slab_inv_def)
  then obtain s mem c fs where "F s = Some (mem, c, fs)" "h \<in> set (slab_objs p mem)"
    using liveE [OF assms(2)] by metis
  then have "belongs p F c h" by (auto simp: belongs_def)
  then show ?thesis
    using free_home_live [OF assms(1-4), of here] free_remote_ok [OF assms(1-4) _ _ assms(5), of c]
    by (cases "c = sp_coreid p") blast+
qed

section \<open>Taking back what other cores freed\<close>

lemma drain_ok:
  assumes "sinv m w F R Q" and "chain mh_next (w_mh w) a hs" and "set hs \<subseteq> live p F Q"
    and "\<And>x. x \<in> set hs \<Longrightarrow> waiting p w F (sp_coreid p) x" and "length hs \<le> k"
  shows "\<exists>w' F' R'. remote_drain k a ret m p here w = Some (ret + length hs, w') \<and> sinv m w' F' R' Q \<and>
    live p F' Q = live p F Q - set hs \<and> keeps m w F w' F' (live p F' Q) \<and> (hs = [] \<longrightarrow> w' = w \<and> F' = F)"
  using assms
proof (induction hs arbitrary: k a ret w F R)
  case Nil
  then have "a = null" by simp
  then show ?case using Nil by (auto simp: remote_drain.simps keeps_refl)
next
  case (Cons h hs)
  have inv0: "slab_inv p m w F R Q" and b: "binv m w (mems F)" using Cons.prems(1) by (simp_all add: sinv_def)
  obtain j where k: "k = Suc j" using Cons.prems(5) by (cases k) auto
  obtain d where d: "a = h" "h \<noteq> null" "w_mh w h = Some d" "chain mh_next (w_mh w) (mh_next d) hs"
    using Cons.prems(2) by (auto split: option.splits)
  have t: "mh_tsc_free d = 0" "belongs p F (sp_coreid p) h"
    using Cons.prems(4) [of h] d(3) by (auto simp: waiting_belongs)
  have hl: "h \<in> live p F Q" using Cons.prems(3) by simp
  have nh: "h \<notin> set hs" using chain_distinct [OF Cons.prems(2)] by simp
  define w1 where "w1 = w\<lparr>w_mh := (w_mh w)(h \<mapsto> d\<lparr>mh_next := null\<rparr>)\<rparr>"
  have 1: "on_mh (set_mh_next h null) w = Some w1"
    using d(3) by (simp add: on_mh_def set_mh_next_def upd_mh_def w1_def)
  have "h \<in> slab_heads p (mems F)" using t(2) slab_headsI by (auto simp: belongs_def)
  then have o1: "own_step p m (mems F) w w1" unfolding w1_def by (rule own_step_mh)
  have i1: "sinv m w1 F R Q"
    using slab_inv_header [OF inv0 hl d(3), of "d\<lparr>mh_next := null\<rparr>"] own [OF o1 b]
    by (simp add: sinv_def w1_def)
  have d1: "w_mh w1 h = Some (d\<lparr>mh_next := null\<rparr>)" by (simp add: w1_def)
  obtain w2 F2 R2 where 2: "ps_slab_mem_free (ps_mhead_mem h) m p here w1 = Some w2" "sinv m w2 F2 R2 Q"
    "live p F2 Q = live p F Q - {h}" "keeps m w1 F w2 F2 (live p F2 Q)"
    using free_home_live [OF i1 hl d1 _ t(2), of here] t(1) by auto
  have hs2: "set hs \<subseteq> live p F2 Q" using 2(3) Cons.prems(3) nh by auto
  have keep: "w_mh w2 x = w_mh w x" if "x \<in> live p F2 Q" for x
    using 2(3,4) that by (auto simp: keeps_def same_obj_def w1_def)
  have "chain mh_next (w_mh w2) (mh_next d) hs"
    using d(4) chain_cong [of hs mh_next "w_mh w2" "w_mh w"] keep hs2 by (simp add: subset_iff)
  moreover have "waiting p w2 F2 (sp_coreid p) x" if "x \<in> set hs" for x
    using Cons.prems(4) [of x] keep [of x] hs2 2(4) that by (auto simp: waiting_belongs keeps_def same_obj_def)
  ultimately obtain w' F' R' where 3: "remote_drain j (mh_next d) (ret + 1) m p here w2 = Some (ret + 1 + length hs, w')"
    "sinv m w' F' R' Q" "live p F' Q = live p F2 Q - set hs" "keeps m w2 F2 w' F' (live p F' Q)"
    using Cons.IH [OF 2(2) _ hs2, of "mh_next d" j "ret + 1"] Cons.prems(5) k by auto
  have "remote_drain k a ret m p here w = Some (ret + length (h # hs), w')"
    using d(1-3) 1 2(1) 3(1) by (subst remote_drain.simps) (simp add: k get_mh_next_def)
  moreover have "live p F' Q = live p F Q - set (h # hs)" using 2(3) 3(3) by auto
  moreover have "keeps m w F w' F' (live p F' Q)"
  proof -
    have "keeps m w F w1 F (live p F2 Q)" by (rule keeps_own [OF o1 b]) (use 2(3) in \<open>auto simp: w1_def\<close>)
    from keeps_trans [OF keeps_trans [OF this 2(4)] 3(4)] 3(3) show ?thesis by auto
  qed
  ultimately show ?case using 3(2) by blast
qed

text \<open>One remote list: cut off, then drained.\<close>

lemma cut_remote_ok:
  assumes "sinv m w F R Q" and "in_range c l i" and "c = sp_coreid p"
  shows "\<exists>a w1. get_remote m c l i w = Some a \<and>
    (if a \<noteq> null then set_remote m c l i null w = Some w1 else w1 = w) \<and> chain mh_next (w_mh w1) a (Q c l i) \<and>
    sinv m w1 F R (\<lambda>x y z. if (x, y, z) = (c, l, i) then [] else Q x y z) \<and>
    live p F (\<lambda>x y z. if (x, y, z) = (c, l, i) then [] else Q x y z) = live p F Q \<union> set (Q c l i) \<and>
    set (Q c l i) \<inter> live p F Q = {} \<and> w_mh w1 = w_mh w \<and> ready m w1 = ready m w \<and>
    (\<forall>x \<in> set (Q c l i). waiting p w1 F c x) \<and> own_step p m (mems F) w w1"
proof -
  have inv0: "slab_inv p m w F R Q" and b: "binv m w (mems F)" using assms(1) by (simp_all add: sinv_def)
  note inv = slab_invD [OF inv0]
  let ?Q = "\<lambda>x y z. if (x, y, z) = (c, l, i) then [] else Q x y z"
  obtain a where a: "get_remote m c l i w = Some a" "chain mh_next (w_mh w) a (Q c l i)"
    "\<forall>x \<in> set (Q c l i). waiting p w F c x"
    using remotes_okD(1) [OF inv(4) assms(2)] by (auto simp: remote_rep_def)
  have owns: "set (Q c l i) \<subseteq> owned p F"
  proof
    fix x assume x: "x \<in> set (Q c l i)"
    then obtain s mem fs where "F s = Some (mem, c, fs)" "x \<in> set (slab_objs p mem)"
      using a(3) by (auto simp: waiting_def)
    moreover from this x have "x \<notin> set fs"
      using pending_not_free [OF inv(1,4), of x s] by (auto simp: pending_def)
    ultimately show "x \<in> owned p F" by (rule ownedI)
  qed
  have "pending ?Q = pending Q - set (Q c l i)"
    using remotes_okD(4) [OF inv(4)] by (intro pending_cut) blast
  moreover have "set (Q c l i) \<subseteq> pending Q" by (auto simp: pending_def)
  ultimately have l: "live p F ?Q = live p F Q \<union> set (Q c l i)" and dis: "set (Q c l i) \<inter> live p F Q = {}"
    using owns by (auto simp: live_def)
  obtain w1 where w1: "if a \<noteq> null then set_remote m c l i null w = Some w1 else w1 = w"
    "w1 = w\<lparr>w_mem := w_mem w1\<rparr>" "\<forall>c'. get_si m c' w1 = get_si m c' w"
    "\<forall>c' l' i'. get_remote m c' l' i' w1 = (if (c', l', i') = (c, l, i) then Some null else get_remote m c' l' i' w)"
    "own_step p m (mems F) w w1"
  proof (cases "a = null")
    case True
    then show ?thesis using a(1) own_step_refl by (intro that [of w]) auto
  next
    case False
    obtain w1 where "set_remote m c l i null w = Some w1" "w1 = w\<lparr>w_mem := w_mem w1\<rparr>"
      "\<forall>c'. get_si m c' w1 = get_si m c' w"
      "\<forall>c' l' i'. get_remote m c' l' i' w1 = (if (c', l', i') = (c, l, i) then Some null else get_remote m c' l' i' w)"
      "\<forall>m'. m' \<noteq> m \<longrightarrow> w_mem w1 m' = w_mem w m'" "get_ns m w1 = get_ns m w"
      using set_remote_effect [OF a(1), of null] by blast
    then show ?thesis using False own_step_remote [of w1 w m p "mems F"] by (intro that [of w1]) simp_all
  qed
  have f: "w_mh w1 = w_mh w" "w_sl w1 = w_sl w" "w_ls w1 = w_ls w" "w_blocks w1 = w_blocks w" "w_answers w1 = w_answers w"
    by (subst w1(2), simp)+
  have "slabs_ok p w1 F" using inv(1) slabs_ok_cong [of w1 w p F] f by simp
  moreover have "rings_ok m w1 F R" using rings_ok_cong [of w1 w m F R] w1(3) f inv(2) by simp
  moreover have "counts_ok m w1 F" using counts_ok_cong [of m w1 w F] w1(3) inv(3) by simp
  moreover have "remotes_ok p m w1 F ?Q"
  proof -
    have "remote_rep p m w1 F x y z (?Q x y z)" if r: "in_range x y z" for x y z
    proof (cases "(x, y, z) = (c, l, i)")
      case True
      then show ?thesis using w1(4) by (simp add: remote_rep_def)
    next
      case False
      then have "remote_rep p m w1 F x y z (Q x y z)"
        by (intro remote_rep_cong [OF remotes_okD(1) [OF inv(4) r]]) (use w1(4) f(1) in auto)
      with False show ?thesis by auto
    qed
    moreover have "?Q x y z = []" if "\<not> in_range x y z" for x y z
      using remotes_okD(2) [OF inv(4) that] by simp
    moreover have "set (?Q x y z) \<inter> set (?Q x2 y2 z2) = {}" if "(x, y, z) \<noteq> (x2, y2, z2)" for x y z x2 y2 z2
      using remotes_okD(4) [OF inv(4)] that by auto
    ultimately show ?thesis unfolding remotes_ok_def by auto
  qed
  ultimately have "slab_inv p m w1 F R ?Q" using inv(5) unfolding slab_inv_def by blast
  then have "sinv m w1 F R ?Q" using own [OF w1(5) b] by (simp add: sinv_def)
  moreover have "\<forall>x \<in> set (Q c l i). waiting p w1 F c x" using a(3) f(1) by (simp add: waiting_def)
  ultimately show ?thesis using a(1,2) w1(1,5) l dis f(1) own [OF w1(5) b] by auto
qed

lemma clear_from_ok:
  assumes "sinv m w F R Q" and "distinct is" and "set is \<subseteq> {0..<NUM_REMOTE_LIST}" and "l < PS_NUMLOCALITIES"
    and "sp_coreid p < PS_NUMCORES" and "\<And>i. i \<in> set is \<Longrightarrow> length (Q (sp_coreid p) l i) \<le> k"
  shows "\<exists>w' F' R'. remote_clear_from k is ret m l p here w =
      Some (ret + (\<Sum>i\<leftarrow>is. length (Q (sp_coreid p) l i)), w') \<and>
    sinv m w' F' R' (\<lambda>x y z. if x = sp_coreid p \<and> y = l \<and> z \<in> set is then [] else Q x y z) \<and>
    live p F' (\<lambda>x y z. if x = sp_coreid p \<and> y = l \<and> z \<in> set is then [] else Q x y z) = live p F Q \<and>
    keeps m w F w' F' (live p F Q) \<and> ((\<forall>i \<in> set is. Q (sp_coreid p) l i = []) \<longrightarrow> w' = w \<and> F' = F)"
  using assms(1-3,6)
proof (induction "is" arbitrary: ret w F R Q)
  case Nil
  then show ?case by (auto simp: keeps_refl)
next
  case (Cons i "is")
  let ?c = "sp_coreid p"
  let ?Q1 = "\<lambda>x y z. if (x, y, z) = (?c, l, i) then [] else Q x y z"
  have rng: "in_range ?c l i" using Cons.prems(3) assms(4,5) by (simp add: in_range_def)
  obtain a w1 where a: "get_remote m ?c l i w = Some a"
    "if a \<noteq> null then set_remote m ?c l i null w = Some w1 else w1 = w" "chain mh_next (w_mh w1) a (Q ?c l i)"
    and i1: "sinv m w1 F R ?Q1" and l1: "live p F ?Q1 = live p F Q \<union> set (Q ?c l i)"
    and dis: "set (Q ?c l i) \<inter> live p F Q = {}" and w1: "w_mh w1 = w_mh w" "ready m w1 = ready m w"
    and wt: "\<forall>x \<in> set (Q ?c l i). waiting p w1 F ?c x" and o1: "own_step p m (mems F) w w1"
    using cut_remote_ok [OF Cons.prems(1) rng refl] by blast
  obtain w2 F2 R2 where 2: "remote_drain k a ret m p here w1 = Some (ret + length (Q ?c l i), w2)"
    "sinv m w2 F2 R2 ?Q1" "live p F2 ?Q1 = live p F ?Q1 - set (Q ?c l i)" "keeps m w1 F w2 F2 (live p F2 ?Q1)"
    "Q ?c l i = [] \<longrightarrow> w2 = w1 \<and> F2 = F"
    using drain_ok [OF i1 a(3) _ _ Cons.prems(4) [of i], of ret here] l1 wt by auto
  have l2: "live p F2 ?Q1 = live p F Q" using 2(3) l1 dis by auto
  have ni: "i \<notin> set is" using Cons.prems(2) by simp
  have len: "length (?Q1 ?c l j) \<le> k" if "j \<in> set is" for j using Cons.prems(4) [of j] that by simp
  obtain w' F' R' where 3: "remote_clear_from k is (ret + length (Q ?c l i)) m l p here w2 =
      Some (ret + length (Q ?c l i) + (\<Sum>j\<leftarrow>is. length (?Q1 ?c l j)), w')"
    "sinv m w' F' R' (\<lambda>x y z. if x = ?c \<and> y = l \<and> z \<in> set is then [] else ?Q1 x y z)"
    "live p F' (\<lambda>x y z. if x = ?c \<and> y = l \<and> z \<in> set is then [] else ?Q1 x y z) = live p F2 ?Q1"
    "keeps m w2 F2 w' F' (live p F2 ?Q1)" "(\<forall>j \<in> set is. ?Q1 ?c l j = []) \<longrightarrow> w' = w2 \<and> F' = F2"
    using Cons.IH [OF 2(2) _ _ len, of "ret + length (Q ?c l i)"] Cons.prems(2,3) by auto
  have Q: "(\<lambda>x y z. if x = ?c \<and> y = l \<and> z \<in> set is then [] else ?Q1 x y z) =
     (\<lambda>x y z. if x = ?c \<and> y = l \<and> z \<in> set (i # is) then [] else Q x y z)" by (auto simp: fun_eq_iff)
  have sum: "(\<Sum>j\<leftarrow>is. length (?Q1 ?c l j)) = (\<Sum>j\<leftarrow>is. length (Q ?c l j))"
    using ni by (intro arg_cong [of _ _ sum_list] map_cong) auto
  have run: "remote_clear_from k (i # is) ret m l p here w =
      Some (ret + (\<Sum>j\<leftarrow>i # is. length (Q ?c l j)), w')"
  proof (cases "a = null")
    case True
    then show ?thesis using a 2(1) 3(1) sum by (simp add: add.assoc)
  next
    case False
    then show ?thesis using a 2(1) 3(1) sum ps_rfl_stack_remove_all_1 [of 0 a] by (simp add: add.assoc)
  qed
  have "binv m w (mems F)" using Cons.prems(1) by (simp add: sinv_def)
  then have "keeps m w F w1 F (live p F Q)" using keeps_own [OF o1] w1(1) by simp
  from keeps_trans [OF this 2(4)] l2 have "keeps m w F w2 F2 (live p F Q)" by simp
  from keeps_trans [OF this 3(4)] l2 have k: "keeps m w F w' F' (live p F Q)" by simp
  have q: "w' = w \<and> F' = F" if "\<forall>j \<in> set (i # is). Q ?c l j = []"
  proof -
    have "a = null" using a(3) that by simp
    then show ?thesis using that a(2) 2(5) 3(5) by simp
  qed
  show ?case
    using run 3(2,3) l2 k q unfolding Q by (intro exI [of _ w'] exI [of _ F'] exI [of _ R'] conjI impI) simp_all
qed

lemma clear_ok:
  assumes "sinv m w F R Q" and "l < PS_NUMLOCALITIES" and "sp_coreid p < PS_NUMCORES"
    and "\<And>i. length (Q (sp_coreid p) l i) \<le> k"
  shows "\<exists>n w' F' R' Q'. ps_slab_mem_remote_clear k m l p here w = Some (n, w') \<and>
    n = (\<Sum>i\<leftarrow>[0..<NUM_REMOTE_LIST]. length (Q (sp_coreid p) l i)) \<and> sinv m w' F' R' Q' \<and>
    (\<forall>x y z. Q' x y z = (if x = sp_coreid p \<and> y = l then [] else Q x y z)) \<and>
    live p F' Q' = live p F Q \<and> keeps m w F w' F' (live p F Q) \<and>
    ((\<forall>i. Q (sp_coreid p) l i = []) \<longrightarrow> w' = w \<and> F' = F)"
proof -
  let ?Q = "\<lambda>x y z. if x = sp_coreid p \<and> y = l \<and> z \<in> set [0..<NUM_REMOTE_LIST] then [] else Q x y z"
  have "remotes_ok p m w F Q" using assms(1) by (simp add: sinv_def slab_inv_def)
  then have "Q x y z = []" if "\<not> z < NUM_REMOTE_LIST" for x y z
    using remotes_okD(2) [of p m w F Q x y z] that by (simp add: in_range_def)
  then have q: "\<forall>x y z. ?Q x y z = (if x = sp_coreid p \<and> y = l then [] else Q x y z)" by auto
  obtain w' F' R' where "remote_clear_from k [0..<NUM_REMOTE_LIST] 0 m l p here w =
      Some (0 + (\<Sum>i\<leftarrow>[0..<NUM_REMOTE_LIST]. length (Q (sp_coreid p) l i)), w')"
    "sinv m w' F' R' ?Q" "live p F' ?Q = live p F Q" "keeps m w F w' F' (live p F Q)"
    "(\<forall>i. Q (sp_coreid p) l i = []) \<longrightarrow> w' = w \<and> F' = F"
    using clear_from_ok [OF assms(1) _ _ assms(2,3,4), of "[0..<NUM_REMOTE_LIST]" 0 here] by auto
  with q show ?thesis unfolding ps_slab_mem_remote_clear_def by (intro exI conjI) (assumption | simp)+
qed

text \<open>All localities: the loop makes at most one round per locality.\<close>

lemma process_ok:
  assumes "sinv m w F R Q" and "sp_coreid p < PS_NUMCORES" and "\<And>l i. length (Q (sp_coreid p) l i) \<le> k"
  shows "\<exists>w' F' R' Q'. ps_slab_mem_remote_process k m p here w = Some w' \<and> sinv m w' F' R' Q' \<and>
    (\<forall>x y z. Q' x y z = (if x = sp_coreid p then [] else Q x y z)) \<and>
    live p F' Q' = live p F Q \<and> keeps m w F w' F' (live p F Q) \<and>
    ((\<forall>l i. Q (sp_coreid p) l i = []) \<longrightarrow> own_step p m (mems F) w w' \<and> F' = F)"
proof -
  have inv0: "slab_inv p m w F R Q" using assms(1) by (simp add: sinv_def)
  let ?c = "sp_coreid p"
  obtain si where si: "get_si m ?c w = Some si" "unat (si_remote_token si) < PS_NUMLOCALITIES"
    using slab_invD(3) [OF inv0] assms(2) by (auto simp: counts_ok_def)
  then have t: "si_remote_token si = 0" by (simp add: PS_NUMLOCALITIES_def unat_eq_0)
  have nl: "0 < PS_NUMLOCALITIES" by (simp add: PS_NUMLOCALITIES_def)
  obtain n w1 F1 R1 Q1 where 1: "ps_slab_mem_remote_clear k m 0 p here w = Some (n, w1)" "sinv m w1 F1 R1 Q1"
    "\<forall>x y z. Q1 x y z = (if x = ?c \<and> y = 0 then [] else Q x y z)"
    "live p F1 Q1 = live p F Q" "keeps m w F w1 F1 (live p F Q)"
    "(\<forall>i. Q ?c 0 i = []) \<longrightarrow> w1 = w \<and> F1 = F"
    using clear_ok [OF assms(1) nl assms(2,3), of here] by (elim exE conjE) (rule that)
  have Q0: "Q x y z = []" if "y \<noteq> 0" for x y z
    using remotes_okD(2) [OF slab_invD(4) [OF inv0], of x y z] that by (simp add: in_range_def PS_NUMLOCALITIES_def)
  have Q1: "\<forall>x y z. Q1 x y z = (if x = ?c then [] else Q x y z)"
    using 1(3) Q0 by auto
  have loop: "remote_process_loop k PS_NUMLOCALITIES 0 0 m p here w = Some (0, w1)"
    using 1(1) by (simp add: PS_NUMLOCALITIES_def)
  have inv1: "slab_inv p m w1 F1 R1 Q1" using 1(2) by (simp add: sinv_def)
  obtain si1 where si1: "get_si m ?c w1 = Some si1"
    using slab_invD(3) [OF inv1] assms(2) by (auto simp: counts_ok_def)
  let ?w = "set_si m ?c (si1\<lparr>si_remote_token := 0\<rparr>) w1"
  have run: "ps_slab_mem_remote_process k m p here w = Some ?w"
    using si(1) t loop upd_si_set [OF si1] by (simp add: ps_slab_mem_remote_process_def)
  have g: "get_si m c' ?w = (if c' = ?c then Some (si1\<lparr>si_remote_token := 0\<rparr>) else get_si m c' w1)" for c'
    by (rule get_set_si [OF si1])
  have "slabs_ok p ?w F1" using slab_invD(1) [OF inv1] by (subst slabs_ok_cong [of _ w1]) simp_all
  moreover have "rings_ok m ?w F1 R1"
    by (rule rings_ok_cong [OF _ _ slab_invD(2) [OF inv1]]) (use g si1 in auto)
  moreover have "counts_ok m ?w F1"
    using slab_invD(3) [OF inv1] g si1 unfolding counts_ok_def by (auto simp: PS_NUMLOCALITIES_def)
  moreover have "remotes_ok p m ?w F1 Q1" using slab_invD(4) [OF inv1] by (subst remotes_ok_cong [of _ w1]) simp_all
  ultimately have "slab_inv p m ?w F1 R1 Q1" using slab_invD(5) [OF inv1] unfolding slab_inv_def by blast
  moreover have "binv m ?w (mems F1) \<and> ready m ?w = ready m w1"
    using 1(2) own [OF own_step_set_si, of m w1 "mems F1" ?c "si1\<lparr>si_remote_token := 0\<rparr>"] by (simp add: sinv_def)
  ultimately have "sinv m ?w F1 R1 Q1" by (simp add: sinv_def)
  moreover have "keeps m w1 F1 ?w F1 (live p F Q)"
    by (rule keeps_own [OF own_step_set_si]) (use 1(2) in \<open>simp_all add: sinv_def\<close>)
  then have "keeps m w F ?w F1 (live p F Q)" using keeps_trans [OF 1(5)] by blast
  moreover have "own_step p m (mems F) w ?w \<and> F1 = F" if "\<forall>l i. Q ?c l i = []"
    using 1(6) that own_step_set_si by simp
  ultimately show ?thesis using run 1(4) Q1 by blast
qed

section \<open>Allocating\<close>

lemma set_si_ok:
  assumes "sinv m w F R Q" and "get_si m c w = Some si" and "si_fl si' = si_fl si" and "si_nslabs si' = si_nslabs si"
    and "si_remote_token si' = si_remote_token si"
  shows "sinv m (set_si m c si' w) F R Q"
proof -
  have inv0: "slab_inv p m w F R Q" and b: "binv m w (mems F)" using assms(1) by (simp_all add: sinv_def)
  note inv = slab_invD [OF inv0]
  let ?w = "set_si m c si' w"
  have g: "get_si m c' ?w = (if c' = c then Some si' else get_si m c' w)" for c'
    by (rule get_set_si [OF assms(2)])
  have "slabs_ok p ?w F" using inv(1) by (subst slabs_ok_cong [of _ w]) simp_all
  moreover have "rings_ok m ?w F R"
    by (rule rings_ok_cong [OF _ _ inv(2)]) (use g assms(2,3) in auto)
  moreover have "counts_ok m ?w F"
    by (rule counts_ok_upd [OF inv(3) assms(2) _ g]) (use counts_home [OF inv(3) assms(2)] assms(4,5) in auto)
  moreover have "remotes_ok p m ?w F Q" using inv(4) by (subst remotes_ok_cong [of _ w]) simp_all
  ultimately have "slab_inv p m ?w F R Q" using inv(5) unfolding slab_inv_def by blast
  then show ?thesis using own [OF own_step_set_si b] by (simp add: sinv_def)
qed

text \<open>The slab to take from: it has a free object, and obtaining it changes no live object.\<close>

definition obtained :: "addr \<Rightarrow> world \<Rightarrow> slabs \<Rightarrow> rings \<Rightarrow> remotes \<Rightarrow> addr \<Rightarrow> bool" where
  "obtained m w F R Q s \<longleftrightarrow> slabs_ok p w F \<and> rings_ok m w F R \<and> counts_ok m w F \<and> remotes_ok p m w F Q \<and>
     binv m w (mems F) \<and> (\<exists>mem h fs. F s = Some (mem, sp_coreid p, h # fs) \<and> length (h # fs) \<le> nobjs p) \<and>
     (\<forall>s' mem' c' fs'. s' \<noteq> s \<longrightarrow> F s' = Some (mem', c', fs') \<longrightarrow> length fs' < nobjs p)"

text \<open>The backend was ready and had nothing to give.\<close>

definition refused :: "addr \<Rightarrow> world \<Rightarrow> bool" where
  "refused m w' \<longleftrightarrow> (\<exists>w M. binv m w M \<and> ready m w \<and> sp_afn p m (sp_allocsz p) (sp_coreid p) w = Some (null, w'))"

text \<open>Nothing but own steps around at most one call of the backend's allocation function.\<close>

definition fetched :: "addr \<Rightarrow> world \<Rightarrow> slabs \<Rightarrow> world \<Rightarrow> slabs \<Rightarrow> bool" where
  "fetched m w F w' F' \<longleftrightarrow> (\<exists>w1 w2. own_step p m (mems F) w w1 \<and> own_step p m (mems F') w2 w' \<and>
     (w2 = w1 \<and> mems F' = mems F \<or>
      (\<exists>s. sp_afn p m (sp_allocsz p) (sp_coreid p) w1 = Some (s, w2) \<and>
        (if s = null then mems F' = mems F
         else mems F s = None \<and> (\<exists>mem. mems F' = (mems F)(s \<mapsto> mem) \<and> fresh_slab p w2 s mem)))))"

lemma fetched_before: "own_step p m (mems F) w w1 \<Longrightarrow> fetched m w1 F w' F' \<Longrightarrow> fetched m w F w' F'"
  unfolding fetched_def using own_step_trans by blast

lemma fetched_after: "fetched m w F w1 F' \<Longrightarrow> own_step p m (mems F') w1 w' \<Longrightarrow> fetched m w F w' F'"
  unfolding fetched_def using own_step_trans by blast

lemma fetched_refl: "fetched m w F w F"
  unfolding fetched_def using own_step_refl by blast

lemma fetched_cong: "mems F' = mems F'' \<Longrightarrow> fetched m w F w' F' = fetched m w F w' F''"
  by (simp add: fetched_def)

lemma obtain_ring:
  assumes "sinv m w F R Q" and "get_si m (sp_coreid p) w = Some si" and "si_fl si \<noteq> null" and "sp_coreid p < PS_NUMCORES"
  shows "slab_obtain m p here w = Some (si_fl si, w) \<and> obtained m w F R Q (si_fl si)"
proof -
  have inv0: "slab_inv p m w F R Q" and b: "binv m w (mems F)" using assms(1) by (simp_all add: sinv_def)
  note inv = slab_invD [OF inv0]
  have r: "pl.list_at SLAB_LIST (w_ls w) (si_fl si) (R (sp_coreid p))" "set (R (sp_coreid p)) = partial F (sp_coreid p)"
    using rings_okD [OF inv(2) assms(4)] assms(2) by (metis option.inject)+
  then have "si_fl si \<in> partial F (sp_coreid p)"
    using assms(3) by (cases "R (sp_coreid p)") (auto simp: pl.list_at_def)
  then obtain mem h fs where F: "F (si_fl si) = Some (mem, sp_coreid p, h # fs)"
    by (auto simp: partial_def neq_Nil_conv)
  from inv(5) [OF F] have "length (h # fs) \<le> nobjs p" by simp
  then have "obtained m w F R Q (si_fl si)"
    using F inv b unfolding obtained_def by blast
  then show ?thesis using assms(2,3) by (simp add: slab_obtain_def)
qed

lemma obtain_new:
  assumes "sinv m w F R Q" and "get_si m (sp_coreid p) w = Some si" and "si_fl si = null" and "sp_coreid p < PS_NUMCORES"
    and "ready m w" and "fst here = sp_coreid p"
  shows "\<exists>s w' F' R'. slab_obtain m p here w = Some (s, w') \<and> owned p F' = owned p F \<and>
    (\<forall>x \<in> owned p F. same_obj p w F w' F' x) \<and>
    (if s = null then sinv m w' F R Q \<and> F' = F \<and> refused m w' else obtained m w' F' R' Q s) \<and> fetched m w F w' F'"
proof -
  have inv0: "slab_inv p m w F R Q" and b: "binv m w (mems F)" using assms(1) by (simp_all add: sinv_def)
  note inv = slab_invD [OF inv0]
  let ?c = "sp_coreid p"
  obtain s w1 where 1: "sp_afn p m (sp_allocsz p) ?c w = Some (s, w1)" "\<forall>c. get_pc m c w1 = get_pc m c w"
    and sc: "\<And>s' mem'. mems F s' = Some mem' \<Longrightarrow> same_cells p w w1 s' mem'"
    and cs: "if s = null then binv m w1 (mems F)
         else mems F s = None \<and> (\<exists>mem. fresh_slab p w1 s mem \<and> binv m w1 ((mems F)(s \<mapsto> mem)) \<and>
           (\<forall>s' mem'. mems F s' = Some mem' \<longrightarrow> set (slab_objs p mem') \<inter> set (slab_objs p mem) = {}))"
    using afn [OF b assms(5)] by blast
  have inv1: "slab_inv p m w1 F R Q" by (rule slab_inv_frame [OF inv0 1(2) [THEN spec] sc])
  have keep: "same_obj p w F w1 F x" if x: "x \<in> owned p F" for x
  proof -
    obtain s' mem' c' fs' where x': "F s' = Some (mem', c', fs')" "x \<in> set (slab_objs p mem')" using x by (rule ownedE)
    then show ?thesis using same_cells_obj [OF inv(1) x' sc] by (simp add: mems_def same_obj_def)
  qed
  show ?thesis
  proof (cases "s = null")
    case True
    have "slab_obtain m p here w = Some (s, w1)" using 1(1) True assms(2,3) by (simp add: slab_obtain_def)
    moreover have "sinv m w1 F R Q" using inv1 cs True by (simp add: sinv_def)
    moreover have "refused m w1" using b assms(5) 1(1) True by (auto simp: refused_def)
    moreover have "fetched m w F w1 F"
      unfolding fetched_def using 1(1) True own_step_refl by (intro exI [of _ w] exI [of _ w1]) auto
    ultimately show ?thesis using keep True by auto
  next
    case False
    then obtain mem where ms: "mems F s = None" and fr: "fresh_slab p w1 s mem" and b1: "binv m w1 ((mems F)(s \<mapsto> mem))"
      and dj: "\<forall>s' mem'. mems F s' = Some mem' \<longrightarrow> set (slab_objs p mem') \<inter> set (slab_objs p mem) = {}"
      using cs by auto
    have Fs: "F s = None" using ms by (simp add: mems_def)
    obtain sl l where f: "fits p mem" "w_sl w1 s = Some sl" "sl_memory sl = mem"
      "\<forall>h \<in> set (slab_objs p mem). w_mh w1 h = Some zero_mheader" "w_ls w1 (s + SLAB_LIST) = Some l"
      using fr by (auto simp: fresh_slab_def)
    note i1 = slab_invD [OF inv1]
    have dj': "\<forall>s' mem' c' fs'. F s' = Some (mem', c', fs') \<longrightarrow> set (slab_objs p mem') \<inter> set (slab_objs p mem) = {}"
      using dj by (simp add: mems_def)
    let ?F = "F(s \<mapsto> (mem, ?c, slab_objs p mem))"
    obtain w2 w3 si1 where 2: "ps_slab_init s m p here w1 = Some w2" "slabs_ok p w2 ?F"
      and r2: "rings_ok m w2 ?F (R(?c := s # tl (R ?c) @ take 1 (R ?c)))" and g1: "get_si m ?c w1 = Some si1"
      and w2: "w2 = set_si m ?c (si1\<lparr>si_fl := s\<rparr>) w3" "w_mem w3 = w_mem w1"
      and o2: "own_step p m (mems ?F) w1 w2"
      and out: "\<forall>h. h \<notin> set (slab_objs p mem) \<longrightarrow> w_mh w2 h = w_mh w1 h"
      and sl2: "\<exists>sl'. w_sl w2 s = Some sl' \<and> sl_memory sl' = mem \<and> sl_freelist sl' \<noteq> null"
      using ps_slab_init_ok [OF sizes [OF b] f(1) False assms(4) refl assms(6) f(2-5) i1(1,2) Fs dj'] by blast
    have g3: "get_si m c' w3 = get_si m c' w1" "get_remote m c' a k w3 = get_remote m c' a k w1" for c' a k
      using w2(2) get_si_cong [of w3 m w1] get_remote_cong [of w3 m w1] by simp_all
    have g2: "get_si m c' w2 = (if c' = ?c then Some (si1\<lparr>si_fl := s\<rparr>) else get_si m c' w1)" for c'
      unfolding w2(1) using g1 g3 by (subst get_set_si [of _ _ _ si1]) simp_all
    have gr2: "get_remote m c' a k w2 = get_remote m c' a k w1" for c' a k unfolding w2(1) using g3 by simp
    let ?si = "si1\<lparr>si_fl := s, si_nslabs := si_nslabs si1 + 1\<rparr>"
    let ?w = "set_si m ?c ?si w2"
    have g: "get_si m c' ?w = (if c' = ?c then Some ?si else get_si m c' w1)" for c'
      using g2 by (subst get_set_si [of _ _ _ "si1\<lparr>si_fl := s\<rparr>"]) simp_all
    have u: "upd_si m ?c (\<lambda>si. si\<lparr>si_nslabs := si_nslabs si + 1\<rparr>) w2 = Some ?w"
      using g2 by (subst upd_si_set [of _ _ _ "si1\<lparr>si_fl := s\<rparr>"]) simp_all
    have run: "slab_obtain m p here w = Some (s, ?w)"
      using assms(2,3) 1(1) False 2(1) u sl2 f(1) by (auto simp: slab_obtain_def fits_def)
    have fin: "finite (home F ?c)" using i1(1) by (intro finite_home) (simp add: slabs_ok_def)
    have new: "s \<notin> home F ?c" using Fs by (simp add: home_def)
    have "insert s (home F ?c) \<subseteq> UNIV - {null}"
      using False slabs_okD [OF i1(1)] by (auto simp: home_def slab_rep_def)
    then have "card (insert s (home F ?c)) \<le> card (UNIV - {null :: addr})" by (intro card_mono) simp_all
    also have "\<dots> < 2 ^ 64" by (simp add: card_Diff_singleton card_word)
    finally have "card (home F ?c) + 1 < 2 ^ 64" using fin new by simp
    moreover have "unat (si_nslabs si1) = card (home F ?c)" using counts_home [OF i1(3) g1 assms(4)] by simp
    ultimately have n: "unat (si_nslabs si1 + 1) = card (home ?F ?c)"
      using fin new home_new [of F s mem ?c "slab_objs p mem" ?c] Fs by (subst unat_add_small) simp_all
    have cnt: "counts_ok m ?w ?F"
      by (rule counts_ok_upd [OF i1(3) g1 _ g]) (use n home_new [of F s mem ?c "slab_objs p mem"] Fs in auto)
    have slabs: "slabs_ok p ?w ?F" using 2(2) by (subst slabs_ok_cong [of _ w2]) simp_all
    have rings: "rings_ok m ?w ?F (R(?c := s # tl (R ?c) @ take 1 (R ?c)))"
      by (rule rings_ok_cong [OF _ _ r2]) (use g g2 in auto)
    have px: "w_mh ?w x = w_mh w1 x" if x: "\<exists>s' mem' c' fs'. F s' = Some (mem', c', fs') \<and> x \<in> set (slab_objs p mem')" for x
      using x dj' out by fastforce
    have rem: "remotes_ok p m ?w ?F Q"
    proof (rule remotes_ok_change [OF i1(4)])
      fix x assume "x \<in> pending Q"
      then show "w_mh ?w x = w_mh w1 x"
        using pending_waiting [OF i1(4), of x] by (intro px) (auto simp: waiting_def)
    next
      fix s' mem' c' fs' h assume "F s' = Some (mem', c', fs')"
      then show "\<exists>fs''. ?F s' = Some (mem', c', fs'')" using Fs by auto
    qed (use gr2 in simp)
    have o3: "own_step p m (mems ?F) w1 ?w" by (rule own_step_trans [OF o2 own_step_set_si])
    have ft: "fetched m w F ?w ?F"
      unfolding fetched_def using 1(1) False ms fr own_step_refl o3 by (intro exI [of _ w] exI [of _ w1]) (auto simp: mems_new)
    have bw: "binv m ?w (mems ?F)"
      using own [OF o3] b1 by (simp add: mems_new)
    have "1 < length (slab_objs p mem)" using nobjs_bounds(1) [OF sizes [OF b]] by simp
    then obtain h fs where hf: "slab_objs p mem = h # fs" by (cases "slab_objs p mem") fastforce+
    have "length (h # fs) \<le> nobjs p" unfolding hf [symmetric] by simp
    then have "obtained m ?w ?F (R(?c := s # tl (R ?c) @ take 1 (R ?c))) Q s"
      unfolding obtained_def using slabs rings cnt rem bw hf i1(5) by auto
    moreover have "owned p ?F = owned p F" by (rule owned_new [where F = F and s = s, OF Fs])
    moreover have bl: "belongs p ?F c' x" if bl: "belongs p F c' x" for c' x
    proof -
      obtain s2 mem2 fs2 where "F s2 = Some (mem2, c', fs2)" "x \<in> set (slab_objs p mem2)"
        using bl by (auto simp: belongs_def)
      moreover from this Fs have "s2 \<noteq> s" by auto
      ultimately show ?thesis unfolding belongs_def by (intro exI [where x = s2] exI [where x = mem2]) auto
    qed
    moreover have "\<forall>x \<in> owned p F. same_obj p w F ?w ?F x"
    proof
      fix x assume x: "x \<in> owned p F"
      then have "w_mh ?w x = w_mh w1 x" by (intro px) (auto elim!: ownedE)
      then have "same_obj p w1 F ?w ?F x" using own_step_obj_ids [OF o3] bl by (simp add: same_obj_def)
      then show "same_obj p w F ?w ?F x" by (rule same_obj_trans [OF keep [OF x]])
    qed
    ultimately show ?thesis using run False ft by auto
  qed
qed

lemma alloc_ok:
  assumes "sinv m w F R Q" and "ready m w" and "sp_coreid p < PS_NUMCORES" and "fst here = sp_coreid p"
    and "\<And>l i. length (Q (sp_coreid p) l i) \<le> k"
  shows "\<exists>b w' F' R' Q'. ps_slab_mem_alloc k m p here w = Some (b, w') \<and> sinv m w' F' R' Q' \<and>
    (\<forall>x \<in> live p F Q. same_obj p w F w' F' x) \<and> (\<forall>x y z. Q x y z = [] \<longrightarrow> Q' x y z = []) \<and>
    ((\<forall>l i. Q (sp_coreid p) l i = []) \<longrightarrow> fetched m w F w' F') \<and>
    (if b = null then live p F' Q' = live p F Q \<and> refused m w'
     else \<exists>h s. b = ps_mhead_mem h \<and> h \<notin> live p F Q \<and> live p F' Q' = insert h (live p F Q) \<and>
       belongs p F' (sp_coreid p) h \<and> w_mh w' h = Some \<lparr>mh_tsc_free = 0, mh_slab = s, mh_next = null\<rparr>)"
proof -
  let ?c = "sp_coreid p"
  have ok: "params_ok p" using assms(1) sizes by (auto simp: sinv_def)
  have "counts_ok m w F" using assms(1) by (simp add: sinv_def slab_inv_def)
  then obtain si where si: "get_si m ?c w = Some si" using assms(3) by (auto simp: counts_ok_def)
  let ?si = "si\<lparr>si_salloccnt := si_salloccnt si + 1\<rparr>"
  define w0 where "w0 = set_si m ?c ?si w"
  have u: "upd_si m ?c (\<lambda>si. si\<lparr>si_salloccnt := si_salloccnt si + 1\<rparr>) w = Some w0"
    unfolding w0_def by (rule upd_si_set [OF si])
  have g0: "get_si m ?c w0 = Some ?si" unfolding w0_def using get_set_si [OF si, of ?c ?si] by simp
  have i0: "sinv m w0 F R Q" unfolding w0_def by (rule set_si_ok [OF assms(1) si]) simp_all
  have b: "binv m w (mems F)" using assms(1) by (simp add: sinv_def)
  have o0: "own_step p m (mems F) w w0" unfolding w0_def by (rule own_step_set_si)
  have r0: "ready m w0" using own [OF o0 b] assms(2) by simp
  obtain w1 F1 R1 Q1 where 1: "(if si_salloccnt ?si mod PS_REMOTE_BATCH = 0
          then ps_slab_mem_remote_process k m p here w0 else Some w0) = Some w1"
    and i1: "sinv m w1 F1 R1 Q1" and l1: "live p F1 Q1 = live p F Q" and k1: "keeps m w0 F w1 F1 (live p F Q)"
    and n1: "\<forall>x y z. Q x y z = [] \<longrightarrow> Q1 x y z = []"
    and q1: "(\<forall>l i. Q ?c l i = []) \<longrightarrow> own_step p m (mems F) w0 w1 \<and> F1 = F"
  proof (cases "si_salloccnt ?si mod PS_REMOTE_BATCH = 0")
    case True
    obtain w' F' R' Q' where "ps_slab_mem_remote_process k m p here w0 = Some w'" "sinv m w' F' R' Q'"
      "\<forall>x y z. Q' x y z = (if x = sp_coreid p then [] else Q x y z)"
      "live p F' Q' = live p F Q" "keeps m w0 F w' F' (live p F Q)"
      "(\<forall>l i. Q (sp_coreid p) l i = []) \<longrightarrow> own_step p m (mems F) w0 w' \<and> F' = F"
      using process_ok [OF i0 assms(3,5), of here] by (elim exE conjE) (rule that)
    with True show ?thesis by (intro that [of w' F' R' Q']) simp_all
  next
    case False
    then show ?thesis using i0 own_step_refl by (intro that [of w0 F R Q]) (simp_all add: keeps_refl)
  qed
  have r1: "ready m w1" using k1 r0 by (simp add: keeps_def)
  have inv1: "slab_inv p m w1 F1 R1 Q1" using i1 by (simp add: sinv_def)
  obtain si1 where si1: "get_si m ?c w1 = Some si1"
    using slab_invD(3) [OF inv1] assms(3) by (auto simp: counts_ok_def)
  obtain s w2 F2 R2 where 2: "slab_obtain m p here w1 = Some (s, w2)" "owned p F2 = owned p F1"
    "\<forall>x \<in> owned p F1. same_obj p w1 F1 w2 F2 x"
    "if s = null then sinv m w2 F1 R1 Q1 \<and> F2 = F1 \<and> refused m w2 else obtained m w2 F2 R2 Q1 s"
    "fetched m w1 F1 w2 F2"
  proof (cases "si_fl si1 = null")
    case True
    from obtain_new [OF i1 si1 True assms(3) r1 assms(4)] obtain s w2 F2 R2 where
      "slab_obtain m p here w1 = Some (s, w2)" "owned p F2 = owned p F1"
      "\<forall>x \<in> owned p F1. same_obj p w1 F1 w2 F2 x"
      "if s = null then sinv m w2 F1 R1 Q1 \<and> F2 = F1 \<and> refused m w2 else obtained m w2 F2 R2 Q1 s"
      "fetched m w1 F1 w2 F2" by metis
    then show ?thesis by (rule that)
  next
    case False
    from obtain_ring [OF i1 si1 False assms(3)] show ?thesis
      using False fetched_refl same_obj_refl by (intro that [of "si_fl si1" w1 F1 R1]) auto
  qed
  have ft: "fetched m w F w2 F2" if "\<forall>l i. Q ?c l i = []"
    using fetched_before [OF o0] fetched_before [of m F w0 w1 w2 F2] q1 2(5) that by auto
  have lo: "live p F Q \<subseteq> owned p F1" using l1 by (auto simp: live_def)
  have keep2: "same_obj p w F w2 F2 x" if x: "x \<in> live p F Q" for x
  proof -
    have "same_obj p w F w0 F x" by (rule same_obj_own [OF o0]) (simp add: w0_def)
    moreover have "same_obj p w0 F w1 F1 x" using k1 x by (simp add: keeps_def)
    moreover have "same_obj p w1 F1 w2 F2 x" using 2(3) lo x by blast
    ultimately show ?thesis using same_obj_trans by blast
  qed
  have pre: "ps_slab_mem_alloc k m p here w = (if s = null then Some (null, w2) else slab_take s m p w2)"
    using size_check(2) [OF ok] u g0 1 2(1) by (simp add: ps_slab_mem_alloc_def)
  show ?thesis
  proof (cases "s = null")
    case True
    then have "sinv m w2 F1 R1 Q1" "F2 = F1" "refused m w2" using 2(4) by simp_all
    moreover have "ps_slab_mem_alloc k m p here w = Some (null, w2)" using pre True by simp
    ultimately show ?thesis using l1 keep2 ft True n1 by (intro exI [of _ null] exI [of _ w2] exI [of _ F1] exI [of _ R1] exI [of _ Q1]) simp
  next
    case False
    then have ob: "obtained m w2 F2 R2 Q1 s" using 2(4) by simp
    then obtain mem h fs where F2: "F2 s = Some (mem, ?c, h # fs)" "length (h # fs) \<le> nobjs p"
      unfolding obtained_def by blast
    have parts: "slabs_ok p w2 F2" "rings_ok m w2 F2 R2" "counts_ok m w2 F2" "remotes_ok p m w2 F2 Q1" "binv m w2 (mems F2)"
      and lens: "\<forall>s' mem' c' fs'. s' \<noteq> s \<longrightarrow> F2 s' = Some (mem', c', fs') \<longrightarrow> length fs' < nobjs p"
      using ob unfolding obtained_def by blast+
    let ?F = "F2(s \<mapsto> (mem, ?c, fs))"
    obtain w' R' where 3: "slab_take s m p w2 = Some (ps_mhead_mem h, w')" "slab_inv p m w' ?F R' Q1"
      "own_step p m (mems F2) w2 w'" "\<forall>x. x \<noteq> h \<longrightarrow> w_mh w' x = w_mh w2 x"
      "w_mh w' h = Some \<lparr>mh_tsc_free = 0, mh_slab = s, mh_next = null\<rparr>"
      using slab_take_ok [OF parts(1-4) F2 lens] by blast
    have rep: "slab_rep p w2 s mem ?c (h # fs)" by (rule slabs_okD [OF parts(1) F2(1)])
    then have hm: "h \<in> set (slab_objs p mem)" "fits p mem" by (auto simp: slab_rep_def)
    have bn: "ps_mhead_mem h \<noteq> null" by (rule mhead_mem_nonnull [OF ok hm(2,1)])
    have hp: "h \<notin> pending Q1" using pending_not_free [OF parts(1,4) _ F2(1)] by auto
    have hl: "h \<notin> live p F Q"
      using not_owned_free [OF parts(1) F2(1), of h] lo 2(2) by auto
    have owns: "owned p ?F = insert h (owned p F1)" using owned_take [OF parts(1) F2(1)] 2(2) by simp
    have l: "live p ?F Q1 = insert h (live p F Q)" using owns l1 hp by (auto simp: live_def)
    have bl: "belongs p ?F = belongs p F2" by (rule belongs_upd [where F = F2 and s = s, OF F2(1)])
    have hb: "belongs p ?F ?c h" unfolding bl using F2(1) hm(1) by (auto simp: belongs_def)
    have "sinv m w' ?F R' Q1"
      using 3(2) own [OF 3(3) parts(5)] mems_upd [where F = F2 and s = s, OF F2(1)] by (simp add: sinv_def)
    moreover have "\<forall>x \<in> live p F Q. same_obj p w F w' ?F x"
    proof
      fix x assume x: "x \<in> live p F Q"
      then have "w_mh w' x = w_mh w2 x" using 3(4) hl by auto
      then have "same_obj p w2 F2 w' ?F x" using own_step_obj_ids [OF 3(3)] bl by (simp add: same_obj_def)
      then show "same_obj p w F w' ?F x" by (rule same_obj_trans [OF keep2 [OF x]])
    qed
    moreover have "ps_slab_mem_alloc k m p here w = Some (ps_mhead_mem h, w')" using pre False 3(1) by simp
    moreover have "fetched m w F w' ?F" if "\<forall>l i. Q ?c l i = []"
      using fetched_after [OF ft [OF that] 3(3)] fetched_cong [OF mems_upd [where F = F2 and s = s, OF F2(1)]] by blast
    ultimately show ?thesis using bn hl l hb 3(5) n1
      by (intro exI [of _ "ps_mhead_mem h"] exI [of _ w'] exI [of _ ?F] exI [of _ R'] exI [of _ Q1]) auto
  qed
qed

end

text \<open>A backend that does not return without memory: then no allocation does.\<close>

locale slab_backend_total = slab_backend +
  assumes total: "binv m w M \<Longrightarrow> ready m w \<Longrightarrow> sp_afn p m (sp_allocsz p) (sp_coreid p) w = Some (s, w') \<Longrightarrow> s \<noteq> null"
begin

lemma not_refused: "\<not> refused m w"
  unfolding refused_def using total by blast

lemma alloc_total:
  assumes "sinv m w F R Q" and "ready m w" and "sp_coreid p < PS_NUMCORES" and "fst here = sp_coreid p"
    and "\<And>l i. length (Q (sp_coreid p) l i) \<le> k"
  shows "\<exists>h s w' F' R' Q'. ps_slab_mem_alloc k m p here w = Some (ps_mhead_mem h, w') \<and> ps_mhead_mem h \<noteq> null \<and>
    sinv m w' F' R' Q' \<and> (\<forall>x \<in> live p F Q. same_obj p w F w' F' x) \<and> (\<forall>x y z. Q x y z = [] \<longrightarrow> Q' x y z = []) \<and>
    h \<notin> live p F Q \<and> live p F' Q' = insert h (live p F Q) \<and> belongs p F' (sp_coreid p) h \<and>
    w_mh w' h = Some \<lparr>mh_tsc_free = 0, mh_slab = s, mh_next = null\<rparr> \<and>
    ((\<forall>l i. Q (sp_coreid p) l i = []) \<longrightarrow> fetched m w F w' F')"
proof -
  obtain b w' F' R' Q' where 1: "ps_slab_mem_alloc k m p here w = Some (b, w')" "sinv m w' F' R' Q'"
    "\<forall>x \<in> live p F Q. same_obj p w F w' F' x" "\<forall>x y z. Q x y z = [] \<longrightarrow> Q' x y z = []"
    and ft: "(\<forall>l i. Q (sp_coreid p) l i = []) \<longrightarrow> fetched m w F w' F'"
    and 2: "if b = null then live p F' Q' = live p F Q \<and> refused m w'
     else \<exists>h s. b = ps_mhead_mem h \<and> h \<notin> live p F Q \<and> live p F' Q' = insert h (live p F Q) \<and>
       belongs p F' (sp_coreid p) h \<and> w_mh w' h = Some \<lparr>mh_tsc_free = 0, mh_slab = s, mh_next = null\<rparr>"
    using alloc_ok [OF assms] by (elim exE conjE) (rule that)
  have b: "b \<noteq> null" using 2 not_refused by auto
  then obtain h s where "b = ps_mhead_mem h" "h \<notin> live p F Q" "live p F' Q' = insert h (live p F Q)"
    "belongs p F' (sp_coreid p) h" "w_mh w' h = Some \<lparr>mh_tsc_free = 0, mh_slab = s, mh_next = null\<rparr>"
    using 2 by (simp only: if_False) (elim exE conjE, rule that)
  with 1 b ft show ?thesis by blast
qed

end

end
