(* ===== verification/Slab_Default.thy ===== *)
theory Slab_Default
  imports Slab_Backend
begin

text \<open>
  The default backend keeps the contract, so the slab allocator is correct over it: \<open>ps_slab_defalloc\<close>
  and \<open>ps_slab_deffree\<close> on the Linux platform allocator, of which only the documented behaviour is
  assumed (\<open>good_block\<close>: an answer is page aligned, does not wrap and does not overlap a block in use).
\<close>

section \<open>The platform's answers\<close>

definition apart :: "addr \<Rightarrow> u64 \<Rightarrow> addr \<Rightarrow> u64 \<Rightarrow> bool" where
  "apart a sz b sz' \<longleftrightarrow> unat a + unat sz \<le> unat b \<or> unat b + unat sz' \<le> unat a"

definition good_block :: "u64 heap \<Rightarrow> addr \<Rightarrow> u64 \<Rightarrow> bool" where
  "good_block B a sz \<longleftrightarrow> a \<noteq> null \<and> 4096 dvd unat a \<and> unat a + unat sz < 2 ^ 64 \<and>
     (\<forall>b sz'. B b = Some sz' \<longrightarrow> apart a sz b sz')"

definition blocks_ok :: "u64 heap \<Rightarrow> bool" where
  "blocks_ok B \<longleftrightarrow> (\<forall>a sz. B a = Some sz \<longrightarrow> a \<noteq> null \<and> 4096 dvd unat a \<and> unat a + unat sz < 2 ^ 64) \<and>
     (\<forall>a sz b sz'. B a = Some sz \<longrightarrow> B b = Some sz' \<longrightarrow> a \<noteq> b \<longrightarrow> apart a sz b sz')"

lemma apart_in_block: "apart a sz b sz' \<Longrightarrow> in_block b sz' x \<Longrightarrow> \<not> in_block a sz x"
  by (auto simp: apart_def in_block_def)

section \<open>The default backend\<close>

definition def_params :: "slab_params \<Rightarrow> slab_params" where
  "def_params p = p\<lparr>sp_afn := ps_slab_defalloc ps_plat_alloc_linux, sp_ffn := ps_slab_deffree ps_plat_free_linux\<rparr>"

definition def_binv :: "slab_params \<Rightarrow> world \<Rightarrow> (addr \<Rightarrow> addr option) \<Rightarrow> bool" where
  "def_binv p w M \<longleftrightarrow> params_ok p \<and> sp_headoff p = sizeof_ps_slab \<and> blocks_ok (w_blocks w) \<and>
     (\<forall>s mem. M s = Some mem \<longrightarrow> mem = s \<and> w_blocks w s = Some (sp_allocsz p))"

definition def_ready :: "slab_params \<Rightarrow> world \<Rightarrow> bool" where
  "def_ready p w \<longleftrightarrow> (\<exists>a as. w_answers w = a # as \<and> good_block (w_blocks w) a (sp_allocsz p))"

lemma def_params_sizes [simp]:
  "sp_coreid (def_params p) = sp_coreid p" "sp_obj_sz (def_params p) = sp_obj_sz p"
  "sp_allocsz (def_params p) = sp_allocsz p" "sp_headoff (def_params p) = sp_headoff p"
  "params_ok (def_params p) = params_ok p" "nobjs (def_params p) = nobjs p"
  "sp_afn (def_params p) = ps_slab_defalloc ps_plat_alloc_linux" "sp_ffn (def_params p) = ps_slab_deffree ps_plat_free_linux"
  "slab_objs (def_params p) = slab_objs p" "fits (def_params p) = fits p" "obj_at (def_params p) = obj_at p"
  by (simp_all add: def_params_def params_ok_def nobjs_def slab_objs_def fits_def obj_at_def fun_eq_iff)

lemma sizes_nat: "unat sizeof_ps_slab = 96" "unat SLAB_LIST = 72"
  by (simp_all add: sizeof_ps_slab_def SLAB_LIST_def PS_CACHE_LINE_def)

text \<open>All cells of a slab lie in its block.\<close>

lemma cells_in_block:
  assumes "params_ok p" and "sp_headoff p = sizeof_ps_slab" and "fits p s"
  shows "in_block s (sp_allocsz p) s" "in_block s (sp_allocsz p) (s + SLAB_LIST)"
    "h \<in> set (slab_objs p s) \<Longrightarrow> in_block s (sp_allocsz p) h"
proof -
  have sz: "96 \<le> unat (sp_allocsz p)" using assms(1,2) sizes_nat by (auto simp: params_ok_def)
  then show "in_block s (sp_allocsz p) s" by (simp add: in_block_def)
  have "unat (s + SLAB_LIST) = unat s + 72"
    using assms(3) sz sizes_nat by (subst unat_add_small) (auto simp: fits_def)
  then show "in_block s (sp_allocsz p) (s + SLAB_LIST)" using sz by (simp add: in_block_def)
  assume "h \<in> set (slab_objs p s)"
  then obtain i where "i < nobjs p" "h = obj_at p s i" by (auto simp: slab_objs_def)
  then show "in_block s (sp_allocsz p) h"
    using slab_obj_extent(1,2) [OF assms(1,3), of i] objsz_bounds(1) [OF assms(1)] by (simp add: in_block_def)
qed

lemma fits_block: "blocks_ok B \<Longrightarrow> B s = Some (sp_allocsz p) \<Longrightarrow> fits p s"
  by (simp add: blocks_ok_def fits_def)

lemma fill_out: "\<not> in_block a sz x \<Longrightarrow> fill a sz v h x = h x"
  by (simp add: fill_def)

lemma def_afn:
  assumes b: "def_binv p w M" and r: "def_ready p w"
  shows "\<exists>s w'. ps_slab_defalloc ps_plat_alloc_linux m (sp_allocsz p) c w = Some (s, w') \<and> w_mem w' = w_mem w \<and>
    (\<forall>s' mem'. M s' = Some mem' \<longrightarrow> same_cells p w w' s' mem') \<and> s \<noteq> null \<and> M s = None \<and> fresh_slab p w' s s \<and>
    def_binv p w' (M(s \<mapsto> s)) \<and> (\<forall>s' mem'. M s' = Some mem' \<longrightarrow> set (slab_objs p mem') \<inter> set (slab_objs p s) = {})"
proof -
  obtain a as where a: "w_answers w = a # as" "good_block (w_blocks w) a (sp_allocsz p)"
    using r by (auto simp: def_ready_def)
  have ok: "params_ok p" "sp_headoff p = sizeof_ps_slab" "blocks_ok (w_blocks w)"
    and M: "\<And>s mem. M s = Some mem \<Longrightarrow> mem = s \<and> w_blocks w s = Some (sp_allocsz p)"
    using b by (auto simp: def_binv_def)
  have an: "a \<noteq> null" and fa: "fits p a" using a(2) by (auto simp: good_block_def fits_def)
  let ?wz = "zero_block a (sp_allocsz p) (w\<lparr>w_answers := as\<rparr>)"
  let ?w = "?wz\<lparr>w_sl := (w_sl ?wz)(a \<mapsto> zero_slab\<lparr>sl_memory := a\<rparr>)\<rparr>"
  note cells = cells_in_block [OF ok(1,2) fa]
  have run: "ps_slab_defalloc ps_plat_alloc_linux m (sp_allocsz p) c w = Some (a, ?w)"
  proof -
    have "w_sl ?wz a = Some zero_slab" using cells(1) by (simp add: zero_block_def fill_def)
    then show ?thesis using a(1) an
      by (simp add: ps_slab_defalloc_def ps_plat_alloc_linux_def plat_answer_def upd_slab_def)
  qed
  have ap: "apart a (sp_allocsz p) s (sp_allocsz p)" if "M s = Some mem" for s mem
    using M [OF that] a(2) by (auto simp: good_block_def)
  have out: "\<not> in_block a (sp_allocsz p) x" if "M s = Some mem" "in_block s (sp_allocsz p) x" for s mem x
    by (rule apart_in_block [OF ap [OF that(1)] that(2)])
  have old: "in_block s (sp_allocsz p) s" "in_block s (sp_allocsz p) (s + SLAB_LIST)"
    "\<And>h. h \<in> set (slab_objs p mem) \<Longrightarrow> in_block s (sp_allocsz p) h" if "M s = Some mem" for s mem
    using cells_in_block [OF ok(1,2) fits_block [OF ok(3)], of s] M [OF that] by auto
  have Ma: "M a = None"
  proof (rule ccontr)
    assume "M a \<noteq> None"
    then obtain mem where "M a = Some mem" by auto
    from out [OF this old(1) [OF this]] cells(1) show False by simp
  qed
  have "\<forall>s' mem'. M s' = Some mem' \<longrightarrow> same_cells p w ?w s' mem'"
  proof (intro allI impI)
    fix s' mem' assume M': "M s' = Some mem'"
    then have "s' \<noteq> a" using Ma by auto
    then show "same_cells p w ?w s' mem'"
      using out [OF M' old(1) [OF M']] out [OF M' old(2) [OF M']] out [OF M' old(3) [OF M']]
      by (simp add: same_cells_def zero_block_def fill_out)
  qed
  moreover have "fresh_slab p ?w a a"
    using an fa cells by (auto simp: fresh_slab_def zero_block_def fill_def zero_list_def)
  moreover have "def_binv p ?w (M(a \<mapsto> a))"
  proof -
    have "blocks_ok ((w_blocks w)(a \<mapsto> sp_allocsz p))"
      using ok(3) a(2) unfolding blocks_ok_def good_block_def apart_def by (auto split: if_splits)
    then show ?thesis using ok M Ma by (auto simp: def_binv_def zero_block_def)
  qed
  moreover have "set (slab_objs p mem') \<inter> set (slab_objs p a) = {}" if "M s' = Some mem'" for s' mem'
    using out [OF that old(3) [OF that]] cells(3) by auto
  ultimately show ?thesis using run an Ma by (intro exI [of _ a] exI [of _ ?w]) (simp add: zero_block_def)
qed

lemma def_ffn:
  assumes b: "def_binv p w M" and M: "M s = Some mem"
  shows "\<exists>w'. ps_slab_deffree ps_plat_free_linux m s sz c w = Some w' \<and> w_mem w' = w_mem w \<and>
    def_binv p w' (M(s := None)) \<and> (def_ready p w \<longrightarrow> def_ready p w') \<and>
    (\<forall>s' mem'. M s' = Some mem' \<longrightarrow> s' \<noteq> s \<longrightarrow> same_cells p w w' s' mem')"
proof -
  have ok: "params_ok p" "sp_headoff p = sizeof_ps_slab" "blocks_ok (w_blocks w)"
    and M': "\<And>s mem. M s = Some mem \<Longrightarrow> mem = s \<and> w_blocks w s = Some (sp_allocsz p)"
    using b by (auto simp: def_binv_def)
  have s: "w_blocks w s = Some (sp_allocsz p)" "s \<noteq> null" using M' [OF M] ok(3) by (auto simp: blocks_ok_def)
  let ?w = "drop_block s (sp_allocsz p) w"
  have "ps_slab_deffree ps_plat_free_linux m s sz c w = Some ?w"
    using s by (simp add: ps_slab_deffree_def ps_plat_free_linux_def)
  moreover have "w_mem ?w = w_mem w" by (simp add: drop_block_def)
  moreover have "def_binv p ?w (M(s := None))"
    using ok M' by (auto simp: def_binv_def drop_block_def blocks_ok_def)
  moreover have "def_ready p w \<longrightarrow> def_ready p ?w"
    by (auto simp: def_ready_def drop_block_def good_block_def)
  moreover have "same_cells p w ?w s' mem'" if N: "M s' = Some mem'" "s' \<noteq> s" for s' mem'
  proof -
    have "apart s (sp_allocsz p) s' (sp_allocsz p)" using ok(3) s(1) M' [OF N(1)] N(2) by (auto simp: blocks_ok_def)
    note out = apart_in_block [OF this]
    note old = cells_in_block [OF ok(1,2) fits_block [OF ok(3)], of s']
    show ?thesis
      using out [of s'] out [of "s' + SLAB_LIST"] out old M' [OF N(1)]
      by (simp add: same_cells_def drop_block_def fill_out)
  qed
  ultimately show ?thesis by blast
qed

lemma same_cells_def_params [simp]: "same_cells (def_params p) = same_cells p"
  by (simp add: same_cells_def fun_eq_iff)

lemma fresh_slab_def_params [simp]: "fresh_slab (def_params p) = fresh_slab p"
  by (simp add: fresh_slab_def fun_eq_iff)

interpretation sd: slab_backend_total "def_params p" "\<lambda>_. def_binv p" "\<lambda>_. def_ready p" for p
proof (unfold_locales, goal_cases)
  case (1 m M w w')
  then show ?case by (simp add: own_step_def def_binv_def def_ready_def)
next
  case (2 m w M)
  then show ?case by (simp add: def_binv_def)
next
  case (3 m w M)
  from def_afn [OF 3, of m "sp_coreid p"] obtain s w' where
    "ps_slab_defalloc ps_plat_alloc_linux m (sp_allocsz p) (sp_coreid p) w = Some (s, w')" "w_mem w' = w_mem w"
    "\<forall>s' mem'. M s' = Some mem' \<longrightarrow> same_cells p w w' s' mem'" "s \<noteq> null" "M s = None" "fresh_slab p w' s s"
    "def_binv p w' (M(s \<mapsto> s))" "\<forall>s' mem'. M s' = Some mem' \<longrightarrow> set (slab_objs p mem') \<inter> set (slab_objs p s) = {}"
    by blast
  then show ?case
    by (intro exI [of _ s] exI [of _ w']) (auto simp: get_pc_def)
next
  case (4 m w M s mem)
  then show ?case using def_ffn [OF 4(1,2), of m "sp_allocsz p" "sp_coreid p"] by (auto simp: get_pc_def)
next
  case (5 m w M s w')
  then show ?case
    by (auto simp: ps_slab_defalloc_def ps_plat_alloc_linux_def c_assert_def Option.bind_eq_Some_conv
        split: if_splits prod.splits)
qed

end
