(* ===== verification/Slab_Properties.thy ===== *)
theory Slab_Properties
  imports Slab_Default Slab_Api
begin

text \<open>
  The state of an allocator over the default backend (\<open>slab_state\<close>), and the results of the contract
  \<open>slab_backend_total\<close> for the calls on a core: allocation, freeing and remote processing.
\<close>

section \<open>The state of an allocator\<close>

definition slab_state :: "slab_params \<Rightarrow> addr \<Rightarrow> world \<Rightarrow> slabs \<Rightarrow> rings \<Rightarrow> remotes \<Rightarrow> bool" where
  "slab_state p m w F R Q \<longleftrightarrow> slab_inv p m w F R Q \<and> def_binv p w (mems F)"

definition on_core :: "nat \<Rightarrow> slab_params \<Rightarrow> slab_params" where
  "on_core c p = (def_params p)\<lparr>sp_coreid := c\<rparr>"

lemma sizes_only:
  assumes "sp_obj_sz q = sp_obj_sz p" and "sp_allocsz q = sp_allocsz p" and "sp_headoff q = sp_headoff p"
  shows "slab_inv q = slab_inv p" "live q = live p" "def_binv q = def_binv p" "def_ready q = def_ready p"
    "belongs q = belongs p" "same_obj q = same_obj p" "own_step q = own_step p" "slab_objs q = slab_objs p" "nobjs q = nobjs p" "fits q = fits p"
proof -
  have a: "nobjs q = nobjs p" "obj_at q = obj_at p" "fits q = fits p" "params_ok q = params_ok p"
    using assms by (simp_all add: nobjs_def obj_at_def fits_def params_ok_def fun_eq_iff)
  then have b: "slab_objs q = slab_objs p" by (simp add: slab_objs_def fun_eq_iff)
  have c: "slab_rep q = slab_rep p" using a b assms by (simp add: slab_rep_def headers_ok_def fun_eq_iff)
  have d: "waiting q = waiting p" using b by (simp add: waiting_def fun_eq_iff)
  show "slab_inv q = slab_inv p"
    using a b c d by (simp add: slab_inv_def slabs_ok_def remotes_ok_def remote_rep_def fun_eq_iff)
  show "live q = live p" using b by (simp add: live_def owned_def fun_eq_iff)
  show "def_binv q = def_binv p" "def_ready q = def_ready p"
    using a assms by (simp_all add: def_binv_def def_ready_def fun_eq_iff)
  show "belongs q = belongs p" using b by (simp add: belongs_def fun_eq_iff)
  then show "same_obj q = same_obj p" by (simp add: same_obj_def fun_eq_iff)
  show "own_step q = own_step p" using b by (simp add: own_step_def slab_heads_def fun_eq_iff)
  show "slab_objs q = slab_objs p" "nobjs q = nobjs p" "fits q = fits p" by (rule b a)+
qed

lemma on_core_sizes [simp]:
  "sp_obj_sz (on_core c p) = sp_obj_sz p" "sp_allocsz (on_core c p) = sp_allocsz p"
  "sp_headoff (on_core c p) = sp_headoff p" "sp_coreid (on_core c p) = c"
  by (simp_all add: on_core_def)

lemma on_core_def_params: "def_params (p\<lparr>sp_coreid := c\<rparr>) = on_core c p"
  by (simp add: on_core_def def_params_def)

lemma sd_sinv: "sd.sinv (p\<lparr>sp_coreid := c\<rparr>) m w F R Q \<longleftrightarrow> slab_state p m w F R Q"
proof -
  have "slab_inv (on_core c p) = slab_inv p" "def_binv (p\<lparr>sp_coreid := c\<rparr>) = def_binv p"
    by (rule sizes_only; simp)+
  then show ?thesis unfolding sd.sinv_def slab_state_def unfolding on_core_def_params by simp
qed

lemma live_on_core: "live (on_core c p) = live p" "belongs (on_core c p) = belongs p" "same_obj (on_core c p) = same_obj p"
  "own_step (on_core c p) = own_step p"
  by (rule sizes_only; simp)+

lemma ready_on_core: "def_ready (p\<lparr>sp_coreid := c\<rparr>) = def_ready p"
  by (rule sizes_only; simp)

text \<open>The remote lists are finitely many, so their lengths are bounded.\<close>

lemma remote_bound:
  assumes "remotes_ok p m w F Q"
  shows "\<exists>k. \<forall>l i. length (Q c l i) \<le> k"
proof -
  let ?k = "\<Sum>l<PS_NUMLOCALITIES. \<Sum>i<NUM_REMOTE_LIST. length (Q c l i)"
  have "length (Q c l i) \<le> ?k" for l i
  proof (cases "l < PS_NUMLOCALITIES \<and> i < NUM_REMOTE_LIST")
    case True
    have "length (Q c l i) \<le> (\<Sum>i<NUM_REMOTE_LIST. length (Q c l i))"
      by (rule member_le_sum) (use True in auto)
    also have "\<dots> \<le> ?k" by (rule member_le_sum) (use True in auto)
    finally show ?thesis .
  next
    case False
    then have "Q c l i = []" using remotes_okD(2) [OF assms, of c l i] by (auto simp: in_range_def)
    then show ?thesis by simp
  qed
  then show ?thesis by blast
qed

text \<open>The contract's results on a core, over the parameters the macros fix.\<close>

lemma core_alloc_ok:
  assumes "slab_state p m w F R Q" and "def_ready p w" and "c < PS_NUMCORES"
    and "\<And>l i. length (Q c l i) \<le> k"
  shows "\<exists>h s w' F' R' Q'. ps_slab_mem_alloc k m (on_core c p) (c, numa) w = Some (ps_mhead_mem h, w') \<and>
    ps_mhead_mem h \<noteq> null \<and> slab_state p m w' F' R' Q' \<and> (\<forall>x \<in> live p F Q. w_mh w' x = w_mh w x) \<and>
    h \<notin> live p F Q \<and> live p F' Q' = insert h (live p F Q) \<and> belongs p F' c h \<and>
    w_mh w' h = Some \<lparr>mh_tsc_free = 0, mh_slab = s, mh_next = null\<rparr>"
proof -
  let ?p = "p\<lparr>sp_coreid := c\<rparr>"
  have "sd.sinv ?p m w F R Q" "def_ready ?p w" using assms(1,2) by (simp_all add: sd_sinv ready_on_core)
  from sd.alloc_total [OF this, of "(c, numa)" k, unfolded sd_sinv, unfolded on_core_def_params live_on_core] assms(3,4)
  obtain h s w' F' R' Q' where 1: "ps_slab_mem_alloc k m (on_core c p) (c, numa) w = Some (ps_mhead_mem h, w')"
    "ps_mhead_mem h \<noteq> null" "slab_state p m w' F' R' Q'"
    "\<forall>x \<in> live p F Q. same_obj p w F w' F' x"
    "h \<notin> live p F Q" "live p F' Q' = insert h (live p F Q)" "belongs p F' c h"
    "w_mh w' h = Some \<lparr>mh_tsc_free = 0, mh_slab = s, mh_next = null\<rparr>"
    by (simp only: on_core_sizes fst_conv simp_thms) metis
  then show ?thesis unfolding same_obj_def by blast
qed

text \<open>With nothing waiting: what the call does to the rest of the world.\<close>

lemma core_alloc_quiet:
  assumes "slab_state p m w F R (\<lambda>_ _ _. [])" and "def_ready p w" and "c < PS_NUMCORES"
  shows "\<exists>h w' F' R' w1 w2. ps_slab_mem_alloc k m (on_core c p) (c, numa) w = Some (ps_mhead_mem h, w') \<and>
    ps_mhead_mem h \<noteq> null \<and> slab_state p m w' F' R' (\<lambda>_ _ _. []) \<and> h \<notin> live p F (\<lambda>_ _ _. []) \<and>
    live p F' (\<lambda>_ _ _. []) = insert h (live p F (\<lambda>_ _ _. [])) \<and>
    own_step p m (mems F) w w1 \<and> own_step p m (mems F') w2 w' \<and>
    (w2 = w1 \<and> mems F' = mems F \<or>
     (\<exists>s. ps_slab_defalloc ps_plat_alloc_linux m (sp_allocsz p) c w1 = Some (s, w2) \<and> mems F s = None \<and>
        mems F' = (mems F)(s \<mapsto> s)))"
proof -
  let ?p = "p\<lparr>sp_coreid := c\<rparr>" and ?Q = "\<lambda>_ _ _. [] :: addr list"
  have s: "sd.sinv ?p m w F R ?Q" "def_ready ?p w" using assms(1,2) by (simp_all add: sd_sinv ready_on_core)
  obtain h s0 w' F' R' Q' where "ps_slab_mem_alloc k m (on_core c p) (c, numa) w = Some (ps_mhead_mem h, w')"
    "ps_mhead_mem h \<noteq> null" "sd.sinv ?p m w' F' R' Q'" "\<forall>x y z. Q' x y z = []"
    "h \<notin> live p F ?Q" "live p F' Q' = insert h (live p F ?Q)" "sd.fetched ?p m w F w' F'"
    using sd.alloc_total [OF s, of "(c, numa)" k, unfolded on_core_def_params live_on_core] assms(3)
    unfolding on_core_def_params by auto
  moreover from this(4) have "Q' = ?Q" by (simp add: fun_eq_iff)
  ultimately have 1: "ps_slab_mem_alloc k m (on_core c p) (c, numa) w = Some (ps_mhead_mem h, w')"
    "ps_mhead_mem h \<noteq> null" "slab_state p m w' F' R' ?Q" "h \<notin> live p F ?Q" "live p F' ?Q = insert h (live p F ?Q)"
    and ft: "sd.fetched ?p m w F w' F'" by (simp_all add: sd_sinv)
  obtain w1 w2 where 2: "own_step p m (mems F) w w1" "own_step p m (mems F') w2 w'"
    "w2 = w1 \<and> mems F' = mems F \<or>
      (\<exists>s. ps_slab_defalloc ps_plat_alloc_linux m (sp_allocsz p) c w1 = Some (s, w2) \<and>
        (if s = null then mems F' = mems F else mems F s = None \<and> (\<exists>mem. mems F' = (mems F)(s \<mapsto> mem))))"
    using ft unfolding sd.fetched_def unfolding on_core_def_params live_on_core by (fastforce simp: on_core_def)
  have "s \<noteq> null" if "ps_slab_defalloc ps_plat_alloc_linux m (sp_allocsz p) c w1 = Some (s, w2)" for s
    using that by (auto simp: ps_slab_defalloc_def ps_plat_alloc_linux_def c_assert_def Option.bind_eq_Some_conv
        split: if_splits prod.splits)
  moreover have "mem = s" if "mems F' = (mems F)(s \<mapsto> mem)" for s mem
  proof -
    have "mems F' s = Some mem" using that by simp
    then show ?thesis using 1(3) by (auto simp: slab_state_def def_binv_def)
  qed
  ultimately have "w2 = w1 \<and> mems F' = mems F \<or>
     (\<exists>s. ps_slab_defalloc ps_plat_alloc_linux m (sp_allocsz p) c w1 = Some (s, w2) \<and> mems F s = None \<and>
        mems F' = (mems F)(s \<mapsto> s))" using 2(3) by (metis (full_types))
  with 1 2(1,2) show ?thesis by blast
qed

lemma core_free_ok:
  assumes "slab_state p m w F R Q" and "h \<in> live p F Q" and "w_mh w h = Some d" and "mh_tsc_free d = 0"
    and "numa < PS_NUMLOCALITIES"
  shows "\<exists>w' F' R' Q'. ps_slab_mem_free (ps_mhead_mem h) m (on_core c p) (c, numa) w = Some w' \<and>
    slab_state p m w' F' R' Q' \<and> live p F' Q' = live p F Q - {h} \<and>
    (\<forall>x \<in> live p F' Q'. w_mh w' x = w_mh w x) \<and> (def_ready p w \<longrightarrow> def_ready p w')"
proof -
  let ?p = "p\<lparr>sp_coreid := c\<rparr>"
  have "sd.sinv ?p m w F R Q" using assms(1) by (simp add: sd_sinv)
  moreover have "h \<in> live (def_params ?p) F Q" using assms(2) by (simp add: on_core_def_params live_on_core)
  ultimately have "\<exists>w' F' R' Q'. ps_slab_mem_free (ps_mhead_mem h) m (on_core c p) (c, numa) w = Some w' \<and>
    slab_state p m w' F' R' Q' \<and> live p F' Q' = live p F Q - {h} \<and>
    (\<forall>x \<in> live p F' Q'. same_obj p w F w' F' x) \<and>
    (def_ready p w \<longrightarrow> def_ready p w')"
    using sd.free_ok [of ?p m w F R Q h d "(c, numa)", unfolded sd_sinv sd.keeps_def,
      unfolded on_core_def_params live_on_core ready_on_core] assms
    by (simp only: snd_conv sd_sinv on_core_def_params live_on_core simp_thms)
  then show ?thesis unfolding same_obj_def by meson
qed

lemma core_process_ok:
  assumes "slab_state p m w F R Q" and "c < PS_NUMCORES" and "\<And>l i. length (Q c l i) \<le> k"
  shows "\<exists>w' F' R' Q'. ps_slab_mem_remote_process k m (on_core c p) (c, numa) w = Some w' \<and>
    slab_state p m w' F' R' Q' \<and> live p F' Q' = live p F Q \<and>
    (\<forall>x y z. Q' x y z = (if x = c then [] else Q x y z)) \<and> (\<forall>x \<in> live p F Q. w_mh w' x = w_mh w x)"
proof -
  let ?p = "p\<lparr>sp_coreid := c\<rparr>"
  have "sd.sinv ?p m w F R Q" using assms(1) by (simp add: sd_sinv)
  from sd.process_ok [OF this, of k "(c, numa)", unfolded sd_sinv sd.keeps_def, unfolded on_core_def_params live_on_core] assms(2,3)
  obtain w' F' R' Q' where 1: "ps_slab_mem_remote_process k m (on_core c p) (c, numa) w = Some w'"
    "slab_state p m w' F' R' Q'" "\<forall>x y z. Q' x y z = (if x = c then [] else Q x y z)" "live p F' Q' = live p F Q"
    "\<forall>x \<in> live p F Q. w_mh w' x = w_mh w x"
    unfolding same_obj_def by (simp only: on_core_sizes) blast
  show ?thesis by (intro exI conjI, (rule 1)+)
qed

end
