(* ===== verification/Slab_Runs.thy ===== *)
theory Slab_Runs
  imports Slab_Properties
begin

text \<open>
  Whole runs of the slab allocator: any cores call the functions of one object type in any order, the
  clients write the headers of the objects they hold, the platform answers as documented.  Every such
  run stays within the invariant, so no call fails and the objects handed out never overlap.
\<close>

section \<open>The bounds on the loops are immaterial\<close>

lemma remote_drain_mono:
  "k \<le> k' \<Longrightarrow> upto_fuel (remote_drain k h r m p here w) (remote_drain k' h r m p here w)"
proof (induction k arbitrary: k' h r w)
  case 0
  show ?case by (cases "h = null") (simp_all add: remote_drain.simps upto_fuel_def)
next
  case (Suc k)
  then obtain j where j: "k' = Suc j" "k \<le> j" by (cases k') auto
  show ?case
    unfolding j(1) remote_drain.simps [of "Suc k"] remote_drain.simps [of "Suc j"] nat.case
    by (intro fuel_intros Suc.IH j(2))
qed

lemma remote_clear_mono:
  "k \<le> k' \<Longrightarrow> upto_fuel (remote_clear_from k is r m l p here w) (remote_clear_from k' is r m l p here w)"
proof (induction "is" arbitrary: r w)
  case (Cons i "is")
  show ?case unfolding remote_clear_from.simps by (intro fuel_intros remote_drain_mono Cons)
qed (simp add: fuel_intros)

lemma remote_process_loop_mono:
  "k \<le> k' \<Longrightarrow> upto_fuel (remote_process_loop k j t l m p here w) (remote_process_loop k' j t l m p here w)"
proof (induction j arbitrary: l w)
  case (Suc j)
  show ?case
    unfolding remote_process_loop.simps ps_slab_mem_remote_clear_def Let_def
    by (intro fuel_intros remote_clear_mono Suc)
qed (simp add: fuel_intros)

lemma ps_slab_mem_alloc_mono:
  "k \<le> k' \<Longrightarrow> upto_fuel (ps_slab_mem_alloc k m p here w) (ps_slab_mem_alloc k' m p here w)"
  unfolding ps_slab_mem_alloc_def ps_slab_mem_remote_process_def
  by (intro fuel_intros remote_process_loop_mono)

section \<open>The start\<close>

lemma get_zero: "c < PS_NUMCORES \<Longrightarrow> get_pc m c (w\<lparr>w_mem := (w_mem w)(m \<mapsto> zero_mem)\<rparr>) = Some zero_percore"
  by (simp add: get_pc_def zero_mem_def aget_def)

lemma slab_inv_init:
  assumes "ps_slabptr_init m w = Some w'"
  shows "slab_inv p m w' Map.empty (\<lambda>_. []) (\<lambda>_ _ _. [])"
proof -
  have w': "w' = w\<lparr>w_mem := (w_mem w)(m \<mapsto> zero_mem)\<rparr>" using assms by (simp add: ps_slabptr_init_def c_assert_def split: if_splits)
  have si: "get_si m c w' = Some (pc_slab_info zero_percore)" if "c < PS_NUMCORES" for c
    using get_zero [OF that] by (simp add: w' get_si_def)
  have "get_remote m c l k w' = Some null" if "in_range c l k" for c l k
    using get_zero [of c m w] that
    by (simp add: w' get_remote_def in_range_def zero_percore_def aget_def)
  then have "remotes_ok p m w' Map.empty (\<lambda>_ _ _. [])"
    by (simp add: remotes_ok_def remote_rep_def)
  moreover have "rings_ok m w' Map.empty (\<lambda>_. [])"
    using si by (simp add: rings_ok_def pl.list_at_def partial_def zero_percore_def)
  moreover have "counts_ok m w' Map.empty"
    using si by (simp add: counts_ok_def home_def zero_percore_def PS_NUMLOCALITIES_def)
  ultimately show ?thesis by (simp add: slab_inv_def slabs_ok_def)
qed

lemma slab_state_init:
  assumes "ps_slabptr_init m w = Some w'" and "params_ok p" and "sp_headoff p = sizeof_ps_slab" and "blocks_ok (w_blocks w)"
  shows "slab_state p m w' Map.empty (\<lambda>_. []) (\<lambda>_ _ _. [])"
proof -
  have "w' = w\<lparr>w_mem := (w_mem w)(m \<mapsto> zero_mem)\<rparr>" using assms(1) by (simp add: ps_slabptr_init_def c_assert_def split: if_splits)
  then show ?thesis using slab_inv_init [OF assms(1), of p] assms(2-4) by (simp add: slab_state_def def_binv_def mems_def)
qed

lemma live_init: "live p Map.empty (\<lambda>_ _ _. []) = {}"
  by (simp add: live_def owned_def)

section \<open>Runs\<close>

text \<open>
  \<open>L\<close> is the set of objects the clients hold, known from the calls alone: what was returned and not
  freed since.
\<close>

definition backend_of :: "slab_params \<Rightarrow> slab_params" where
  "backend_of p = def_params p"

inductive slab_run :: "slab_params \<Rightarrow> addr \<Rightarrow> world \<Rightarrow> addr set \<Rightarrow> bool" for p m where
  start: "params_ok p \<Longrightarrow> sp_headoff p = sizeof_ps_slab \<Longrightarrow> blocks_ok (w_blocks w) \<Longrightarrow>
    ps_slabptr_init m w = Some w' \<Longrightarrow> slab_run p m w' {}"
| answer: "slab_run p m w L \<Longrightarrow> slab_run p m (w\<lparr>w_answers := as\<rparr>) L"
| client: "slab_run p m w L \<Longrightarrow> h \<in> L \<Longrightarrow> w_mh w h = Some d \<Longrightarrow> mh_slab d' = mh_slab d \<Longrightarrow>
    slab_run p m (w\<lparr>w_mh := (w_mh w)(h \<mapsto> d')\<rparr>) L"
| alloc: "slab_run p m w L \<Longrightarrow> def_ready p w \<Longrightarrow> fst here < PS_NUMCORES \<Longrightarrow>
    ps_slabptr_alloc k (backend_of p) m here w = Some (b, w') \<Longrightarrow>
    slab_run p m w' (insert (ps_mhead_get b) L)"
| free: "slab_run p m w L \<Longrightarrow> h \<in> L \<Longrightarrow> w_mh w h = Some d \<Longrightarrow> mh_tsc_free d = 0 \<Longrightarrow>
    snd here < PS_NUMLOCALITIES \<Longrightarrow>
    ps_slabptr_free (backend_of p) m (ps_mhead_mem h) here w = Some w' \<Longrightarrow> slab_run p m w' (L - {h})"

lemma on_core_alloc: "ps_slabptr_alloc k (backend_of p) m here = ps_slab_mem_alloc k m (on_core (fst here) p) here"
  by (simp add: ps_slabptr_alloc_def backend_of_def on_core_def)

lemma on_core_free:
  "ps_slabptr_free (backend_of p) m b here = ps_slab_mem_free b m (on_core (fst here) p) here"
  by (simp add: ps_slabptr_free_def ps_slabptr_free_coreid_def backend_of_def on_core_def)

lemma state_remote_bound:
  assumes "slab_state p m w F R Q"
  shows "\<exists>k. \<forall>l i. length (Q c l i) \<le> k"
proof (rule remote_bound)
  show "remotes_ok p m w F Q" using assms by (simp add: slab_state_def slab_inv_def)
qed

lemma slab_run_state: "slab_run p m w L \<Longrightarrow> \<exists>F R Q. slab_state p m w F R Q \<and> live p F Q = L"
proof (induction rule: slab_run.induct)
  case (start w w')
  then show ?case using slab_state_init [OF start(4,1-3)] live_init by blast
next
  case (answer w L as)
  then obtain F R Q where s: "slab_state p m w F R Q" "live p F Q = L" by blast
  have "slab_inv p m (w\<lparr>w_answers := as\<rparr>) F R Q"
    by (rule slab_inv_frame [of p m w]) (use s(1) in \<open>auto simp: slab_state_def same_cells_def\<close>)
  then show ?case using s by (auto simp: slab_state_def def_binv_def)
next
  case (client w L h d d')
  then obtain F R Q where s: "slab_state p m w F R Q" "live p F Q = L" by blast
  have "slab_inv p m (w\<lparr>w_mh := (w_mh w)(h \<mapsto> d')\<rparr>) F R Q"
    by (rule slab_inv_header [where h = h and d = d and d' = d'])
       (use s client(2-4) in \<open>auto simp: slab_state_def\<close>)
  then show ?case using s by (auto simp: slab_state_def def_binv_def)
next
  case (alloc w L here k b w')
  then obtain F R Q where s: "slab_state p m w F R Q" "live p F Q = L" by blast
  obtain k0 where k0: "\<forall>l i. length (Q (fst here) l i) \<le> k0"
    using state_remote_bound [where c = "fst here", OF s(1)] by blast
  let ?k = "max k k0"
  have bnd: "length (Q (fst here) l i) \<le> ?k" for l i using k0 by (simp add: le_max_iff_disj)
  obtain h s' w1 F1 R1 Q1 where 1: "ps_slab_mem_alloc ?k m (on_core (fst here) p) (fst here, snd here) w = Some (ps_mhead_mem h, w1)"
    "slab_state p m w1 F1 R1 Q1" "live p F1 Q1 = insert h (live p F Q)"
    using core_alloc_ok [where numa = "snd here", OF s(1) alloc(2,3) bnd] by blast
  have "ps_slab_mem_alloc ?k m (on_core (fst here) p) here w = Some (b, w')"
    using upto_fuelD [OF ps_slab_mem_alloc_mono, of k ?k] alloc(4) unfolding on_core_alloc by simp
  then show ?case using 1 s(2) by auto
next
  case (free w L h d here w')
  then obtain F R Q where s: "slab_state p m w F R Q" "live p F Q = L" by blast
  obtain w1 F1 R1 Q1 where "ps_slab_mem_free (ps_mhead_mem h) m (on_core (fst here) p) (fst here, snd here) w = Some w1"
    "slab_state p m w1 F1 R1 Q1" "live p F1 Q1 = live p F Q - {h}"
    using core_free_ok [OF s(1) _ free(3-5), of "fst here"] free(2) s(2) by blast
  then show ?case using free(6) s(2) unfolding on_core_free by auto
qed

section \<open>An example run\<close>

text \<open>Two objects of eight bytes per slab; the structure at 64, the platform answers 4096 and 8192.\<close>

definition ex_p :: slab_params where
  "ex_p = \<lparr>sp_coreid = 0, sp_obj_sz = 8, sp_allocsz = 176, sp_headoff = 96, sp_afn = (\<lambda>_ _ _ _. None), sp_ffn = (\<lambda>_ _ _ _ _. None)\<rparr>"

definition ex_w :: world where
  "ex_w = \<lparr>w_answers = [4096, 8192], w_blocks = Map.empty, w_mh = Map.empty, w_sl = Map.empty, w_ls = Map.empty,
     w_mem = Map.empty, w_ps = Map.empty, w_ert = Map.empty, w_pg = Map.empty\<rparr>"

definition ex_w0 :: world where "ex_w0 = the (ps_slabptr_init 64 ex_w)"
definition ex_w1 :: world where "ex_w1 = snd (the (ps_slabptr_alloc 0 (backend_of ex_p) 64 (0, 0) ex_w0))"
definition ex_w2 :: world where "ex_w2 = snd (the (ps_slabptr_alloc 0 (backend_of ex_p) 64 (0, 0) ex_w1))"

lemma fst_snd_the: "map_option fst x = Some a \<Longrightarrow> x = Some (a, snd (the x))"
  by (cases x) auto

lemma ex_alloc1: "ps_slabptr_alloc 0 (backend_of ex_p) 64 (0, 0) ex_w0 = Some (4216, ex_w1)"
proof -
  have "map_option fst (ps_slabptr_alloc 0 (backend_of ex_p) 64 (0, 0) ex_w0) = Some 4216" by code_simp
  then show ?thesis unfolding ex_w1_def by (rule fst_snd_the)
qed

lemma ex_alloc2: "ps_slabptr_alloc 0 (backend_of ex_p) 64 (0, 0) ex_w1 = Some (4248, ex_w2)"
proof -
  have "map_option fst (ps_slabptr_alloc 0 (backend_of ex_p) 64 (0, 0) ex_w1) = Some 4248" by code_simp
  then show ?thesis unfolding ex_w2_def by (rule fst_snd_the)
qed

lemma ex_params: "params_ok ex_p" "sp_headoff ex_p = sizeof_ps_slab"
  by (simp_all add: params_ok_def ex_p_def sizeof_ps_slab_def PS_CACHE_LINE_def)

lemma ex_init: "ps_slabptr_init 64 ex_w = Some ex_w0"
  by (simp add: ex_w0_def ps_slabptr_init_def c_assert_def)

lemma ex_run0: "slab_run ex_p 64 ex_w0 {}"
  by (rule slab_run.start [OF ex_params _ ex_init]) (simp add: ex_w_def blocks_ok_def)

lemma ex_ready0: "def_ready ex_p ex_w0"
  by (simp add: def_ready_def ex_w0_def ps_slabptr_init_def c_assert_def ex_w_def good_block_def ex_p_def)

lemma ex_run1: "slab_run ex_p 64 ex_w1 {4192}"
proof -
  have "slab_run ex_p 64 ex_w1 (insert (ps_mhead_get 4216) {})"
    by (rule slab_run.alloc [OF ex_run0 ex_ready0 _ ex_alloc1]) (simp add: PS_NUMCORES_def)
  then show ?thesis by (simp add: ps_mhead_get_def sizeof_ps_mheader_def)
qed

lemma ex_ready1: "def_ready ex_p ex_w1"
proof -
  have "w_blocks ex_w1 x = (if x = 4096 then Some 176 else None)" for x by (code_simp, simp)
  moreover have "w_answers ex_w1 = [8192]" by code_simp
  ultimately show ?thesis by (simp add: def_ready_def good_block_def ex_p_def apart_def)
qed

lemma ex_run2: "slab_run ex_p 64 ex_w2 {4192, 4224}"
proof -
  have "slab_run ex_p 64 ex_w2 (insert (ps_mhead_get 4248) {4192})"
    by (rule slab_run.alloc [OF ex_run1 ex_ready1 _ ex_alloc2]) (simp add: PS_NUMCORES_def)
  then show ?thesis by (simp add: ps_mhead_get_def sizeof_ps_mheader_def insert_commute)
qed

lemma ex_header1: "w_mh ex_w1 4192 = Some \<lparr>mh_tsc_free = 0, mh_slab = 4096, mh_next = 0\<rparr>"
  by code_simp

section \<open>Single calls\<close>

text \<open>
  C8: allocation.  From a good state, on any core and with an answer of the platform at hand,
  \<open>ps_slab_mem_alloc\<close> returns (no assertion fails, no dangling pointer is read, the loops over the
  remote lists end) and keeps the invariant.  It returns the memory behind the header of an object that
  was not handed out before, of a slab of the calling core, with a cleared header; exactly that object
  becomes live, and no live object's header is touched.
\<close>

theorem ps_slab_alloc_correct:
  assumes "slab_state p m w F R Q" and "def_ready p w" and "c < PS_NUMCORES"
    and "\<And>l i. length (Q c l i) \<le> k"
  shows "\<exists>h s w' F' R' Q'. ps_slab_mem_alloc k m (on_core c p) (c, numa) w = Some (ps_mhead_mem h, w') \<and>
    ps_mhead_mem h \<noteq> null \<and> slab_state p m w' F' R' Q' \<and> (\<forall>x \<in> live p F Q. w_mh w' x = w_mh w x) \<and>
    h \<notin> live p F Q \<and> live p F' Q' = insert h (live p F Q) \<and> belongs p F' c h \<and>
    w_mh w' h = Some \<lparr>mh_tsc_free = 0, mh_slab = s, mh_next = null\<rparr>"
  by (rule core_alloc_ok [OF assms])

theorem ps_slab_alloc_correct_witness:
  "\<exists>h s w'. ps_slab_mem_alloc 0 64 (on_core 0 ex_p) (0, 0) ex_w0 = Some (ps_mhead_mem h, w') \<and>
     w_mh w' h = Some \<lparr>mh_tsc_free = 0, mh_slab = s, mh_next = null\<rparr>"
proof -
  have "slab_state ex_p 64 ex_w0 Map.empty (\<lambda>_. []) (\<lambda>_ _ _. [])"
    by (rule slab_state_init [OF ex_init ex_params]) (simp add: ex_w_def blocks_ok_def)
  from ps_slab_alloc_correct [OF this ex_ready0, of 0 0 0] show ?thesis by (auto simp: PS_NUMCORES_def)
qed

text \<open>
  C9: freeing.  On any core, freeing a live object whose header is not marked free returns, keeps the
  invariant, takes exactly that object out of the live set and leaves the headers of all others alone,
  whether the object goes back to its slab, makes the slab go back to the platform, or is pushed on a
  remote list.
\<close>

theorem ps_slab_free_correct:
  assumes "slab_state p m w F R Q" and "h \<in> live p F Q" and "w_mh w h = Some d" and "mh_tsc_free d = 0"
    and "numa < PS_NUMLOCALITIES"
  shows "\<exists>w' F' R' Q'. ps_slab_mem_free (ps_mhead_mem h) m (on_core c p) (c, numa) w = Some w' \<and>
    slab_state p m w' F' R' Q' \<and> live p F' Q' = live p F Q - {h} \<and>
    (\<forall>x \<in> live p F' Q'. w_mh w' x = w_mh w x) \<and> (def_ready p w \<longrightarrow> def_ready p w')"
  by (rule core_free_ok [OF assms])

theorem ps_slab_free_correct_witness:
  "\<exists>w' F Q. ps_slab_mem_free (ps_mhead_mem 4192) 64 (on_core 3 ex_p) (3, 0) ex_w1 = Some w' \<and> live ex_p F Q = {}"
proof -
  obtain F R Q where s: "slab_state ex_p 64 ex_w1 F R Q" "live ex_p F Q = {4192}" using slab_run_state [OF ex_run1] by blast
  from ps_slab_free_correct [OF s(1) _ ex_header1, of 0 3] s(2) show ?thesis by (auto simp: PS_NUMLOCALITIES_def)
qed

text \<open>
  C10: remote processing.  Emptying the remote lists of a core ends (with a bound \<open>k\<close> on the length of
  the lists), keeps the invariant and the live set, and afterwards nothing waits for that core.
\<close>

theorem ps_slab_remote_process_correct:
  assumes "slab_state p m w F R Q" and "c < PS_NUMCORES" and "\<And>l i. length (Q c l i) \<le> k"
  shows "\<exists>w' F' R' Q'. ps_slab_mem_remote_process k m (on_core c p) (c, numa) w = Some w' \<and>
    slab_state p m w' F' R' Q' \<and> live p F' Q' = live p F Q \<and>
    (\<forall>x y z. Q' x y z = (if x = c then [] else Q x y z)) \<and> (\<forall>x \<in> live p F Q. w_mh w' x = w_mh w x)"
  by (rule core_process_ok [OF assms])

theorem ps_slab_remote_process_correct_witness:
  "\<exists>k w' F Q. ps_slab_mem_remote_process k 64 (on_core 0 ex_p) (0, 0) ex_w1 = Some w' \<and> live ex_p F Q = {4192}"
proof -
  obtain F R Q where s: "slab_state ex_p 64 ex_w1 F R Q" "live ex_p F Q = {4192}" using slab_run_state [OF ex_run1] by blast
  obtain k where k: "\<And>l i. length (Q 0 l i) \<le> k" using state_remote_bound [OF s(1), of 0] by blast
  have "0 < PS_NUMCORES" by (simp add: PS_NUMCORES_def)
  from ps_slab_remote_process_correct [OF s(1) this k, of 0] s(2) show ?thesis by auto
qed

section \<open>No call fails\<close>

lemma slab_run_header:
  assumes "slab_run p m w L" and "h \<in> L"
  shows "\<exists>d. w_mh w h = Some d"
proof -
  obtain F R Q where s: "slab_state p m w F R Q" "live p F Q = L" using slab_run_state [OF assms(1)] by blast
  have ok: "slabs_ok p w F" using s(1) by (simp add: slab_state_def slab_inv_def)
  from s(2) assms(2) have "h \<in> live p F Q" by simp
  then obtain a mem c fs where a: "F a = Some (mem, c, fs)" "h \<in> set (slab_objs p mem)"
    using liveE [OF _ ok] by metis
  from header_slab [OF ok a(1) a(2)] show ?thesis by blast
qed

text \<open>
  C1: no call fails.  In every run in which the platform answers as documented, an allocation on any core
  returns memory that no client holds, for every large enough bound on its loops, and freeing an object
  a client holds and has not marked free returns, on whatever core it is called.
\<close>

theorem slab_run_never_fails:
  assumes "slab_run p m w L"
  shows "(def_ready p w \<and> fst here < PS_NUMCORES \<longrightarrow>
      (\<exists>k0. \<forall>k \<ge> k0. \<exists>b w'. ps_slabptr_alloc k (backend_of p) m here w = Some (b, w') \<and> b \<noteq> null \<and> ps_mhead_get b \<notin> L)) \<and>
    (\<forall>h \<in> L. \<exists>d. w_mh w h = Some d \<and> (mh_tsc_free d = 0 \<and> snd here < PS_NUMLOCALITIES \<longrightarrow>
      ps_slabptr_free (backend_of p) m (ps_mhead_mem h) here w \<noteq> None))"
proof -
  obtain F R Q where s: "slab_state p m w F R Q" "live p F Q = L" using slab_run_state [OF assms] by blast
  obtain k0 where k0: "\<forall>l i. length (Q (fst here) l i) \<le> k0"
    using state_remote_bound [where c = "fst here", OF s(1)] by blast
  have "\<exists>b w'. ps_slabptr_alloc k (backend_of p) m here w = Some (b, w') \<and> b \<noteq> null \<and> ps_mhead_get b \<notin> L"
    if k: "k0 \<le> k" and r: "def_ready p w" "fst here < PS_NUMCORES" for k
  proof -
    have "length (Q (fst here) l i) \<le> k" for l i using k0 k le_trans by blast
    from core_alloc_ok [where numa = "snd here", OF s(1) r this] obtain h w' where
      "ps_slab_mem_alloc k m (on_core (fst here) p) (fst here, snd here) w = Some (ps_mhead_mem h, w')"
      "ps_mhead_mem h \<noteq> null" "h \<notin> live p F Q" by blast
    then show ?thesis using s(2) by (simp add: on_core_alloc)
  qed
  moreover have "ps_slabptr_free (backend_of p) m (ps_mhead_mem h) here w \<noteq> None"
    if "h \<in> L" "w_mh w h = Some d" "mh_tsc_free d = 0" "snd here < PS_NUMLOCALITIES" for h d
    using core_free_ok [OF s(1) _ that(2-4), of "fst here"] that(1) s(2) by (auto simp: on_core_free)
  moreover have "\<exists>d. w_mh w h = Some d" if "h \<in> L" for h by (rule slab_run_header [OF assms that])
  ultimately show ?thesis by (intro conjI impI ballI; metis)
qed

theorem slab_run_never_fails_witness:
  "(\<exists>k0. \<forall>k \<ge> k0. \<exists>b w'. ps_slabptr_alloc k (backend_of ex_p) 64 (3, 0) ex_w1 = Some (b, w') \<and> b \<noteq> null \<and> ps_mhead_get b \<noteq> 4192) \<and>
   ps_slabptr_free (backend_of ex_p) 64 (ps_mhead_mem 4192) (3, 0) ex_w1 \<noteq> None"
  using slab_run_never_fails [OF ex_run1, of "(3, 0)"] ex_ready1 ex_header1
  by (simp add: PS_NUMCORES_def PS_NUMLOCALITIES_def)

section \<open>Objects do not overlap\<close>

lemma slab_objs_extent:
  assumes "params_ok p" and "fits p mem" and "h \<in> set (slab_objs p mem)" and "h' \<in> set (slab_objs p mem)" and "h \<noteq> h'"
  shows "unat h + objsz p \<le> unat h' \<or> unat h' + objsz p \<le> unat h"
proof -
  obtain i j where ij: "i < nobjs p" "h = obj_at p mem i" "j < nobjs p" "h' = obj_at p mem j"
    using assms(3,4) by (auto simp: slab_objs_def)
  have "i \<noteq> j" using ij(2,4) assms(5) by blast
  then have "i < j \<or> j < i" by auto
  then show ?thesis using slab_obj_extent(3) [OF assms(1,2)] ij by blast
qed

lemma slab_obj_in_block:
  assumes "params_ok p" and "fits p mem" and "h \<in> set (slab_objs p mem)"
  shows "unat mem + unat (sp_headoff p) \<le> unat h" "unat h + objsz p \<le> unat mem + unat (sp_allocsz p)"
    "8 dvd unat mem + unat (sp_headoff p) \<Longrightarrow> 8 dvd unat h"
proof -
  obtain i where i: "i < nobjs p" "h = obj_at p mem i" using assms(3) by (auto simp: slab_objs_def)
  show "unat mem + unat (sp_headoff p) \<le> unat h" "unat h + objsz p \<le> unat mem + unat (sp_allocsz p)"
    unfolding i(2) by (rule slab_obj_extent(1,2) [OF assms(1,2) i(1)])+
  assume "8 dvd unat mem + unat (sp_headoff p)"
  then show "8 dvd unat h"
    unfolding i(2) using unat_obj_at [OF assms(1,2), of i] i(1) objsz_bounds(3) [OF assms(1)] by (simp add: dvd_add dvd_mult)
qed

lemma unat_mhead_mem:
  assumes "params_ok p" and "fits p mem" and "h \<in> set (slab_objs p mem)"
  shows "unat (ps_mhead_mem h) = unat h + 24" "unat h + 24 + unat (sp_obj_sz p) \<le> unat h + objsz p"
proof -
  note o = objsz_bounds(1) [OF assms(1)]
  then have "unat h + 24 < 2 ^ 64"
    using slab_obj_in_block(2) [OF assms] assms(2) unfolding fits_def by linarith
  then show "unat (ps_mhead_mem h) = unat h + 24"
    unfolding ps_mhead_mem_def by (subst unat_add_small) (simp_all add: sizeof_ps_mheader_def)
  show "unat h + 24 + unat (sp_obj_sz p) \<le> unat h + objsz p" using o by simp
qed

text \<open>
  C4: in every run the objects handed out are aligned to a word, lie inside a block of the platform
  behind the slab's descriptor, and two of them, their headers included, do not overlap.
\<close>

theorem slab_run_disjoint:
  assumes "slab_run p m w L" and "h \<in> L" and "h' \<in> L" and "h \<noteq> h'"
  shows "8 dvd unat (ps_mhead_mem h) \<and>
    (\<exists>s. w_blocks w s = Some (sp_allocsz p) \<and> unat s + unat sizeof_ps_slab \<le> unat h \<and>
      unat (ps_mhead_mem h) + unat (sp_obj_sz p) \<le> unat s + unat (sp_allocsz p)) \<and>
    (unat (ps_mhead_mem h) + unat (sp_obj_sz p) \<le> unat h' \<or> unat (ps_mhead_mem h') + unat (sp_obj_sz p) \<le> unat h)"
proof -
  obtain F R Q where s: "slab_state p m w F R Q" "live p F Q = L" using slab_run_state [OF assms(1)] by blast
  have inv: "slabs_ok p w F" and ok: "params_ok p" "sp_headoff p = sizeof_ps_slab" "blocks_ok (w_blocks w)"
    and M: "\<And>a mem c fs. F a = Some (mem, c, fs) \<Longrightarrow> mem = a \<and> w_blocks w a = Some (sp_allocsz p)"
    using s(1) by (auto simp: slab_state_def slab_inv_def def_binv_def mems_def)
  obtain a c fs where a: "F a = Some (a, c, fs)" "h \<in> set (slab_objs p a)" "w_blocks w a = Some (sp_allocsz p)"
    using liveE [OF _ inv] assms(2) s(2) M by (metis (no_types, lifting))
  obtain b c' fs' where b: "F b = Some (b, c', fs')" "h' \<in> set (slab_objs p b)" "w_blocks w b = Some (sp_allocsz p)"
    using liveE [OF _ inv] assms(3) s(2) M by (metis (no_types, lifting))
  have fa: "fits p a" "fits p b" using a(3) b(3) by (simp_all add: fits_block [OF ok(3)])
  note ua = unat_mhead_mem [OF ok(1) fa(1) a(2)] and ub = unat_mhead_mem [OF ok(1) fa(2) b(2)]
  note ia = slab_obj_in_block [OF ok(1) fa(1) a(2)] and ib = slab_obj_in_block [OF ok(1) fa(2) b(2)]
  have "4096 dvd unat a" using ok(3) a(3) by (simp add: blocks_ok_def)
  then have "8 dvd unat a" by (rule dvd_trans [rotated]) simp
  then have al: "8 dvd unat (ps_mhead_mem h)" using ia(3) ok(2) sizes_nat unfolding ua(1) by simp
  have "unat (ps_mhead_mem h) + unat (sp_obj_sz p) \<le> unat h' \<or> unat (ps_mhead_mem h') + unat (sp_obj_sz p) \<le> unat h"
  proof (cases "a = b")
    case True
    then show ?thesis using slab_objs_extent [OF ok(1) fa(1) a(2) _ assms(4)] b(2) ua ub by auto
  next
    case False
    then have "apart a (sp_allocsz p) b (sp_allocsz p)" using ok(3) a(3) b(3) by (auto simp: blocks_ok_def)
    then show ?thesis using ia(1,2) ib(1,2) ua ub unfolding apart_def by linarith
  qed
  then show ?thesis using al a(3) ia(1,2) ua ok(2) by auto
qed

theorem slab_run_disjoint_witness:
  "8 dvd unat (ps_mhead_mem 4192) \<and> (\<exists>s. w_blocks ex_w2 s = Some 176 \<and> unat s + 96 \<le> 4192 \<and> 4224 \<le> unat s + 176)"
  using slab_run_disjoint [OF ex_run2, of 4192 4224]
  by (simp add: ex_p_def sizes_nat ps_mhead_mem_def sizeof_ps_mheader_def)

end
