(* ===== verification/Smr_Frame.thy ===== *)
theory Smr_Frame
  imports Smr_Mem Slab_Runs
begin

text \<open>
  The reclamation part of an allocator and the slab allocator leave each other alone: no operation of the
  slab allocator changes the \<open>smr_info\<close> of a core or a \<open>struct parsec\<close>, and the slab invariant does not
  look at them.
\<close>

section \<open>Updates of the reclamation part\<close>

definition set_sm :: "addr \<Rightarrow> nat \<Rightarrow> ps_smr_info \<Rightarrow> world \<Rightarrow> world" where
  "set_sm m c sm w = set_pc m c ((the (get_pc m c w))\<lparr>pc_smr_info := sm\<rparr>) w"

lemma set_sm_fields [simp, world_simps]:
  "w_mh (set_sm m c sm w) = w_mh w" "w_sl (set_sm m c sm w) = w_sl w" "w_ls (set_sm m c sm w) = w_ls w"
  "w_blocks (set_sm m c sm w) = w_blocks w" "w_answers (set_sm m c sm w) = w_answers w"
  "w_ps (set_sm m c sm w) = w_ps w" "w_ert (set_sm m c sm w) = w_ert w" "w_pg (set_sm m c sm w) = w_pg w"
  by (simp_all add: set_sm_def)

lemma get_sm_updates [simp, world_simps]:
  "get_sm m c (w_mh_update f w) = get_sm m c w" "get_sm m c (w_sl_update g w) = get_sm m c w"
  "get_sm m c (w_ls_update h w) = get_sm m c w" "get_sm m c (w_blocks_update b w) = get_sm m c w"
  "get_sm m c (w_answers_update a w) = get_sm m c w" "get_sm m c (w_ps_update r w) = get_sm m c w"
  "get_sm m c (w_ert_update e w) = get_sm m c w"
  "get_sm m c (w_pg_update pg w) = get_sm m c w"
  by (simp_all add: get_sm_def)

lemma get_sm_SomeD: "get_sm m c w = Some sm \<Longrightarrow> \<exists>pc. get_pc m c w = Some pc \<and> sm = pc_smr_info pc"
  by (auto simp: get_sm_def)

lemma upd_sm_set:
  assumes "get_sm m c w = Some sm"
  shows "upd_sm m c f w = Some (set_sm m c (f sm) w)"
proof -
  obtain pc where "get_pc m c w = Some pc" "sm = pc_smr_info pc" using get_sm_SomeD [OF assms] by blast
  then show ?thesis by (simp add: upd_sm_def set_sm_def upd_pc_set)
qed

lemma get_set_sm:
  assumes "get_sm m c w = Some sm0"
  shows "get_sm m c' (set_sm m c sm w) = (if c' = c then Some sm else get_sm m c' w)"
  using get_sm_SomeD [OF assms] by (auto simp: get_sm_def set_sm_def get_set_pc)

lemma get_si_set_sm [simp, world_simps]: "get_si m c' (set_sm m c sm w) = get_si m c' w"
  by (cases "get_pc m c w") (auto simp: get_si_def set_sm_def get_set_pc)

lemma get_remote_set_sm [simp, world_simps]: "get_remote m c' l k (set_sm m c sm w) = get_remote m c' l k w"
  by (cases "get_pc m c w") (auto simp: get_remote_def set_sm_def get_set_pc)

text \<open>The slab invariant does not look at either.\<close>

lemma slab_state_cong:
  assumes "w_mh w' = w_mh w" and "w_sl w' = w_sl w" and "w_ls w' = w_ls w" and "w_blocks w' = w_blocks w"
    and "\<And>c. get_si m c w' = get_si m c w" and "\<And>c l k. get_remote m c l k w' = get_remote m c l k w"
    and "slab_state p m w F R Q"
  shows "slab_state p m w' F R Q"
proof -
  note i = slab_invD [of p m w F R Q]
  have inv: "slab_inv p m w F R Q" and b: "def_binv p w (mems F)" using assms(7) by (simp_all add: slab_state_def)
  have "slabs_ok p w' F" using i(1) [OF inv] assms(1,2) by (subst slabs_ok_cong [of _ w]) simp_all
  moreover have "rings_ok m w' F R" by (rule rings_ok_cong [OF _ _ i(2) [OF inv]]) (use assms(3,5) in simp_all)
  moreover have "counts_ok m w' F" using i(3) [OF inv] assms(5) by (simp add: counts_ok_def)
  moreover have "remotes_ok p m w' F Q"
    by (rule remotes_ok_change [OF i(4) [OF inv]]) (use assms(1,6) in auto)
  moreover have "def_binv p w' (mems F)" using b assms(4) by (simp add: def_binv_def)
  ultimately show ?thesis using i(5) [OF inv] unfolding slab_state_def slab_inv_def by blast
qed

lemma slab_state_set_sm: "slab_state p m w F R Q \<Longrightarrow> slab_state p m (set_sm m c sm w) F R Q"
  by (rule slab_state_cong [rotated 6]) simp_all

lemma slab_state_ps: "slab_state p m w F R Q \<Longrightarrow> slab_state p m (w\<lparr>w_ps := x\<rparr>) F R Q"
  by (rule slab_state_cong [rotated 6]) simp_all

lemma slab_state_header:
  assumes "slab_state p m w F R Q" and "h \<in> live p F Q" and "w_mh w h = Some d" and "mh_slab d' = mh_slab d"
  shows "slab_state p m (w\<lparr>w_mh := (w_mh w)(h \<mapsto> d')\<rparr>) F R Q"
  using slab_inv_header [of p m w F R Q h d d'] assms by (simp add: slab_state_def def_binv_def)

section \<open>The slab allocator leaves the reclamation part alone\<close>

definition ksm :: "world \<Rightarrow> world \<Rightarrow> bool" where
  "ksm w w' \<longleftrightarrow> w_ps w' = w_ps w \<and> (\<forall>m c. get_sm m c w' = get_sm m c w)"

lemma ksmD: "ksm w w' \<Longrightarrow> w_ps w' = w_ps w" "ksm w w' \<Longrightarrow> get_sm m c w' = get_sm m c w"
  by (simp_all add: ksm_def)

lemma ksm_refl [intro]: "ksm w w"
  by (simp add: ksm_def)

lemma ksm_trans [trans]: "ksm w w1 \<Longrightarrow> ksm w1 w2 \<Longrightarrow> ksm w w2"
  by (simp add: ksm_def)

named_theorems ksm_dests
  \<comment> \<open>the elementary operations leave the reclamation part alone\<close>

lemma ksm_elementary [ksm_dests]:
  "on_mh f w = Some w' \<Longrightarrow> ksm w w'" "on_ls g w = Some w' \<Longrightarrow> ksm w w'" "upd_slab s h w = Some w' \<Longrightarrow> ksm w w'"
  by (auto simp: on_mh_def on_ls_def upd_slab_def ksm_def)

lemma ksm_upd_pc:
  assumes "upd_pc m c f w = Some w'" and "\<And>pc. pc_smr_info (f pc) = pc_smr_info pc"
  shows "ksm w w'"
proof -
  obtain pc where pc: "get_pc m c w = Some pc" using assms(1) by (auto simp: upd_pc_def get_pc_def bind_eq_Some_conv)
  then have w': "w' = set_pc m c (f pc) w" using assms(1) by (simp add: upd_pc_set)
  have "w_ps w' = w_ps w" by (simp add: w')
  moreover have "get_sm m' c' w' = get_sm m' c' w" for m' c'
  proof (cases "m' = m")
    case True
    then show ?thesis using pc assms(2) [of pc] by (auto simp: w' get_sm_def get_set_pc)
  next
    case False
    then show ?thesis by (simp add: w' get_sm_def get_pc_def set_pc_def)
  qed
  ultimately show ?thesis by (simp add: ksm_def)
qed

lemma ksm_upd_si [ksm_dests]: "upd_si m c f w = Some w' \<Longrightarrow> ksm w w'"
  unfolding upd_si_def by (erule ksm_upd_pc) simp

lemma ksm_set_remote [ksm_dests]: "set_remote m c l k v w = Some w' \<Longrightarrow> ksm w w'"
  by (auto simp: set_remote_def bind_eq_Some_conv elim!: ksm_upd_pc)

lemma ksm_mh: "ksm (w\<lparr>w_mh := h\<rparr>) w' \<Longrightarrow> ksm w w'" "ksm (w\<lparr>w_ls := l\<rparr>) w' \<Longrightarrow> ksm w w'"
  by (simp_all add: ksm_def)

lemma ksm_on_ring [ksm_dests]: "on_ring f m c w = Some w' \<Longrightarrow> ksm w w'"
  by (auto simp: on_ring_def bind_eq_Some_conv split: prod.splits dest!: ksm_upd_si intro: ksm_mh)

lemma ksm_default [ksm_dests]:
  "ps_slab_deffree ps_plat_free_linux m s sz c w = Some w' \<Longrightarrow> ksm w w'"
  "ps_slab_defalloc ps_plat_alloc_linux m sz c w = Some (a, w') \<Longrightarrow> ksm w w'"
proof -
  show "ps_slab_deffree ps_plat_free_linux m s sz c w = Some w' \<Longrightarrow> ksm w w'"
    by (auto simp: ps_slab_deffree_def ps_plat_free_linux_def drop_block_def ksm_def split: if_splits option.splits)
  show "ps_slab_defalloc ps_plat_alloc_linux m sz c w = Some (a, w') \<Longrightarrow> ksm w w'"
    by (auto simp: ps_slab_defalloc_def ps_plat_alloc_linux_def plat_answer_def zero_block_def ksm_def upd_slab_def
        bind_eq_Some_conv split: if_splits list.splits)
qed

lemma on_core_backend [simp]:
  "sp_afn (on_core c p) = ps_slab_defalloc ps_plat_alloc_linux" "sp_ffn (on_core c p) = ps_slab_deffree ps_plat_free_linux"
  by (simp_all add: on_core_def)

text \<open>The same as rules over the control structures, for operations that return a world or a pair with one.\<close>

definition kept :: "world \<Rightarrow> world option \<Rightarrow> bool" where
  "kept w x \<longleftrightarrow> (\<forall>w'. x = Some w' \<longrightarrow> ksm w w')"

definition kept_pair :: "world \<Rightarrow> ('a \<times> world) option \<Rightarrow> bool" where
  "kept_pair w x \<longleftrightarrow> (\<forall>a w'. x = Some (a, w') \<longrightarrow> ksm w w')"

named_theorems kept_intros

lemma kept_Some [kept_intros]: "kept w (Some w)" "kept_pair w (Some (a, w))"
  by (auto simp: kept_def kept_pair_def)

lemma kept_bind_world [kept_intros]:
  "kept w x \<Longrightarrow> (\<And>w'. kept w' (f w')) \<Longrightarrow> kept w (Option.bind x f)"
  "kept w x \<Longrightarrow> (\<And>w'. kept_pair w' (g w')) \<Longrightarrow> kept_pair w (Option.bind x g)"
  by (cases x; auto simp: kept_def kept_pair_def intro: ksm_trans)+

lemma kept_bind_pair [kept_intros]:
  "kept_pair w x \<Longrightarrow> (\<And>a w'. kept w' (f a w')) \<Longrightarrow> kept w (Option.bind x (\<lambda>(a, w'). f a w'))"
  "kept_pair w x \<Longrightarrow> (\<And>a w'. kept_pair w' (g a w')) \<Longrightarrow> kept_pair w (Option.bind x (\<lambda>(a, w'). g a w'))"
  by (cases x; auto simp: kept_def kept_pair_def intro: ksm_trans)+

lemma kept_bind_value:
  "(\<And>y. kept w (f y)) \<Longrightarrow> kept w (Option.bind x f)" "(\<And>y. kept_pair w (g y)) \<Longrightarrow> kept_pair w (Option.bind x g)"
  by (cases x; simp add: kept_def kept_pair_def)+

lemmas kept_values [kept_intros] =
  kept_bind_value [where 'a = unit] kept_bind_value [where 'a = bool] kept_bind_value [where 'a = addr]
  kept_bind_value [where 'a = ps_slab] kept_bind_value [where 'a = ps_slab_info] kept_bind_value [where 'a = ps_mheader]
  kept_bind_value [where 'a = "addr \<times> mheap"] kept_bind_value [where 'a = "addr \<times> addr"]

lemma kept_control [kept_intros]:
  "(c \<Longrightarrow> kept w x) \<Longrightarrow> (\<not> c \<Longrightarrow> kept w y) \<Longrightarrow> kept w (if c then x else y)"
  "(c \<Longrightarrow> kept_pair w u) \<Longrightarrow> (\<not> c \<Longrightarrow> kept_pair w v) \<Longrightarrow> kept_pair w (if c then u else v)"
  "(\<And>a b. z = (a, b) \<Longrightarrow> kept w (f a b)) \<Longrightarrow> kept w (case z of (a, b) \<Rightarrow> f a b)"
  "(\<And>a b. z = (a, b) \<Longrightarrow> kept_pair w (g a b)) \<Longrightarrow> kept_pair w (case z of (a, b) \<Rightarrow> g a b)"
  by (cases z; simp)+

lemma kept_elementary [kept_intros]:
  "kept w (on_mh f w)" "kept w (on_ls g w)" "kept w (upd_slab s h w)" "kept w (upd_si m c i w)"
  "kept w (set_remote m c l k v w)" "kept w (set_remote m c l k v (w\<lparr>w_mh := mh\<rparr>))" "kept w (on_ring r m c w)"
  "kept w (on_ls g (w\<lparr>w_mh := mh\<rparr>))"
  "kept w (ps_slab_deffree ps_plat_free_linux m a sz c w)" "kept_pair w (ps_slab_defalloc ps_plat_alloc_linux m sz c w)"
  by (auto simp: kept_def kept_pair_def dest: ksm_dests intro: ksm_mh)

lemma kept_mem_free [kept_intros]: "kept w (ps_slab_mem_free b m (on_core c p) here w)"
  unfolding ps_slab_mem_free_def ps_slab_mem_remote_free_def Let_def on_core_backend
  by (intro kept_intros)

lemma ksm_mem_free: "ps_slab_mem_free b m (on_core c p) here w = Some w' \<Longrightarrow> ksm w w'"
  using kept_mem_free by (auto simp: kept_def)

lemma kept_drain [kept_intros]: "kept_pair w (remote_drain k h r m (on_core c p) here w)"
proof (induction k arbitrary: h r w)
  case 0
  show ?case by (simp add: remote_drain.simps kept_pair_def ksm_refl)
next
  case (Suc k)
  show ?case unfolding remote_drain.simps [of "Suc k"] nat.case by (intro kept_intros Suc)
qed

lemma kept_clear [kept_intros]: "kept_pair w (remote_clear_from k is r m l (on_core c p) here w)"
proof (induction "is" arbitrary: r w)
  case (Cons i "is")
  show ?case unfolding remote_clear_from.simps by (intro kept_intros Cons)
qed (simp add: kept_intros)

lemma kept_process [kept_intros]: "kept_pair w (remote_process_loop k j t l m (on_core c p) here w)"
proof (induction j arbitrary: l w)
  case (Suc j)
  show ?case unfolding remote_process_loop.simps ps_slab_mem_remote_clear_def Let_def by (intro kept_intros Suc)
qed (simp add: kept_pair_def)

lemma kept_alloc: "kept_pair w (ps_slab_mem_alloc k m (on_core c p) here w)"
  unfolding ps_slab_mem_alloc_def ps_slab_mem_remote_process_def slab_obtain_def slab_take_def ps_slab_init_def
    Let_def on_core_backend
  by (intro kept_intros)

lemma ksm_mem_alloc: "ps_slab_mem_alloc k m (on_core c p) here w = Some (b, w') \<Longrightarrow> ksm w w'"
  using kept_alloc by (auto simp: kept_pair_def)

end
