(* ===== verification/Smr_Safety.thy ===== *)
theory Smr_Safety
  imports Smr
begin

text \<open>
  Quiescence when calls do not overlap: the cores enter and leave sections, call \<open>ps_quiesce\<close> and read the
  counter in any order, one call after the other; \<open>smr_reach\<close> collects the states.  The invariant says
  that the quiescence time a core knows never exceeds the entry time of a section that is still
  running; the proofs about reclamation rest on it.  Afterwards come the bounds of the non-blocking
  variant, the blocking variant, and the interleaving inside \<open>__ps_timing_update_remote\<close> for which
  the promise fails.  The promise under overlapping calls is the subject of \<open>Smr_Steps_Safety\<close>.
\<close>

section \<open>Reading and updating the structure\<close>

definition tm :: "parsec \<Rightarrow> nat \<Rightarrow> ps_quiescence_timing" where
  "tm p c = sp_timing (pa_timing_info p ! c)"

definition oc :: "parsec \<Rightarrow> nat \<Rightarrow> nat \<Rightarrow> ps_other_core" where
  "oc p c d = sp_timing_others (pa_timing_info p ! c) ! d"

definition shape :: "parsec \<Rightarrow> bool" where
  "shape p \<longleftrightarrow> length (pa_timing_info p) = PS_NUMCORES \<and>
     (\<forall>c < PS_NUMCORES. length (sp_timing_others (pa_timing_info p ! c)) = PS_NUMCORES)"

lemma get_timing_Some: "shape p \<Longrightarrow> get_timing c p = Some q \<longleftrightarrow> c < PS_NUMCORES \<and> q = tm p c"
  by (auto simp: get_timing_def aget_Some tm_def shape_def)

lemma get_other_Some:
  "shape p \<Longrightarrow> get_other c d p = Some q \<longleftrightarrow> c < PS_NUMCORES \<and> d < PS_NUMCORES \<and> q = oc p c d"
  by (auto simp: get_other_def bind_eq_Some_conv aget_Some oc_def shape_def)

lemma get_timing_in [array_simps]: "shape p \<Longrightarrow> c < PS_NUMCORES \<Longrightarrow> get_timing c p = Some (tm p c)"
  by (simp add: get_timing_Some)

lemma get_other_in [array_simps]:
  "shape p \<Longrightarrow> c < PS_NUMCORES \<Longrightarrow> d < PS_NUMCORES \<Longrightarrow> get_other c d p = Some (oc p c d)"
  by (simp add: get_other_Some)

lemma upd_timing_Some:
  assumes "shape p"
  shows "upd_timing c f p = Some p' \<longleftrightarrow> c < PS_NUMCORES \<and>
     p' = p\<lparr>pa_timing_info := (pa_timing_info p)[c := (pa_timing_info p ! c)
             \<lparr>sp_timing := f (tm p c)\<rparr>]\<rparr>"
  using assms
  by (auto simp: upd_timing_def upd_percore_def bind_eq_Some_conv aget_Some aset_Some shape_def tm_def)

lemma upd_timing_effect:
  assumes "shape p" and "upd_timing c f p = Some p'"
  shows "c < PS_NUMCORES" "shape p'" "tm p' = (tm p)(c := f (tm p c))" "oc p' = oc p"
    "pa_refcnt p' = pa_refcnt p"
  using assms
  by (auto simp: upd_timing_Some shape_def tm_def oc_def nth_list_update fun_eq_iff)

lemma upd_timing_total:
  "shape p \<Longrightarrow> c < PS_NUMCORES \<Longrightarrow> \<exists>p'. upd_timing c f p = Some p'"
  by (simp add: upd_timing_Some)

lemma upd_other_Some:
  assumes "shape p"
  shows "upd_other c d f p = Some p' \<longleftrightarrow> c < PS_NUMCORES \<and> d < PS_NUMCORES \<and>
     p' = p\<lparr>pa_timing_info := (pa_timing_info p)[c := (pa_timing_info p ! c)
             \<lparr>sp_timing_others := (sp_timing_others (pa_timing_info p ! c))[d := f (oc p c d)]\<rparr>]\<rparr>"
  using assms
  by (auto simp: upd_other_def upd_percore_def bind_eq_Some_conv aget_Some aset_Some get_other_Some
      shape_def)

lemma upd_other_effect:
  assumes "shape p" and "upd_other c d f p = Some p'"
  shows "c < PS_NUMCORES" "d < PS_NUMCORES" "shape p'" "tm p' = tm p"
    "oc p' = (oc p)(c := (oc p c)(d := f (oc p c d)))"
  using assms
  by (auto simp: upd_other_Some shape_def tm_def oc_def nth_list_update fun_eq_iff)

lemma upd_other_total:
  "shape p \<Longrightarrow> c < PS_NUMCORES \<Longrightarrow> d < PS_NUMCORES \<Longrightarrow> \<exists>p'. upd_other c d f p = Some p'"
  by (simp add: upd_other_Some)

text \<open>
  One undisturbed refresh: it succeeds, takes one reading of the counter, copies the remote times
  and takes over the remote quiescence time if that is later.
\<close>

lemma update_remote_effect:
  assumes "shape p" and "c < PS_NUMCORES" and "d < PS_NUMCORES"
  shows "\<exists>p'. ps_timing_update_remote no_env clk c d p t = Some (p', Suc t) \<and> shape p' \<and>
     oc p' = (oc p)(c := (oc p c)(d := \<lparr>oc_time_in = qt_time_in (tm p d),
        oc_time_out = qt_time_out (tm p d), oc_time_updated = clk t\<rparr>)) \<and>
     tm p' = (tm p)(c := (tm p c)\<lparr>qt_last_known_quiescence :=
        max (qt_last_known_quiescence (tm p c)) (qt_last_known_quiescence (tm p d))\<rparr>)"
proof -
  obtain p1 where 1: "upd_other c d (\<lambda>oc. oc\<lparr>oc_time_in := qt_time_in (tm p d)\<rparr>) p = Some p1"
    using upd_other_total [OF assms] by blast
  note e1 = upd_other_effect [OF assms(1) 1]
  obtain p2 where 2: "upd_other c d (\<lambda>oc. oc\<lparr>oc_time_out := qt_time_out (tm p1 d)\<rparr>) p1 = Some p2"
    using upd_other_total [OF e1(3) assms(2,3)] by blast
  note e2 = upd_other_effect [OF e1(3) 2]
  obtain p3 where 3: "upd_other c d (\<lambda>oc. oc\<lparr>oc_time_updated := clk t\<rparr>) p2 = Some p3"
    using upd_other_total [OF e2(3) assms(2,3)] by blast
  note e3 = upd_other_effect [OF e2(3) 3]
  obtain p4 where 4: "timing_share_qsc c d p3 = Some p4" "shape p4" "oc p4 = oc p3"
    "tm p4 = (tm p3)(c := (tm p3 c)\<lparr>qt_last_known_quiescence :=
        max (qt_last_known_quiescence (tm p3 c)) (qt_last_known_quiescence (tm p3 d))\<rparr>)"
  proof (cases "qt_last_known_quiescence (tm p3 c) < qt_last_known_quiescence (tm p3 d)")
    case True
    obtain p4 where p4: "upd_timing c (\<lambda>q. q\<lparr>qt_last_known_quiescence :=
        qt_last_known_quiescence (tm p3 d)\<rparr>) p3 = Some p4"
      using upd_timing_total [OF e3(3) assms(2)] by blast
    note e4 = upd_timing_effect [OF e3(3) p4]
    from True have mx: "max (qt_last_known_quiescence (tm p3 c)) (qt_last_known_quiescence (tm p3 d))
        = qt_last_known_quiescence (tm p3 d)" by (simp add: max_absorb2 less_imp_le)
    show ?thesis
      by (rule that [of p4]) (use True p4 e4 e3(3) assms in
          \<open>simp_all only: mx, simp_all add: timing_share_qsc_def array_simps\<close>)
  next
    case False
    then have mx: "max (qt_last_known_quiescence (tm p3 c)) (qt_last_known_quiescence (tm p3 d))
        = qt_last_known_quiescence (tm p3 c)" by (simp add: max_absorb1 not_less)
    show ?thesis
      by (rule that [of p3]) (use False e3(3) assms in
          \<open>simp_all only: mx, simp_all add: timing_share_qsc_def array_simps fun_eq_iff\<close>)
  qed
  have "ps_timing_update_remote no_env clk c d p t = Some (p4, Suc t)"
    using assms 1 2 3 4(1) e1(3)
    by (simp add: ps_timing_update_remote_def timing_read_in_def timing_read_out_def
        timing_stamp_def no_env_def array_simps)
  with 4 e1 e2 e3 show ?thesis by (auto simp: fun_eq_iff)
qed

section \<open>The steps of the system\<close>

inductive smr_step :: "clock \<Rightarrow> parsec \<times> nat \<Rightarrow> parsec \<times> nat \<Rightarrow> bool" for clk where
  enter: "\<not> ps_in_lib (tm p c) \<Longrightarrow> ps_enter c (clk t) p = Some p' \<Longrightarrow>
     smr_step clk (p, t) (p', Suc t)"
| leave: "ps_in_lib (tm p c) \<Longrightarrow> ps_exit c p = Some p' \<Longrightarrow> smr_step clk (p, t) (p', t)"
| quiesce: "ps_quiesce k no_env clk blocking c tsc p t = Some (r, p', t') \<Longrightarrow>
     smr_step clk (p, t) (p', t')"
| tick: "smr_step clk (p, t) (p, Suc t)"

inductive smr_reach :: "clock \<Rightarrow> parsec \<times> nat \<Rightarrow> bool" for clk where
  start: "smr_reach clk (ps_init (clk 0), Suc 0)"
| step: "smr_reach clk s \<Longrightarrow> smr_step clk s s' \<Longrightarrow> smr_reach clk s'"

text \<open>The counter advances between readings; asked for the readings taken so far only.\<close>

definition advancing :: "clock \<Rightarrow> nat \<Rightarrow> bool" where
  "advancing clk n \<longleftrightarrow> (\<forall>i j. i < j \<and> j \<le> n \<longrightarrow> clk i < clk j)"

lemma advancing_less: "advancing clk n \<Longrightarrow> m \<le> n \<Longrightarrow> advancing clk m"
  by (auto simp: advancing_def)

lemma advancing_Suc: "advancing clk n \<Longrightarrow> Suc t \<le> n \<Longrightarrow> clk t < clk (Suc t)"
  by (simp add: advancing_def)

lemma advancing_le: "advancing clk n \<Longrightarrow> s \<le> t \<Longrightarrow> t \<le> n \<Longrightarrow> clk s \<le> clk t"
  by (cases "s = t") (auto simp: advancing_def less_imp_le)

text \<open>
  The invariant.  Everything stamped so far lies before the next reading; a core's view of another
  is not ahead of it, and if the view shows the other outside a section then any section running
  now began after the view was stamped; no known quiescence time is later than the entry into a
  running section.
\<close>

definition smr_inv :: "clock \<Rightarrow> parsec \<Rightarrow> nat \<Rightarrow> bool" where
  "smr_inv clk p t \<longleftrightarrow> shape p \<and>
     (\<forall>c < PS_NUMCORES. qt_time_in (tm p c) < clk t \<and> qt_last_known_quiescence (tm p c) < clk t) \<and>
     (\<forall>c < PS_NUMCORES. \<forall>d < PS_NUMCORES. ps_in_lib (tm p d) \<longrightarrow>
        qt_last_known_quiescence (tm p c) \<le> qt_time_in (tm p d)) \<and>
     (\<forall>c < PS_NUMCORES. \<forall>d < PS_NUMCORES. c \<noteq> d \<longrightarrow>
        oc_time_updated (oc p c d) < clk t \<and> oc_time_in (oc p c d) \<le> qt_time_in (tm p d) \<and>
        oc_time_in (oc p c d) \<le> oc_time_updated (oc p c d) \<and>
        (oc_time_in (oc p c d) < oc_time_out (oc p c d) \<longrightarrow> ps_in_lib (tm p d) \<longrightarrow>
           oc_time_updated (oc p c d) < qt_time_in (tm p d)))"

lemma smr_invD:
  assumes "smr_inv clk p t"
  shows "shape p"
    "c < PS_NUMCORES \<Longrightarrow> qt_time_in (tm p c) < clk t"
    "c < PS_NUMCORES \<Longrightarrow> qt_last_known_quiescence (tm p c) < clk t"
    "c < PS_NUMCORES \<Longrightarrow> d < PS_NUMCORES \<Longrightarrow> ps_in_lib (tm p d) \<Longrightarrow>
       qt_last_known_quiescence (tm p c) \<le> qt_time_in (tm p d)"
    "c < PS_NUMCORES \<Longrightarrow> d < PS_NUMCORES \<Longrightarrow> c \<noteq> d \<Longrightarrow> oc_time_updated (oc p c d) < clk t"
    "c < PS_NUMCORES \<Longrightarrow> d < PS_NUMCORES \<Longrightarrow> c \<noteq> d \<Longrightarrow> oc_time_in (oc p c d) \<le> qt_time_in (tm p d)"
    "c < PS_NUMCORES \<Longrightarrow> d < PS_NUMCORES \<Longrightarrow> c \<noteq> d \<Longrightarrow>
       oc_time_in (oc p c d) < oc_time_out (oc p c d) \<Longrightarrow> ps_in_lib (tm p d) \<Longrightarrow>
       oc_time_updated (oc p c d) < qt_time_in (tm p d)"
    "c < PS_NUMCORES \<Longrightarrow> d < PS_NUMCORES \<Longrightarrow> c \<noteq> d \<Longrightarrow> oc_time_in (oc p c d) \<le> oc_time_updated (oc p c d)"
  using assms by (simp_all add: smr_inv_def)

text \<open>Two states with the same sections.\<close>

definition same_sections :: "parsec \<Rightarrow> parsec \<Rightarrow> bool" where
  "same_sections p p' \<longleftrightarrow> (\<forall>c. qt_time_in (tm p' c) = qt_time_in (tm p c) \<and>
     qt_time_out (tm p' c) = qt_time_out (tm p c))"

lemma same_sections_refl [simp]: "same_sections p p"
  by (simp add: same_sections_def)

lemma same_sections_trans: "same_sections p q \<Longrightarrow> same_sections q r \<Longrightarrow> same_sections p r"
  by (simp add: same_sections_def)

lemma same_sectionsD:
  assumes "same_sections p p'"
  shows "qt_time_in (tm p' c) = qt_time_in (tm p c)" "ps_in_lib (tm p' c) = ps_in_lib (tm p c)"
  using assms by (simp_all add: same_sections_def ps_in_lib_def)

lemma smr_inv_later:
  assumes "smr_inv clk p t" and "clk t \<le> clk t'"
  shows "smr_inv clk p t'"
  using assms unfolding smr_inv_def by (meson less_le_trans)

lemma update_remote_inv:
  assumes "smr_inv clk p t" and "c < PS_NUMCORES" and "d < PS_NUMCORES" and "c \<noteq> d"
    and "clk t < clk (Suc t)"
  shows "\<exists>p'. ps_timing_update_remote no_env clk c d p t = Some (p', Suc t)
     \<and> smr_inv clk p' (Suc t) \<and> same_sections p p'"
proof -
  note inv = smr_invD [OF assms(1)]
  obtain p' where p': "ps_timing_update_remote no_env clk c d p t = Some (p', Suc t)" "shape p'"
     "oc p' = (oc p)(c := (oc p c)(d := \<lparr>oc_time_in = qt_time_in (tm p d),
        oc_time_out = qt_time_out (tm p d), oc_time_updated = clk t\<rparr>))"
     "tm p' = (tm p)(c := (tm p c)\<lparr>qt_last_known_quiescence :=
        max (qt_last_known_quiescence (tm p c)) (qt_last_known_quiescence (tm p d))\<rparr>)"
    using update_remote_effect [OF inv(1) assms(2,3)] by blast
  have ss: "same_sections p p'" using p'(4) by (simp add: same_sections_def)
  have "smr_inv clk p' (Suc t)"
    unfolding smr_inv_def
  proof (intro conjI allI impI)
    show "shape p'" by (rule p'(2))
  next
    fix e assume e: "e < PS_NUMCORES"
    show "qt_time_in (tm p' e) < clk (Suc t)" "qt_last_known_quiescence (tm p' e) < clk (Suc t)"
      using inv(2) [OF e] inv(3) [OF e] inv(3) [OF assms(3)] assms(5) p'(4)
      by (auto simp: max_def)
  next
    fix e f assume "e < PS_NUMCORES" "f < PS_NUMCORES" "ps_in_lib (tm p' f)"
    then show "qt_last_known_quiescence (tm p' e) \<le> qt_time_in (tm p' f)"
      using inv(4) [of e f] inv(4) [of d f] assms(3) p'(4)
      unfolding same_sectionsD [OF ss] by (auto simp: max_def)
  next
    fix e f assume ef: "e < PS_NUMCORES" "f < PS_NUMCORES" "e \<noteq> f"
    show "oc_time_updated (oc p' e f) < clk (Suc t)" "oc_time_in (oc p' e f) \<le> qt_time_in (tm p' f)"
      "oc_time_in (oc p' e f) \<le> oc_time_updated (oc p' e f)"
      using inv(5,6,8) [OF ef] inv(2) [OF assms(3)] assms(5) p'(3)
      unfolding same_sectionsD [OF ss] by auto
    assume "oc_time_in (oc p' e f) < oc_time_out (oc p' e f)" "ps_in_lib (tm p' f)"
    then show "oc_time_updated (oc p' e f) < qt_time_in (tm p' f)"
      using inv(7) [OF ef] p'(3) unfolding same_sectionsD [OF ss]
      by (auto simp: ps_in_lib_def split: if_splits)
  qed
  with p'(1) ss show ?thesis by blast
qed

text \<open>An undisturbed refresh takes exactly one reading.\<close>

lemma update_remote_time:
  "ps_timing_update_remote no_env clk c d p t = Some (p', t') \<Longrightarrow> t' = Suc t"
  by (auto simp: ps_timing_update_remote_def no_env_def bind_eq_Some_conv)

lemma recheck_time:
  "quiesce_recheck k no_env clk b ft c d tc mn p t = Some (r, p', t') \<Longrightarrow> t \<le> t'"
proof (induction k arbitrary: ft p t)
  case (Suc k)
  show ?case
    using Suc.prems Suc.IH update_remote_time
    by (fastforce simp: bind_eq_Some_conv Let_def split: if_splits dest: Suc_leD)
qed simp

text \<open>
  What one remote core contributes to the minimum: the new one is not later than the entry of a
  section running on that core, and it stays later than the time asked for.
\<close>

definition mn_ok :: "clock \<Rightarrow> parsec \<Rightarrow> nat \<Rightarrow> nat \<Rightarrow> u64 \<Rightarrow> u64 \<Rightarrow> u64 \<Rightarrow> bool" where
  "mn_ok clk p t d tc mn mn' \<longleftrightarrow> mn' \<le> mn \<and> mn' < clk t \<and> (tc < mn \<longrightarrow> tc < mn') \<and>
     (ps_in_lib (tm p d) \<longrightarrow> mn' \<le> qt_time_in (tm p d))"

lemma recheck_min:
  assumes "smr_inv clk p t" and "c < PS_NUMCORES" and "d < PS_NUMCORES" and "c \<noteq> d"
    and "tc < oc_time_in (oc p c d) \<or>
      tc < oc_time_updated (oc p c d) \<and> oc_time_in (oc p c d) < oc_time_out (oc p c d)"
  shows "mn_ok clk p t d tc mn
    (if oc_time_in (oc p c d) < oc_time_out (oc p c d)
     then (if mn > oc_time_updated (oc p c d) then oc_time_updated (oc p c d) else mn)
     else (if mn > oc_time_in (oc p c d) then oc_time_in (oc p c d) else mn))"
proof -
  note inv = smr_invD [OF assms(1)]
  define x where "x = (if oc_time_in (oc p c d) < oc_time_out (oc p c d)
    then oc_time_updated (oc p c d) else oc_time_in (oc p c d))"
  have a: "oc_time_in (oc p c d) < clk t"
    using inv(6) [OF assms(2-4)] inv(2) [OF assms(3)] by (rule le_less_trans)
  have 1: "x < clk t" using a inv(5) [OF assms(2-4)] by (simp add: x_def)
  have 2: "tc < x" using assms(5) inv(8) [OF assms(2-4)] by (auto simp: x_def)
  have 3: "x \<le> qt_time_in (tm p d)" if "ps_in_lib (tm p d)"
    using inv(6) [OF assms(2-4)] inv(7) [OF assms(2-4)] that by (simp add: x_def less_imp_le)
  have "mn_ok clk p t d tc mn (if mn > x then x else mn)"
    using 1 2 3 by (auto simp: mn_ok_def not_less intro: le_less_trans order.trans)
  then show ?thesis unfolding x_def by (simp split: if_splits)
qed

lemma recheck_inv:
  assumes "quiesce_recheck k no_env clk b ft c d tc mn p t = Some (r, p', t')"
    and "smr_inv clk p t" and "c < PS_NUMCORES" and "d < PS_NUMCORES" and "c \<noteq> d"
    and "advancing clk t'"
  shows "smr_inv clk p' t' \<and> same_sections p p' \<and> 
    (\<forall>mn'. r = RNext mn' \<longrightarrow> mn_ok clk p' t' d tc mn mn') \<and>
    (r = RBreak \<longrightarrow> tc < qt_last_known_quiescence (tm p' c))"
  using assms(1,2)
proof (induction k arbitrary: ft p t)
  case 0
  then show ?case by simp
next
  case (Suc k)
  note inv = smr_invD(1) [OF Suc.prems(2)]
  note eqs = get_timing_in [OF inv assms(3)] get_other_in [OF inv assms(3,4)]
  let ?done = "tc < oc_time_in (oc p c d) \<or>
      tc < oc_time_updated (oc p c d) \<and> oc_time_in (oc p c d) < oc_time_out (oc p c d)"
  consider (brk) "tc < qt_last_known_quiescence (tm p c)"
    | (fin) "\<not> tc < qt_last_known_quiescence (tm p c)" ?done
    | (fail) "\<not> tc < qt_last_known_quiescence (tm p c)" "\<not> ?done" "\<not> ft \<and> \<not> b"
    | (again) "\<not> tc < qt_last_known_quiescence (tm p c)" "\<not> ?done" "\<not> (\<not> ft \<and> \<not> b)"
    by blast
  then show ?case
  proof cases
    case brk
    then show ?thesis using Suc.prems by (auto simp: eqs)
  next
    case fin
    then have "p' = p" "t' = t" and r: "r = RNext (if oc_time_in (oc p c d) < oc_time_out (oc p c d)
     then (if mn > oc_time_updated (oc p c d) then oc_time_updated (oc p c d) else mn)
     else (if mn > oc_time_in (oc p c d) then oc_time_in (oc p c d) else mn))"
      using Suc.prems(1) fin by (auto simp: eqs Let_def)
    then show ?thesis
      using Suc.prems(2) recheck_min [OF Suc.prems(2) assms(3-5) fin(2), of mn] by simp
  next
    case fail
    from fail(2,3) have "p' = p" "t' = t" "r = RFail"
      using Suc.prems(1) fail(1) by (auto simp: eqs Let_def split: if_splits)
    then show ?thesis using Suc.prems(2) by simp
  next
    case again
    obtain p1 t1 where 1: "ps_timing_update_remote no_env clk c d p t = Some (p1, t1)"
      and 2: "quiesce_recheck k no_env clk b False c d tc mn p1 t1 = Some (r, p', t')"
      using Suc.prems(1) again by (auto simp: eqs Let_def bind_eq_Some_conv)
    have t1: "t1 = Suc t" by (rule update_remote_time [OF 1])
    have "clk t < clk (Suc t)"
      using advancing_Suc [OF assms(6)] recheck_time [OF 2] t1 by simp
    from update_remote_inv [OF Suc.prems(2) assms(3-5) this] 1 t1
    have "smr_inv clk p1 t1" "same_sections p p1" by auto
    with Suc.IH [OF 2] show ?thesis using same_sections_trans by blast
  qed
qed

text \<open>The loop over the other cores.\<close>

lemma quiesce_loop_ConsE:
  assumes "quiesce_loop k env clk b c tc (i # is) mn p t = Some (r, p', t')"
  obtains r1 p1 t1 where
    "quiesce_recheck k env clk b True c ((c + i) mod PS_NUMCORES) tc mn p t = Some (r1, p1, t1)"
    "c \<noteq> (c + i) mod PS_NUMCORES"
    "(case r1 of RNext mn \<Rightarrow> quiesce_loop k env clk b c tc is mn p1 t1
      | RBreak \<Rightarrow> Some (QBreak, p1, t1) | RFail \<Rightarrow> Some (QFail, p1, t1)
      | RSpin \<Rightarrow> Some (QSpin, p1, t1)) = Some (r, p', t')"
  using assms by (auto simp: bind_eq_Some_conv Let_def split: if_splits)

lemma loop_time:
  "quiesce_loop k no_env clk b c tc is mn p t = Some (r, p', t') \<Longrightarrow> t \<le> t'"
proof (induction "is" arbitrary: mn p t)
  case (Cons i "is")
  from Cons.prems show ?case
  proof (cases rule: quiesce_loop_ConsE)
    case (1 r1 p1 t1)
    have "t1 \<le> t'" using 1(3) Cons.IH by (cases r1) auto
    with recheck_time [OF 1(1)] show ?thesis by (rule order.trans)
  qed
qed simp

lemma loop_inv:
  assumes "quiesce_loop k no_env clk b c tc is mn p t = Some (r, p', t')"
    and "smr_inv clk p t" and "c < PS_NUMCORES" and "advancing clk t'"
  shows "smr_inv clk p' t' \<and> same_sections p p' \<and> (\<forall>mn'. r = QAll mn' \<longrightarrow>
    mn' \<le> mn \<and> (is \<noteq> [] \<longrightarrow> mn' < clk t') \<and> (tc < mn \<longrightarrow> tc < mn') \<and>
    (\<forall>i \<in> set is. ps_in_lib (tm p' ((c + i) mod PS_NUMCORES)) \<longrightarrow>
       mn' \<le> qt_time_in (tm p' ((c + i) mod PS_NUMCORES)))) \<and>
    (r = QBreak \<longrightarrow> tc < qt_last_known_quiescence (tm p' c))"
  using assms(1,2)
proof (induction "is" arbitrary: mn p t)
  case Nil
  then show ?case by auto
next
  case (Cons i "is")
  let ?d = "(c + i) mod PS_NUMCORES"
  have d: "?d < PS_NUMCORES" by (simp add: PS_NUMCORES_def)
  obtain r1 p1 t1 where 1: "quiesce_recheck k no_env clk b True c ?d tc mn p t = Some (r1, p1, t1)"
    and ne: "c \<noteq> ?d"
    and 2: "(case r1 of RNext mn \<Rightarrow> quiesce_loop k no_env clk b c tc is mn p1 t1
      | RBreak \<Rightarrow> Some (QBreak, p1, t1) | RFail \<Rightarrow> Some (QFail, p1, t1)
      | RSpin \<Rightarrow> Some (QSpin, p1, t1)) = Some (r, p', t')"
    using Cons.prems(1) by (rule quiesce_loop_ConsE)
  have t1: "t1 \<le> t'" using 2 loop_time by (auto split: recheck.splits)
  note i1 = recheck_inv [OF 1 Cons.prems(2) assms(3) d ne advancing_less [OF assms(4) t1]]
  show ?case
  proof (cases r1)
    case (RNext m1)
    then have l: "quiesce_loop k no_env clk b c tc is m1 p1 t1 = Some (r, p', t')"
      using 2 by simp
    note IH = Cons.IH [OF l conjunct1 [OF i1]]
    have ss: "same_sections p1 p'" using IH by blast
    have m1: "mn_ok clk p1 t1 ?d tc mn m1" using i1 RNext by blast
    have c1: "clk t1 \<le> clk t'" by (rule advancing_le [OF assms(4) t1 order.refl])
    show ?thesis
    proof (intro conjI allI impI)
      show "smr_inv clk p' t'" using IH by blast
      show "same_sections p p'" using i1 ss same_sections_trans by blast
      show "tc < qt_last_known_quiescence (tm p' c)" if "r = QBreak" using IH that by blast
      fix mn' assume r: "r = QAll mn'"
      then have le: "mn' \<le> m1" using IH by blast
      then show "mn' \<le> mn" using m1 by (auto simp: mn_ok_def)
      show "tc < mn'" if "tc < mn"
        using IH r m1 that by (auto simp: mn_ok_def)
      have "m1 < clk t1" using m1 by (simp add: mn_ok_def)
      then show "mn' < clk t'" using le c1 by (meson le_less_trans less_le_trans)
      show "\<forall>j \<in> set (i # is). ps_in_lib (tm p' ((c + j) mod PS_NUMCORES)) \<longrightarrow>
          mn' \<le> qt_time_in (tm p' ((c + j) mod PS_NUMCORES))"
        using IH r m1 le by (auto simp: mn_ok_def same_sectionsD [OF ss] intro: order.trans)
    qed
  qed (use 2 i1 in auto)
qed

text \<open>Every other core is looked at.\<close>

lemma all_cores_visited:
  assumes "c < PS_NUMCORES" "d < PS_NUMCORES" "c \<noteq> d"
  shows "\<exists>i \<in> set [1..<PS_NUMCORES]. (c + i) mod PS_NUMCORES = d"
proof (cases "c < d")
  case True
  then show ?thesis using assms by (intro bexI [of _ "d - c"]) auto
next
  case False
  then show ?thesis using assms
    by (intro bexI [of _ "d + PS_NUMCORES - c"]) (auto simp: mod_if)
qed

lemma set_qsc_inv:
  assumes "smr_inv clk p t" and "upd_timing c (\<lambda>q. q\<lparr>qt_last_known_quiescence := mn\<rparr>) p = Some p'"
    and "mn < clk t"
    and "\<And>d. d < PS_NUMCORES \<Longrightarrow> ps_in_lib (tm p d) \<Longrightarrow> mn \<le> qt_time_in (tm p d)"
  shows "smr_inv clk p' t \<and> same_sections p p'"
proof -
  note e = upd_timing_effect [OF smr_invD(1) [OF assms(1)] assms(2)]
  have ss: "same_sections p p'" using e(3) by (simp add: same_sections_def)
  show ?thesis
    using assms(1) assms(3,4) e ss
    unfolding smr_inv_def same_sectionsD [OF ss] by auto
qed

lemma finish_inv:
  assumes "quiesce_finish c inlib qsc q1 p = Some (r, p')" and "smr_inv clk p t"
    and "c < PS_NUMCORES" and "inlib = ps_in_lib (tm p c)"
    and old: "\<And>d. d < PS_NUMCORES \<Longrightarrow> ps_in_lib (tm p d) \<Longrightarrow> qsc \<le> qt_time_in (tm p d)"
    and all: "\<And>m. q1 = QAll m \<Longrightarrow> m < clk t \<and> (\<forall>d < PS_NUMCORES. d \<noteq> c \<longrightarrow> ps_in_lib (tm p d) \<longrightarrow>
       m \<le> qt_time_in (tm p d))"
  shows "smr_inv clk p' t \<and> same_sections p p' \<and> (\<forall>v q. r = Returned v q \<longrightarrow>
    (\<forall>d < PS_NUMCORES. ps_in_lib (tm p' d) \<longrightarrow> q \<le> qt_time_in (tm p' d)))"
proof (cases q1)
  case (QAll m)
  define mn where "mn = (if ps_in_lib (tm p c) \<and> m > qt_time_in (tm p c) then qt_time_in (tm p c) else m)"
  have mn: "mn < clk t" using all [OF QAll] smr_invD(2) [OF assms(2,3)] by (auto simp: mn_def)
  have le: "mn \<le> qt_time_in (tm p d)" if "d < PS_NUMCORES" "ps_in_lib (tm p d)" for d
    using all [OF QAll] that by (cases "d = c") (auto simp: mn_def)
  have eq: "(if mn < - 1 then if qt_last_known_quiescence (tm p c) < mn
      then upd_timing c (\<lambda>q. q\<lparr>qt_last_known_quiescence := mn\<rparr>) p \<bind> (\<lambda>p. Some (Returned 0 mn, p))
      else Some (Returned 0 qsc, p) else None) = Some (r, p')"
    using assms(1) get_timing_in [OF smr_invD(1) [OF assms(2)] assms(3)]
    unfolding mn_def QAll assms(4) by (simp add: PS_NUMCORES_def Let_def)
  show ?thesis
  proof (cases "qt_last_known_quiescence (tm p c) < mn")
    case True
    then have u: "upd_timing c (\<lambda>q. q\<lparr>qt_last_known_quiescence := mn\<rparr>) p = Some p'"
      and r: "r = Returned 0 mn"
      using eq by (auto simp: bind_eq_Some_conv split: if_splits)
    note s = set_qsc_inv [OF assms(2) u mn le]
    then show ?thesis using r le by (auto simp: same_sectionsD [OF conjunct2 [OF s]])
  next
    case False
    then have "p' = p" "r = Returned 0 qsc"
      using eq by (auto split: if_splits)
    then show ?thesis using assms(2) old by auto
  qed
qed (use assms in auto)

lemma quiesce_split:
  assumes "ps_quiesce k env clk b c tsc p t = Some (r, p', t')" and "shape p"
  obtains (inside) "c < PS_NUMCORES" "tsc > qt_time_in (tm p c)" "ps_in_lib (tm p c)" "p' = p" "t' = t"
      "r = Returned (- EQUIESCENCE) (qt_last_known_quiescence (tm p c))"
    | (looked) q p1 where "c < PS_NUMCORES" "\<not> (tsc > qt_time_in (tm p c) \<and> ps_in_lib (tm p c))"
      "quiesce_loop k env clk b c tsc [1..<PS_NUMCORES] (- 1) p t = Some (q, p1, t')"
      "quiesce_finish c (ps_in_lib (tm p c)) (qt_last_known_quiescence (tm p c)) q p1 = Some (r, p')"
  using assms
  by (auto simp: ps_quiesce_def bind_eq_Some_conv get_timing_Some Let_def split: if_splits)

lemma quiesce_time: "ps_quiesce k no_env clk b c tsc p t = Some (r, p', t') \<Longrightarrow> t \<le> t'"
  by (auto simp: ps_quiesce_def bind_eq_Some_conv Let_def split: if_splits dest: loop_time)

lemma quiesce_inv:
  assumes "ps_quiesce k no_env clk b c tsc p t = Some (r, p', t')"
    and "smr_inv clk p t" and "advancing clk t'"
  shows "smr_inv clk p' t' \<and> same_sections p p' \<and> (\<forall>v q. r = Returned v q \<longrightarrow>
    (\<forall>d < PS_NUMCORES. ps_in_lib (tm p' d) \<longrightarrow> q \<le> qt_time_in (tm p' d)))"
  using assms(1) smr_invD(1) [OF assms(2)]
proof (cases rule: quiesce_split)
  case inside
  then show ?thesis using assms(2) smr_invD(4) [OF assms(2)] by auto
next
  case (looked q1 p1)
  note i1 = loop_inv [OF looked(3) assms(2) looked(1) assms(3)]
  have inv1: "smr_inv clk p1 t'" and ss: "same_sections p p1" using i1 by auto
  have all: "m < clk t' \<and> (\<forall>d < PS_NUMCORES. d \<noteq> c \<longrightarrow> ps_in_lib (tm p1 d) \<longrightarrow>
       m \<le> qt_time_in (tm p1 d))" if "q1 = QAll m" for m
  proof (intro conjI allI impI)
    show "m < clk t'" using i1 that by (simp add: PS_NUMCORES_def)
    fix d assume d: "d < PS_NUMCORES" "d \<noteq> c" "ps_in_lib (tm p1 d)"
    then obtain i where "i \<in> set [1..<PS_NUMCORES]" "(c + i) mod PS_NUMCORES = d"
      using all_cores_visited [OF looked(1)] by metis
    then show "m \<le> qt_time_in (tm p1 d)" using i1 that d(3) by auto
  qed
  have "qt_last_known_quiescence (tm p c) \<le> qt_time_in (tm p1 d)"
    if "d < PS_NUMCORES" "ps_in_lib (tm p1 d)" for d
    using smr_invD(4) [OF assms(2) looked(1) that(1)] that(2) by (simp add: same_sectionsD [OF ss])
  from finish_inv [OF looked(4) inv1 looked(1) _ this all]
  show ?thesis using ss same_sections_trans by (auto simp: same_sectionsD [OF ss])
qed

section \<open>All reachable states\<close>

lemma smr_inv_init:
  assumes "clk 0 < clk (Suc 0)"
  shows "smr_inv clk (ps_init (clk 0)) (Suc 0)"
proof -
  have "clk 0 < clk 0 + 1" using assms by (auto simp: word_less_nat_alt unat_inc)
  then have "\<not> clk 0 + 1 \<le> clk 0" by (simp add: not_le)
  then show ?thesis
    using assms by (simp add: smr_inv_def ps_init_def shape_def tm_def oc_def ps_in_lib_def)
qed

lemma enter_inv:
  assumes "smr_inv clk p t" and "ps_enter c (clk t) p = Some p'" and "clk t < clk (Suc t)"
  shows "smr_inv clk p' (Suc t)"
proof -
  note inv = smr_invD [OF assms(1)]
  note e = upd_timing_effect [OF inv(1) assms(2) [unfolded ps_enter_def]]
  show ?thesis
    unfolding smr_inv_def
  proof (intro conjI allI impI)
    fix d assume "d < PS_NUMCORES"
    then show "qt_time_in (tm p' d) < clk (Suc t)" "qt_last_known_quiescence (tm p' d) < clk (Suc t)"
      using inv(2,3) [of d] assms(3) e(3) by auto
  next
    fix d f assume "d < PS_NUMCORES" "f < PS_NUMCORES" "ps_in_lib (tm p' f)"
    then show "qt_last_known_quiescence (tm p' d) \<le> qt_time_in (tm p' f)"
      using inv(3) [of d] inv(4) [of d f] e(3) by (auto simp: less_imp_le split: if_splits)
  next
    fix d f assume df: "d < PS_NUMCORES" "f < PS_NUMCORES" "d \<noteq> f"
    note i = inv(2) [OF df(2)] inv(5,6,8) [OF df]
    show "oc_time_updated (oc p' d f) < clk (Suc t)" "oc_time_in (oc p' d f) \<le> oc_time_updated (oc p' d f)"
      using i assms(3) e(4) by auto
    show "oc_time_in (oc p' d f) \<le> qt_time_in (tm p' f)"
      using i e(3,4) by (auto intro: order.trans less_imp_le)
    assume "oc_time_in (oc p' d f) < oc_time_out (oc p' d f)" "ps_in_lib (tm p' f)"
    then show "oc_time_updated (oc p' d f) < qt_time_in (tm p' f)"
      using i inv(7) [OF df] e(3,4) by (auto split: if_splits)
  qed (rule e(2))
qed

lemma exit_inv:
  assumes "smr_inv clk p t" and "ps_exit c p = Some p'"
  shows "smr_inv clk p' t"
proof -
  note inv = smr_invD [OF assms(1)]
  note e = upd_timing_effect [OF inv(1) assms(2) [unfolded ps_exit_def]]
  have "qt_time_in (tm p c) < qt_time_in (tm p c) + 1"
    using inv(2) [OF e(1)] by (auto simp: word_less_nat_alt unat_inc)
  then have out: "ps_in_lib (tm p' d) \<Longrightarrow> d \<noteq> c \<and> ps_in_lib (tm p d)" for d
    using e(3) by (auto simp: ps_in_lib_def not_le split: if_splits)
  have ti: "qt_time_in (tm p' d) = qt_time_in (tm p d)"
    "qt_last_known_quiescence (tm p' d) = qt_last_known_quiescence (tm p d)" for d
    using e(3) by auto
  show ?thesis using inv e(2,4) out unfolding smr_inv_def ti by auto
qed

lemma smr_step_inv:
  assumes "smr_step clk (p, t) (p', t')" and "smr_inv clk p t" and "advancing clk t'"
  shows "smr_inv clk p' t'"
  using assms(1)
proof cases
  case (enter c)
  then show ?thesis using enter_inv assms(2) advancing_Suc [OF assms(3)] by simp
next
  case (leave c)
  then show ?thesis using exit_inv assms(2) by simp
next
  case (quiesce k b c tsc r)
  then show ?thesis using quiesce_inv assms(2,3) by blast
next
  case tick
  then show ?thesis using smr_inv_later [OF assms(2)] advancing_Suc [OF assms(3)] by (simp add: less_imp_le)
qed

lemma smr_step_time: "smr_step clk (p, t) (p', t') \<Longrightarrow> t \<le> t'"
  by (cases rule: smr_step.cases) (auto dest: quiesce_time)

lemma smr_reach_inv:
  "smr_reach clk s \<Longrightarrow> advancing clk (snd s) \<Longrightarrow> smr_inv clk (fst s) (snd s)"
proof (induction rule: smr_reach.induct)
  case start
  then show ?case using smr_inv_init by (simp add: advancing_def)
next
  case (step s s')
  obtain p t p' t' where s: "s = (p, t)" "s' = (p', t')" by (cases s, cases s')
  with step.hyps(2) have st: "smr_step clk (p, t) (p', t')" by simp
  then show ?case
    using step.IH step.prems advancing_less smr_step_time [OF st] smr_step_inv [OF st] s by auto
qed

section \<open>Totality and the number of readings\<close>

lemma recheck_total:
  assumes "smr_inv clk p t" and "c < PS_NUMCORES" and "d < PS_NUMCORES" and "c \<noteq> d"
    and "advancing clk (t + k)"
  shows "\<exists>r p' t'. quiesce_recheck k no_env clk b ft c d tc mn p t = Some (r, p', t') \<and> t' \<le> t + k"
  using assms(1,5)
proof (induction k arbitrary: ft p t)
  case (Suc k)
  note inv = smr_invD(1) [OF Suc.prems(1)]
  note eqs = get_timing_in [OF inv assms(2)] get_other_in [OF inv assms(2,3)]
  have "clk t < clk (Suc t)" using advancing_Suc [OF Suc.prems(2)] by simp
  from update_remote_inv [OF Suc.prems(1) assms(2-4) this] obtain p1 where
    1: "ps_timing_update_remote no_env clk c d p t = Some (p1, Suc t)" "smr_inv clk p1 (Suc t)" by blast
  from Suc.IH [OF 1(2), of False] Suc.prems(2) obtain r p' t' where
    "quiesce_recheck k no_env clk b False c d tc mn p1 (Suc t) = Some (r, p', t')" "t' \<le> Suc t + k"
    by auto
  then show ?case using 1(1) by (auto simp: eqs Let_def)
qed simp

text \<open>
  Two rounds decide the answer for a core: always when not blocking, and when blocking if that core
  is not inside a section entered at or before the time asked for.
\<close>

lemma recheck_decides:
  assumes "quiesce_recheck (Suc (Suc k)) no_env clk b True c d tc mn p t = Some (r, p', t')"
    and "smr_inv clk p t" and "c < PS_NUMCORES" and "d < PS_NUMCORES" and "c \<noteq> d"
    and "\<not> b \<or> tc < clk t \<and> (ps_in_lib (tm p d) \<longrightarrow> tc < qt_time_in (tm p d))"
  shows "r \<noteq> RSpin \<and> t' \<le> Suc t"
proof -
  note inv = smr_invD(1) [OF assms(2)]
  obtain p1 where 1: "ps_timing_update_remote no_env clk c d p t = Some (p1, Suc t)" "shape p1"
    "oc p1 = (oc p)(c := (oc p c)(d := \<lparr>oc_time_in = qt_time_in (tm p d),
        oc_time_out = qt_time_out (tm p d), oc_time_updated = clk t\<rparr>))"
    using update_remote_effect [OF inv assms(3,4)] by blast
  note eqs = get_timing_in [OF inv assms(3)] get_other_in [OF inv assms(3,4)]
    get_timing_in [OF 1(2) assms(3)] get_other_in [OF 1(2) assms(3,4)]
  have second: "r' \<noteq> RSpin \<and> t'' \<le> Suc t"
    if "quiesce_recheck (Suc k) no_env clk b False c d tc mn p1 (Suc t) = Some (r', p'', t'')"
    for r' p'' t''
  proof -
    have "\<not> b \<or> tc < oc_time_in (oc p1 c d) \<or>
       tc < oc_time_updated (oc p1 c d) \<and> oc_time_in (oc p1 c d) < oc_time_out (oc p1 c d)"
      using assms(6) by (auto simp: 1(3) ps_in_lib_def not_le)
    then show ?thesis using that by (auto simp: eqs Let_def split: if_splits)
  qed
  show ?thesis
    using assms(1) second 1(1)
    by (auto simp: quiesce_recheck.simps(2) [of "Suc k"] eqs Let_def
        simp del: quiesce_recheck.simps split: if_splits)
qed

lemma recheck_blocking:
  "quiesce_recheck k no_env clk True ft c d tc mn p t = Some (r, p', t') \<Longrightarrow> r \<noteq> RFail"
  by (induction k arbitrary: ft p t)
    (auto simp: bind_eq_Some_conv Let_def split: if_splits)

lemma other_core:
  assumes "c < PS_NUMCORES" and "0 < i" and "i < PS_NUMCORES"
  shows "c \<noteq> (c + i) mod PS_NUMCORES" "(c + i) mod PS_NUMCORES < PS_NUMCORES"
  using assms by (auto simp: mod_if)

lemma loop_total:
  assumes "smr_inv clk p t" and "c < PS_NUMCORES" and "\<forall>i \<in> set is. 0 < i \<and> i < PS_NUMCORES"
    and "advancing clk (t + k * length is)"
  shows "\<exists>r p' t'. quiesce_loop k no_env clk b c tc is mn p t = Some (r, p', t') \<and>
    t' \<le> t + k * length is"
  using assms(1,3,4)
proof (induction "is" arbitrary: mn p t)
  case (Cons i "is")
  let ?d = "(c + i) mod PS_NUMCORES"
  have d: "c \<noteq> ?d" "?d < PS_NUMCORES" using other_core [OF assms(2)] Cons.prems(2) by auto
  have a: "advancing clk (t + k)" by (rule advancing_less [OF Cons.prems(3)]) simp
  obtain r1 p1 t1 where 1: "quiesce_recheck k no_env clk b True c ?d tc mn p t = Some (r1, p1, t1)"
    and t1: "t1 \<le> t + k"
    using recheck_total [OF Cons.prems(1) assms(2) d(2) d(1) a] by blast
  have i1: "smr_inv clk p1 t1"
    using recheck_inv [OF 1 Cons.prems(1) assms(2) d(2) d(1) advancing_less [OF a t1]] by blast
  have "advancing clk (t1 + k * length is)"
    by (rule advancing_less [OF Cons.prems(3)]) (use t1 in simp)
  with Cons.IH [OF i1] Cons.prems(2) obtain r2 p2 t2 where
    "\<And>m. \<exists>r p' t'. quiesce_loop k no_env clk b c tc is m p1 t1 = Some (r, p', t') \<and>
       t' \<le> t1 + k * length is" by fastforce
  then show ?case using 1 d(1) t1 by (cases r1) (fastforce simp: Let_def)+
qed simp

lemma loop_decides:
  assumes "quiesce_loop (Suc (Suc k)) no_env clk b c tc is mn p t = Some (r, p', t')"
    and "smr_inv clk p t" and "c < PS_NUMCORES" and "\<forall>i \<in> set is. 0 < i \<and> i < PS_NUMCORES"
    and "\<not> b \<or> tc < clk t \<and> (\<forall>i \<in> set is. ps_in_lib (tm p ((c + i) mod PS_NUMCORES)) \<longrightarrow>
       tc < qt_time_in (tm p ((c + i) mod PS_NUMCORES)))"
    and "advancing clk t'"
  shows "r \<noteq> QSpin \<and> t' \<le> t + length is"
  using assms(1,2,4,5)
proof (induction "is" arbitrary: mn p t)
  case (Cons i "is")
  let ?d = "(c + i) mod PS_NUMCORES"
  have d: "?d < PS_NUMCORES" using other_core [OF assms(3)] Cons.prems(3) by auto
  from Cons.prems(1) obtain r1 p1 t1 where
    1: "quiesce_recheck (Suc (Suc k)) no_env clk b True c ?d tc mn p t = Some (r1, p1, t1)"
    and ne: "c \<noteq> ?d"
    and 2: "(case r1 of RNext mn \<Rightarrow> quiesce_loop (Suc (Suc k)) no_env clk b c tc is mn p1 t1
      | RBreak \<Rightarrow> Some (QBreak, p1, t1) | RFail \<Rightarrow> Some (QFail, p1, t1)
      | RSpin \<Rightarrow> Some (QSpin, p1, t1)) = Some (r, p', t')"
    by (rule quiesce_loop_ConsE)
  have t1: "t1 \<le> t'" using 2 loop_time by (auto split: recheck.splits)
  have i1: "smr_inv clk p1 t1 \<and> same_sections p p1"
    using recheck_inv [OF 1 Cons.prems(2) assms(3) d ne advancing_less [OF assms(6) t1]] by blast
  have dec: "r1 \<noteq> RSpin \<and> t1 \<le> Suc t"
    by (rule recheck_decides [OF 1 Cons.prems(2) assms(3) d ne]) (use Cons.prems(4) in auto)
  show ?case
  proof (cases r1)
    case (RNext m1)
    have "clk t \<le> clk t1"
      by (rule advancing_le [OF assms(6) recheck_time [OF 1] t1])
    then have "\<not> b \<or> tc < clk t1 \<and> (\<forall>i \<in> set is. ps_in_lib (tm p1 ((c + i) mod PS_NUMCORES)) \<longrightarrow>
       tc < qt_time_in (tm p1 ((c + i) mod PS_NUMCORES)))"
      using Cons.prems(4) i1 by (auto simp: same_sectionsD)
    with Cons.IH [of m1 p1 t1] 2 RNext i1 Cons.prems(3) have "r \<noteq> QSpin \<and> t' \<le> t1 + length is"
      by simp
    then show ?thesis using dec by auto
  qed (use 2 dec in auto)
qed auto

lemma loop_blocking:
  "quiesce_loop k no_env clk True c tc is mn p t = Some (r, p', t') \<Longrightarrow> r \<noteq> QFail"
proof (induction "is" arbitrary: mn p t)
  case (Cons i "is")
  from Cons.prems show ?case
  proof (cases rule: quiesce_loop_ConsE)
    case (1 r1 p1 t1)
    then show ?thesis using recheck_blocking [OF 1(1)] Cons.IH by (cases r1) auto
  qed
qed auto

lemma finish_total:
  assumes "smr_inv clk p t" and "c < PS_NUMCORES" and "\<And>m. q1 = QAll m \<Longrightarrow> m < clk t"
  shows "\<exists>r p'. quiesce_finish c inlib qsc q1 p = Some (r, p') \<and>
    (r = Spinning \<longleftrightarrow> q1 = QSpin) \<and>
    (q1 = QFail \<longrightarrow> (\<exists>q. r = Returned (- 1) q)) \<and>
    (q1 \<noteq> QSpin \<longrightarrow> q1 \<noteq> QFail \<longrightarrow> (\<exists>q. r = Returned 0 q))"
proof (cases q1)
  case (QAll m)
  have top: "x < clk t \<Longrightarrow> x < - 1" for x by (erule less_le_trans) simp
  note inv = smr_invD [OF assms(1)]
  have m: "m < - 1" using top assms(3) [OF QAll] by blast
  have ti: "qt_time_in (tm p c) < - 1" using top inv(2) [OF assms(2)] by blast
  show ?thesis
    using get_timing_in [OF inv(1) assms(2)] upd_timing_total [OF inv(1) assms(2)] m ti
    by (fastforce simp: QAll Let_def bind_eq_Some_conv)
qed auto

lemma finish_cases:
  assumes "quiesce_finish c inlib qsc q1 p = Some (r, p')" and "smr_inv clk p t" and "c < PS_NUMCORES"
    and "\<And>m. q1 = QAll m \<Longrightarrow> m < clk t"
  shows "r = Spinning \<longleftrightarrow> q1 = QSpin" and "q1 = QFail \<Longrightarrow> \<exists>q. r = Returned (- 1) q"
    and "q1 \<noteq> QSpin \<Longrightarrow> q1 \<noteq> QFail \<Longrightarrow> \<exists>q. r = Returned 0 q"
  using finish_total [of clk p t c q1 inlib qsc, OF assms(2-4)] assms(1) by auto

text \<open>A call from a state of the invariant returns or spins; nothing goes wrong on the way.\<close>

lemma quiesce_total:
  assumes "smr_inv clk p t" and "c < PS_NUMCORES"
    and "\<not> (tsc > qt_time_in (tm p c) \<and> ps_in_lib (tm p c))"
    and "advancing clk (t + k * (PS_NUMCORES - 1))"
  shows "\<exists>q1 p1 t' r p'. quiesce_loop k no_env clk b c tsc [1..<PS_NUMCORES] (- 1) p t = Some (q1, p1, t') \<and>
     t' \<le> t + k * (PS_NUMCORES - 1) \<and> smr_inv clk p1 t' \<and> same_sections p p1 \<and>
     (\<forall>m. q1 = QAll m \<longrightarrow> m < clk t') \<and>
     quiesce_finish c (ps_in_lib (tm p c)) (qt_last_known_quiescence (tm p c)) q1 p1 = Some (r, p') \<and>
     ps_quiesce k no_env clk b c tsc p t = Some (r, p', t')"
proof -
  obtain q1 p1 t' where 1: "quiesce_loop k no_env clk b c tsc [1..<PS_NUMCORES] (- 1) p t = Some (q1, p1, t')"
    and t': "t' \<le> t + k * (PS_NUMCORES - 1)"
    using loop_total [OF assms(1,2), of "[1..<PS_NUMCORES]" k b tsc "- 1"] assms(4) by auto
  note i1 = loop_inv [OF 1 assms(1,2) advancing_less [OF assms(4) t']]
  have inv1: "smr_inv clk p1 t'" using i1 by blast
  have all: "m < clk t'" if "q1 = QAll m" for m using i1 that by (simp add: PS_NUMCORES_def)
  from finish_total [OF inv1 assms(2) all] obtain r p' where
    2: "quiesce_finish c (ps_in_lib (tm p c)) (qt_last_known_quiescence (tm p c)) q1 p1 = Some (r, p')"
    by blast
  have "ps_quiesce k no_env clk b c tsc p t = Some (r, p', t')"
    using 1 2 assms(3) get_timing_in [OF smr_invD(1) [OF assms(1)] assms(2)]
    by (auto simp: ps_quiesce_def)
  with 1 2 t' i1 all show ?thesis by blast
qed

lemma try_quiesce_total:
  assumes inv: "smr_inv clk p t" and "c < PS_NUMCORES"
    and "advancing clk (t + 2 * (PS_NUMCORES - 1))"
  shows "\<exists>v qsc p' t'. ps_try_quiesce no_env clk c tsc p t = Some (Returned v qsc, p', t') \<and>
    t' \<le> t + (PS_NUMCORES - 1) \<and> v \<in> {0, - 1, - EQUIESCENCE} \<and>
    (v = - EQUIESCENCE \<longleftrightarrow> tsc > qt_time_in (tm p c) \<and> ps_in_lib (tm p c))"
proof (cases "tsc > qt_time_in (tm p c) \<and> ps_in_lib (tm p c)")
  case True
  from get_timing_in [OF smr_invD(1) [OF inv] assms(2)] True show ?thesis
    by (simp add: ps_try_quiesce_def ps_quiesce_def)
next
  case False
  from quiesce_total [OF inv assms(2) False assms(3), of False] obtain q1 p1 t' r p' where
    1: "quiesce_loop 2 no_env clk False c tsc [1..<PS_NUMCORES] (- 1) p t = Some (q1, p1, t')"
    and t': "t' \<le> t + 2 * (PS_NUMCORES - 1)" and inv1: "smr_inv clk p1 t'"
    and all: "\<And>m. q1 = QAll m \<Longrightarrow> m < clk t'"
    and f: "quiesce_finish c (ps_in_lib (tm p c)) (qt_last_known_quiescence (tm p c)) q1 p1 = Some (r, p')"
    and q: "ps_quiesce 2 no_env clk False c tsc p t = Some (r, p', t')" by blast
  have dec: "q1 \<noteq> QSpin \<and> t' \<le> t + length [1..<PS_NUMCORES]"
    by (rule loop_decides [of 0 clk False])
      (use 1 inv assms(2) advancing_less [OF assms(3) t'] in \<open>simp_all add: numeral_2_eq_2\<close>)
  with finish_cases [OF f inv1 assms(2) all] have "\<exists>v qsc. r = Returned v qsc \<and> v \<in> {0, - 1}"
    by (cases "q1 = QFail") auto
  then show ?thesis
    using q dec False unfolding ps_try_quiesce_def by (auto simp: EQUIESCENCE_def)
qed

section \<open>The properties\<close>

text \<open>
  C15: the non-blocking variant is wait-free.  From every state that calls which do not overlap can reach, a call of
  \<open>ps_try_quiesce\<close> that is not interrupted returns
  after at most one look at each other core (one reading of the counter each), none of its
  assertions fails, the two rounds per core of the model are enough, and the result is 0, -1 or
  \<open>-EQUIESCENCE\<close>, the last exactly when the caller itself is in a section entered before the time
  asked for.
\<close>

theorem ps_try_quiesce_wait_free:
  assumes "smr_reach clk (p, t)" and "c < PS_NUMCORES"
    and "advancing clk (t + 2 * (PS_NUMCORES - 1))"
  shows "\<exists>v qsc p' t'. ps_try_quiesce no_env clk c tsc p t = Some (Returned v qsc, p', t') \<and>
    t' \<le> t + (PS_NUMCORES - 1) \<and> v \<in> {0, - 1, - EQUIESCENCE} \<and>
    (v = - EQUIESCENCE \<longleftrightarrow> tsc > qt_time_in (tm p c) \<and> ps_in_lib (tm p c))"
proof (rule try_quiesce_total [OF _ assms(2,3)])
  show "smr_inv clk p t" using smr_reach_inv [OF assms(1)] advancing_less [OF assms(3)] by simp
qed

text \<open>The blocking variant, called outside a section or for a time not after its entry.\<close>

lemma quiesce_wait_outside:
  assumes "smr_reach clk (p, t)" and "c < PS_NUMCORES" and "tsc < clk t" and "2 \<le> k"
    and "\<not> (tsc > qt_time_in (tm p c) \<and> ps_in_lib (tm p c))"
    and "advancing clk (t + k * (PS_NUMCORES - 1))"
  shows "if \<forall>d < PS_NUMCORES. d \<noteq> c \<longrightarrow> ps_in_lib (tm p d) \<longrightarrow> tsc < qt_time_in (tm p d)
    then \<exists>qsc p' t'. ps_quiesce_wait k no_env clk c tsc p t = Some (Returned 0 qsc, p', t')
    else \<exists>p' t'. ps_quiesce_wait k no_env clk c tsc p t = Some (Spinning, p', t')"
proof -
  have inv: "smr_inv clk p t"
    using smr_reach_inv [OF assms(1)] advancing_less [OF assms(6)] by simp
  from quiesce_total [OF inv assms(2,5,6), of True] obtain q1 p1 t' r p' where
    1: "quiesce_loop k no_env clk True c tsc [1..<PS_NUMCORES] (- 1) p t = Some (q1, p1, t')"
    and t': "t' \<le> t + k * (PS_NUMCORES - 1)" and inv1: "smr_inv clk p1 t'" and ss: "same_sections p p1"
    and all: "\<And>m. q1 = QAll m \<Longrightarrow> m < clk t'"
    and f: "quiesce_finish c (ps_in_lib (tm p c)) (qt_last_known_quiescence (tm p c)) q1 p1 = Some (r, p')"
    and q: "ps_quiesce k no_env clk True c tsc p t = Some (r, p', t')" by blast
  note adv = advancing_less [OF assms(6) t']
  note fin = finish_cases [OF f inv1 assms(2) all]
  have nf: "q1 \<noteq> QFail" by (rule loop_blocking [OF 1])
  show ?thesis
  proof (cases "\<forall>d < PS_NUMCORES. d \<noteq> c \<longrightarrow> ps_in_lib (tm p d) \<longrightarrow> tsc < qt_time_in (tm p d)")
    case True
    obtain j where k: "k = Suc (Suc j)" using assms(4) by (metis add_2_eq_Suc le_Suc_ex)
    have "tsc < clk t \<and> (\<forall>i \<in> set [1..<PS_NUMCORES]. ps_in_lib (tm p ((c + i) mod PS_NUMCORES)) \<longrightarrow>
        tsc < qt_time_in (tm p ((c + i) mod PS_NUMCORES)))"
    proof (intro conjI ballI)
      fix i assume "i \<in> set [1..<PS_NUMCORES]"
      then have "c \<noteq> (c + i) mod PS_NUMCORES" "(c + i) mod PS_NUMCORES < PS_NUMCORES"
        using other_core [OF assms(2)] by auto
      with True show "ps_in_lib (tm p ((c + i) mod PS_NUMCORES)) \<longrightarrow>
        tsc < qt_time_in (tm p ((c + i) mod PS_NUMCORES))" by metis
    qed (rule assms(3))
    then have "q1 \<noteq> QSpin \<and> t' \<le> t + length [1..<PS_NUMCORES]"
      by (intro loop_decides [OF 1 [unfolded k] inv assms(2) _ _ adv]) auto
    then show ?thesis using fin nf q True by (auto simp: ps_quiesce_wait_def)
  next
    case False
    then obtain d where d: "d < PS_NUMCORES" "d \<noteq> c" "ps_in_lib (tm p d)" "qt_time_in (tm p d) \<le> tsc"
      by (auto simp: not_less)
    obtain i where i: "i \<in> set [1..<PS_NUMCORES]" "(c + i) mod PS_NUMCORES = d"
      using all_cores_visited [OF assms(2) d(1)] d(2) by metis
    have lib: "ps_in_lib (tm p1 d)" "qt_time_in (tm p1 d) \<le> tsc"
      using d(3,4) by (simp_all add: same_sectionsD [OF ss])
    note i1 = loop_inv [OF 1 inv assms(2) adv]
    have top: "tsc < - 1" using assms(3) by (rule less_le_trans) simp
    have nall: "q1 \<noteq> QAll m" for m
    proof
      assume "q1 = QAll m"
      then have "tsc < m" "\<forall>i \<in> set [1..<PS_NUMCORES]. ps_in_lib (tm p1 ((c + i) mod PS_NUMCORES)) \<longrightarrow>
          m \<le> qt_time_in (tm p1 ((c + i) mod PS_NUMCORES))" using i1 top by auto
      with i lib show False by (metis less_le_trans not_less)
    qed
    have nbrk: "q1 \<noteq> QBreak"
      using i1 smr_invD(4) [OF inv1 assms(2) d(1) lib(1)] lib(2) by auto
    have "q1 = QSpin" using nall nbrk nf by (cases q1) auto
    then show ?thesis using fin q False by (auto simp: ps_quiesce_wait_def)
  qed
qed

text \<open>
  C16: the blocking variant waits exactly for the sections that matter.  Called for a time already past, while no
  other core moves, \<open>ps_quiesce_wait\<close> answers \<open>-EQUIESCENCE\<close> if the caller is itself inside a section entered
  before that time; else 0 if no other core is inside a section entered at or before it; and if one is, the call is
  still spinning however many rounds it is given.
\<close>

theorem ps_quiesce_wait_returns_iff:
  assumes "smr_reach clk (p, t)" and "c < PS_NUMCORES" and "tsc < clk t" and "2 \<le> k"
    and "advancing clk (t + k * (PS_NUMCORES - 1))"
  shows "if tsc > qt_time_in (tm p c) \<and> ps_in_lib (tm p c)
    then ps_quiesce_wait k no_env clk c tsc p t =
      Some (Returned (- EQUIESCENCE) (qt_last_known_quiescence (tm p c)), p, t)
    else if \<forall>d < PS_NUMCORES. d \<noteq> c \<longrightarrow> ps_in_lib (tm p d) \<longrightarrow> tsc < qt_time_in (tm p d)
    then \<exists>qsc p' t'. ps_quiesce_wait k no_env clk c tsc p t = Some (Returned 0 qsc, p', t')
    else \<exists>p' t'. ps_quiesce_wait k no_env clk c tsc p t = Some (Spinning, p', t')"
proof (cases "tsc > qt_time_in (tm p c) \<and> ps_in_lib (tm p c)")
  case True
  have "smr_inv clk p t" using smr_reach_inv [OF assms(1)] advancing_less [OF assms(5)] by simp
  from get_timing_in [OF smr_invD(1) [OF this] assms(2)] True show ?thesis
    by (simp add: ps_quiesce_wait_def ps_quiesce_def)
next
  case False
  from quiesce_wait_outside [OF assms(1-4) False assms(5)] show ?thesis unfolding if_not_P [OF False] .
qed

text \<open>
  C17: the interleaving the code does not exclude.  Core 0 refreshes its view of core 1; after it has
  read the times of core 1 (outside a section), core 1 enters a section at time 12; core 2 frees an
  object at time 13; core 0 stamps its view at time 14.  Its call publishes the quiescence time
  14, and core 2, asking for time 13, is told 0 and given 14 although the section of core 1, entered
  at 12, is still running.  The stamp would have to be taken before the times are read.
\<close>

definition race_clk :: clock where "race_clk i = of_nat (10 + i)"

definition race_env :: environment where
  "race_env t p = (if t = 2 then map_option (\<lambda>p. (p, 4)) (ps_enter 1 (race_clk 2) p) else Some (p, t))"

lemma race_run:
  "(case ps_try_quiesce race_env race_clk 0 (race_clk 1) (ps_init (race_clk 0)) 2 of
      Some (r1, p1, t1) \<Rightarrow> (case ps_try_quiesce no_env race_clk 2 13 p1 t1 of
        Some (r2, p2, t2) \<Rightarrow> (case ps_try_quiesce no_env race_clk 2 13 p2 t2 of
          Some (r3, p3, t3) \<Rightarrow> r1 = Returned 0 14 \<and> r2 = Returned 0 10 \<and> r3 = Returned 0 14 \<and>
            get_timing 1 p3 = Some \<lparr>qt_time_in = 12, qt_time_out = 11, qt_last_known_quiescence = 10\<rparr>
        | None \<Rightarrow> False) | None \<Rightarrow> False) | None \<Rightarrow> False)"
  by code_simp

lemma qt_lt: "qt_time_in \<lparr>qt_time_in = 12, qt_time_out = 11, qt_last_known_quiescence = 10\<rparr> < (13 :: u64)"
  by simp

theorem update_remote_race:
  "\<exists>p1 t1 p2 t2 p3 t3 q.
     ps_try_quiesce race_env race_clk 0 (race_clk 1) (ps_init (race_clk 0)) 2 = Some (Returned 0 14, p1, t1) \<and>
     ps_try_quiesce no_env race_clk 2 13 p1 t1 = Some (Returned 0 10, p2, t2) \<and>
     ps_try_quiesce no_env race_clk 2 13 p2 t2 = Some (Returned 0 14, p3, t3) \<and>
     get_timing 1 p3 = Some q \<and> ps_in_lib q \<and> qt_time_in q < 13"
proof -
  obtain r1 p1 t1 where 1: "ps_try_quiesce race_env race_clk 0 (race_clk 1) (ps_init (race_clk 0)) 2
      = Some (r1, p1, t1)"
    using race_run by (auto simp del: One_nat_def split: option.splits)
  note run = race_run [unfolded 1 option.case prod.case]
  obtain r2 p2 t2 where 2: "ps_try_quiesce no_env race_clk 2 13 p1 t1 = Some (r2, p2, t2)"
    using run by (auto simp del: One_nat_def split: option.splits)
  note run = run [unfolded 2 option.case prod.case]
  obtain r3 p3 t3 where 3: "ps_try_quiesce no_env race_clk 2 13 p2 t2 = Some (r3, p3, t3)"
    using run by (auto simp del: One_nat_def split: option.splits)
  note run = run [unfolded 3 option.case prod.case]
  have "ps_in_lib \<lparr>qt_time_in = 12, qt_time_out = 11, qt_last_known_quiescence = 10\<rparr>"
    by (simp add: ps_in_lib_def)
  with run 1 2 3 show ?thesis by (metis qt_lt)
qed

section \<open>Witnesses\<close>

text \<open>Core 1 has entered a section at time 11; core 0 asks for the times 10 and 11.\<close>

definition wit_parsec :: parsec where
  "wit_parsec = the (ps_enter 1 (race_clk 1) (ps_init (race_clk 0)))"

lemma unat_race_clk: "i < 1000 \<Longrightarrow> unat (race_clk i) = 10 + i"
  unfolding race_clk_def by (rule unat_of_nat_small) simp

lemma race_clk_advancing: "n < 1000 \<Longrightarrow> advancing race_clk n"
  by (auto simp: advancing_def word_less_nat_alt unat_race_clk)

lemma wit_enter: "ps_enter 1 (race_clk 1) (ps_init (race_clk 0)) = Some wit_parsec"
  by code_simp

lemma wit_reach: "smr_reach race_clk (wit_parsec, 2)"
proof -
  have "\<not> ps_in_lib (tm (ps_init (race_clk 0)) 1)" by code_simp
  from smr_step.enter [OF this, where clk = race_clk and t = 1] wit_enter
  show ?thesis by (intro smr_reach.step [OF smr_reach.start]) (simp add: numeral_2_eq_2)
qed

theorem ps_try_quiesce_wait_free_witness:
  "\<exists>v qsc p t. ps_try_quiesce no_env race_clk 0 11 wit_parsec 2 = Some (Returned v qsc, p, t) \<and> t \<le> 5 \<and>
     v \<in> {0, - 1, - EQUIESCENCE}"
  using ps_try_quiesce_wait_free [OF wit_reach, of 0 11] race_clk_advancing [of 8]
  by (fastforce simp: PS_NUMCORES_def)

theorem ps_quiesce_wait_returns_iff_witness:
  "(\<exists>q p t. ps_quiesce_wait 2 no_env race_clk 0 10 wit_parsec 2 = Some (Returned 0 q, p, t)) \<and>
   (\<exists>p t. ps_quiesce_wait 7 no_env race_clk 0 11 wit_parsec 2 = Some (Spinning, p, t))"
proof
  have own: "\<not> ps_in_lib (tm wit_parsec 0)" by code_simp
  have "\<forall>d < PS_NUMCORES. d \<noteq> 0 \<longrightarrow> ps_in_lib (tm wit_parsec d) \<longrightarrow> 10 < qt_time_in (tm wit_parsec d)"
    by code_simp
  moreover have "(10 :: u64) < race_clk 2" by code_simp
  ultimately show "\<exists>q p t. ps_quiesce_wait 2 no_env race_clk 0 10 wit_parsec 2 = Some (Returned 0 q, p, t)"
    using ps_quiesce_wait_returns_iff [OF wit_reach, of 0 10 2] race_clk_advancing [of 8] own
    by (simp add: PS_NUMCORES_def)
  have "\<not> (\<forall>d < PS_NUMCORES. d \<noteq> 0 \<longrightarrow> ps_in_lib (tm wit_parsec d) \<longrightarrow> 11 < qt_time_in (tm wit_parsec d))"
    by code_simp
  moreover have "(11 :: u64) < race_clk 2" by code_simp
  ultimately show "\<exists>p t. ps_quiesce_wait 7 no_env race_clk 0 11 wit_parsec 2 = Some (Spinning, p, t)"
    using ps_quiesce_wait_returns_iff [OF wit_reach, of 0 11 7] race_clk_advancing [of 23] own
    by (simp add: PS_NUMCORES_def)
qed

end
