(* ===== verification/Smr_Mem_Correct.thy ===== *)
theory Smr_Mem_Correct
  imports Smr_Frame Smr_Safety
begin

text \<open>
  The reclamation of memory is correct: the invariant \<open>queues\<close> ties the objects the clients hold (\<open>L\<close>), the
  objects in the queues (\<open>X\<close>) and the slab allocator's state together; freeing and reclaiming keep it, no
  assertion fails in them, and only what is quiesced goes back to the slab allocator.
\<close>

section \<open>Queues in the header heap\<close>

lemma qsc_view_cong: "(\<And>h. h \<in> set xs \<Longrightarrow> mh' h = mh h) \<Longrightarrow> qsc_view q mh' xs = qsc_view q mh xs"
  using chain_cong [of xs mh_next mh' mh "ql_head q"] by (simp add: qsc_view_def)

lemma dequeue_exact:
  assumes "qsc_view q mh (a # xs)" and "mh a = Some d"
  shows "\<exists>q'. ps_qsc_dequeue q mh = Some (a, q', mh(a \<mapsto> d\<lparr>mh_next := null\<rparr>)) \<and>
    qsc_view q' (mh(a \<mapsto> d\<lparr>mh_next := null\<rparr>)) xs"
proof -
  have c: "ql_head q = a" "a \<noteq> null" "chain mh_next mh (mh_next d) xs" "ql_tail q = last (a # xs)"
    using assms by (auto simp: qsc_view_def)
  have "a \<notin> set xs" using qsc.view_distinct [OF assms(1)] by simp
  moreover from this have "ql_tail q = a \<longleftrightarrow> xs = []" using c(4) by (cases xs rule: rev_cases) auto
  ultimately show ?thesis
    using c assms(2) by (auto simp: ps_qsc_dequeue_def get_mh_next_def set_mh_next_def upd_mh_Some qsc_view_def Let_def)
qed

lemma enqueue_exact:
  assumes "qsc_view q mh xs" and "mh h = Some d" and "mh_next d = null" and "h \<noteq> null" and "h \<notin> set xs"
  shows "\<exists>q' mh'. ps_qsc_enqueue q h mh = Some (q', mh') \<and> qsc_view q' mh' (xs @ [h]) \<and>
    (\<forall>x. x \<notin> set xs \<longrightarrow> mh' x = mh x) \<and>
    (\<forall>x \<in> set xs. \<exists>e n. mh x = Some e \<and> mh' x = Some (e\<lparr>mh_next := n\<rparr>))"
proof -
  have fr: "qsc_fresh mh h" using assms(2-4) by (simp add: qsc_fresh_def get_mh_next_def)
  obtain q' mh' where 1: "ps_qsc_enqueue q h mh = Some (q', mh')" "qsc_view q' mh' (xs @ [h])"
    using qsc.enq_view [OF assms(1) fr assms(5)] by blast
  have "(\<forall>x. x \<notin> set xs \<longrightarrow> mh' x = mh x) \<and> (\<forall>x \<in> set xs. \<exists>e n. mh x = Some e \<and> mh' x = Some (e\<lparr>mh_next := n\<rparr>))"
  proof (cases "xs = []")
    case True
    then show ?thesis using 1(1) assms(1) by (auto simp: ps_qsc_enqueue_def qsc_view_def)
  next
    case False
    have t: "ql_tail q = last xs" using assms(1) False by (simp add: qsc_view_def)
    have n: "last xs \<noteq> null" using qsc.view_distinct [OF assms(1)] last_in_set [OF False] by metis
    have dm: "\<exists>e. mh x = Some e" if "x \<in> set xs" for x using assms(1) that chain_dom by (auto simp: qsc_view_def)
    obtain e where e: "mh (last xs) = Some e" using dm [OF last_in_set [OF False]] by blast
    have mh': "mh' = mh(last xs \<mapsto> e\<lparr>mh_next := h\<rparr>)"
      using 1(1) t n e by (auto simp: ps_qsc_enqueue_def set_mh_next_def upd_mh_Some Let_def)
    have "\<exists>e n. mh x = Some e \<and> mh' x = Some (e\<lparr>mh_next := n\<rparr>)" if x: "x \<in> set xs" for x
    proof (cases "x = last xs")
      case True
      then show ?thesis using e mh' by auto
    next
      case False
      obtain y where "mh x = Some y" using dm [OF x] by blast
      then show ?thesis using False mh' by (intro exI [of _ y] exI [of _ "mh_next y"]) simp
    qed
    then show ?thesis using mh' last_in_set [OF False] by auto
  qed
  with 1 show ?thesis by blast
qed

section \<open>The invariant\<close>

definition held_ok :: "world \<Rightarrow> addr set \<Rightarrow> bool" where
  "held_ok w L \<longleftrightarrow> (\<forall>h \<in> L. \<exists>d. w_mh w h = Some d \<and> mh_tsc_free d = 0 \<and> mh_next d = null)"

definition stamped :: "world \<Rightarrow> addr list \<Rightarrow> bool" where
  "stamped w xs \<longleftrightarrow> (\<forall>h \<in> set xs. \<exists>d. w_mh w h = Some d \<and> mh_tsc_free d \<noteq> 0)"

definition queue_ok :: "addr \<Rightarrow> addr \<Rightarrow> world \<Rightarrow> nat \<Rightarrow> addr list \<Rightarrow> bool" where
  "queue_ok m ps w c xs \<longleftrightarrow> (\<exists>sm. get_sm m c w = Some sm \<and> sm_ps sm = ps \<and> qsc_view (sm_qsc_list sm) (w_mh w) xs \<and>
     unat (sm_qmemcnt sm) = length xs \<and> PS_QLIST_BATCH \<le> unat (sm_qmemtarget sm) \<and>
     unat (sm_qmemtarget sm) \<le> 2 ^ 61 + PS_QLIST_BATCH) \<and> stamped w xs"

definition queued :: "(nat \<Rightarrow> addr list) \<Rightarrow> addr set" where
  "queued X = (\<Union>c < PS_NUMCORES. set (X c))"

definition apart_queues :: "(nat \<Rightarrow> addr list) \<Rightarrow> addr set \<Rightarrow> bool" where
  "apart_queues X L \<longleftrightarrow> queued X \<inter> L = {} \<and>
     (\<forall>c < PS_NUMCORES. \<forall>c' < PS_NUMCORES. c \<noteq> c' \<longrightarrow> set (X c) \<inter> set (X c') = {})"

definition queues :: "slab_params \<Rightarrow> addr \<Rightarrow> addr \<Rightarrow> world \<Rightarrow> slabs \<Rightarrow> rings \<Rightarrow> remotes \<Rightarrow>
    (nat \<Rightarrow> addr list) \<Rightarrow> addr set \<Rightarrow> bool" where
  "queues p m ps w F R Q X L \<longleftrightarrow> slab_state p m w F R Q \<and> ps \<noteq> null \<and> live p F Q = L \<union> queued X \<and>
     apart_queues X L \<and> held_ok w L \<and> (\<forall>c < PS_NUMCORES. queue_ok m ps w c (X c))"

lemma queuesD:
  assumes "queues p m ps w F R Q X L"
  shows "slab_state p m w F R Q" "ps \<noteq> null" "live p F Q = L \<union> queued X" "apart_queues X L" "held_ok w L"
    "c < PS_NUMCORES \<Longrightarrow> queue_ok m ps w c (X c)"
  using assms by (simp_all add: queues_def)

lemma queuedI: "c < PS_NUMCORES \<Longrightarrow> h \<in> set (X c) \<Longrightarrow> h \<in> queued X"
  by (auto simp: queued_def)

lemma queue_ok_cong:
  assumes "get_sm m c w' = get_sm m c w" and "\<And>h. h \<in> set xs \<Longrightarrow> w_mh w' h = w_mh w h"
  shows "queue_ok m ps w' c xs = queue_ok m ps w c xs"
proof -
  have "qsc_view q (w_mh w') xs = qsc_view q (w_mh w) xs" for q by (rule qsc_view_cong) (rule assms(2))
  moreover have "stamped w' xs = stamped w xs" using assms(2) by (auto simp: stamped_def)
  ultimately show ?thesis using assms(1) by (simp add: queue_ok_def)
qed

text \<open>Objects are aligned, so there are not more than \<open>2 ^ 61\<close> of them.\<close>

lemma aligned_card: "\<forall>h \<in> A. 8 dvd unat (h :: addr) \<Longrightarrow> finite A \<and> card A \<le> 2 ^ 61"
proof -
  assume a: "\<forall>h \<in> A. 8 dvd unat h"
  have "inj_on (\<lambda>h. unat h div 8) A"
  proof (rule inj_onI)
    fix x y assume xy: "x \<in> A" "y \<in> A" and e: "unat x div 8 = unat y div 8"
    then have "unat x = unat y" using a by (metis dvd_mult_div_cancel)
    then show "x = y" by (rule word_eq_unatI)
  qed
  moreover have "(\<lambda>h. unat h div 8) ` A \<subseteq> {..<2 ^ 61}"
  proof
    fix n assume "n \<in> (\<lambda>h. unat h div 8) ` A"
    then obtain h where "n = unat (h :: addr) div 8" by auto
    then show "n \<in> {..<2 ^ 61}" using unat_bound [of h] by (simp add: div_less_dividend less_mult_imp_div_less)
  qed
  ultimately have "card A \<le> card {..<(2 :: nat) ^ 61}" by (intro card_inj_on_le) auto
  then show ?thesis by simp
qed

lemma live_card:
  assumes "slab_state p m w F R Q" and "A \<subseteq> live p F Q"
  shows "card A \<le> 2 ^ 61"
proof -
  have inv: "slabs_ok p w F" and ok: "params_ok p" "sp_headoff p = sizeof_ps_slab" "blocks_ok (w_blocks w)"
    and M: "\<And>a mem c fs. F a = Some (mem, c, fs) \<Longrightarrow> mem = a \<and> w_blocks w a = Some (sp_allocsz p)"
    using assms(1) by (auto simp: slab_state_def slab_inv_def def_binv_def mems_def)
  have "8 dvd unat h" if h: "h \<in> live p F Q" for h
  proof -
    obtain a mem c fs where "F a = Some (mem, c, fs)" "h \<in> set (slab_objs p mem)" using liveE [OF h inv] by metis
    then have a: "h \<in> set (slab_objs p a)" "w_blocks w a = Some (sp_allocsz p)" using M by auto
    then have "4096 dvd unat a" using ok(3) by (simp add: blocks_ok_def)
    then have "8 dvd unat a" by (rule dvd_trans [rotated]) simp
    then show ?thesis
      using slab_obj_in_block(3) [OF ok(1) fits_block [OF ok(3) a(2)] a(1)] ok(2) sizes_nat by simp
  qed
  then show ?thesis using aligned_card [of A] assms(2) by auto
qed

lemma queue_length:
  assumes "queues p m ps w F R Q X L" and "c < PS_NUMCORES"
  shows "length (X c) \<le> 2 ^ 61" "distinct (X c)" "null \<notin> set (X c)" "set (X c) \<subseteq> live p F Q"
proof -
  obtain q where "qsc_view q (w_mh w) (X c)" using queuesD(6) [OF assms] by (auto simp: queue_ok_def)
  then show d: "distinct (X c)" "null \<notin> set (X c)" using qsc.view_distinct by blast+
  show l: "set (X c) \<subseteq> live p F Q" using queuesD(3) [OF assms(1)] queuedI [OF assms(2)] by blast
  show "length (X c) \<le> 2 ^ 61"
    using live_card [OF queuesD(1) [OF assms(1)] l] distinct_card [OF d(1)] by simp
qed

section \<open>Giving back one object\<close>

lemma tramp_on_core:
  "ps_parslab_free_tramp (backend_of p) (c, numa) m s sz c w = ps_slab_mem_free s m (on_core c p) (c, numa) w"
  by (simp add: ps_parslab_free_tramp_def ps_slabptr_free_coreid_def backend_of_def on_core_def)

text \<open>The queues after the first object of core \<open>c\<close> has left.\<close>

lemma apart_drop:
  assumes "apart_queues X L" and "X c = a # xs" and "c < PS_NUMCORES" and "a \<notin> set xs"
  shows "apart_queues (X(c := xs)) L" "queued (X(c := xs)) = queued X - {a}" "a \<in> queued X"
proof -
  have dj: "x < PS_NUMCORES \<Longrightarrow> y < PS_NUMCORES \<Longrightarrow> x \<noteq> y \<Longrightarrow> set (X x) \<inter> set (X y) = {}" for x y
    using assms(1) by (simp add: apart_queues_def)
  show a: "a \<in> queued X" using queuedI [OF assms(3), of a X] assms(2) by simp
  have na: "a \<notin> set (X y)" if "y < PS_NUMCORES" "y \<noteq> c" for y
    using dj [OF assms(3) that(1)] that(2) assms(2) by auto
  show q: "queued (X(c := xs)) = queued X - {a}"
  proof (intro set_eqI iffI)
    fix h assume "h \<in> queued (X(c := xs))"
    then obtain y where y: "y < PS_NUMCORES" "h \<in> set ((X(c := xs)) y)" by (auto simp: queued_def)
    then have "h \<in> set (X y)" using assms(2) by (auto split: if_splits)
    moreover have "h \<noteq> a" using y na assms(4) by (cases "y = c") auto
    ultimately show "h \<in> queued X - {a}" using queuedI [OF y(1), of h X] by simp
  next
    fix h assume "h \<in> queued X - {a}"
    then obtain y where y: "y < PS_NUMCORES" "h \<in> set (X y)" "h \<noteq> a" by (auto simp: queued_def)
    then have "h \<in> set ((X(c := xs)) y)" using assms(2) by auto
    then show "h \<in> queued (X(c := xs))" by (rule queuedI [OF y(1)])
  qed
  have "set ((X(c := xs)) x) \<inter> set ((X(c := xs)) y) = {}" if "x < PS_NUMCORES" "y < PS_NUMCORES" "x \<noteq> y" for x y
    using dj [OF that] assms(2) by auto
  then show "apart_queues (X(c := xs)) L" using assms(1) q by (auto simp: apart_queues_def)
qed

text \<open>What a step leaves alone: the headers of the objects held, the stamps, the targets, the sections.\<close>

definition leaves :: "slab_params \<Rightarrow> addr \<Rightarrow> world \<Rightarrow> world \<Rightarrow> addr set \<Rightarrow> addr set \<Rightarrow> bool" where
  "leaves p m w w' L A \<longleftrightarrow> (\<forall>h \<in> L. w_mh w' h = w_mh w h) \<and>
     (\<forall>h \<in> A. map_option mh_tsc_free (w_mh w' h) = map_option mh_tsc_free (w_mh w h)) \<and>
     (\<forall>c. map_option sm_qmemtarget (get_sm m c w') = map_option sm_qmemtarget (get_sm m c w)) \<and>
     w_ps w' = w_ps w \<and> (def_ready p w \<longrightarrow> def_ready p w')"

lemma leaves_trans:
  "leaves p m w w1 L A \<Longrightarrow> leaves p m w1 w2 L A' \<Longrightarrow> A' \<subseteq> A \<Longrightarrow> leaves p m w w2 L A'"
  unfolding leaves_def by (intro conjI; auto)

lemma reclaim_one_ok:
  assumes "queues p m ps w F R Q X L" and "c < PS_NUMCORES" and "X c = a # xs" and "numa < PS_NUMLOCALITIES"
  shows "\<exists>w' F' R' Q'. reclaim_one c m (ps_parslab_free_tramp (backend_of p) (c, numa)) w = Some w' \<and>
    queues p m ps w' F' R' Q' (X(c := xs)) L \<and> leaves p m w w' L (L \<union> queued (X(c := xs)))"
proof -
  note q = queuesD [OF assms(1)]
  obtain sm where sm: "get_sm m c w = Some sm" "sm_ps sm = ps" "qsc_view (sm_qsc_list sm) (w_mh w) (a # xs)"
    "unat (sm_qmemcnt sm) = length (a # xs)" "PS_QLIST_BATCH \<le> unat (sm_qmemtarget sm)"
    "unat (sm_qmemtarget sm) \<le> 2 ^ 61 + PS_QLIST_BATCH"
    using q(6) [OF assms(2)] assms(3) by (auto simp: queue_ok_def)
  have st: "stamped w (a # xs)" using q(6) [OF assms(2)] assms(3) by (simp add: queue_ok_def)
  then obtain d where d: "w_mh w a = Some d" by (auto simp: stamped_def)
  have ax: "a \<notin> set xs" using qsc.view_distinct [OF sm(3)] by simp
  note dr = apart_drop [OF q(4) assms(3,2) ax]
  have al: "a \<in> live p F Q" "a \<notin> L" using dr(3) q(3,4) by (auto simp: apart_queues_def)
  obtain ql where ql: "ps_qsc_dequeue (sm_qsc_list sm) (w_mh w) = Some (a, ql, (w_mh w)(a \<mapsto> d\<lparr>mh_next := null\<rparr>))"
    "qsc_view ql ((w_mh w)(a \<mapsto> d\<lparr>mh_next := null\<rparr>)) xs"
    using dequeue_exact [OF sm(3) d] by blast
  let ?d = "d\<lparr>mh_tsc_free := 0, mh_next := null\<rparr>" and ?sm = "sm\<lparr>sm_qsc_list := ql, sm_qmemcnt := sm_qmemcnt sm - 1\<rparr>"
  let ?wa = "w\<lparr>w_mh := (w_mh w)(a \<mapsto> d\<lparr>mh_next := null\<rparr>)\<rparr>"
  let ?wb = "set_sm m c (sm\<lparr>sm_qsc_list := ql\<rparr>) ?wa"
  let ?wc = "?wb\<lparr>w_mh := (w_mh w)(a \<mapsto> ?d)\<rparr>" and ?wd = "set_sm m c ?sm (?wb\<lparr>w_mh := (w_mh w)(a \<mapsto> ?d)\<rparr>)"
  have ga: "get_sm m c ?wa = Some sm" using sm(1) by simp
  have gb: "get_sm m c' ?wb = (if c' = c then Some (sm\<lparr>sm_qsc_list := ql\<rparr>) else get_sm m c' w)" for c'
    using get_set_sm [OF ga] by simp
  have gd: "get_sm m c' ?wd = (if c' = c then Some ?sm else get_sm m c' w)" for c'
    using get_set_sm [of m c ?wc "sm\<lparr>sm_qsc_list := ql\<rparr>"] gb by simp
  have u1: "upd_sm m c (\<lambda>si. si\<lparr>sm_qsc_list := ql\<rparr>) ?wa = Some ?wb" by (rule upd_sm_set [OF ga])
  have u2: "on_mh (ps_mhead_reset a) ?wb = Some ?wc"
    by (simp add: on_mh_def ps_mhead_reset_def upd_mh_def)
  have "get_sm m c ?wc = Some (sm\<lparr>sm_qsc_list := ql\<rparr>)" using gb by simp
  from upd_sm_set [OF this, of "\<lambda>si. si\<lparr>sm_qmemcnt := sm_qmemcnt si - 1\<rparr>"]
  have u3: "upd_sm m c (\<lambda>si. si\<lparr>sm_qmemcnt := sm_qmemcnt si - 1\<rparr>) ?wc = Some ?wd" by simp
  have "slab_state p m (w\<lparr>w_mh := (w_mh w)(a \<mapsto> ?d)\<rparr>) F R Q"
    by (rule slab_state_header [OF q(1) al(1) d]) simp
  then have sd: "slab_state p m ?wd F R Q" by (rule slab_state_cong [rotated 6]) simp_all
  have "w_mh ?wd a = Some ?d" by simp
  from core_free_ok [OF sd al(1) this _ assms(4), of c] obtain w' F' R' Q' where
    f: "ps_slab_mem_free (ps_mhead_mem a) m (on_core c p) (c, numa) ?wd = Some w'" "slab_state p m w' F' R' Q'"
    "live p F' Q' = live p F Q - {a}" "\<forall>x \<in> live p F' Q'. w_mh w' x = w_mh ?wd x" "def_ready p ?wd \<longrightarrow> def_ready p w'"
    by auto
  note k = ksmD [OF ksm_mem_free [OF f(1)]]
  have run: "reclaim_one c m (ps_parslab_free_tramp (backend_of p) (c, numa)) w = Some w'"
    using sm(1) ql(1) u1 u2 u3 f(1) by (simp add: reclaim_one_def tramp_on_core)
  have l': "live p F' Q' = L \<union> queued (X(c := xs))" using f(3) q(3) dr(2) al(2) by auto
  have mh: "w_mh w' x = w_mh w x" if "x \<in> L \<union> queued (X(c := xs))" for x
    using f(4) that l' dr(2) al(2) by auto
  have "queue_ok m ps w' c' ((X(c := xs)) c')" if c': "c' < PS_NUMCORES" for c'
  proof (cases "c' = c")
    case True
    have mx: "w_mh w' h = w_mh w h" if "h \<in> set xs" for h
      using mh queuedI [of c h "X(c := xs)"] assms(2) that by simp
    then have "qsc_view ql (w_mh w') xs = qsc_view ql ((w_mh w)(a \<mapsto> d\<lparr>mh_next := null\<rparr>)) xs"
      using ax by (intro qsc_view_cong) auto
    moreover have "stamped w' xs" using st mx by (auto simp: stamped_def)
    moreover have "unat (sm_qmemcnt sm - 1) = length xs"
    proof -
      have "sm_qmemcnt sm \<noteq> 0" using sm(4) by auto
      then show ?thesis using sm(4) by (simp add: unat_dec)
    qed
    ultimately show ?thesis using True gd k(2) sm ql(2) by (simp add: queue_ok_def)
  next
    case False
    have "queue_ok m ps w' c' (X c') = queue_ok m ps w c' (X c')"
      by (rule queue_ok_cong) (use False gd k(2) mh queuedI [of c' _ "X(c := xs)"] c' in auto)
    then show ?thesis using q(6) [OF c'] False by simp
  qed
  moreover have "held_ok w' L" using q(5) mh by (auto simp: held_ok_def)
  ultimately have "queues p m ps w' F' R' Q' (X(c := xs)) L"
    using f(2) q(2) l' dr(1) by (simp add: queues_def)
  moreover have "leaves p m w w' L (L \<union> queued (X(c := xs)))"
    using mh k f(5) gd sm(1) by (auto simp: leaves_def def_ready_def)
  ultimately show ?thesis using run by blast
qed

section \<open>A batch\<close>

lemma queued_drop: "queued (X(c := drop n (X c))) \<subseteq> queued X"
  using set_drop_subset by (fastforce simp: queued_def split: if_splits)

lemma leaves_refl: "leaves p m w w L A"
  by (simp add: leaves_def)

lemma reclaim_batch_ok:
  assumes "queues p m ps w F R Q X L" and "c < PS_NUMCORES" and "i \<le> length (X c)" and "numa < PS_NUMLOCALITIES"
  shows "\<exists>n w' F' R' Q'. reclaim_batch i c qsc m (ps_parslab_free_tramp (backend_of p) (c, numa)) w = Some (n < i, w') \<and>
    n \<le> i \<and> queues p m ps w' F' R' Q' (X(c := drop n (X c))) L \<and>
    leaves p m w w' L (L \<union> queued (X(c := drop n (X c)))) \<and>
    (\<forall>h \<in> set (take n (X c)). \<exists>d. w_mh w h = Some d \<and> mh_tsc_free d \<le> qsc)"
  using assms
proof (induction i arbitrary: w F R Q X)
  case 0
  then show ?case by (intro exI [of _ 0]) (auto simp: leaves_refl)
next
  case (Suc i)
  then obtain a xs where x: "X c = a # xs" by (cases "X c") auto
  note q = queuesD [OF Suc.prems(1)]
  obtain sm where sm: "get_sm m c w = Some sm" "qsc_view (sm_qsc_list sm) (w_mh w) (a # xs)" and st: "stamped w (a # xs)"
    using q(6) [OF Suc.prems(2)] x by (auto simp: queue_ok_def)
  obtain d where d: "w_mh w a = Some d" "mh_tsc_free d \<noteq> 0" using st by (auto simp: stamped_def)
  have pk: "ps_qsc_peek (sm_qsc_list sm) = a" "a \<noteq> null"
    using qsc.peek_view [OF sm(2)] qsc.view_distinct [OF sm(2)] by auto
  have fr: "ps_mhead_isfree a (w_mh w) = Some True" using d by (simp add: ps_mhead_isfree_def)
  show ?case
  proof (cases "mh_tsc_free d > qsc")
    case True
    have "reclaim_batch (Suc i) c qsc m (ps_parslab_free_tramp (backend_of p) (c, numa)) w = Some (True, w)"
      using sm(1) pk fr d(1) True by simp
    then show ?thesis using Suc.prems(1) by (intro exI [of _ 0]) (auto simp: leaves_refl)
  next
    case False
    obtain w1 F1 R1 Q1 where 1: "reclaim_one c m (ps_parslab_free_tramp (backend_of p) (c, numa)) w = Some w1"
      "queues p m ps w1 F1 R1 Q1 (X(c := xs)) L" "leaves p m w w1 L (L \<union> queued (X(c := xs)))"
      using reclaim_one_ok [OF Suc.prems(1,2) x Suc.prems(4)] by blast
    have "i \<le> length ((X(c := xs)) c)" using Suc.prems(3) x by simp
    from Suc.IH [OF 1(2) Suc.prems(2) this Suc.prems(4), unfolded fun_upd_upd fun_upd_same]
    obtain n w' F' R' Q' where
      2: "reclaim_batch i c qsc m (ps_parslab_free_tramp (backend_of p) (c, numa)) w1 = Some (n < i, w')" "n \<le> i"
      "queues p m ps w' F' R' Q' (X(c := drop n xs)) L" "leaves p m w1 w' L (L \<union> queued (X(c := drop n xs)))"
      "\<forall>h \<in> set (take n xs). \<exists>d. w_mh w1 h = Some d \<and> mh_tsc_free d \<le> qsc"
      by blast
    have sub: "L \<union> queued (X(c := drop n xs)) \<subseteq> L \<union> queued (X(c := xs))"
      using queued_drop [of "X(c := xs)" c n] by auto
    have "\<exists>d. w_mh w h = Some d \<and> mh_tsc_free d \<le> qsc" if h: "h \<in> set (take (Suc n) (X c))" for h
    proof (cases "h = a")
      case True
      then show ?thesis using d(1) False by auto
    next
      case False
      then have hx: "h \<in> set (take n xs)" using h x by simp
      then have "h \<in> queued (X(c := xs))" using queuedI [OF Suc.prems(2), of h "X(c := xs)"] in_set_takeD [OF hx] by simp
      then have "map_option mh_tsc_free (w_mh w1 h) = map_option mh_tsc_free (w_mh w h)" using 1(3) by (simp add: leaves_def)
      then show ?thesis using bspec [OF 2(5) hx] by (cases "w_mh w h") auto
    qed
    then have q5: "\<forall>h \<in> set (take (Suc n) (X c)). \<exists>d. w_mh w h = Some d \<and> mh_tsc_free d \<le> qsc" by blast
    have lv: "leaves p m w w' L (L \<union> queued (X(c := drop n xs)))" by (rule leaves_trans [OF 1(3) 2(4) sub])
    have run: "reclaim_batch (Suc i) c qsc m (ps_parslab_free_tramp (backend_of p) (c, numa)) w = Some (Suc n < Suc i, w')"
      using sm(1) pk fr d(1) False 1(1) 2(1) by simp
    have "drop (Suc n) (X c) = drop n xs" using x by simp
    note dt = this
    show ?thesis
    proof (intro exI conjI)
      show "queues p m ps w' F' R' Q' (X(c := drop (Suc n) (X c))) L" unfolding dt by (rule 2(3))
      show "leaves p m w w' L (L \<union> queued (X(c := drop (Suc n) (X c))))" unfolding dt by (rule lv)
    qed (use run 2(2) q5 in simp_all)
  qed
qed

section \<open>Reclaiming\<close>

text \<open>Below its target, a core does not reclaim.\<close>

definition below :: "addr \<Rightarrow> world \<Rightarrow> nat \<Rightarrow> bool" where
  "below m w c \<longleftrightarrow> (\<exists>sm. get_sm m c w = Some sm \<and> sm_qmemcnt sm < sm_qmemtarget sm)"

lemma queues_set_target:
  assumes "queues p m ps w F R Q X L" and "c < PS_NUMCORES" and "get_sm m c w = Some sm"
    and "unat (sm_qmemtarget sm) \<le> 2 ^ 61"
  shows "queues p m ps (set_sm m c (sm\<lparr>sm_qmemtarget := sm_qmemtarget sm + of_nat PS_QLIST_BATCH\<rparr>) w) F R Q X L"
    (is "queues p m ps ?w F R Q X L")
    and "unat (sm_qmemtarget sm + of_nat PS_QLIST_BATCH) = unat (sm_qmemtarget sm) + PS_QLIST_BATCH"
proof -
  note q = queuesD [OF assms(1)]
  show t: "unat (sm_qmemtarget sm + of_nat PS_QLIST_BATCH) = unat (sm_qmemtarget sm) + PS_QLIST_BATCH"
    using assms(4) by (subst unat_add_small) (simp_all add: PS_QLIST_BATCH_def)
  have g: "get_sm m c' ?w = (if c' = c then Some (sm\<lparr>sm_qmemtarget := sm_qmemtarget sm + of_nat PS_QLIST_BATCH\<rparr>)
      else get_sm m c' w)" for c'
    by (rule get_set_sm [OF assms(3)])
  have "queue_ok m ps ?w c' (X c')" if c': "c' < PS_NUMCORES" for c'
    using q(6) [OF c'] g [of c'] assms(3,4) t by (cases "c' = c") (auto simp: queue_ok_def stamped_def)
  moreover have "slab_state p m ?w F R Q" by (rule slab_state_set_sm [OF q(1)])
  moreover have "held_ok ?w L" using q(5) by (simp add: held_ok_def)
  ultimately show "queues p m ps ?w F R Q X L" using q(2-4) by (simp add: queues_def)
qed

lemma queues_ps:
  assumes "queues p m ps w F R Q X L"
  shows "queues p m ps (w\<lparr>w_ps := x\<rparr>) F R Q X L"
proof -
  note q = queuesD [OF assms]
  have "queue_ok m ps (w\<lparr>w_ps := x\<rparr>) c (X c)" if "c < PS_NUMCORES" for c
    using q(6) [OF that] by (simp add: queue_ok_def stamped_def)
  then show ?thesis using q(2-5) slab_state_ps [OF q(1)] by (simp add: queues_def held_ok_def)
qed

lemma queue_counts:
  assumes "queue_ok m ps w c xs"
  shows "\<exists>sm. get_sm m c w = Some sm \<and> sm_ps sm = ps \<and> unat (sm_qmemcnt sm) = length xs \<and>
    ps_qsc_peek (sm_qsc_list sm) = (if xs = [] then null else hd xs) \<and> (below m w c \<longleftrightarrow> length xs < unat (sm_qmemtarget sm))"
  using assms qsc.peek_view by (fastforce simp: queue_ok_def below_def word_less_nat_alt)

text \<open>After the batch: the target of the core, raised or not.\<close>

lemma reclaim_end:
  assumes "queues p m ps w F R Q X L" and "c < PS_NUMCORES" and "get_sm m c w = Some sm" and "unat (sm_qmemtarget sm) \<le> 2 ^ 61"
    and "length (X c) < unat (sm_qmemtarget sm) \<or> up \<and> length (X c) < unat (sm_qmemtarget sm) + PS_QLIST_BATCH"
  shows "\<exists>w'. (if up then upd_sm m c (\<lambda>si. si\<lparr>sm_qmemtarget := sm_qmemtarget si + of_nat PS_QLIST_BATCH\<rparr>) w else Some w) = Some w' \<and>
    queues p m ps w' F R Q X L \<and> below m w' c \<and> (\<forall>h. w_mh w' h = w_mh w h) \<and> w_ps w' = w_ps w \<and>
    def_ready p w' = def_ready p w \<and> (\<forall>c'. c' \<noteq> c \<longrightarrow> get_sm m c' w' = get_sm m c' w)"
proof (cases up)
  case True
  let ?sm = "sm\<lparr>sm_qmemtarget := sm_qmemtarget sm + of_nat PS_QLIST_BATCH\<rparr>"
  let ?w = "set_sm m c ?sm w"
  note t = queues_set_target [OF assms(1-4)]
  have g: "get_sm m c' ?w = (if c' = c then Some ?sm else get_sm m c' w)" for c' by (rule get_set_sm [OF assms(3)])
  have "below m ?w c"
    using queue_counts [OF queuesD(6) [OF t(1) assms(2)]] g [of c] t(2) assms(5) by auto
  then show ?thesis
    using True t(1) upd_sm_set [OF assms(3)] g by (intro exI [of _ ?w]) (simp add: def_ready_def)
next
  case False
  then have "below m w c" using queue_counts [OF queuesD(6) [OF assms(1,2)]] assms(3,5) by auto
  then show ?thesis using False assms(1) by auto
qed

lemma reclaim_ok:
  assumes "queues p m ps w F R Q X L" and "w_ps w ps = Some pa" and "smr_inv clk pa t"
    and "advancing clk (t + 2 * (PS_NUMCORES - 1))" and "c < PS_NUMCORES" and "numa < PS_NUMLOCALITIES"
    and "get_sm m c w = Some sm" and "unat (sm_qmemtarget sm) = length (X c)"
  shows "\<exists>n w' t' F' R' Q' pa'. ps_smr_reclaim no_env clk c m (ps_parslab_free_tramp (backend_of p) (c, numa)) w t = Some (w', t') \<and>
    t \<le> t' \<and> t' \<le> t + (PS_NUMCORES - 1) \<and> queues p m ps w' F' R' Q' (X(c := drop n (X c))) L \<and> below m w' c \<and>
    w_ps w' = (w_ps w)(ps \<mapsto> pa') \<and> smr_inv clk pa' t' \<and> same_sections pa pa' \<and> (def_ready p w \<longrightarrow> def_ready p w') \<and>
    (\<forall>h \<in> L. w_mh w' h = w_mh w h) \<and>
    (\<forall>h \<in> queued (X(c := drop n (X c))). map_option mh_tsc_free (w_mh w' h) = map_option mh_tsc_free (w_mh w h)) \<and>
    (\<forall>c'. c' \<noteq> c \<longrightarrow> map_option sm_qmemtarget (get_sm m c' w') = map_option sm_qmemtarget (get_sm m c' w)) \<and>
    (\<forall>h \<in> set (take n (X c)). \<exists>d. w_mh w h = Some d \<and>
       (\<forall>e < PS_NUMCORES. ps_in_lib (tm pa' e) \<longrightarrow> mh_tsc_free d \<le> qt_time_in (tm pa' e)))"
proof -
  have qk: "queue_ok m ps w c (X c)" by (rule queuesD(6) [OF assms(1,5)])
  then have b: "PS_QLIST_BATCH \<le> length (X c)" and t61: "unat (sm_qmemtarget sm) \<le> 2 ^ 61"
    using assms(7,8) queue_length(1) [OF assms(1,5)] by (auto simp: queue_ok_def)
  have ne: "X c \<noteq> []" using b by (auto simp: PS_QLIST_BATCH_def)
  obtain a where h: "a = hd (X c)" "a \<in> set (X c)" using hd_in_set [OF ne] by blast
  then have "a \<noteq> null" using queue_length(3) [OF assms(1,5)] by metis
  with h have a: "ps_qsc_peek (sm_qsc_list sm) = a" "sm_ps sm = ps" "a \<in> set (X c)" "a \<noteq> null"
    using queue_counts [OF qk] assms(7) ne by auto
  obtain d where d: "w_mh w a = Some d" using qk a(3) by (auto simp: queue_ok_def stamped_def)
  obtain v qsc pa' t' where tq: "ps_try_quiesce no_env clk c (mh_tsc_free d) pa t = Some (Returned v qsc, pa', t')"
    and t': "t' \<le> t + (PS_NUMCORES - 1)"
    using try_quiesce_total [OF assms(3,5,4), of "mh_tsc_free d"] by blast
  have qz: "ps_quiesce 2 no_env clk False c (mh_tsc_free d) pa t = Some (Returned v qsc, pa', t')"
    using tq by (simp add: ps_try_quiesce_def)
  have adv: "advancing clk t'" by (rule advancing_less [OF assms(4)]) (use t' in simp)
  have i': "smr_inv clk pa' t'" "same_sections pa pa'"
    "\<forall>e < PS_NUMCORES. ps_in_lib (tm pa' e) \<longrightarrow> qsc \<le> qt_time_in (tm pa' e)"
    using quiesce_inv [OF qz assms(3) adv] by auto
  let ?w = "w\<lparr>w_ps := (w_ps w)(ps \<mapsto> pa')\<rparr>"
  obtain n w1 F' R' Q' where 1: "reclaim_batch PS_QLIST_BATCH c qsc m (ps_parslab_free_tramp (backend_of p) (c, numa)) ?w =
      Some (n < PS_QLIST_BATCH, w1)" "n \<le> PS_QLIST_BATCH" "queues p m ps w1 F' R' Q' (X(c := drop n (X c))) L"
    "leaves p m ?w w1 L (L \<union> queued (X(c := drop n (X c))))"
    "\<forall>h \<in> set (take n (X c)). \<exists>d. w_mh ?w h = Some d \<and> mh_tsc_free d \<le> qsc"
    using reclaim_batch_ok [OF queues_ps [OF assms(1)] assms(5) b assms(6)] by blast
  note lv = 1(4) [unfolded leaves_def]
  obtain sm1 where sm1: "get_sm m c w1 = Some sm1" "sm_qmemtarget sm1 = sm_qmemtarget sm"
    using lv assms(7) by (cases "get_sm m c w1") (auto dest!: spec [of _ c])
  let ?up = "v \<noteq> 0 \<or> n < PS_QLIST_BATCH"
  have len: "length ((X(c := drop n (X c))) c) = length (X c) - n" by simp
  have "length (X c) - n < unat (sm_qmemtarget sm1) \<or> ?up \<and> length (X c) - n < unat (sm_qmemtarget sm1) + PS_QLIST_BATCH"
    using sm1(2) assms(8) 1(2) b by (auto simp: PS_QLIST_BATCH_def)
  then have "length ((X(c := drop n (X c))) c) < unat (sm_qmemtarget sm1) \<or>
      ?up \<and> length ((X(c := drop n (X c))) c) < unat (sm_qmemtarget sm1) + PS_QLIST_BATCH" unfolding len .
  note cnt = this
  have "unat (sm_qmemtarget sm1) \<le> 2 ^ 61" using sm1(2) t61 by simp
  from reclaim_end [OF 1(3) assms(5) sm1(1) this cnt] obtain w' where
    2: "(if ?up then upd_sm m c (\<lambda>si. si\<lparr>sm_qmemtarget := sm_qmemtarget si + of_nat PS_QLIST_BATCH\<rparr>) w1 else Some w1) = Some w'"
    "queues p m ps w' F' R' Q' (X(c := drop n (X c))) L" "below m w' c" "\<forall>h. w_mh w' h = w_mh w1 h" "w_ps w' = w_ps w1"
    "def_ready p w' = def_ready p w1" "\<forall>c'. c' \<noteq> c \<longrightarrow> get_sm m c' w' = get_sm m c' w1" by blast
  have run: "ps_smr_reclaim no_env clk c m (ps_parslab_free_tramp (backend_of p) (c, numa)) w t = Some (w', t')"
    using assms(2,7) a d tq 1(1) 2(1) queuesD(2) [OF assms(1)] by (simp add: ps_smr_reclaim_def Let_def)
  have tt: "t \<le> t'" using quiesce_time [OF qz] .
  have saf: "\<forall>h \<in> set (take n (X c)). \<exists>d. w_mh w h = Some d \<and>
       (\<forall>e < PS_NUMCORES. ps_in_lib (tm pa' e) \<longrightarrow> mh_tsc_free d \<le> qt_time_in (tm pa' e))"
    using 1(5) i'(3) by fastforce
  have "w_ps w' = (w_ps w)(ps \<mapsto> pa')" using 2(5) lv by simp
  moreover have "def_ready p w \<longrightarrow> def_ready p w'" using 2(6) lv by (simp add: def_ready_def)
  moreover have "\<forall>h \<in> L. w_mh w' h = w_mh w h" using 2(4) lv by simp
  moreover have "\<forall>h \<in> queued (X(c := drop n (X c))). map_option mh_tsc_free (w_mh w' h) = map_option mh_tsc_free (w_mh w h)"
    using 2(4) lv by simp
  moreover have "\<forall>c'. c' \<noteq> c \<longrightarrow> map_option sm_qmemtarget (get_sm m c' w') = map_option sm_qmemtarget (get_sm m c' w)"
    using 2(7) lv by simp
  ultimately show ?thesis using run tt t' 2(2,3) i'(1,2) saf by blast
qed

section \<open>Freeing\<close>

lemma apart_add:
  assumes "apart_queues X L" and "h \<in> L" and "c < PS_NUMCORES"
  shows "apart_queues (X(c := X c @ [h])) (L - {h})" "queued (X(c := X c @ [h])) = insert h (queued X)"
proof -
  show q: "queued (X(c := X c @ [h])) = insert h (queued X)"
  proof (intro set_eqI iffI)
    fix x assume "x \<in> queued (X(c := X c @ [h]))"
    then show "x \<in> insert h (queued X)" by (auto simp: queued_def split: if_splits)
  next
    fix x assume "x \<in> insert h (queued X)"
    then consider "x = h" | y where "y < PS_NUMCORES" "x \<in> set (X y)" by (auto simp: queued_def)
    then show "x \<in> queued (X(c := X c @ [h]))"
    proof cases
      case 1
      then show ?thesis using queuedI [OF assms(3), of x "X(c := X c @ [h])"] by simp
    next
      case 2
      then show ?thesis using queuedI [OF 2(1), of x "X(c := X c @ [h])"] by (cases "y = c") simp_all
    qed
  qed
  have hn: "h \<notin> set (X x)" if "x < PS_NUMCORES" for x
    using assms(1,2) queuedI [OF that, of h X] by (auto simp: apart_queues_def)
  have "set ((X(c := X c @ [h])) x) \<inter> set ((X(c := X c @ [h])) y) = {}"
    if "x < PS_NUMCORES" "y < PS_NUMCORES" "x \<noteq> y" for x y
    using assms(1) hn that by (auto simp: apart_queues_def)
  moreover have "queued (X(c := X c @ [h])) \<inter> (L - {h}) = {}" using assms(1) q by (auto simp: apart_queues_def)
  ultimately show "apart_queues (X(c := X c @ [h])) (L - {h})" by (simp add: apart_queues_def)
qed

text \<open>Stamping an object and queueing it, before the target is looked at.\<close>

definition smr_queue :: "nat \<Rightarrow> addr \<Rightarrow> u64 \<Rightarrow> addr \<Rightarrow> world \<Rightarrow> world option" where
  "smr_queue c h tsc m w = do {
     w \<leftarrow> on_mh (ps_mhead_setfree h tsc) w;
     si \<leftarrow> get_sm m c w;
     (ql, mh) \<leftarrow> ps_qsc_enqueue (sm_qsc_list si) h (w_mh w);
     w \<leftarrow> upd_sm m c (\<lambda>si. si\<lparr>sm_qsc_list := ql\<rparr>) (w\<lparr>w_mh := mh\<rparr>);
     upd_sm m c (\<lambda>si. si\<lparr>sm_qmemcnt := sm_qmemcnt si + 1\<rparr>) w }"

lemma smr_free_queue:
  "ps_smr_free env clk (c, numa) (ps_mhead_mem h) m ffn w t = do {
     w \<leftarrow> smr_queue c h (clk t) m w;
     si \<leftarrow> get_sm m c w;
     if sm_qmemcnt si \<ge> sm_qmemtarget si then ps_smr_reclaim env clk c m ffn w (Suc t) else Some (w, Suc t) }"
  by (simp add: ps_smr_free_def smr_queue_def Let_def split_def Option.bind_assoc)

text \<open>Headers of live objects may get other links and stamps.\<close>

lemma slab_state_links:
  assumes "finite A" and "slab_state p m w F R Q" and "A \<subseteq> live p F Q"
    and "\<forall>x. x \<notin> A \<longrightarrow> mh' x = w_mh w x"
    and "\<forall>x \<in> A. \<exists>e e'. w_mh w x = Some e \<and> mh' x = Some e' \<and> mh_slab e' = mh_slab e"
  shows "slab_state p m (w\<lparr>w_mh := mh'\<rparr>) F R Q"
  using assms
proof (induction A arbitrary: w rule: finite_induct)
  case empty
  then have "mh' = w_mh w" by auto
  then show ?case using empty.prems(1) by simp
next
  case (insert a A)
  then obtain e e' where e: "w_mh w a = Some e" "mh' a = Some e'" "mh_slab e' = mh_slab e" by auto
  let ?w = "w\<lparr>w_mh := (w_mh w)(a \<mapsto> e')\<rparr>"
  have "slab_state p m ?w F R Q" by (rule slab_state_header [OF insert.prems(1) _ e(1,3)]) (use insert.prems(2) in auto)
  moreover have "\<forall>x. x \<notin> A \<longrightarrow> mh' x = w_mh ?w x" using insert.prems(3) e by auto
  moreover have "\<forall>x \<in> A. \<exists>e e'. w_mh ?w x = Some e \<and> mh' x = Some e' \<and> mh_slab e' = mh_slab e"
    using insert.prems(4) insert.hyps(2) by auto
  ultimately have "slab_state p m (?w\<lparr>w_mh := mh'\<rparr>) F R Q" using insert.prems(2) by (intro insert.IH) auto
  then show ?case by simp
qed

lemma smr_queue_ok:
  assumes "queues p m ps w F R Q X L" and "h \<in> L" and "c < PS_NUMCORES" and "tsc \<noteq> 0"
  shows "\<exists>w' d. smr_queue c h tsc m w = Some w' \<and> queues p m ps w' F R Q (X(c := X c @ [h])) (L - {h}) \<and>
    leaves p m w w' (L - {h}) (L \<union> queued X - {h}) \<and> w_mh w' h = Some d \<and> mh_tsc_free d = tsc \<and>
    (\<forall>c'. c' \<noteq> c \<longrightarrow> get_sm m c' w' = get_sm m c' w)"
proof -
  note q = queuesD [OF assms(1)]
  obtain sm where sm: "get_sm m c w = Some sm" "sm_ps sm = ps" "qsc_view (sm_qsc_list sm) (w_mh w) (X c)"
    "unat (sm_qmemcnt sm) = length (X c)" "PS_QLIST_BATCH \<le> unat (sm_qmemtarget sm)"
    "unat (sm_qmemtarget sm) \<le> 2 ^ 61 + PS_QLIST_BATCH" and st: "stamped w (X c)"
    using q(6) [OF assms(3)] by (auto simp: queue_ok_def)
  obtain d where d: "w_mh w h = Some d" "mh_tsc_free d = 0" "mh_next d = null" using q(5) assms(2) by (auto simp: held_ok_def)
  have hx: "h \<notin> set (X c)" using q(4) assms(2) queuedI [OF assms(3), of h X] by (auto simp: apart_queues_def)
  have hl: "h \<in> live p F Q" using q(3) assms(2) by auto
  have "slabs_ok p w F" and ok: "params_ok p" using q(1) by (auto simp: slab_state_def slab_inv_def def_binv_def)
  then obtain s mem c0 fs where "F s = Some (mem, c0, fs)" "h \<in> set (slab_objs p mem)" "fits p mem"
    using liveE [OF hl] slabs_okD unfolding slab_rep_def by metis
  then have hn: "h \<noteq> null" using slab_objs_nonnull [OF ok] by blast
  let ?d = "d\<lparr>mh_tsc_free := tsc\<rparr>" and ?mh = "(w_mh w)(h \<mapsto> d\<lparr>mh_tsc_free := tsc\<rparr>)"
  have "qsc_view (sm_qsc_list sm) ?mh (X c) = qsc_view (sm_qsc_list sm) (w_mh w) (X c)"
    by (rule qsc_view_cong) (use hx in auto)
  then have v: "qsc_view (sm_qsc_list sm) ?mh (X c)" using sm(3) by simp
  obtain ql mh' where e: "ps_qsc_enqueue (sm_qsc_list sm) h ?mh = Some (ql, mh')" "qsc_view ql mh' (X c @ [h])"
    "\<forall>x. x \<notin> set (X c) \<longrightarrow> mh' x = ?mh x" "\<forall>x \<in> set (X c). \<exists>e n. ?mh x = Some e \<and> mh' x = Some (e\<lparr>mh_next := n\<rparr>)"
    using enqueue_exact [OF v, of h ?d] d(3) hn hx by auto
  let ?w1 = "w\<lparr>w_mh := mh'\<rparr>" and ?sm1 = "sm\<lparr>sm_qsc_list := ql\<rparr>" and ?sm = "sm\<lparr>sm_qsc_list := ql, sm_qmemcnt := sm_qmemcnt sm + 1\<rparr>"
  let ?w2 = "set_sm m c ?sm1 ?w1" and ?w3 = "set_sm m c ?sm (set_sm m c ?sm1 ?w1)"
  have g1: "get_sm m c ?w1 = Some sm" using sm(1) by simp
  have g2: "get_sm m c' ?w2 = (if c' = c then Some ?sm1 else get_sm m c' w)" for c' using get_set_sm [OF g1] by simp
  have g3: "get_sm m c' ?w3 = (if c' = c then Some ?sm else get_sm m c' w)" for c'
    using get_set_sm [of m c ?w2 ?sm1] g2 by simp
  have u2: "upd_sm m c (\<lambda>si. si\<lparr>sm_qsc_list := ql\<rparr>) ?w1 = Some ?w2" by (rule upd_sm_set [OF g1])
  have "get_sm m c ?w2 = Some ?sm1" using g2 by simp
  from upd_sm_set [OF this, of "\<lambda>si. si\<lparr>sm_qmemcnt := sm_qmemcnt si + 1\<rparr>"]
  have u3: "upd_sm m c (\<lambda>si. si\<lparr>sm_qmemcnt := sm_qmemcnt si + 1\<rparr>) ?w2 = Some ?w3" by simp
  have run: "smr_queue c h tsc m w = Some ?w3"
    using d(1) sm(1) e(1) u2 u3 by (simp add: smr_queue_def on_mh_def ps_mhead_setfree_def upd_mh_def)
  have links: "\<exists>e e'. w_mh w x = Some e \<and> mh' x = Some e' \<and> mh_slab e' = mh_slab e \<and> (x \<noteq> h \<longrightarrow> mh_tsc_free e' = mh_tsc_free e)"
    if x: "x \<in> insert h (set (X c))" for x
  proof (cases "x = h")
    case True
    then show ?thesis using d(1) e(3) hx by auto
  next
    case False
    then obtain e0 n where "w_mh w x = Some e0" "mh' x = Some (e0\<lparr>mh_next := n\<rparr>)"
      using e(4) x by (auto dest!: bspec [of _ _ x])
    then show ?thesis by simp
  qed
  have same: "mh' x = w_mh w x" if "x \<notin> insert h (set (X c))" for x using e(3) that by simp
  have "slab_state p m ?w1 F R Q"
  proof (rule slab_state_links [OF _ q(1)])
    show "insert h (set (X c)) \<subseteq> live p F Q" using hl queue_length(4) [OF assms(1,3)] by simp
    show "\<forall>x \<in> insert h (set (X c)). \<exists>e e'. w_mh w x = Some e \<and> mh' x = Some e' \<and> mh_slab e' = mh_slab e" using links by blast
  qed (use same in auto)
  then have ss: "slab_state p m ?w3 F R Q" by (intro slab_state_set_sm)
  note ap = apart_add [OF q(4) assms(2,3)]
  have oth: "x \<notin> insert h (set (X c))" if "x \<in> L - {h} \<or> c' < PS_NUMCORES \<and> c' \<noteq> c \<and> x \<in> set (X c')" for x c'
    using that q(4) assms(2,3) queuedI [of c x X] queuedI [of c' x X] by (auto simp: apart_queues_def)
  have "queue_ok m ps ?w3 c' ((X(c := X c @ [h])) c')" if c': "c' < PS_NUMCORES" for c'
  proof (cases "c' = c")
    case True
    have "unat (sm_qmemcnt sm + 1) = length (X c) + 1"
      using sm(4) queue_length(1) [OF assms(1,3)] by (subst unat_add_small) simp_all
    moreover have "stamped ?w3 (X c @ [h])"
      using st links e(3) hx assms(4) by (fastforce simp: stamped_def)
    ultimately show ?thesis using True g3 [of c] sm(2,5,6) e(2) by (simp add: queue_ok_def)
  next
    case False
    have "queue_ok m ps ?w3 c' (X c') = queue_ok m ps w c' (X c')"
      by (rule queue_ok_cong) (use g3 [of c'] False same oth [of _ c'] c' in auto)
    then show ?thesis using q(6) [OF c'] False by simp
  qed
  moreover have "held_ok ?w3 (L - {h})" using q(5) same oth by (auto simp: held_ok_def)
  moreover have "live p F Q = (L - {h}) \<union> queued (X(c := X c @ [h]))" using q(3) ap(2) assms(2) by auto
  ultimately have qs: "queues p m ps ?w3 F R Q (X(c := X c @ [h])) (L - {h})"
    using ss q(2) ap(1) by (simp add: queues_def)
  have "map_option mh_tsc_free (mh' x) = map_option mh_tsc_free (w_mh w x)" if "x \<noteq> h" for x
    using links [of x] same [of x] that by (cases "x \<in> set (X c)") auto
  then have "leaves p m w ?w3 (L - {h}) (L \<union> queued X - {h})"
    using same oth g3 sm(1) by (auto simp: leaves_def def_ready_def)
  then show ?thesis using run qs e(3) hx g3 by (intro exI [of _ ?w3] exI [of _ ?d]) simp
qed

end
