(* ===== verification/Smr_Mem_Runs.thy ===== *)
theory Smr_Mem_Runs
  imports Smr_Mem_Correct
begin

text \<open>
  Whole runs of an allocator with reclamation: any cores allocate, free, enter and leave sections and ask
  for quiescence, in any order, each call ending before the next begins.  No call fails, and memory that was freed
  while a section was running is not handed out again before that section has ended.
\<close>

section \<open>The state of an allocator with reclamation\<close>

definition smr_state :: "slab_params \<Rightarrow> addr \<Rightarrow> addr \<Rightarrow> clock \<Rightarrow> world \<Rightarrow> nat \<Rightarrow> slabs \<Rightarrow> rings \<Rightarrow> remotes \<Rightarrow>
    (nat \<Rightarrow> addr list) \<Rightarrow> addr set \<Rightarrow> bool" where
  "smr_state p m ps clk w t F R Q X L \<longleftrightarrow> queues p m ps w F R Q X L \<and> (\<forall>c < PS_NUMCORES. below m w c) \<and>
     (\<exists>pa. w_ps w ps = Some pa \<and> smr_inv clk pa t)"

text \<open>The time an object was freed at.\<close>

definition stamp :: "world \<Rightarrow> addr \<Rightarrow> u64" where
  "stamp w x = mh_tsc_free (the (w_mh w x))"

lemma stamp_eq:
  assumes "queues p m ps w F R Q X L" and "x \<in> live p F Q"
    and "map_option mh_tsc_free (w_mh w' x) = map_option mh_tsc_free (w_mh w x)"
  shows "stamp w' x = stamp w x"
proof -
  have "slabs_ok p w F" using queuesD(1) [OF assms(1)] by (simp add: slab_state_def slab_inv_def)
  then obtain d where "w_mh w x = Some d" using liveE [OF assms(2)] header_slab by metis
  then show ?thesis using assms(3) by (auto simp: stamp_def)
qed

lemma below_same:
  assumes "queue_ok m ps w c xs" and "queue_ok m ps w' c xs"
    and "map_option sm_qmemtarget (get_sm m c w') = map_option sm_qmemtarget (get_sm m c w)"
  shows "below m w' c = below m w c"
proof -
  obtain sm where 1: "get_sm m c w = Some sm" "below m w c \<longleftrightarrow> length xs < unat (sm_qmemtarget sm)"
    using queue_counts [OF assms(1)] by blast
  obtain sm' where 2: "get_sm m c w' = Some sm'" "below m w' c \<longleftrightarrow> length xs < unat (sm_qmemtarget sm')"
    using queue_counts [OF assms(2)] by blast
  show ?thesis using 1 2 assms(3) by simp
qed

lemma smr_inv_tick:
  assumes "smr_inv clk p t" and "advancing clk (Suc t)"
  shows "smr_inv clk p (Suc t)"
  using smr_step_inv [OF smr_step.tick assms(1)] assms(2) by blast

section \<open>Freeing\<close>

text \<open>What freeing \<open>h\<close> on core \<open>c\<close> at reading \<open>t\<close> does: \<open>n\<close> objects leave the queue.\<close>

lemma smr_free_ok:
  assumes "smr_state p m ps clk w t F R Q X L" and "w_ps w ps = Some pa" and "h \<in> L" and "c < PS_NUMCORES"
    and "numa < PS_NUMLOCALITIES" and "advancing clk (Suc t + 2 * (PS_NUMCORES - 1))" and "0 < t"
  shows "\<exists>n w' t' F' R' Q' pa'. ps_memptr_free no_env clk (backend_of p) m (ps_mhead_mem h) (c, numa) w t = Some (w', t') \<and>
    t < t' \<and> t' \<le> t + PS_NUMCORES \<and> smr_state p m ps clk w' t' F' R' Q' (X(c := drop n (X c @ [h]))) (L - {h}) \<and>
    w_ps w' ps = Some pa' \<and> same_sections pa pa' \<and> (def_ready p w \<longrightarrow> def_ready p w') \<and>
    (\<forall>x \<in> queued (X(c := drop n (X c @ [h]))). stamp w' x = (if x = h then clk t else stamp w x)) \<and>
    (\<forall>x \<in> set (take n (X c @ [h])). \<forall>e < PS_NUMCORES. ps_in_lib (tm pa' e) \<longrightarrow>
       (if x = h then clk t else stamp w x) \<le> qt_time_in (tm pa' e))"
proof -
  have q: "queues p m ps w F R Q X L" and bl: "\<And>c. c < PS_NUMCORES \<Longrightarrow> below m w c" and i: "smr_inv clk pa t"
    using assms(1,2) by (auto simp: smr_state_def)
  have "clk 0 < clk t" using assms(6,7) by (simp add: advancing_def)
  then have tn: "clk t \<noteq> 0" by auto
  have i1: "smr_inv clk pa (Suc t)" by (rule smr_inv_tick [OF i]) (rule advancing_less [OF assms(6)], simp)
  let ?X = "X(c := X c @ [h])"
  obtain w1 d where 1: "smr_queue c h (clk t) m w = Some w1" "queues p m ps w1 F R Q ?X (L - {h})"
    "leaves p m w w1 (L - {h}) (L \<union> queued X - {h})" "w_mh w1 h = Some d" "mh_tsc_free d = clk t"
    "\<forall>c'. c' \<noteq> c \<longrightarrow> get_sm m c' w1 = get_sm m c' w"
    using smr_queue_ok [OF q assms(3,4) tn] by blast
  note lv = 1(3) [unfolded leaves_def]
  have st1: "stamp w1 x = (if x = h then clk t else stamp w x)" if "x \<in> queued ?X" for x
  proof (cases "x = h")
    case True
    then show ?thesis using 1(4,5) by (simp add: stamp_def)
  next
    case False
    then have "x \<in> queued X" using that apart_add(2) [OF queuesD(4) [OF q] assms(3,4)] by auto
    then have "stamp w1 x = stamp w x" using lv False queuesD(3) [OF q] by (intro stamp_eq [OF q]) auto
    then show ?thesis using False by simp
  qed
  have bl1: "below m w1 c'" if "c' < PS_NUMCORES" "c' \<noteq> c" for c'
    using bl [OF that(1)] 1(6) that(2) by (simp add: below_def)
  obtain sm where sm: "get_sm m c w1 = Some sm" "unat (sm_qmemcnt sm) = length (?X c)"
    "below m w1 c \<longleftrightarrow> length (?X c) < unat (sm_qmemtarget sm)"
    using queue_counts [OF queuesD(6) [OF 1(2) assms(4)]] by blast
  have bc: "below m w1 c \<longleftrightarrow> sm_qmemcnt sm < sm_qmemtarget sm" using sm(1) by (auto simp: below_def)
  have run: "ps_memptr_free no_env clk (backend_of p) m (ps_mhead_mem h) (c, numa) w t =
      (if below m w1 c then Some (w1, Suc t)
       else ps_smr_reclaim no_env clk c m (ps_parslab_free_tramp (backend_of p) (c, numa)) w1 (Suc t))"
    using 1(1) sm(1) bc by (auto simp: ps_memptr_free_def smr_free_queue dest: leD)
  have ps1: "w_ps w1 ps = Some pa" using lv assms(2) by simp
  show ?thesis
  proof (cases "below m w1 c")
    case True
    have "\<forall>c' < PS_NUMCORES. below m w1 c'" using True bl1 by metis
    then have s: "smr_state p m ps clk w1 (Suc t) F R Q ?X (L - {h})" using 1(2) ps1 i1 by (simp add: smr_state_def)
    have d: "drop 0 (X c @ [h]) = X c @ [h]" by simp
    show ?thesis
    proof (intro exI conjI)
      show "smr_state p m ps clk w1 (Suc t) F R Q (X(c := drop 0 (X c @ [h]))) (L - {h})" unfolding d by (rule s)
      show "\<forall>x \<in> queued (X(c := drop 0 (X c @ [h]))). stamp w1 x = (if x = h then clk t else stamp w x)"
        unfolding d using st1 by blast
    qed (use run True ps1 lv in \<open>auto simp: PS_NUMCORES_def\<close>)
  next
    case False
    obtain smw where smw: "get_sm m c w = Some smw" "length (X c) < unat (sm_qmemtarget smw)"
      using queue_counts [OF queuesD(6) [OF q assms(4)]] bl [OF assms(4)] by blast
    have "sm_qmemtarget sm = sm_qmemtarget smw" using lv sm(1) smw(1) by (auto dest!: spec [of _ c])
    then have tg: "unat (sm_qmemtarget sm) = length (?X c)" using False sm(3) smw(2) by simp
    obtain n w' t' F' R' Q' pa' where
      r: "ps_smr_reclaim no_env clk c m (ps_parslab_free_tramp (backend_of p) (c, numa)) w1 (Suc t) = Some (w', t')"
      "Suc t \<le> t'" "t' \<le> Suc t + (PS_NUMCORES - 1)" "queues p m ps w' F' R' Q' (X(c := drop n (X c @ [h]))) (L - {h})"
      "below m w' c" "w_ps w' = (w_ps w1)(ps \<mapsto> pa')" "smr_inv clk pa' t'" "same_sections pa pa'"
      "def_ready p w1 \<longrightarrow> def_ready p w'"
      "\<forall>x \<in> queued (X(c := drop n (X c @ [h]))). map_option mh_tsc_free (w_mh w' x) = map_option mh_tsc_free (w_mh w1 x)"
      "\<forall>c'. c' \<noteq> c \<longrightarrow> map_option sm_qmemtarget (get_sm m c' w') = map_option sm_qmemtarget (get_sm m c' w1)"
      "\<forall>x \<in> set (take n (X c @ [h])). \<exists>d. w_mh w1 x = Some d \<and>
         (\<forall>e < PS_NUMCORES. ps_in_lib (tm pa' e) \<longrightarrow> mh_tsc_free d \<le> qt_time_in (tm pa' e))"
      using reclaim_ok [OF 1(2) ps1 i1 assms(6,4,5) sm(1) tg, unfolded fun_upd_upd fun_upd_same] by blast
    have "below m w' c'" if c': "c' < PS_NUMCORES" for c'
    proof (cases "c' = c")
      case False
      have "queue_ok m ps w1 c' (X c')" "queue_ok m ps w' c' (X c')"
        using queuesD(6) [OF 1(2) c'] queuesD(6) [OF r(4) c'] False by simp_all
      from below_same [OF this] r(11) False bl1 [OF c' False] show ?thesis by blast
    qed (use r(5) in simp)
    then have s: "smr_state p m ps clk w' t' F' R' Q' (X(c := drop n (X c @ [h]))) (L - {h})"
      using r(4,6,7) by (simp add: smr_state_def)
    have sub: "queued (X(c := drop n (X c @ [h]))) \<subseteq> queued ?X" using queued_drop [of ?X c n] by simp
    have st: "stamp w' x = (if x = h then clk t else stamp w x)" if x: "x \<in> queued (X(c := drop n (X c @ [h])))" for x
    proof -
      have "x \<in> queued ?X" using x sub by auto
      then have "stamp w' x = stamp w1 x" using r(10) x queuesD(3) [OF 1(2)] by (intro stamp_eq [OF 1(2)]) auto
      then show ?thesis using st1 [OF \<open>x \<in> queued ?X\<close>] by simp
    qed
    have sf: "(if x = h then clk t else stamp w x) \<le> qt_time_in (tm pa' e)"
      if x: "x \<in> set (take n (X c @ [h]))" and e: "e < PS_NUMCORES" "ps_in_lib (tm pa' e)" for x e
    proof -
      have "x \<in> queued ?X" using in_set_takeD [OF x] queuedI [OF assms(4), of x ?X] by simp
      moreover have "stamp w1 x \<le> qt_time_in (tm pa' e)" using bspec [OF r(12) x] e by (auto simp: stamp_def)
      ultimately show ?thesis using st1 by simp
    qed
    show ?thesis
    proof (intro exI conjI)
      show "smr_state p m ps clk w' t' F' R' Q' (X(c := drop n (X c @ [h]))) (L - {h})" by (rule s)
      show "\<forall>x \<in> set (take n (X c @ [h])). \<forall>e < PS_NUMCORES. ps_in_lib (tm pa' e) \<longrightarrow>
          (if x = h then clk t else stamp w x) \<le> qt_time_in (tm pa' e)" by (intro ballI allI impI) (rule sf)
      show "\<forall>x \<in> queued (X(c := drop n (X c @ [h]))). stamp w' x = (if x = h then clk t else stamp w x)"
        by (intro ballI) (rule st)
      show "ps_memptr_free no_env clk (backend_of p) m (ps_mhead_mem h) (c, numa) w t = Some (w', t')" using run False r(1) by simp
      show "t' \<le> t + PS_NUMCORES" using r(3) by (simp add: PS_NUMCORES_def)
      show "w_ps w' ps = Some pa'" using r(6) by simp
      show "def_ready p w \<longrightarrow> def_ready p w'" using r(9) lv by blast
    qed (use r(2,8) in simp_all)
  qed
qed

section \<open>The start\<close>

lemma memptr_init_loop_ok:
  assumes "\<forall>c \<in> set cs. get_sm m c w \<noteq> None" and "w_ps w ps = Some pa"
  shows "\<exists>w'. memptr_init_loop cs m ps w = Some w' \<and>
    w_mh w' = w_mh w \<and> w_sl w' = w_sl w \<and> w_ls w' = w_ls w \<and> w_blocks w' = w_blocks w \<and> w_answers w' = w_answers w \<and>
    (\<forall>c. get_si m c w' = get_si m c w) \<and> (\<forall>c l k. get_remote m c l k w' = get_remote m c l k w) \<and>
    (\<forall>c. get_sm m c w' = (if c \<in> set cs then map_option (\<lambda>sm. sm\<lparr>sm_qmemtarget := of_nat PS_QLIST_BATCH,
       sm_qmemcnt := 0, sm_ps := ps\<rparr>) (get_sm m c w) else get_sm m c w)) \<and>
    w_ps w' = (w_ps w)(ps \<mapsto> pa\<lparr>pa_refcnt := pa_refcnt pa + of_nat (length cs)\<rparr>)"
  using assms
proof (induction cs arbitrary: w pa)
  case Nil
  then show ?case by (auto intro!: exI [of _ w])
next
  case (Cons c cs)
  let ?f = "\<lambda>sm. sm\<lparr>sm_qmemtarget := of_nat PS_QLIST_BATCH, sm_qmemcnt := 0, sm_ps := ps\<rparr>"
  obtain sm where sm: "get_sm m c w = Some sm" using Cons.prems(1) by auto
  let ?w1 = "set_sm m c (?f sm) w" and ?pa = "pa\<lparr>pa_refcnt := pa_refcnt pa + 1\<rparr>"
  let ?w2 = "?w1\<lparr>w_ps := (w_ps w)(ps \<mapsto> ?pa)\<rparr>"
  have u1: "upd_sm m c ?f w = Some ?w1" by (rule upd_sm_set [OF sm])
  have u2: "upd_ps ps (\<lambda>p. p\<lparr>pa_refcnt := pa_refcnt p + 1\<rparr>) ?w1 = Some ?w2" using Cons.prems(2) by (simp add: upd_ps_def)
  have g: "get_sm m c' ?w2 = (if c' = c then Some (?f sm) else get_sm m c' w)" for c' using get_set_sm [OF sm] by simp
  have "\<forall>c \<in> set cs. get_sm m c ?w2 \<noteq> None" using Cons.prems(1) g by auto
  moreover have "w_ps ?w2 ps = Some ?pa" by simp
  ultimately obtain w' where "memptr_init_loop cs m ps ?w2 = Some w'"
    "w_mh w' = w_mh ?w2" "w_sl w' = w_sl ?w2" "w_ls w' = w_ls ?w2" "w_blocks w' = w_blocks ?w2" "w_answers w' = w_answers ?w2"
    "\<forall>c. get_si m c w' = get_si m c ?w2" "\<forall>c l k. get_remote m c l k w' = get_remote m c l k ?w2"
    "\<forall>c. get_sm m c w' = (if c \<in> set cs then map_option ?f (get_sm m c ?w2) else get_sm m c ?w2)"
    "w_ps w' = (w_ps ?w2)(ps \<mapsto> ?pa\<lparr>pa_refcnt := pa_refcnt ?pa + of_nat (length cs)\<rparr>)"
    using Cons.IH [of ?w2 ?pa] by blast
  then show ?case using u1 u2 g sm by (intro exI [of _ w']) (simp add: algebra_simps)
qed

lemma mem_init_ok:
  assumes "ps_mem_init m ps w = Some w'" and "w_ps w ps = Some pa"
  shows "\<exists>w0. ps_slabptr_init m w = Some w0 \<and> ps \<noteq> null \<and> w_mh w' = w_mh w0 \<and> w_sl w' = w_sl w0 \<and> w_ls w' = w_ls w0 \<and>
    w_blocks w' = w_blocks w0 \<and> w_answers w' = w_answers w0 \<and> (\<forall>c. get_si m c w' = get_si m c w0) \<and>
    (\<forall>c l k. get_remote m c l k w' = get_remote m c l k w0) \<and>
    (\<forall>c < PS_NUMCORES. get_sm m c w' = Some \<lparr>sm_ps = ps, sm_qsc_list = \<lparr>ql_head = null, ql_tail = null\<rparr>, sm_qmemcnt = 0,
       sm_qmemtarget = of_nat PS_QLIST_BATCH\<rparr>) \<and>
    w_ps w' = (w_ps w)(ps \<mapsto> pa\<lparr>pa_refcnt := pa_refcnt pa + of_nat PS_NUMCORES\<rparr>)"
proof -
  obtain w0 where w0: "ps_slabptr_init m w = Some w0" "ps_memptr_init m ps w0 = Some w'"
    using assms(1) by (auto simp: ps_mem_init_def bind_eq_Some_conv)
  then have e: "w0 = w\<lparr>w_mem := (w_mem w)(m \<mapsto> zero_mem)\<rparr>" by (simp add: ps_slabptr_init_def c_assert_def split: if_splits)
  have l: "memptr_init_loop [0..<PS_NUMCORES] m ps w0 = Some w'" "ps \<noteq> null"
    using w0(2) by (simp_all add: ps_memptr_init_def c_assert_def split: if_splits)
  have g: "get_sm m c w0 = Some (pc_smr_info zero_percore)" if "c < PS_NUMCORES" for c
    using get_zero [OF that, of m w] by (simp add: get_sm_def e)
  have "w_ps w0 ps = Some pa" using assms(2) e by simp
  from memptr_init_loop_ok [of "[0..<PS_NUMCORES]" m w0, OF _ this] l g have
    "w_mh w' = w_mh w0 \<and> w_sl w' = w_sl w0 \<and> w_ls w' = w_ls w0 \<and> w_blocks w' = w_blocks w0 \<and> w_answers w' = w_answers w0 \<and>
    (\<forall>c. get_si m c w' = get_si m c w0) \<and> (\<forall>c l k. get_remote m c l k w' = get_remote m c l k w0) \<and>
    (\<forall>c. get_sm m c w' = (if c \<in> set [0..<PS_NUMCORES] then map_option (\<lambda>sm. sm\<lparr>sm_qmemtarget := of_nat PS_QLIST_BATCH,
       sm_qmemcnt := 0, sm_ps := ps\<rparr>) (get_sm m c w0) else get_sm m c w0)) \<and>
    w_ps w' = (w_ps w0)(ps \<mapsto> pa\<lparr>pa_refcnt := pa_refcnt pa + of_nat (length [0..<PS_NUMCORES])\<rparr>)" by auto
  then show ?thesis using w0(1) l(2) g e by (auto simp: zero_percore_def)
qed

lemma smr_inv_refcnt: "smr_inv clk (pa\<lparr>pa_refcnt := x\<rparr>) t = smr_inv clk pa t"
  by (simp add: smr_inv_def shape_def tm_def oc_def)

lemma smr_state_init:
  assumes "ps_mem_init m ps w = Some w'" and "params_ok p" and "sp_headoff p = sizeof_ps_slab" and "blocks_ok (w_blocks w)"
    and "w_ps w ps = Some (ps_init (clk 0))" and "clk 0 < clk (Suc 0)"
  shows "smr_state p m ps clk w' (Suc 0) Map.empty (\<lambda>_. []) (\<lambda>_ _ _. []) (\<lambda>_. []) {}"
proof -
  obtain w0 where w0: "ps_slabptr_init m w = Some w0" "ps \<noteq> null" "w_mh w' = w_mh w0" "w_sl w' = w_sl w0" "w_ls w' = w_ls w0"
    "w_blocks w' = w_blocks w0" "\<forall>c. get_si m c w' = get_si m c w0" "\<forall>c l k. get_remote m c l k w' = get_remote m c l k w0"
    and sm: "\<forall>c < PS_NUMCORES. get_sm m c w' = Some \<lparr>sm_ps = ps, sm_qsc_list = \<lparr>ql_head = null, ql_tail = null\<rparr>, sm_qmemcnt = 0,
       sm_qmemtarget = of_nat PS_QLIST_BATCH\<rparr>"
    and ps: "w_ps w' = (w_ps w)(ps \<mapsto> (ps_init (clk 0))\<lparr>pa_refcnt := pa_refcnt (ps_init (clk 0)) + of_nat PS_NUMCORES\<rparr>)"
    using mem_init_ok [OF assms(1,5)] by blast
  have "slab_state p m w0 Map.empty (\<lambda>_. []) (\<lambda>_ _ _. [])" by (rule slab_state_init [OF w0(1) assms(2-4)])
  then have "slab_state p m w' Map.empty (\<lambda>_. []) (\<lambda>_ _ _. [])" by (rule slab_state_cong [rotated 6]) (use w0 in simp_all)
  moreover have "queue_ok m ps w' c []" if "c < PS_NUMCORES" for c
    using sm that by (simp add: queue_ok_def qsc_view_def stamped_def PS_QLIST_BATCH_def)
  moreover have "below m w' c" if "c < PS_NUMCORES" for c
    using sm that by (simp add: below_def PS_QLIST_BATCH_def)
  ultimately show ?thesis
    using w0(2) ps smr_inv_init [OF assms(6)]
    by (simp add: smr_state_def queues_def live_init queued_def apart_queues_def held_ok_def smr_inv_refcnt)
qed

section \<open>Allocating\<close>

lemma smr_alloc_ok:
  assumes "smr_state p m ps clk w t F R Q X L" and "def_ready p w" and "c < PS_NUMCORES"
    and "\<And>l i. length (Q c l i) \<le> k"
  shows "\<exists>h w' F' R' Q'. ps_memptr_alloc k (backend_of p) m (c, numa) w = Some (ps_mhead_mem h, w') \<and>
    ps_mhead_mem h \<noteq> null \<and> h \<notin> L \<and> h \<notin> queued X \<and> smr_state p m ps clk w' t F' R' Q' X (insert h L) \<and>
    w_ps w' = w_ps w \<and> (\<forall>x \<in> queued X. stamp w' x = stamp w x)"
proof -
  have qs: "queues p m ps w F R Q X L" and bl: "\<And>c. c < PS_NUMCORES \<Longrightarrow> below m w c"
    using assms(1) by (auto simp: smr_state_def)
  note q = queuesD [OF qs]
  obtain h s w' F' R' Q' where a: "ps_slab_mem_alloc k m (on_core c p) (c, numa) w = Some (ps_mhead_mem h, w')"
    "ps_mhead_mem h \<noteq> null" "slab_state p m w' F' R' Q'" "\<forall>x \<in> live p F Q. w_mh w' x = w_mh w x"
    "h \<notin> live p F Q" "live p F' Q' = insert h (live p F Q)" "w_mh w' h = Some \<lparr>mh_tsc_free = 0, mh_slab = s, mh_next = null\<rparr>"
    using core_alloc_ok [OF q(1) assms(2-4)] by blast
  note k = ksmD [OF ksm_mem_alloc [OF a(1)]]
  have mh: "w_mh w' x = w_mh w x" if "x \<in> L \<union> queued X" for x using a(4) q(3) that by auto
  have "queue_ok m ps w' c' (X c')" if c': "c' < PS_NUMCORES" for c'
  proof -
    have "queue_ok m ps w' c' (X c') = queue_ok m ps w c' (X c')"
      by (rule queue_ok_cong) (use k(2) mh queuedI [OF c', of _ X] in auto)
    then show ?thesis using q(6) [OF c'] by simp
  qed
  moreover have "held_ok w' (insert h L)" using q(5) mh a(7) by (auto simp: held_ok_def)
  moreover have hn: "h \<notin> L" "h \<notin> queued X" using a(5) q(3) by auto
  moreover from this have "apart_queues X (insert h L)" using q(4) by (auto simp: apart_queues_def)
  ultimately have "queues p m ps w' F' R' Q' X (insert h L)" using a(3,6) q(2,3) by (simp add: queues_def)
  moreover have "below m w' c'" if "c' < PS_NUMCORES" for c' using bl [OF that] k(2) by (simp add: below_def)
  ultimately have "smr_state p m ps clk w' t F' R' Q' X (insert h L)" using assms(1) k(1) by (simp add: smr_state_def)
  moreover have "\<forall>x \<in> queued X. stamp w' x = stamp w x" using mh by (simp add: stamp_def)
  ultimately show ?thesis using a(1,2) hn k(1)
    by (intro exI [of _ h] exI [of _ w']) (auto simp: ps_memptr_alloc_def on_core_alloc)
qed

section \<open>Runs\<close>

text \<open>
  \<open>L\<close> is the set of objects the clients hold, \<open>fr\<close> gives for each object freed so far the reading of the
  counter at which it was last freed; both are known from the calls alone.
\<close>

inductive smr_run :: "slab_params \<Rightarrow> addr \<Rightarrow> addr \<Rightarrow> clock \<Rightarrow> world \<Rightarrow> nat \<Rightarrow> addr set \<Rightarrow> (addr \<Rightarrow> nat option) \<Rightarrow> bool"
  for p m ps clk where
  start: "params_ok p \<Longrightarrow> sp_headoff p = sizeof_ps_slab \<Longrightarrow> blocks_ok (w_blocks w) \<Longrightarrow>
    w_ps w ps = Some (ps_init (clk 0)) \<Longrightarrow> ps_mem_init m ps w = Some w' \<Longrightarrow> smr_run p m ps clk w' (Suc 0) {} Map.empty"
| answer: "smr_run p m ps clk w t L fr \<Longrightarrow> smr_run p m ps clk (w\<lparr>w_answers := as\<rparr>) t L fr"
| alloc: "smr_run p m ps clk w t L fr \<Longrightarrow> def_ready p w \<Longrightarrow> c < PS_NUMCORES \<Longrightarrow>
    ps_memptr_alloc k (backend_of p) m (c, numa) w = Some (b, w') \<Longrightarrow>
    smr_run p m ps clk w' t (insert (ps_mhead_get b) L) fr"
| free: "smr_run p m ps clk w t L fr \<Longrightarrow> h \<in> L \<Longrightarrow> c < PS_NUMCORES \<Longrightarrow> numa < PS_NUMLOCALITIES \<Longrightarrow>
    ps_memptr_free no_env clk (backend_of p) m (ps_mhead_mem h) (c, numa) w t = Some (w', t') \<Longrightarrow>
    smr_run p m ps clk w' t' (L - {h}) (fr(h \<mapsto> t))"
| sect: "smr_run p m ps clk w t L fr \<Longrightarrow> w_ps w ps = Some pa \<Longrightarrow> smr_step clk (pa, t) (pa', t') \<Longrightarrow>
    smr_run p m ps clk (w\<lparr>w_ps := (w_ps w)(ps \<mapsto> pa')\<rparr>) t' L fr"

text \<open>Every section still running was entered at or after reading \<open>i\<close>.\<close>

definition quiet :: "clock \<Rightarrow> parsec \<Rightarrow> nat \<Rightarrow> bool" where
  "quiet clk pa i \<longleftrightarrow> (\<forall>e < PS_NUMCORES. ps_in_lib (tm pa e) \<longrightarrow> clk i \<le> qt_time_in (tm pa e))"

lemma quiet_same: "same_sections pa pa' \<Longrightarrow> quiet clk pa i \<Longrightarrow> quiet clk pa' i"
  by (auto simp: quiet_def same_sectionsD)

lemma quiet_step:
  assumes "smr_step clk (pa, t) (pa', t')" and "smr_inv clk pa t" and "advancing clk t'" and "i < t" and "quiet clk pa i"
  shows "quiet clk pa' i"
  using assms(1)
proof (cases rule: smr_step.cases)
  case (enter c)
  note e = upd_timing_effect [OF smr_invD(1) [OF assms(2)] enter(3) [unfolded ps_enter_def]]
  have "clk i \<le> clk t" using advancing_le [OF assms(3), of i t] assms(4) enter(1) by simp
  then show ?thesis using assms(5) e by (auto simp: quiet_def)
next
  case (leave c)
  note e = upd_timing_effect [OF smr_invD(1) [OF assms(2)] leave(3) [unfolded ps_exit_def]]
  have "clk i \<le> qt_time_in (tm pa c)" using assms(5) leave(2) e(1) by (simp add: quiet_def)
  then show ?thesis using assms(5) e(3) by (auto simp: quiet_def ps_in_lib_def)
next
  case (quiesce k blocking c tsc r)
  then have "same_sections pa pa'" using quiesce_inv [OF _ assms(2)] assms(3) by blast
  then show ?thesis by (rule quiet_same) (rule assms(5))
next
  case tick
  then show ?thesis using assms(5) by simp
qed

text \<open>
  The invariant of runs: what was freed at reading \<open>i\<close> is still queued with that stamp, or every section
  still running was entered afterwards.
\<close>

definition history_ok :: "addr \<Rightarrow> clock \<Rightarrow> world \<Rightarrow> nat \<Rightarrow> (nat \<Rightarrow> addr list) \<Rightarrow> (addr \<Rightarrow> nat option) \<Rightarrow> bool" where
  "history_ok ps clk w t X fr \<longleftrightarrow> (\<forall>pa h i. w_ps w ps = Some pa \<longrightarrow> fr h = Some i \<longrightarrow>
     i < t \<and> (if h \<in> queued X then stamp w h = clk i else quiet clk pa i))"

lemma history_okD:
  assumes "history_ok ps clk w t X fr" and "w_ps w ps = Some pa" and "fr h = Some i"
  shows "i < t" "h \<in> queued X \<Longrightarrow> stamp w h = clk i" "h \<notin> queued X \<Longrightarrow> quiet clk pa i"
proof -
  have "i < t \<and> (if h \<in> queued X then stamp w h = clk i else quiet clk pa i)"
    using assms unfolding history_ok_def by blast
  then show "i < t" "h \<in> queued X \<Longrightarrow> stamp w h = clk i" "h \<notin> queued X \<Longrightarrow> quiet clk pa i" by simp_all
qed

definition run_ok :: "slab_params \<Rightarrow> addr \<Rightarrow> addr \<Rightarrow> clock \<Rightarrow> world \<Rightarrow> nat \<Rightarrow> addr set \<Rightarrow> (addr \<Rightarrow> nat option) \<Rightarrow> bool" where
  "run_ok p m ps clk w t L fr \<longleftrightarrow> 0 < t \<and>
     (\<exists>F R Q X. smr_state p m ps clk w t F R Q X L \<and> history_ok ps clk w t X fr)"

lemma run_okI: "0 < t \<Longrightarrow> smr_state p m ps clk w t F R Q X L \<Longrightarrow> history_ok ps clk w t X fr \<Longrightarrow> run_ok p m ps clk w t L fr"
  by (auto simp: run_ok_def)

lemma run_ok_free:
  assumes "run_ok p m ps clk w t L fr" and "h \<in> L" and "c < PS_NUMCORES" and "numa < PS_NUMLOCALITIES"
    and "advancing clk (t + 2 * PS_NUMCORES)"
  shows "\<exists>w' t'. ps_memptr_free no_env clk (backend_of p) m (ps_mhead_mem h) (c, numa) w t = Some (w', t') \<and>
    t < t' \<and> run_ok p m ps clk w' t' (L - {h}) (fr(h \<mapsto> t))"
proof -
  obtain F R Q X where s: "smr_state p m ps clk w t F R Q X L" and hi: "history_ok ps clk w t X fr" and t0: "0 < t"
    using assms(1) by (auto simp: run_ok_def)
  obtain pa where pa: "w_ps w ps = Some pa" using s by (auto simp: smr_state_def)
  have adv: "advancing clk (Suc t + 2 * (PS_NUMCORES - 1))"
    by (rule advancing_less [OF assms(5)]) (simp add: PS_NUMCORES_def)
  obtain n w' t' F' R' Q' pa' where
    f: "ps_memptr_free no_env clk (backend_of p) m (ps_mhead_mem h) (c, numa) w t = Some (w', t')" "t < t'"
      "smr_state p m ps clk w' t' F' R' Q' (X(c := drop n (X c @ [h]))) (L - {h})" "w_ps w' ps = Some pa'" "same_sections pa pa'"
    and st: "\<forall>x \<in> queued (X(c := drop n (X c @ [h]))). stamp w' x = (if x = h then clk t else stamp w x)"
    and sf: "\<forall>x \<in> set (take n (X c @ [h])). \<forall>e < PS_NUMCORES. ps_in_lib (tm pa' e) \<longrightarrow>
       (if x = h then clk t else stamp w x) \<le> qt_time_in (tm pa' e)"
    using smr_free_ok [OF s pa assms(2-4) adv t0] by blast
  have q: "apart_queues X L" using s by (simp add: smr_state_def queues_def)
  have out: "x \<in> set (take n (X c @ [h])) \<or> x \<notin> insert h (queued X)" if x: "x \<notin> queued (X(c := drop n (X c @ [h])))" for x
  proof (rule ccontr)
    assume no: "\<not> ?thesis"
    then have "x \<in> queued (X(c := X c @ [h]))" using apart_add(2) [OF q assms(2,3)] by simp
    then obtain y where y: "y < PS_NUMCORES" "x \<in> set ((X(c := X c @ [h])) y)" by (auto simp: queued_def)
    have "x \<in> set ((X(c := drop n (X c @ [h]))) y)"
    proof (cases "y = c")
      case True
      then have "x \<in> set (take n (X c @ [h]) @ drop n (X c @ [h]))" using y(2) by (simp del: take_append drop_append)
      then have "x \<in> set (take n (X c @ [h])) \<union> set (drop n (X c @ [h]))" unfolding set_append .
      then show ?thesis using no True by (simp del: take_append drop_append)
    qed (use y(2) in simp)
    then show False using x queuedI [OF y(1)] by blast
  qed
  have "history_ok ps clk w' t' (X(c := drop n (X c @ [h]))) (fr(h \<mapsto> t))"
    unfolding history_ok_def
  proof (intro allI impI conjI)
    fix pa1 x i assume pa1: "w_ps w' ps = Some pa1" and fr: "(fr(h \<mapsto> t)) x = Some i"
    then have [simp]: "pa1 = pa'" using f(4) by simp
    show "i < t'" using fr history_okD(1) [OF hi pa, of x i] f(2) by (auto split: if_splits)
    have v: "(if x = h then clk t else stamp w x) = clk i" if "x \<in> insert h (queued X)"
      using that fr history_okD(2) [OF hi pa, of x i] by (auto split: if_splits)
    show "if x \<in> queued (X(c := drop n (X c @ [h]))) then stamp w' x = clk i else quiet clk pa1 i"
    proof (cases "x \<in> queued (X(c := drop n (X c @ [h])))")
      case True
      then have "x \<in> queued (X(c := X c @ [h]))" using queued_drop [of "X(c := X c @ [h])" c n] by auto
      then have "x \<in> insert h (queued X)" using apart_add(2) [OF q assms(2,3)] by simp
      then show ?thesis using True st v by simp
    next
      case False
      show ?thesis
      proof (cases "x \<in> insert h (queued X)")
        case True
        then have "x \<in> set (take n (X c @ [h]))" using out [OF False] by blast
        then show ?thesis using False bspec [OF sf, of x] v [OF True] by (simp add: quiet_def)
      next
        case nq: False
        then have "quiet clk pa i" using history_okD(3) [OF hi pa, of x i] fr by (auto split: if_splits)
        then show ?thesis using False quiet_same [OF f(5)] by simp
      qed
    qed
  qed
  from run_okI [OF _ f(3) this] t0 f(1,2) show ?thesis by auto
qed

lemma run_ok_alloc:
  assumes "run_ok p m ps clk w t L fr" and "def_ready p w" and "c < PS_NUMCORES"
  shows "\<exists>k0 h w'. (\<forall>k \<ge> k0. ps_memptr_alloc k (backend_of p) m (c, numa) w = Some (ps_mhead_mem h, w')) \<and>
    ps_mhead_mem h \<noteq> null \<and> h \<notin> L \<and> run_ok p m ps clk w' t (insert h L) fr \<and>
    (\<forall>pa i. w_ps w ps = Some pa \<longrightarrow> fr h = Some i \<longrightarrow> quiet clk pa i)"
proof -
  obtain F R Q X where s: "smr_state p m ps clk w t F R Q X L" and hi: "history_ok ps clk w t X fr" and t0: "0 < t"
    using assms(1) by (auto simp: run_ok_def)
  have "slab_state p m w F R Q" using s by (simp add: smr_state_def queues_def)
  from state_remote_bound [OF this, of c] obtain k0 where k0: "\<And>l i. length (Q c l i) \<le> k0" by blast
  obtain h w' F' R' Q' where a: "ps_memptr_alloc k0 (backend_of p) m (c, numa) w = Some (ps_mhead_mem h, w')"
    "ps_mhead_mem h \<noteq> null" "h \<notin> L" "h \<notin> queued X" "smr_state p m ps clk w' t F' R' Q' X (insert h L)"
    "w_ps w' = w_ps w" "\<forall>x \<in> queued X. stamp w' x = stamp w x"
    using smr_alloc_ok [OF s assms(2,3) k0] by blast
  have "ps_memptr_alloc k (backend_of p) m (c, numa) w = Some (ps_mhead_mem h, w')" if "k0 \<le> k" for k
    using upto_fuelD [OF ps_slab_mem_alloc_mono [OF that]] a(1) unfolding ps_memptr_alloc_def on_core_alloc by blast
  moreover have "history_ok ps clk w' t X fr" using hi a(6,7) by (simp add: history_ok_def)
  then have "run_ok p m ps clk w' t (insert h L) fr" using run_okI [OF t0 a(5)] by blast
  moreover have "quiet clk pa i" if "w_ps w ps = Some pa" "fr h = Some i" for pa i
    by (rule history_okD(3) [OF hi that a(4)])
  ultimately show ?thesis using a(2,3) by blast
qed

lemma run_ok_sect:
  assumes "run_ok p m ps clk w t L fr" and "w_ps w ps = Some pa" and "smr_step clk (pa, t) (pa', t')" and "advancing clk t'"
  shows "run_ok p m ps clk (w\<lparr>w_ps := (w_ps w)(ps \<mapsto> pa')\<rparr>) t' L fr"
proof -
  let ?w = "w\<lparr>w_ps := (w_ps w)(ps \<mapsto> pa')\<rparr>"
  obtain F R Q X where s: "smr_state p m ps clk w t F R Q X L" and hi: "history_ok ps clk w t X fr" and t0: "0 < t"
    using assms(1) by (auto simp: run_ok_def)
  have q: "queues p m ps w F R Q X L" and i: "smr_inv clk pa t" using s assms(2) by (auto simp: smr_state_def)
  have "smr_inv clk pa' t'" by (rule smr_step_inv [OF assms(3) i assms(4)])
  moreover have "queues p m ps ?w F R Q X L" by (rule queues_ps [OF q])
  ultimately have s': "smr_state p m ps clk ?w t' F R Q X L" using s by (simp add: smr_state_def below_def)
  have le: "t \<le> t'" by (rule smr_step_time [OF assms(3)])
  have "history_ok ps clk ?w t' X fr"
    unfolding history_ok_def
  proof (intro allI impI conjI)
    fix pa1 h i assume "w_ps ?w ps = Some pa1" and fr: "fr h = Some i"
    then have [simp]: "pa1 = pa'" by simp
    note d = history_okD [OF hi assms(2) fr]
    show "i < t'" using d(1) le by simp
    show "if h \<in> queued X then stamp ?w h = clk i else quiet clk pa1 i"
      using d quiet_step [OF assms(3) i assms(4) d(1)] by (auto simp: stamp_def)
  qed
  then show ?thesis using run_okI [OF _ s'] t0 le by simp
qed

lemma reclaim_time:
  assumes "ps_smr_reclaim no_env clk c m ffn w t = Some (w', t')"
  shows "t \<le> t'"
proof -
  obtain tsc p r p1 t1 w1 where "ps_quiesce 2 no_env clk False c tsc p t = Some (r, p1, t1)"
    and "(case r of Spinning \<Rightarrow> None | Returned z qsc \<Rightarrow> do {
         (early, w) \<leftarrow> reclaim_batch PS_QLIST_BATCH c qsc m ffn w1;
         w \<leftarrow> (if z \<noteq> 0 \<or> early then upd_sm m c (\<lambda>si. si\<lparr>sm_qmemtarget := sm_qmemtarget si + of_nat PS_QLIST_BATCH\<rparr>) w
               else Some w);
         Some (w, t1) }) = Some (w', t')"
    using assms unfolding ps_smr_reclaim_def Let_def ps_try_quiesce_def
    by (auto simp: bind_eq_Some_conv split: if_split_asm)
  then show ?thesis by (cases r) (auto simp: bind_eq_Some_conv dest!: quiesce_time)
qed

lemma free_time: "ps_memptr_free no_env clk p m b here w t = Some (w', t') \<Longrightarrow> t \<le> t'"
  by (auto simp: ps_memptr_free_def ps_smr_free_def Let_def bind_eq_Some_conv split: if_splits dest!: reclaim_time)

lemma smr_run_ok: "smr_run p m ps clk w t L fr \<Longrightarrow> advancing clk (t + 2 * PS_NUMCORES) \<Longrightarrow> run_ok p m ps clk w t L fr"
proof (induction rule: smr_run.induct)
  case (start w w')
  have "clk 0 < clk (Suc 0)" using start(6) by (simp add: advancing_def)
  from smr_state_init [OF start(5,1-4) this] show ?case by (rule run_okI [rotated]) (simp_all add: history_ok_def)
next
  case (answer w t L fr as)
  then obtain F R Q X where s: "smr_state p m ps clk w t F R Q X L" and hi: "history_ok ps clk w t X fr" and t0: "0 < t"
    by (auto simp: run_ok_def)
  let ?w = "w\<lparr>w_answers := as\<rparr>"
  have "slab_state p m ?w F R Q" by (rule slab_state_cong [rotated 6]) (use s in \<open>simp_all add: smr_state_def queues_def\<close>)
  then have "smr_state p m ps clk ?w t F R Q X L"
    using s by (simp add: smr_state_def queues_def below_def queue_ok_def stamped_def held_ok_def)
  moreover have "history_ok ps clk ?w t X fr = history_ok ps clk w t X fr" by (simp add: history_ok_def stamp_def)
  then have "history_ok ps clk ?w t X fr" using hi by blast
  ultimately show ?case using run_okI [OF t0] by blast
next
  case (alloc w t L fr c k numa b w')
  then have "run_ok p m ps clk w t L fr" by blast
  from run_ok_alloc [OF this alloc(2,3), of numa] obtain k0 h w1 where
    a: "\<forall>k \<ge> k0. ps_memptr_alloc k (backend_of p) m (c, numa) w = Some (ps_mhead_mem h, w1)"
    "run_ok p m ps clk w1 t (insert h L) fr" by blast
  have "ps_memptr_alloc (max k k0) (backend_of p) m (c, numa) w = Some (b, w')"
    using upto_fuelD [OF ps_slab_mem_alloc_mono, of k "max k k0"] alloc(4) unfolding ps_memptr_alloc_def on_core_alloc by simp
  then have "b = ps_mhead_mem h" "w' = w1" using a(1) by simp_all
  then show ?case using a(2) by simp
next
  case (free w t L fr h c numa w' t')
  have lt: "t < t'" if "run_ok p m ps clk w t L fr" "advancing clk (t + 2 * PS_NUMCORES)"
    using run_ok_free [OF that(1) free(2,3,4) that(2)] free(5) by auto
  have "t \<le> t'" by (rule free_time [OF free(5)])
  then have adv: "advancing clk (t + 2 * PS_NUMCORES)" by (intro advancing_less [OF free(7)]) simp
  from run_ok_free [OF free(6) [OF adv] free(2,3,4) adv] obtain w1 t1 where
    "ps_memptr_free no_env clk (backend_of p) m (ps_mhead_mem h) (c, numa) w t = Some (w1, t1)"
    "run_ok p m ps clk w1 t1 (L - {h}) (fr(h \<mapsto> t))" by blast
  moreover from this(1) free(5) have "w1 = w'" "t1 = t'" by simp_all
  ultimately show ?case by (simp only:)
next
  case (sect w t L fr pa pa' t')
  have "t \<le> t'" by (rule smr_step_time [OF sect(3)])
  then have "advancing clk (t + 2 * PS_NUMCORES)" "advancing clk t'"
    by (intro advancing_less [OF sect(5)]; simp)+
  then show ?case using run_ok_sect [OF sect(4) sect(2,3)] by blast
qed

section \<open>The properties\<close>

text \<open>
  C2: memory is not reused too early.  In every run of calls that do not overlap (allocations and frees on any
  cores, sections entered and left, calls of \<open>ps_quiesce\<close>, in any order, each ending before the next begins, with
  a counter that advances between readings; the race of C17 breaks the claim for calls that overlap): while a
  section is running that was entered before an object was freed, and may hold a reference to it, no
  allocation on any core hands that object out.
\<close>

theorem smr_no_early_reuse:
  assumes "smr_run p m ps clk w t L fr" and "advancing clk (t + 2 * PS_NUMCORES)"
    and "fr h = Some i" and "w_ps w ps = Some pa" and "e < PS_NUMCORES" and "ps_in_lib (tm pa e)" and "qt_time_in (tm pa e) < clk i"
    and "def_ready p w" and "c < PS_NUMCORES" and "ps_memptr_alloc k (backend_of p) m (c, numa) w = Some (b, w')"
  shows "b \<noteq> ps_mhead_mem h"
proof
  assume bh: "b = ps_mhead_mem h"
  have "run_ok p m ps clk w t L fr" by (rule smr_run_ok [OF assms(1,2)])
  from run_ok_alloc [OF this assms(8,9), of numa] obtain k0 h1 w1 where
    a: "\<forall>k \<ge> k0. ps_memptr_alloc k (backend_of p) m (c, numa) w = Some (ps_mhead_mem h1, w1)"
    "\<forall>pa i. w_ps w ps = Some pa \<longrightarrow> fr h1 = Some i \<longrightarrow> quiet clk pa i" by blast
  have "ps_memptr_alloc (max k k0) (backend_of p) m (c, numa) w = Some (b, w')"
    using upto_fuelD [OF ps_slab_mem_alloc_mono, of k "max k k0"] assms(10) unfolding ps_memptr_alloc_def on_core_alloc by simp
  then have "ps_mhead_mem h = ps_mhead_mem h1" using a(1) bh by simp
  then have "h = h1" using ps_mhead_get_mem by metis
  then have "quiet clk pa i" using a(2) assms(3,4) by blast
  then show False using assms(5-7) by (auto simp: quiet_def not_le [symmetric])
qed

text \<open>
  C3: no call of the whole fails.  In every such run an allocation returns an object that no client holds,
  and freeing a held object returns on any core: the queue is never empty where the code assumes it is not,
  every queued object is marked free, no assertion fails and the loops end.
\<close>

theorem smr_run_never_fails:
  assumes "smr_run p m ps clk w t L fr" and "advancing clk (t + 2 * PS_NUMCORES)" and "c < PS_NUMCORES"
  shows "(def_ready p w \<longrightarrow> (\<exists>k0. \<forall>k \<ge> k0. \<exists>h w'. ps_memptr_alloc k (backend_of p) m (c, numa) w =
      Some (ps_mhead_mem h, w') \<and> h \<notin> L)) \<and>
    (numa < PS_NUMLOCALITIES \<longrightarrow> (\<forall>h \<in> L. ps_memptr_free no_env clk (backend_of p) m (ps_mhead_mem h) (c, numa) w t \<noteq> None))"
proof (intro conjI impI ballI)
  have r: "run_ok p m ps clk w t L fr" by (rule smr_run_ok [OF assms(1,2)])
  { assume "def_ready p w"
    from run_ok_alloc [OF r this assms(3), of numa]
    show "\<exists>k0. \<forall>k \<ge> k0. \<exists>h w'. ps_memptr_alloc k (backend_of p) m (c, numa) w = Some (ps_mhead_mem h, w') \<and> h \<notin> L"
      by blast }
  fix h assume n: "numa < PS_NUMLOCALITIES" and h: "h \<in> L"
  obtain w' t' where "ps_memptr_free no_env clk (backend_of p) m (ps_mhead_mem h) (c, numa) w t = Some (w', t')"
    using run_ok_free [OF r h assms(3) n assms(2)] by blast
  then show "ps_memptr_free no_env clk (backend_of p) m (ps_mhead_mem h) (c, numa) w t \<noteq> None" by simp
qed

section \<open>An example run\<close>

text \<open>
  The parallel section at 32 and the allocator at 64 as in \<open>Slab_Runs\<close>; core 1 enters a section, then core 0
  allocates an object, frees it, and allocates again.
\<close>

definition ex_m0 :: world where "ex_m0 = the (ps_mem_init 64 32 (ex_w\<lparr>w_ps := [32 \<mapsto> ps_init (race_clk 0)]\<rparr>))"
definition ex_pa :: parsec where "ex_pa = the (ps_enter 1 (race_clk 1) (the (w_ps ex_m0 32)))"
definition ex_m1 :: world where "ex_m1 = ex_m0\<lparr>w_ps := (w_ps ex_m0)(32 \<mapsto> ex_pa)\<rparr>"
definition ex_m2 :: world where "ex_m2 = snd (the (ps_memptr_alloc 0 (backend_of ex_p) 64 (0, 0) ex_m1))"
definition ex_m3 :: world where "ex_m3 = fst (the (ps_memptr_free no_env race_clk (backend_of ex_p) 64 4216 (0, 0) ex_m2 2))"

lemma ex_run_m0: "smr_run ex_p 64 32 race_clk ex_m0 (Suc 0) {} Map.empty"
proof (rule smr_run.start [OF ex_params, where w = "ex_w\<lparr>w_ps := [32 \<mapsto> ps_init (race_clk 0)]\<rparr>"])
  have "ps_mem_init 64 32 (ex_w\<lparr>w_ps := [32 \<mapsto> ps_init (race_clk 0)]\<rparr>) \<noteq> None" by code_simp
  then show "ps_mem_init 64 32 (ex_w\<lparr>w_ps := [32 \<mapsto> ps_init (race_clk 0)]\<rparr>) = Some ex_m0" unfolding ex_m0_def by auto
qed (simp_all add: ex_w_def blocks_ok_def)

lemma ex_run_m1: "smr_run ex_p 64 32 race_clk ex_m1 2 {} Map.empty"
proof -
  have "w_ps ex_m0 32 \<noteq> None" by code_simp
  then obtain pa where pa: "w_ps ex_m0 32 = Some pa" by auto
  have "\<not> ps_in_lib (tm (the (w_ps ex_m0 32)) 1)" by code_simp
  then have n: "\<not> ps_in_lib (tm pa 1)" using pa by simp
  have "ps_enter 1 (race_clk 1) (the (w_ps ex_m0 32)) \<noteq> None" by code_simp
  then have "ps_enter 1 (race_clk 1) pa = Some ex_pa" using pa unfolding ex_pa_def by auto
  from smr_step.enter [OF n, where clk = race_clk and t = "Suc 0"] this
  have "smr_step race_clk (pa, Suc 0) (ex_pa, 2)" by (simp add: numeral_2_eq_2)
  from smr_run.sect [OF ex_run_m0 pa this] show ?thesis by (simp add: ex_m1_def)
qed

lemma ex_ready_m1: "def_ready ex_p ex_m1"
proof -
  have "w_blocks ex_m1 x = None" for x by code_simp
  moreover have "w_answers ex_m1 = [4096, 8192]" by code_simp
  ultimately show ?thesis by (simp add: def_ready_def good_block_def ex_p_def apart_def)
qed

lemma ex_run_m2: "smr_run ex_p 64 32 race_clk ex_m2 2 {4192} Map.empty"
proof -
  have "map_option fst (ps_memptr_alloc 0 (backend_of ex_p) 64 (0, 0) ex_m1) = Some 4216" by code_simp
  then have "ps_memptr_alloc 0 (backend_of ex_p) 64 (0, 0) ex_m1 = Some (4216, ex_m2)"
    unfolding ex_m2_def by (rule fst_snd_the)
  from smr_run.alloc [OF ex_run_m1 ex_ready_m1 _ this] show ?thesis
    by (simp add: ps_mhead_get_def sizeof_ps_mheader_def PS_NUMCORES_def)
qed

lemma ex_run_m3: "smr_run ex_p 64 32 race_clk ex_m3 3 {} [4192 \<mapsto> 2]"
proof -
  have "map_option snd (ps_memptr_free no_env race_clk (backend_of ex_p) 64 4216 (0, 0) ex_m2 2) = Some 3" by code_simp
  then have "ps_memptr_free no_env race_clk (backend_of ex_p) 64 (ps_mhead_mem 4192) (0, 0) ex_m2 2 = Some (ex_m3, 3)"
    unfolding ex_m3_def by (auto simp: ps_mhead_mem_def sizeof_ps_mheader_def)
  from smr_run.free [OF ex_run_m2 _ _ _ this] show ?thesis by (simp add: PS_NUMCORES_def PS_NUMLOCALITIES_def)
qed

lemma ex_ready_m3: "def_ready ex_p ex_m3"
proof -
  have "w_blocks ex_m3 x = (if x = 4096 then Some 176 else None)" for x by (code_simp, simp)
  moreover have "w_answers ex_m3 = [8192]" by code_simp
  ultimately show ?thesis by (simp add: def_ready_def good_block_def ex_p_def apart_def)
qed

theorem smr_no_early_reuse_witness:
  "\<exists>b w'. ps_memptr_alloc 0 (backend_of ex_p) 64 (0, 0) ex_m3 = Some (b, w') \<and> b \<noteq> ps_mhead_mem 4192"
proof -
  have "ps_memptr_alloc 0 (backend_of ex_p) 64 (0, 0) ex_m3 \<noteq> None" by code_simp
  then obtain b w' where a: "ps_memptr_alloc 0 (backend_of ex_p) 64 (0, 0) ex_m3 = Some (b, w')" by auto
  have "map_option (\<lambda>pa. ps_in_lib (tm pa 1) \<and> qt_time_in (tm pa 1) < race_clk 2) (w_ps ex_m3 32) = Some True" by code_simp
  then obtain pa where pa: "w_ps ex_m3 32 = Some pa" "ps_in_lib (tm pa 1)" "qt_time_in (tm pa 1) < race_clk 2" by auto
  have c: "0 < PS_NUMCORES" "1 < PS_NUMCORES" by (simp_all add: PS_NUMCORES_def)
  have adv: "advancing race_clk (3 + 2 * PS_NUMCORES)" by (rule race_clk_advancing) (simp add: PS_NUMCORES_def)
  have fr: "[4192 \<mapsto> 2] 4192 = Some (2 :: nat)" by simp
  from smr_no_early_reuse [OF ex_run_m3 adv fr pa(1) c(2) pa(2,3) ex_ready_m3 c(1) a] a show ?thesis by blast
qed

theorem smr_run_never_fails_witness:
  "(\<exists>k0. \<forall>k \<ge> k0. \<exists>h w'. ps_memptr_alloc k (backend_of ex_p) 64 (1, 0) ex_m1 = Some (ps_mhead_mem h, w')) \<and>
   ps_memptr_free no_env race_clk (backend_of ex_p) 64 (ps_mhead_mem 4192) (1, 0) ex_m2 2 \<noteq> None"
proof
  have c: "1 < PS_NUMCORES" "0 < PS_NUMLOCALITIES" by (simp_all add: PS_NUMCORES_def PS_NUMLOCALITIES_def)
  have adv: "advancing race_clk (2 + 2 * PS_NUMCORES)" by (rule race_clk_advancing) (simp add: PS_NUMCORES_def)
  show "\<exists>k0. \<forall>k \<ge> k0. \<exists>h w'. ps_memptr_alloc k (backend_of ex_p) 64 (1, 0) ex_m1 = Some (ps_mhead_mem h, w')"
    using smr_run_never_fails [OF ex_run_m1 adv c(1), of 0] ex_ready_m1 by auto
  show "ps_memptr_free no_env race_clk (backend_of ex_p) 64 (ps_mhead_mem 4192) (1, 0) ex_m2 2 \<noteq> None"
    using smr_run_never_fails [OF ex_run_m2 adv c(1), of 0] c(2) by auto
qed

end
