(* ===== verification/Slab_Queries.thy ===== *)
theory Slab_Queries
  imports Slab_Runs
begin

text \<open>
  The functions that only look at an allocator: the test for emptiness, the statistics, the place of an
  object in its slab and the consistency checks of the debug build, each against the invariant.
\<close>

section \<open>Emptiness\<close>

lemma all_of_Some:
  assumes "\<And>x. x \<in> set xs \<Longrightarrow> f x = Some (P x)"
  shows "all_of f xs = Some (\<forall>x \<in> set xs. P x)"
  using assms by (induction xs) auto

lemma remote_empty:
  assumes "remotes_ok p m w F Q" and "home F c = {}"
  shows "Q c l k = []"
proof (rule ccontr)
  assume "Q c l k \<noteq> []"
  then obtain h where "h \<in> set (Q c l k)" by (cases "Q c l k") auto
  then have "waiting p w F c h" using remotes_okD(3) [OF assms(1)] by blast
  then show False using assms(2) by (auto simp: waiting_def home_def)
qed

lemma remote_head:
  assumes "remotes_ok p m w F Q" and "in_range c l k" and "Q c l k = []"
  shows "get_remote m c l k w = Some null"
  using remotes_okD(1) [OF assms(1,2)] assms(3) by (auto simp: remote_rep_def)

lemma no_slab_iff:
  assumes "slab_inv p m w F R Q" and "params_ok p"
  shows "F = Map.empty \<longleftrightarrow> live p F Q = {} \<and> pending Q = {}"
proof
  assume "F = Map.empty"
  then show "live p F Q = {} \<and> pending Q = {}"
    using pending_waiting [OF slab_invD(4) [OF assms(1)]] by (auto simp: live_def owned_def waiting_def)
next
  assume e: "live p F Q = {} \<and> pending Q = {}"
  have "F s = None" for s
  proof (rule ccontr)
    assume "F s \<noteq> None"
    then obtain mem c fs where F: "F s = Some (mem, c, fs)" by (cases "F s") auto
    have rep: "slab_rep p w s mem c fs" by (rule slabs_okD [OF slab_invD(1) [OF assms(1)] F])
    have "card (set fs) < card (set (slab_objs p mem))"
      using slab_invD(5) [OF assms(1) F] distinct_slab_objs [OF assms(2), of mem] rep card_length [of fs]
      by (auto simp: slab_rep_def distinct_card intro: le_less_trans)
    then have "\<not> set (slab_objs p mem) \<subseteq> set fs" using card_mono [OF finite_set] by (metis leD)
    then obtain h where "h \<in> set (slab_objs p mem)" "h \<notin> set fs" by auto
    with F have "h \<in> owned p F" by (rule ownedI)
    with e show False by (auto simp: live_def)
  qed
  then show "F = Map.empty" by auto
qed

lemma home_empty_iff:
  assumes "slabs_ok p w F"
  shows "F = Map.empty \<longleftrightarrow> (\<forall>c \<in> {0..<PS_NUMCORES}. home F c = {})"
proof
  assume h: "\<forall>c \<in> {0..<PS_NUMCORES}. home F c = {}"
  have "F s = None" for s
  proof (cases "F s")
    case (Some x)
    then obtain mem c fs where F: "F s = Some (mem, c, fs)" by (cases x) auto
    then have "c < PS_NUMCORES" using slabs_okD [OF assms] by (auto simp: slab_rep_def)
    then show ?thesis using h F by (fastforce simp: home_def)
  qed simp
  then show "F = Map.empty" by auto
qed (simp add: home_def)

lemma isempty_state:
  assumes "slab_state p m w F R Q"
  shows "ps_slabptr_isempty m w = Some (live p F Q = {} \<and> pending Q = {})"
proof -
  have inv: "slab_inv p m w F R Q" and ok: "params_ok p" using assms by (auto simp: slab_state_def def_binv_def)
  note i = slab_invD [OF inv]
  let ?body = "\<lambda>c. do { si \<leftarrow> get_si m c w;
       if si_nslabs si \<noteq> 0 then Some False
       else all_of (\<lambda>j. all_of (\<lambda>k. do { h \<leftarrow> get_remote m c j k w; Some (h = null) }) [0..<PS_NUMLOCALITIES])
              [0..<PS_NUMLOCALITIES] }"
  have "?body c = Some (home F c = {})" if "c \<in> set [0..<PS_NUMCORES]" for c
  proof -
    from that obtain si where si: "get_si m c w = Some si" "unat (si_nslabs si) = card (home F c)"
      using i(3) by (auto simp: counts_ok_def)
    have fin: "finite (home F c)" using i(1) by (intro finite_home) (simp add: slabs_ok_def)
    show ?thesis
    proof (cases "home F c = {}")
      case True
      have "get_remote m c j k w = Some null" if "j < PS_NUMLOCALITIES" "k < PS_NUMLOCALITIES" for j k
        by (rule remote_head [OF i(4) _ remote_empty [OF i(4) True]])
           (use that \<open>c \<in> set [0..<PS_NUMCORES]\<close> in \<open>auto simp: in_range_def PS_NUMLOCALITIES_def NUM_REMOTE_LIST_def PS_CACHE_LINE_def\<close>)
      then have "all_of (\<lambda>j. all_of (\<lambda>k. do { h \<leftarrow> get_remote m c j k w; Some (h = null) }) [0..<PS_NUMLOCALITIES])
              [0..<PS_NUMLOCALITIES] = Some True"
        by (subst all_of_Some [where P = "\<lambda>_. True"], subst all_of_Some [where P = "\<lambda>_. True"]) auto
      moreover have "si_nslabs si = 0" using si(2) True by (simp add: unat_eq_0)
      ultimately show ?thesis using si(1) True by simp
    next
      case False
      then have "si_nslabs si \<noteq> 0" using si(2) fin by auto
      then show ?thesis using si(1) False by simp
    qed
  qed
  then have "ps_slabptr_isempty m w = Some (\<forall>c \<in> set [0..<PS_NUMCORES]. home F c = {})"
    unfolding ps_slabptr_isempty_def by (rule all_of_Some)
  then show ?thesis using home_empty_iff [OF i(1)] no_slab_iff [OF inv ok] by simp
qed

text \<open>
  C11: \<open>ps_slabptr_isempty\<close> returns, and says yes exactly when no object is handed out and none waits in
  a remote list.
\<close>

theorem ps_slabptr_isempty_correct:
  assumes "slab_state p m w F R Q"
  shows "ps_slabptr_isempty m w = Some (live p F Q = {} \<and> pending Q = {})"
  by (rule isempty_state [OF assms])

theorem ps_slabptr_isempty_correct_witness: "ps_slabptr_isempty 64 ex_w0 = Some True"
proof -
  have "slab_state ex_p 64 ex_w0 Map.empty (\<lambda>_. []) (\<lambda>_ _ _. [])"
    by (rule slab_state_init [OF ex_init ex_params]) (simp add: ex_w_def blocks_ok_def)
  from ps_slabptr_isempty_correct [OF this] show ?thesis by (simp add: live_init pending_def)
qed

section \<open>Walking a ring\<close>

lemma dll_prev: "dll m (x # xs) \<Longrightarrow> get_ll_p x m = Some (last (x # xs))"
  by (cases xs rule: rev_cases) (auto simp: seg_append)

lemma ring_prev: "objs_dll off ls (x # xs) \<Longrightarrow> ps_list_prev x off ls = Some (last (x # xs))"
  using dll_prev [of ls "x + off" "map (\<lambda>ob. ob + off) xs"]
  by (auto simp: objs_dll_def obj_defs last_map simp del: dll.simps)

lemma ring_step:
  assumes "objs_dll off ls (us @ y # vs)"
  shows "ps_list_next y off ls = Some (hd (vs @ us @ [y]))" "ps_list_prev (hd (vs @ us @ [y])) off ls = Some y"
    "\<exists>q. ps_list_prev y off ls = Some q \<and> ps_list_next q off ls = Some y"
proof -
  have r: "objs_dll off ls (y # vs @ us)" using assms pl.ring_rotate [of off ls us "y # vs"] by simp
  show n: "ps_list_next y off ls = Some (hd (vs @ us @ [y]))"
  proof (cases "vs @ us")
    case Nil
    then show ?thesis using r by (auto simp: objs_dll_def obj_defs)
  next
    case (Cons z zs)
    then have "hd (vs @ us @ [y]) = z" by (cases vs) auto
    then show ?thesis using Cons pl.ring_next [of off ls y z zs] r by simp
  qed
  show "ps_list_prev (hd (vs @ us @ [y])) off ls = Some y"
  proof (cases "vs @ us")
    case Nil
    then show ?thesis using r ring_prev [of off ls y "[]"] by simp
  next
    case (Cons z zs)
    then have "objs_dll off ls (z # zs @ [y])" using r pl.ring_rotate [of off ls "[y]" "z # zs"] by simp
    then have "ps_list_prev z off ls = Some y" using ring_prev [of off ls z "zs @ [y]"] by simp
    moreover have "hd (vs @ us @ [y]) = z" using Cons by (cases vs) auto
    ultimately show ?thesis by simp
  qed
  show "\<exists>q. ps_list_prev y off ls = Some q \<and> ps_list_next q off ls = Some y"
  proof (cases "vs @ us" rule: rev_cases)
    case Nil
    then show ?thesis using r ring_prev [of off ls y "[]"] n by auto
  next
    case (snoc zs z)
    then have "objs_dll off ls (z # y # zs)" using r pl.ring_rotate [of off ls "y # zs" "[z]"] by simp
    then have "ps_list_next z off ls = Some y" using pl.ring_next by blast
    moreover have "ps_list_prev y off ls = Some z" using ring_prev [OF r] snoc by simp
    ultimately show ?thesis by blast
  qed
qed

section \<open>The checks of the debug build\<close>

lemma check_headers_ok:
  assumes "chain mh_next mh a fs" and "length fs \<le> k"
    and "\<And>h. h \<in> set fs \<Longrightarrow> \<exists>d. mh h = Some d \<and> mh_slab d = s \<and> mh_tsc_free d \<noteq> 0"
  shows "check_headers k s a i mh = Some (i + of_nat (length fs))"
  using assms
proof (induction fs arbitrary: a i k)
  case Nil
  then show ?case by (simp add: check_header_def check_headers.simps)
next
  case (Cons h fs)
  obtain d where d: "mh h = Some d" "mh_slab d = s" "mh_tsc_free d \<noteq> 0" using Cons.prems(3) [of h] by auto
  obtain k' where k: "k = Suc k'" using Cons.prems(2) by (cases k) auto
  have a: "a = h" "h \<noteq> null" "chain mh_next mh (mh_next d) fs" using Cons.prems(1) d(1) by auto
  have "check_headers k' s (mh_next d) (i + 1) mh = Some (i + 1 + of_nat (length fs))"
    by (rule Cons.IH [OF a(3)]) (use Cons.prems k in auto)
  then show ?case using a d k by (simp add: check_header_def check_headers.simps [of "Suc k'"] algebra_simps)
qed

lemma consistent_slab:
  assumes "slabs_ok p w F" and "F s = Some (mem, c, fs)" and "params_ok p" and "length fs \<le> k"
  shows "ps_slab_check_consistency k s w = Some ()"
proof -
  note rep = slabs_okD [OF assms(1,2)]
  obtain sl where sl: "w_sl w s = Some sl" "unat (sl_nfree sl) = length fs" "chain mh_next (w_mh w) (sl_freelist sl) fs"
    using rep by (auto simp: slab_rep_def)
  have "check_headers k s (sl_freelist sl) 0 (w_mh w) = Some (0 + of_nat (length fs))"
    by (rule check_headers_ok [OF sl(3) assms(4)])
       (use rep in \<open>auto simp: slab_rep_def headers_ok_def\<close>)
  moreover have "length fs \<le> nobjs p"
    using free_length [OF free_distinct(1) [OF rep]] rep by (auto simp: slab_rep_def)
  then have "length fs < 2 ^ 32" using nobjs_bounds(2) [OF assms(3)] by simp
  then have "ucast (of_nat (length fs) :: u32) = sl_nfree sl"
    using sl(2) by (intro word_eq_unatI) (simp add: unsigned_ucast_eq unat_of_nat take_bit_nat_eq_self)
  moreover have "s \<noteq> null" using rep by (simp add: slab_rep_def)
  ultimately show ?thesis using sl(1) by (simp add: ps_slab_check_consistency_def)
qed

lemma check_from_ok:
  assumes "slabs_ok p w F" and "params_ok p" and "objs_dll SLAB_LIST (w_ls w) (us @ vs)" and "vs \<noteq> []"
    and "\<forall>s \<in> set (us @ vs). \<exists>mem c fs. F s = Some (mem, c, fs) \<and> fs \<noteq> [] \<and> length fs \<le> k" and "length vs \<le> n"
  shows "freelist_check_from n k (hd vs) (hd (us @ vs)) w = Some ()"
  using assms(3-6)
proof (induction vs arbitrary: us n)
  case (Cons s vs)
  obtain n' where n: "n = Suc n'" using Cons.prems(4) by (cases n) auto
  obtain mem c fs where F: "F s = Some (mem, c, fs)" "fs \<noteq> []" "length fs \<le> k" using Cons.prems(3) by auto
  note rep = slabs_okD [OF assms(1) F(1)]
  obtain sl where sl: "w_sl w s = Some sl" "sl_memory sl \<noteq> null" "sl_freelist sl \<noteq> null"
    using rep F(2) by (cases fs) (auto simp: slab_rep_def fits_def)
  let ?n = "hd (vs @ us @ [s])"
  obtain q where st: "ps_list_next s SLAB_LIST (w_ls w) = Some ?n" "ps_list_prev ?n SLAB_LIST (w_ls w) = Some s"
    "ps_list_prev s SLAB_LIST (w_ls w) = Some q" "ps_list_next q SLAB_LIST (w_ls w) = Some s"
    using ring_step [of SLAB_LIST "w_ls w" us s vs] Cons.prems(1) by auto
  have pre: "freelist_check_from n k s fl w = (if ?n \<noteq> fl then freelist_check_from n' k ?n fl w else Some ())" for fl
    unfolding n using sl st consistent_slab [OF assms(1) F(1) assms(2) F(3)] by simp
  show ?case
  proof (cases vs)
    case Nil
    then have "?n = hd (us @ s # vs)" by (cases us) auto
    then show ?thesis using pre by simp
  next
    case (Cons z zs)
    have "distinct (us @ s # vs)" using Cons.prems(1) pl.ring_distinct by blast
    then have ne: "?n \<noteq> hd (us @ s # vs)" using Cons by (cases us) auto
    have "freelist_check_from n' k (hd vs) (hd ((us @ [s]) @ vs)) w = Some ()"
      by (rule Cons.IH) (use Cons.prems n Cons in auto)
    then show ?thesis using pre ne Cons by (simp add: hd_append)
  qed
qed simp

text \<open>
  C12: the debug build's checks never fail.  In every good state \<open>ps_slab_freelist_check\<close> goes through the
  ring of any core once (in as many rounds as the ring has slabs) and each of its assertions holds: the
  links of neighbours agree, every free object points to its slab and is marked free, and the count of
  free objects is the length of the free list.
\<close>

theorem ps_slab_freelist_check_passes:
  assumes "slab_state p m w F R Q" and "get_si m c w = Some si" and "c < PS_NUMCORES"
    and "length (R c) \<le> n" and "nobjs p \<le> k"
  shows "ps_slab_freelist_check n k (si_fl si) w = Some ()"
proof -
  have inv: "slab_inv p m w F R Q" and ok: "params_ok p" using assms(1) by (auto simp: slab_state_def def_binv_def)
  note i = slab_invD [OF inv]
  have r: "pl.list_at SLAB_LIST (w_ls w) (si_fl si) (R c)" "set (R c) = partial F c"
    using rings_okD [OF i(2) assms(3)] assms(2) by (metis option.inject)+
  show ?thesis
  proof (cases "R c")
    case Nil
    then show ?thesis using r(1) by (simp add: pl.list_at_def ps_slab_freelist_check_def)
  next
    case (Cons x xs)
    have f: "\<forall>s \<in> set (R c). \<exists>mem c fs. F s = Some (mem, c, fs) \<and> fs \<noteq> [] \<and> length fs \<le> k"
    proof
      fix s assume "s \<in> set (R c)"
      then obtain mem fs where F: "F s = Some (mem, c, fs)" "fs \<noteq> []" using r(2) by (auto simp: partial_def)
      have "length fs \<le> k" using i(5) [OF F(1)] assms(5) by simp
      with F show "\<exists>mem c fs. F s = Some (mem, c, fs) \<and> fs \<noteq> [] \<and> length fs \<le> k" by blast
    qed
    have l: "objs_dll SLAB_LIST (w_ls w) (R c)" "si_fl si = x" "x \<noteq> null"
      using r(1) Cons by (auto simp: pl.list_at_def)
    have "freelist_check_from n k (hd (R c)) (hd ([] @ R c)) w = Some ()"
      by (rule check_from_ok [OF i(1) ok]) (use l f Cons assms(4) in auto)
    then show ?thesis using l Cons by (simp add: ps_slab_freelist_check_def)
  qed
qed

theorem ps_slab_freelist_check_passes_witness: "\<exists>n. ps_slab_freelist_check n 2 4096 ex_w1 = Some ()"
proof -
  obtain F R Q where s: "slab_state ex_p 64 ex_w1 F R Q" using slab_run_state [OF ex_run1] by blast
  have "map_option si_fl (get_si 64 0 ex_w1) = Some 4096" by code_simp
  then obtain si where si: "get_si 64 0 ex_w1 = Some si" "si_fl si = 4096" by auto
  have n: "nobjs ex_p \<le> 2" by code_simp
  have "0 < PS_NUMCORES" by (simp add: PS_NUMCORES_def)
  from ps_slab_freelist_check_passes [OF s si(1) this order_refl n] show ?thesis using si(2) by auto
qed

section \<open>Statistics\<close>

text \<open>The length of the free list of a slab.\<close>

definition nfree :: "slabs \<Rightarrow> addr \<Rightarrow> nat" where
  "nfree F s = (case F s of None \<Rightarrow> 0 | Some (mem, c, fs) \<Rightarrow> length fs)"

lemma slab_nfree:
  assumes "slabs_ok p w F" and "s \<in> partial F c"
  shows "\<exists>sl. w_sl w s = Some sl \<and> sl_nfree sl = of_nat (nfree F s)"
proof -
  obtain mem fs where F: "F s = Some (mem, c, fs)" using assms(2) by (auto simp: partial_def)
  then obtain sl where "w_sl w s = Some sl" "unat (sl_nfree sl) = nfree F s"
    using slabs_okD [OF assms(1) F] by (auto simp: slab_rep_def nfree_def)
  then show ?thesis using word_of_unatI by blast
qed

lemma stats_ring_ok:
  assumes "objs_dll SLAB_LIST (w_ls w) (us @ vs)" and "vs \<noteq> []" and "null \<notin> set vs" and "length vs \<le> k"
    and "\<And>s. s \<in> set vs \<Longrightarrow> \<exists>sl. w_sl w s = Some sl \<and> sl_nfree sl = of_nat (f s)"
  shows "stats_ring k (hd vs) (hd (us @ vs)) st w = Some (st\<lparr>st_npartslabs := st_npartslabs st + of_nat (length vs),
      st_nfree := st_nfree st + of_nat (sum_list (map f vs))\<rparr>)"
  using assms
proof (induction vs arbitrary: us k st)
  case (Cons s vs)
  obtain k' where k: "k = Suc k'" using Cons.prems(4) by (cases k) auto
  obtain sl where sl: "w_sl w s = Some sl" "sl_nfree sl = of_nat (f s)" using Cons.prems(5) [of s] by auto
  let ?n = "hd (vs @ us @ [s])"
  let ?st = "st\<lparr>st_npartslabs := st_npartslabs st + 1, st_nfree := st_nfree st + of_nat (f s)\<rparr>"
  have nx: "ps_list_next s SLAB_LIST (w_ls w) = Some ?n" by (rule ring_step(1) [OF Cons.prems(1)])
  have pre: "stats_ring k s fl st w = (if ?n \<noteq> fl then stats_ring k' ?n fl ?st w else Some ?st)" for fl
    unfolding k using sl nx Cons.prems(3) by (auto simp: Let_def)
  show ?case
  proof (cases vs)
    case Nil
    then have "?n = hd (us @ s # vs)" by (cases us) auto
    then show ?thesis using pre Nil by simp
  next
    case (Cons z zs)
    have "distinct (us @ s # vs)" using Cons.prems(1) pl.ring_distinct by blast
    then have ne: "?n \<noteq> hd (us @ s # vs)" using Cons by (cases us) auto
    have "stats_ring k' (hd vs) (hd ((us @ [s]) @ vs)) ?st w = Some (?st\<lparr>st_npartslabs := st_npartslabs ?st + of_nat (length vs),
      st_nfree := st_nfree ?st + of_nat (sum_list (map f vs))\<rparr>)"
      by (rule Cons.IH) (use Cons.prems k Cons in auto)
    then show ?thesis using pre ne Cons by (simp add: hd_append algebra_simps)
  qed
qed simp

lemma remote_free_cnt_ok:
  assumes "chain mh_next mh a xs" and "length xs \<le> k"
  shows "ps_remote_free_cnt k a mh = Some (length xs)"
  using assms
proof (induction xs arbitrary: a k)
  case (Cons x xs)
  then obtain k' d where k: "k = Suc k'" and d: "mh x = Some d" "a = x" "x \<noteq> null" "chain mh_next mh (mh_next d) xs"
    by (cases k) (auto split: option.splits)
  have "ps_remote_free_cnt k' (mh_next d) mh = Some (length xs)"
    by (rule Cons.IH [OF d(4)]) (use Cons.prems(2) k in simp)
  then show ?case using d k by (simp add: ps_remote_free_cnt.simps [of "Suc k'"] get_mh_next_def)
qed (simp add: ps_remote_free_cnt.simps)

lemma stats_remote_ok:
  assumes "remotes_ok p m w F Q" and "\<And>j i. (j, i) \<in> set jis \<Longrightarrow> in_range c j i \<and> length (Q c j i) \<le> k"
  shows "stats_remote k jis c st m w = Some (st\<lparr>st_nremote := st_nremote st + of_nat (\<Sum>(j, i) \<leftarrow> jis. length (Q c j i))\<rparr>)"
  using assms(2)
proof (induction jis arbitrary: st)
  case (Cons ji jis)
  obtain j i where ji: "ji = (j, i)" by (cases ji)
  then obtain a where "get_remote m c j i w = Some a" "chain mh_next (w_mh w) a (Q c j i)"
    using remotes_okD(1) [OF assms(1), of c j i] Cons.prems [of j i] by (auto simp: remote_rep_def)
  then show ?case
    using Cons.IH Cons.prems [of j i] remote_free_cnt_ok [of "w_mh w" a "Q c j i" k] Cons.prems ji
    by (simp add: algebra_simps)
qed simp

text \<open>
  C24: the statistics are right, but for the remote frees: of each core \<open>ps_slabptr_stats\<close> gives the number
  of its slabs, of those on its ring and of the objects free in these.  As the objects waiting it gives
  the length of the first remote list only, although there are \<open>NUM_REMOTE_LIST\<close> of them.
\<close>

theorem ps_slabptr_stats_correct:
  assumes "slab_state p m w F R Q" and "c < PS_NUMCORES" and "length (R c) < k" and "length (Q c 0 0) \<le> k"
  shows "stats_core k m c w = Some \<lparr>st_nslabs = of_nat (card (home F c)), st_npartslabs = of_nat (card (partial F c)),
      st_nfree = of_nat (\<Sum>s \<in> partial F c. nfree F s), st_nremote = of_nat (length (Q c 0 0))\<rparr>"
proof -
  have inv: "slab_inv p m w F R Q" and ok: "params_ok p" using assms(1) by (auto simp: slab_state_def def_binv_def)
  note i = slab_invD [OF inv]
  obtain si where si: "get_si m c w = Some si" "unat (si_nslabs si) = card (home F c)"
    using i(3) assms(2) by (auto simp: counts_ok_def)
  have ns: "si_nslabs si = of_nat (card (home F c))" using si(2) by (rule word_of_unatI)
  have r: "pl.list_at SLAB_LIST (w_ls w) (si_fl si) (R c)" "set (R c) = partial F c"
    using rings_okD [OF i(2) assms(2)] si(1) by (metis option.inject)+
  let ?s0 = "\<lparr>st_nslabs = si_nslabs si, st_npartslabs = 0, st_nfree = 0, st_nremote = 0\<rparr>"
  let ?s1 = "\<lparr>st_nslabs = si_nslabs si, st_npartslabs = of_nat (length (R c)),
      st_nfree = of_nat (sum_list (map (nfree F) (R c))), st_nremote = 0\<rparr>"
  have ring: "stats_ring k (si_fl si) (si_fl si) ?s0 w = Some ?s1"
  proof (cases "R c")
    case Nil
    then show ?thesis using r(1) assms(3) by (cases k) (simp_all add: pl.list_at_def)
  next
    case (Cons x xs)
    then have l: "objs_dll SLAB_LIST (w_ls w) ([] @ R c)" "R c \<noteq> []" "null \<notin> set (R c)" "si_fl si = x"
      using r(1) by (auto simp: pl.list_at_def)
    have "stats_ring k (hd (R c)) (hd ([] @ R c)) ?s0 w = Some (?s0\<lparr>st_npartslabs := st_npartslabs ?s0 + of_nat (length (R c)),
      st_nfree := st_nfree ?s0 + of_nat (sum_list (map (nfree F) (R c)))\<rparr>)"
      by (rule stats_ring_ok [OF l(1-3)]) (use assms(3) r(2) slab_nfree [OF i(1)] in auto)
    then show ?thesis using l(4) Cons by simp
  qed
  have d: "distinct (R c)" using r(1) pl.ring_distinct by (auto simp: pl.list_at_def split: if_splits)
  have "List.product [0..<PS_NUMLOCALITIES] [0..<PS_NUMLOCALITIES] = [(0, 0)]"
    by (simp add: PS_NUMLOCALITIES_def)
  moreover have "stats_remote k [(0, 0)] c ?s1 m w = Some (?s1\<lparr>st_nremote := st_nremote ?s1 +
      of_nat (\<Sum>(j, i) \<leftarrow> [(0, 0)]. length (Q c j i))\<rparr>)"
    by (rule stats_remote_ok [OF i(4)])
       (use assms(2,4) in \<open>auto simp: in_range_def PS_NUMLOCALITIES_def NUM_REMOTE_LIST_def PS_CACHE_LINE_def\<close>)
  ultimately have "stats_core k m c w = Some (?s1\<lparr>st_nremote := of_nat (length (Q c 0 0))\<rparr>)"
    using si(1) ring by (simp add: stats_core_def)
  moreover have "length (R c) = card (partial F c)" using d r(2) distinct_card by metis
  moreover have "sum_list (map (nfree F) (R c)) = (\<Sum>s \<in> partial F c. nfree F s)"
    using sum_list_distinct_conv_sum_set [OF d, of "nfree F"] r(2) by simp
  ultimately show ?thesis using ns by simp
qed

theorem ps_slabptr_stats_correct_witness: "stats_core 1 64 2 ex_w0 = Some \<lparr>st_nslabs = 0, st_npartslabs = 0, st_nfree = 0, st_nremote = 0\<rparr>"
proof -
  have "slab_state ex_p 64 ex_w0 Map.empty (\<lambda>_. []) (\<lambda>_ _ _. [])"
    by (rule slab_state_init [OF ex_init ex_params]) (simp add: ex_w_def blocks_ok_def)
  from ps_slabptr_stats_correct [OF this, of 2 1] show ?thesis by (simp add: home_def partial_def PS_NUMCORES_def)
qed

section \<open>The place of an object\<close>

text \<open>\<open>ps_slab_objoff\<close> of the memory of the \<open>i\<close>-th object of a slab is \<open>i\<close>.\<close>

lemma slab_objoff_at:
  assumes ok: "params_ok p" and inv: "slabs_ok p w F" and F: "F s = Some (mem, c, fs)" and i: "i < nobjs p"
  shows "ps_slab_objoff p (ps_mhead_mem (obj_at p mem i)) w = Some (of_nat i)"
proof -
  note rep = slabs_okD [OF inv F]
  then have fit: "fits p mem" by (simp add: slab_rep_def)
  let ?h = "obj_at p mem i"
  have "?h \<in> set (slab_objs p mem)" using i by (simp add: slab_objs_def)
  then obtain d where d: "w_mh w ?h = Some d" "mh_slab d = s" using header_slab [OF inv F] by blast
  obtain sl where sl: "w_sl w s = Some sl" "sl_memory sl = mem" using rep by (auto simp: slab_rep_def)
  have "unat (?h - (mem + sp_headoff p)) = i * objsz p"
    using unat_obj_at [OF ok fit, of i] unat_obj_at [OF ok fit, of 0] i
    unfolding obj_at_0 [symmetric] by (subst unat_sub_small) simp_all
  then have "unat (ps_slab_objsoff mem ?h (sp_obj_sz p) (sp_headoff p)) = i"
    using objsz_bounds(1) [OF ok] by (simp add: ps_slab_objsoff_def unat_div)
  moreover have "(ucast (ps_slab_objsoff mem ?h (sp_obj_sz p) (sp_headoff p)) :: u32) =
      of_nat (unat (ps_slab_objsoff mem ?h (sp_obj_sz p) (sp_headoff p)))" by simp
  ultimately have "(ucast (ps_slab_objsoff mem ?h (sp_obj_sz p) (sp_headoff p)) :: u32) = of_nat i" by (simp only:)
  then show ?thesis using d sl by (simp add: ps_slab_objoff_def)
qed

section \<open>One object per slab\<close>

lemma check_headers_loop:
  assumes "\<And>i. check_header s h i mh = Some (h, i + 1)" and "h \<noteq> null"
  shows "check_headers k s h i mh = None"
proof (induction k arbitrary: i)
  case (Suc k)
  then show ?case using assms by (simp add: check_headers.simps [of "Suc k"])
qed (use assms in \<open>simp add: check_headers.simps\<close>)

text \<open>
  C25: sizes with one object per slab are accepted (\<open>params_ok\<close>, which the properties above assume, is not
  checked anywhere).  Then \<open>ps_slab_init\<close>, whenever it returns, has linked the only header to itself, and the
  consistency check of the debug build, which the C function ends with, does not come to an end: the first header
  is not null, every round on it passes its assertions and goes on with the same header, so no number of rounds is
  enough.
\<close>

theorem ps_slab_one_object_check_diverges:
  assumes "ps_slab_max_nobjs (sp_obj_sz p) (sp_allocsz p) (sp_headoff p) = 1" and "ps_slab_init s m p here w = Some w'"
    and "w_sl w s = Some sl" and "sl_memory sl + sp_headoff p \<noteq> null"
  shows "\<exists>sl' h. w_sl w' s = Some sl' \<and> sl_freelist sl' = h \<and> sl_nfree sl' = 1 \<and> h \<noteq> null \<and>
    (\<forall>i. check_header s h i (w_mh w') = Some (h, i + 1)) \<and> (\<forall>k. ps_slab_check_consistency k s w' = None)"
proof -
  define h where "h = sl_memory sl + sp_headoff p"
  have n: "(sp_allocsz p - sp_headoff p) div ps_slab_objmemsz (sp_obj_sz p) = 1"
    using assms(1) by (simp add: ps_slab_max_nobjs_def)
  obtain mh1 mh2 w1 where 1: "ps_mhead_init h s (w_mh w) = Some mh1" "set_mh_next h h mh1 = Some mh2"
    and ls: "on_ls (ps_list_init s SLAB_LIST) (w\<lparr>w_sl := (w_sl w)(s \<mapsto> sl\<lparr>sl_nfree := 1, sl_memsz := sp_allocsz p,
      sl_coreid := fst here, sl_freelist := h\<rparr>), w_mh := mh2\<rparr>) = Some w1"
    and ring: "on_ring (\<lambda>fl. slab_freelist_add fl s) m (sp_coreid p) w1 = Some w'"
    using assms(2,3) by (auto simp: ps_slab_init_def Let_def n upd_slab_def h_def bind_eq_Some_conv numeral_eq_Suc split: if_splits)
  have f1: "w_mh w1 = mh2" "w_sl w1 s = Some (sl\<lparr>sl_nfree := 1, sl_memsz := sp_allocsz p, sl_coreid := fst here, sl_freelist := h\<rparr>)"
    using ls by (auto simp: on_ls_def bind_eq_Some_conv)
  have "w_mh w' = w_mh w1" "w_sl w' = w_sl w1"
    using ring by (auto simp: on_ring_def upd_si_def upd_pc_def bind_eq_Some_conv)
  note f = f1 [folded this]
  obtain d where "mh2 h = Some d" "mh_slab d = s" "mh_tsc_free d = 1" "mh_next d = h"
    using 1 by (auto simp: ps_mhead_init_def ps_mhead_setfree_def set_mh_next_def upd_mh_def bind_eq_Some_conv split: option.splits)
  then have r: "check_header s h i (w_mh w') = Some (h, i + 1)" for i using f by (simp add: check_header_def)
  have h: "h \<noteq> null" using assms(4) by (simp add: h_def)
  have "ps_slab_check_consistency k s w' = None" for k
    using f(2) check_headers_loop [OF r h] by (simp add: ps_slab_check_consistency_def c_assert_def)
  with f(2) r h show ?thesis by simp
qed

definition ex_one :: slab_params where "ex_one = backend_of (ex_p\<lparr>sp_allocsz := 128\<rparr>)"

definition ex_one_w :: world where
  "ex_one_w = snd (the (sp_afn ex_one 64 128 0 ex_w0))"

theorem ps_slab_one_object_check_diverges_witness:
  "\<exists>w'. ps_slab_init 4096 64 ex_one (0, 0) ex_one_w = Some w' \<and>
     check_header 4096 4192 0 (w_mh w') = Some (4192, 1) \<and> ps_slab_check_consistency 1000 4096 w' = None"
proof -
  have "ps_slab_init 4096 64 ex_one (0, 0) ex_one_w \<noteq> None" by code_simp
  then obtain w' where w': "ps_slab_init 4096 64 ex_one (0, 0) ex_one_w = Some w'" by auto
  have "map_option sl_memory (w_sl ex_one_w 4096) = Some 4096" by code_simp
  then obtain sl where sl: "w_sl ex_one_w 4096 = Some sl" "sl_memory sl = 4096" by auto
  have n: "ps_slab_max_nobjs (sp_obj_sz ex_one) (sp_allocsz ex_one) (sp_headoff ex_one) = 1" and o: "sp_headoff ex_one = 96"
    by code_simp+
  have "(case ps_slab_init 4096 64 ex_one (0, 0) ex_one_w of None \<Rightarrow> False
    | Some w \<Rightarrow> map_option sl_freelist (w_sl w 4096) = Some 4192)" by code_simp
  with w' ps_slab_one_object_check_diverges [OF n w' sl(1)] sl(2) o show ?thesis by auto
qed

end
