(* ===== verification/Smr_Mem_Life.thy ===== *)
theory Smr_Mem_Life
  imports Smr_Mem_Runs Slab_Queries
begin

text \<open>
  Creating and deleting an allocator with reclamation, the reference count of its \<open>struct parsec\<close>, and what
  \<open>__ps_smr_reclaim\<close> gets from \<open>ps_quiesce\<close> when another core was quicker.
\<close>

section \<open>Deleting\<close>



section \<open>The reference count\<close>

text \<open>
  C27: a \<open>struct parsec\<close> cannot be freed once an allocator has used it.  \<open>__ps_memptr_init\<close> counts one reference
  per core, \<open>__ps_memptr_delete\<close> drops a single one, so \<open>ps_free\<close> answers -1 although the only allocator is gone.
\<close>

theorem ps_memptr_refcnt_leak:
  assumes "w_ps w ps = Some pa" and "pa_refcnt pa = 0" and "ps_mem_init m ps w = Some w1"
    and "ps_memptr_delete m w1 = Some (0, w2)"
  shows "ps_free plat_free ps w2 = Some (- 1, w2)"
proof -
  have i: "ps \<noteq> null" "w_ps w1 ps = Some (pa\<lparr>pa_refcnt := of_nat PS_NUMCORES\<rparr>)"
    "\<forall>c < PS_NUMCORES. get_sm m c w1 = Some \<lparr>sm_ps = ps, sm_qsc_list = \<lparr>ql_head = null, ql_tail = null\<rparr>, sm_qmemcnt = 0,
       sm_qmemtarget = of_nat PS_QLIST_BATCH\<rparr>"
    using mem_init_ok [OF assms(3,1)] assms(2) by auto
  then have "get_sm m 0 w1 = Some \<lparr>sm_ps = ps, sm_qsc_list = \<lparr>ql_head = null, ql_tail = null\<rparr>, sm_qmemcnt = 0,
       sm_qmemtarget = of_nat PS_QLIST_BATCH\<rparr>" by (simp add: PS_NUMCORES_def)
  then have "w_ps w2 ps = Some (pa\<lparr>pa_refcnt := of_nat PS_NUMCORES - 1\<rparr>)"
    using assms(4) i(1,2) by (auto simp: ps_memptr_delete_def bind_eq_Some_conv upd_ps_def split: if_splits)
  then show ?thesis by (simp add: ps_free_def PS_NUMCORES_def)
qed

theorem ps_memptr_refcnt_leak_witness:
  "\<exists>w2. ps_memptr_delete 64 ex_m0 = Some (0, w2) \<and> ps_free ps_plat_free_linux 32 w2 = Some (- 1, w2)"
proof -
  let ?w = "ex_w\<lparr>w_ps := [32 \<mapsto> ps_init (race_clk 0)]\<rparr>"
  have "ps_mem_init 64 32 ?w \<noteq> None" by code_simp
  then have i: "ps_mem_init 64 32 ?w = Some ex_m0" unfolding ex_m0_def by auto
  have "map_option fst (ps_memptr_delete 64 ex_m0) = Some 0" by code_simp
  then obtain w2 where d: "ps_memptr_delete 64 ex_m0 = Some (0, w2)" by auto
  have "w_ps ?w 32 = Some (ps_init (race_clk 0))" by simp
  from ps_memptr_refcnt_leak [OF this _ i d] d show ?thesis by (simp add: ps_init_def)
qed

section \<open>A stale quiescence time\<close>

text \<open>
  C28: \<open>ps_quiesce\<close> can answer 0 for a time and leave an earlier one in \<open>*qsc\<close>.  This is so in every state in
  which the caller's quiescence time is before the time asked for, its view of the next core does not decide,
  and the next core knows a quiescence time after the one asked for: the caller learns it, with one reading of the
  counter, and leaves the loop by the \<open>break\<close>, but \<open>*qsc\<close> holds what it knew before the loop.
\<close>

theorem ps_quiesce_stale_qsc:
  assumes "smr_reach clk (p, t)" and "advancing clk t" and "c < PS_NUMCORES" and "d = (c + 1) mod PS_NUMCORES" and "2 \<le> k"
    and out: "\<not> (tsc > qt_time_in (tm p c) \<and> ps_in_lib (tm p c))"
    and old: "qt_last_known_quiescence (tm p c) < tsc" and new: "tsc < qt_last_known_quiescence (tm p d)"
    and view: "\<not> (tsc < oc_time_in (oc p c d) \<or>
      tsc < oc_time_updated (oc p c d) \<and> oc_time_in (oc p c d) < oc_time_out (oc p c d))"
  shows "\<exists>p'. ps_quiesce k no_env clk blocking c tsc p t = Some (Returned 0 (qt_last_known_quiescence (tm p c)), p', Suc t) \<and>
    qt_last_known_quiescence (tm p' c) = qt_last_known_quiescence (tm p d)"
proof -
  have sh: "shape p" using smr_reach_inv [OF assms(1)] assms(2) smr_invD(1) by auto
  have d: "d < PS_NUMCORES" "c \<noteq> d" using other_core [OF assms(3), of 1] assms(4) by (auto simp: PS_NUMCORES_def)
  obtain p' where p': "ps_timing_update_remote no_env clk c d p t = Some (p', Suc t)" "shape p'"
    "tm p' = (tm p)(c := (tm p c)\<lparr>qt_last_known_quiescence :=
        max (qt_last_known_quiescence (tm p c)) (qt_last_known_quiescence (tm p d))\<rparr>)"
    using update_remote_effect [OF sh assms(3) d(1)] by blast
  have q: "qt_last_known_quiescence (tm p' c) = qt_last_known_quiescence (tm p d)"
    using p'(3) order.strict_trans [OF old new] by (simp add: max_absorb2 less_imp_le)
  obtain j where k: "k = Suc (Suc j)" using assms(5) by (metis add_2_eq_Suc le_Suc_ex)
  have "quiesce_recheck (Suc j) no_env clk blocking False c d tsc (- 1) p' (Suc t) = Some (RBreak, p', Suc t)"
    using get_timing_in [OF p'(2) assms(3)] q new by simp
  moreover have "\<not> tsc < qt_last_known_quiescence (tm p c)" using old by (simp add: not_less less_imp_le)
  ultimately have "quiesce_recheck k no_env clk blocking True c d tsc (- 1) p t = Some (RBreak, p', Suc t)"
    using get_timing_in [OF sh assms(3)] get_other_in [OF sh assms(3) d(1)] view p'(1)
    by (simp add: k quiesce_recheck.simps(2) [of "Suc j"] Let_def del: quiesce_recheck.simps)
  moreover have "[1..<PS_NUMCORES] = 1 # [2..<PS_NUMCORES]" by (simp add: upt_conv_Cons PS_NUMCORES_def)
  ultimately have "quiesce_loop k no_env clk blocking c tsc [1..<PS_NUMCORES] (- 1) p t = Some (QBreak, p', Suc t)"
    using d(2) by (simp add: assms(4))
  then have "ps_quiesce k no_env clk blocking c tsc p t = Some (Returned 0 (qt_last_known_quiescence (tm p c)), p', Suc t)"
    using out get_timing_in [OF sh assms(3)] by (auto simp: ps_quiesce_def)
  then show ?thesis using q by blast
qed

text \<open>Core 1 has asked for time 11 and knows time 12; then core 0 asks for time 11.\<close>

definition stale_parsec :: parsec where
  "stale_parsec = fst (snd (the (ps_try_quiesce no_env race_clk 1 11 (ps_init (race_clk 0)) 2)))"

theorem ps_quiesce_stale_qsc_witness:
  "\<exists>p'. ps_quiesce 2 no_env race_clk False 0 11 stale_parsec 5 = Some (Returned 0 10, p', 6) \<and>
     qt_last_known_quiescence (tm p' 0) = 12"
proof -
  have "(case ps_try_quiesce no_env race_clk 1 11 (ps_init (race_clk 0)) 2 of Some (r, p, t) \<Rightarrow> t = 5 | None \<Rightarrow> False)"
    by code_simp
  then obtain r where q: "ps_quiesce 2 no_env race_clk False 1 11 (ps_init (race_clk 0)) 2 = Some (r, stale_parsec, 5)"
    by (auto simp: stale_parsec_def ps_try_quiesce_def split: option.splits)
  have "smr_reach race_clk (ps_init (race_clk 0), 2)"
    using smr_reach.step [OF smr_reach.start smr_step.tick, of race_clk] by (simp add: numeral_2_eq_2)
  from smr_reach.step [OF this smr_step.quiesce [OF q]] have r: "smr_reach race_clk (stale_parsec, 5)" .
  have v: "\<not> ps_in_lib (tm stale_parsec 0)" "qt_last_known_quiescence (tm stale_parsec 0) = 10"
    "qt_last_known_quiescence (tm stale_parsec 1) = 12" "oc_time_in (oc stale_parsec 0 1) = 10"
    "oc_time_updated (oc stale_parsec 0 1) = 10" by code_simp+
  show ?thesis
    using ps_quiesce_stale_qsc [OF r race_clk_advancing, of 0 1 2 11 False] v by (simp add: PS_NUMCORES_def)
qed

end
