(* ===== verification/Smr_Steps.thy ===== *)
theory Smr_Steps
  imports Smr_Safety
begin

text \<open>
  Sections and quiescence with every access to shared memory a step of its own: \<open>ps_enter\<close> reads the counter and
  stores the time in two steps, and \<open>ps_quiesce\<close> moves from test to test and through the accesses of
  \<open>__ps_timing_update_remote\<close>, while the other cores do the same in any order.  What a core reads and writes
  of its own (\<open>timing_others\<close>, its own quiescence time) is taken together with the branch it decides.
\<close>

record quiesce_call =
  qc_tsc :: u64
  qc_blocking :: bool
  qc_inlib :: bool
  qc_qsc :: u64

text \<open>
  Where a core is.  The number is \<open>i\<close> of the loop, the word \<open>min_known_qsc\<close>; \<open>Recheck\<close> is the label
  \<open>re_check\<close> with \<open>first_try\<close>; \<open>Reading_in\<close> to \<open>Taking_over\<close> are the accesses of
  \<open>__ps_timing_update_remote\<close>; \<open>Finished\<close> has the result and \<open>*qsc\<close>.
\<close>

datatype smr_pc =
    Outside
  | Entering u64
  | Looping quiesce_call nat u64
  | Recheck quiesce_call nat bool u64
  | Reading_in quiesce_call nat u64
  | Reading_out quiesce_call nat u64
  | Stamping quiesce_call nat u64
  | Comparing quiesce_call nat u64
  | Taking_over quiesce_call nat u64
  | Leaving_loop quiesce_call qloop
  | Finished quiesce_call int u64

text \<open>
  \<open>ss_time\<close> counts the readings of the counter.  Two fields only record: \<open>ss_stored\<close> the time at which each
  core's last entry was stored (the number of readings taken by then), and \<open>ss_clean\<close> whether every entry so far
  was stored outside the window of every other core, between its read of the entry time and its stamp.
\<close>

record smr_sys =
  ss_parsec :: parsec
  ss_time :: nat
  ss_pc :: "nat \<Rightarrow> smr_pc"
  ss_stored :: "nat \<Rightarrow> nat"
  ss_clean :: bool

definition remote_of :: "nat \<Rightarrow> nat \<Rightarrow> nat" where
  "remote_of c i = (c + i) mod PS_NUMCORES"

definition in_window :: "nat \<Rightarrow> smr_pc \<Rightarrow> nat \<Rightarrow> bool" where
  "in_window c pc d = (case pc of
      Reading_out q i mn \<Rightarrow> remote_of c i = d
    | Stamping q i mn \<Rightarrow> remote_of c i = d
    | _ \<Rightarrow> False)"

definition smr_goto :: "nat \<Rightarrow> smr_pc \<Rightarrow> smr_sys \<Rightarrow> smr_sys" where
  "smr_goto c pc s = s\<lparr>ss_pc := (ss_pc s)(c := pc)\<rparr>"

definition smr_with :: "nat \<Rightarrow> smr_pc \<Rightarrow> parsec \<Rightarrow> smr_sys \<Rightarrow> smr_sys" where
  "smr_with c pc p s = smr_goto c pc (s\<lparr>ss_parsec := p\<rparr>)"

section \<open>The calls\<close>

text \<open>\<open>ps_enter\<close>: the reading of the counter, then the store.\<close>

definition enter_read :: "clock \<Rightarrow> nat \<Rightarrow> smr_sys \<Rightarrow> smr_sys" where
  "enter_read clk c s = smr_goto c (Entering (clk (ss_time s))) (s\<lparr>ss_time := Suc (ss_time s)\<rparr>)"

definition enter_store :: "nat \<Rightarrow> u64 \<Rightarrow> smr_sys \<Rightarrow> smr_sys option" where
  "enter_store c ts s = do {
     p \<leftarrow> ps_enter c ts (ss_parsec s);
     Some (smr_with c Outside p (s\<lparr>ss_stored := (ss_stored s)(c := ss_time s),
       ss_clean := (ss_clean s \<and> list_all (\<lambda>d. \<not> in_window d (ss_pc s d) c) [0..<PS_NUMCORES])\<rparr>)) }"

text \<open>\<open>ps_quiesce\<close> up to its loop.\<close>

definition quiesce_begin :: "nat \<Rightarrow> bool \<Rightarrow> u64 \<Rightarrow> smr_sys \<Rightarrow> smr_sys option" where
  "quiesce_begin c blocking tsc s = do {
     timing_local \<leftarrow> get_timing c (ss_parsec s);
     let q = \<lparr>qc_tsc = tsc, qc_blocking = blocking, qc_inlib = ps_in_lib timing_local,
       qc_qsc = qt_last_known_quiescence timing_local\<rparr>;
     Some (smr_goto c
       (if tsc > qt_time_in timing_local \<and> qc_inlib q then Finished q (- EQUIESCENCE) (qc_qsc q)
        else Looping q 1 (- 1)) s) }"

text \<open>From the label \<open>re_check\<close> to the next access of another core's memory.\<close>

definition quiesce_check :: "quiesce_call \<Rightarrow> nat \<Rightarrow> bool \<Rightarrow> u64 \<Rightarrow> ps_quiescence_timing \<Rightarrow> ps_other_core \<Rightarrow> smr_pc" where
  "quiesce_check q i first_try mn me view =
     (if qc_tsc q < qt_last_known_quiescence me then Leaving_loop q QBreak
      else let tin = oc_time_in view; tout = oc_time_out view; upd = oc_time_updated view in
        if qc_tsc q < tin \<or> (qc_tsc q < upd \<and> tin < tout) then
          Looping q (i + 1) (if tin < tout then (if mn > upd then upd else mn) else (if mn > tin then tin else mn))
        else if \<not> first_try \<and> \<not> qc_blocking q then Leaving_loop q QFail
        else Reading_in q i mn)"

text \<open>The next step of a core that is inside a call; \<open>Finished\<close> returns to the caller.\<close>

definition smr_move :: "clock \<Rightarrow> nat \<Rightarrow> smr_sys \<Rightarrow> smr_sys option" where
  "smr_move clk c s = (let p = ss_parsec s in case ss_pc s c of
      Outside \<Rightarrow> None
    | Entering ts \<Rightarrow> enter_store c ts s
    | Looping q i mn \<Rightarrow>
        if i < PS_NUMCORES then do {
          c_assert (remote_of c i \<noteq> c);
          Some (smr_goto c (Recheck q i True mn) s) }
        else Some (smr_goto c (Leaving_loop q (QAll mn)) s)
    | Recheck q i first_try mn \<Rightarrow> do {
        me \<leftarrow> get_timing c p;
        view \<leftarrow> get_other c (remote_of c i) p;
        Some (smr_goto c (quiesce_check q i first_try mn me view) s) }
    | Reading_in q i mn \<Rightarrow> do {
        p \<leftarrow> timing_read_in c (remote_of c i) p;
        Some (smr_with c (Reading_out q i mn) p s) }
    | Reading_out q i mn \<Rightarrow> do {
        p \<leftarrow> timing_read_out c (remote_of c i) p;
        Some (smr_with c (Stamping q i mn) p s) }
    | Stamping q i mn \<Rightarrow> do {
        p \<leftarrow> timing_stamp c (remote_of c i) (clk (ss_time s)) p;
        Some (smr_with c (Comparing q i mn) p (s\<lparr>ss_time := Suc (ss_time s)\<rparr>)) }
    | Comparing q i mn \<Rightarrow> do {
        r \<leftarrow> get_timing (remote_of c i) p;
        me \<leftarrow> get_timing c p;
        Some (smr_goto c (if qt_last_known_quiescence me < qt_last_known_quiescence r
          then Taking_over q i mn else Recheck q i False mn) s) }
    | Taking_over q i mn \<Rightarrow> do {
        r \<leftarrow> get_timing (remote_of c i) p;
        p \<leftarrow> upd_timing c (\<lambda>me. me\<lparr>qt_last_known_quiescence := qt_last_known_quiescence r\<rparr>) p;
        Some (smr_with c (Recheck q i False mn) p s) }
    | Leaving_loop q r \<Rightarrow> do {
        (res, p) \<leftarrow> quiesce_finish c (qc_inlib q) (qc_qsc q) r p;
        (case res of Spinning \<Rightarrow> None | Returned v z \<Rightarrow> Some (smr_with c (Finished q v z) p s)) }
    | Finished q v z \<Rightarrow> Some (smr_goto c Outside s))"

section \<open>Runs\<close>

datatype smr_act = Enter | Leave | Quiesce bool u64 | Go

text \<open>
  A core outside the calls may begin one, \<open>ps_enter\<close> when it is in no section and \<open>ps_exit\<close> when it is in one;
  \<open>ps_exit\<close> has one access that others can see.
\<close>

fun smr_do :: "clock \<Rightarrow> nat \<Rightarrow> smr_act \<Rightarrow> smr_sys \<Rightarrow> smr_sys option" where
  "smr_do clk c Enter s = do {
     timing \<leftarrow> get_timing c (ss_parsec s);
     if ss_pc s c = Outside \<and> \<not> ps_in_lib timing then Some (enter_read clk c s) else None }"
| "smr_do clk c Leave s = do {
     timing \<leftarrow> get_timing c (ss_parsec s);
     if ss_pc s c = Outside \<and> ps_in_lib timing then do {
       p \<leftarrow> ps_exit c (ss_parsec s);
       Some (smr_with c Outside p s) }
     else None }"
| "smr_do clk c (Quiesce blocking tsc) s = (if ss_pc s c = Outside then quiesce_begin c blocking tsc s else None)"
| "smr_do clk c Go s = smr_move clk c s"

definition smr_begin :: "clock \<Rightarrow> smr_sys" where
  "smr_begin clk = \<lparr>ss_parsec = ps_init (clk 0), ss_time = 1, ss_pc = (\<lambda>_. Outside), ss_stored = (\<lambda>_. 0), ss_clean = True\<rparr>"

inductive smr_steps :: "clock \<Rightarrow> smr_sys \<Rightarrow> bool" for clk where
  start: "smr_steps clk (smr_begin clk)"
| act: "smr_steps clk s \<Longrightarrow> c < PS_NUMCORES \<Longrightarrow> smr_do clk c a s = Some s' \<Longrightarrow> smr_steps clk s'"
| tick: "smr_steps clk s \<Longrightarrow> smr_steps clk (s\<lparr>ss_time := Suc (ss_time s)\<rparr>)"

text \<open>A schedule, for examples.\<close>

fun smr_schedule :: "clock \<Rightarrow> (nat \<times> smr_act) list \<Rightarrow> smr_sys \<Rightarrow> smr_sys option" where
  "smr_schedule clk [] s = Some s"
| "smr_schedule clk ((c, a) # cas) s = do { c_assert (c < PS_NUMCORES); s \<leftarrow> smr_do clk c a s; smr_schedule clk cas s }"

lemma smr_schedule_steps: "smr_steps clk s \<Longrightarrow> smr_schedule clk cas s = Some s' \<Longrightarrow> smr_steps clk s'"
proof (induction cas arbitrary: s)
  case (Cons ca cas)
  obtain c a where ca: "ca = (c, a)" by (cases ca)
  then obtain s1 where "smr_do clk c a s = Some s1" "smr_schedule clk cas s1 = Some s'" "c < PS_NUMCORES"
    using Cons.prems(2) by (auto simp: bind_eq_Some_conv split: if_splits)
  then show ?case using Cons.IH Cons.prems(1) smr_steps.act by blast
qed simp

end
