(* ===== verification/Smr_Steps_Safety.thy ===== *)
theory Smr_Steps_Safety
  imports Smr_Steps
begin

text \<open>
  Safety of quiescence for the steps of \<open>Smr_Steps\<close>.  Every time a core knows (its quiescence time, the views of
  the others, the minimum of a call under way) is a claim about a core \<open>d\<close>: a section of \<open>d\<close> that is
  running was stored no earlier.  The invariant says that all claims lie before the next reading, so a new entry
  satisfies them, and that they hold as long as no entry is stored in a window.
\<close>

section \<open>Claims\<close>

abbreviation running :: "parsec \<Rightarrow> nat \<Rightarrow> bool" where
  "running p d \<equiv> ps_in_lib (tm p d)"

definition visited :: "nat \<Rightarrow> nat \<Rightarrow> nat \<Rightarrow> bool" where
  "visited c i d \<longleftrightarrow> (\<exists>j. 0 < j \<and> j < i \<and> remote_of c j = d)"

definition loop_claim :: "nat \<Rightarrow> quiesce_call \<Rightarrow> nat \<Rightarrow> u64 \<Rightarrow> nat \<Rightarrow> u64 \<Rightarrow> bool" where
  "loop_claim c q i mn d x \<longleftrightarrow> x \<le> qc_qsc q \<or> visited c i d \<and> x \<le> mn"

fun pc_claim :: "nat \<Rightarrow> smr_pc \<Rightarrow> nat \<Rightarrow> u64 \<Rightarrow> bool" where
  "pc_claim c Outside d x \<longleftrightarrow> False"
| "pc_claim c (Entering ts) d x \<longleftrightarrow> False"
| "pc_claim c (Looping q i mn) d x \<longleftrightarrow> loop_claim c q i mn d x"
| "pc_claim c (Recheck q i first_try mn) d x \<longleftrightarrow> loop_claim c q i mn d x"
| "pc_claim c (Reading_in q i mn) d x \<longleftrightarrow> loop_claim c q i mn d x"
| "pc_claim c (Reading_out q i mn) d x \<longleftrightarrow> loop_claim c q i mn d x"
| "pc_claim c (Stamping q i mn) d x \<longleftrightarrow> loop_claim c q i mn d x"
| "pc_claim c (Comparing q i mn) d x \<longleftrightarrow> loop_claim c q i mn d x"
| "pc_claim c (Taking_over q i mn) d x \<longleftrightarrow> loop_claim c q i mn d x"
| "pc_claim c (Leaving_loop q r) d x \<longleftrightarrow> x \<le> qc_qsc q \<or> d \<noteq> c \<and> (\<exists>mn. r = QAll mn \<and> x \<le> mn)"
| "pc_claim c (Finished q v z) d x \<longleftrightarrow> x \<le> z"

definition view_claim :: "bool \<Rightarrow> ps_other_core \<Rightarrow> u64 \<Rightarrow> bool" where
  "view_claim window view x \<longleftrightarrow> x \<le> oc_time_in view \<or>
     \<not> window \<and> oc_time_in view < oc_time_out view \<and> x \<le> oc_time_updated view"

definition claim :: "parsec \<Rightarrow> nat \<Rightarrow> smr_pc \<Rightarrow> nat \<Rightarrow> u64 \<Rightarrow> bool" where
  "claim p c pc d x \<longleftrightarrow> x \<le> qt_last_known_quiescence (tm p c) \<or> pc_claim c pc d x \<or>
     c \<noteq> d \<and> view_claim (in_window c pc d) (oc p c d) x"

section \<open>The invariant\<close>

definition claims_past :: "clock \<Rightarrow> smr_sys \<Rightarrow> bool" where
  "claims_past clk s \<longleftrightarrow> (\<forall>c < PS_NUMCORES. \<forall>d < PS_NUMCORES. \<forall>x.
     claim (ss_parsec s) c (ss_pc s c) d x \<longrightarrow> x < clk (ss_time s))"

definition claims_hold :: "clock \<Rightarrow> smr_sys \<Rightarrow> bool" where
  "claims_hold clk s \<longleftrightarrow> (\<forall>c < PS_NUMCORES. \<forall>d < PS_NUMCORES. \<forall>x. running (ss_parsec s) d \<longrightarrow>
     claim (ss_parsec s) c (ss_pc s c) d x \<longrightarrow> x \<le> clk (ss_stored s d))"

text \<open>Inside a window the view of a running section is that section.\<close>

fun window_ok :: "parsec \<Rightarrow> nat \<Rightarrow> smr_pc \<Rightarrow> bool" where
  "window_ok p c (Reading_out q i mn) \<longleftrightarrow> (let d = remote_of c i in
     running p d \<longrightarrow> oc_time_in (oc p c d) = qt_time_in (tm p d))"
| "window_ok p c (Stamping q i mn) \<longleftrightarrow> (let d = remote_of c i in
     running p d \<longrightarrow> oc_time_in (oc p c d) = qt_time_in (tm p d) \<and> oc_time_out (oc p c d) \<le> oc_time_in (oc p c d))"
| "window_ok p c pc \<longleftrightarrow> True"

definition call_ok :: "parsec \<Rightarrow> nat \<Rightarrow> quiesce_call \<Rightarrow> bool" where
  "call_ok p c q \<longleftrightarrow> (qc_inlib q \<longleftrightarrow> running p c) \<and> \<not> (qc_tsc q > qt_time_in (tm p c) \<and> running p c)"

text \<open>The minimum stays above the time asked for.\<close>

definition mn_above :: "quiesce_call \<Rightarrow> nat \<Rightarrow> u64 \<Rightarrow> bool" where
  "mn_above q i mn \<longleftrightarrow> (if i = 1 then mn = - 1 else qc_tsc q < mn)"

definition loop_ok :: "parsec \<Rightarrow> nat \<Rightarrow> quiesce_call \<Rightarrow> nat \<Rightarrow> u64 \<Rightarrow> bool" where
  "loop_ok p c q i mn \<longleftrightarrow> call_ok p c q \<and> 0 < i \<and> i < PS_NUMCORES \<and> mn_above q i mn"

fun smr_pc_ok :: "clock \<Rightarrow> nat \<Rightarrow> parsec \<Rightarrow> nat \<Rightarrow> smr_pc \<Rightarrow> bool" where
  "smr_pc_ok clk t p c Outside \<longleftrightarrow> True"
| "smr_pc_ok clk t p c (Entering ts) \<longleftrightarrow> ts < clk t"
| "smr_pc_ok clk t p c (Looping q i mn) \<longleftrightarrow> call_ok p c q \<and> 0 < i \<and> i \<le> PS_NUMCORES \<and> mn_above q i mn"
| "smr_pc_ok clk t p c (Recheck q i first_try mn) \<longleftrightarrow> loop_ok p c q i mn"
| "smr_pc_ok clk t p c (Reading_in q i mn) \<longleftrightarrow> loop_ok p c q i mn"
| "smr_pc_ok clk t p c (Reading_out q i mn) \<longleftrightarrow> loop_ok p c q i mn"
| "smr_pc_ok clk t p c (Stamping q i mn) \<longleftrightarrow> loop_ok p c q i mn"
| "smr_pc_ok clk t p c (Comparing q i mn) \<longleftrightarrow> loop_ok p c q i mn"
| "smr_pc_ok clk t p c (Taking_over q i mn) \<longleftrightarrow> loop_ok p c q i mn"
| "smr_pc_ok clk t p c (Leaving_loop q r) \<longleftrightarrow> call_ok p c q \<and> (case r of QAll mn \<Rightarrow> qc_tsc q < mn
     | QBreak \<Rightarrow> qc_tsc q < qt_last_known_quiescence (tm p c) | QFail \<Rightarrow> True | QSpin \<Rightarrow> False)"
| "smr_pc_ok clk t p c (Finished q v z) \<longleftrightarrow> (v = 0 \<longrightarrow> qc_tsc q \<le> qt_last_known_quiescence (tm p c))"

definition core_ok :: "clock \<Rightarrow> smr_sys \<Rightarrow> nat \<Rightarrow> bool" where
  "core_ok clk s c \<longleftrightarrow> qt_time_in (tm (ss_parsec s) c) < clk (ss_time s) \<and>
     (running (ss_parsec s) c \<longrightarrow> qt_time_in (tm (ss_parsec s) c) \<le> clk (ss_stored s c)) \<and>
     smr_pc_ok clk (ss_time s) (ss_parsec s) c (ss_pc s c) \<and>
     (ss_clean s \<longrightarrow> window_ok (ss_parsec s) c (ss_pc s c)) \<and>
     (\<forall>d < PS_NUMCORES. c \<noteq> d \<longrightarrow> \<not> in_window c (ss_pc s c) d \<longrightarrow>
        oc_time_in (oc (ss_parsec s) c d) \<le> oc_time_updated (oc (ss_parsec s) c d))"

definition steps_inv :: "clock \<Rightarrow> smr_sys \<Rightarrow> bool" where
  "steps_inv clk s \<longleftrightarrow> shape (ss_parsec s) \<and> (\<forall>c < PS_NUMCORES. core_ok clk s c) \<and> claims_past clk s \<and>
     (ss_clean s \<longrightarrow> claims_hold clk s)"

lemma remote_of_bounds: "c < PS_NUMCORES \<Longrightarrow> 0 < i \<Longrightarrow> i < PS_NUMCORES \<Longrightarrow> remote_of c i \<noteq> c \<and> remote_of c i < PS_NUMCORES"
  using other_core [of c i] by (auto simp: remote_of_def)

lemma other_exists:
  assumes "c < PS_NUMCORES"
  obtains e where "e < PS_NUMCORES" "e \<noteq> c"
  using other_core [OF assms, of 1] by (metis One_nat_def PS_NUMCORES_def less_numeral_extra(1) one_less_numeral_iff semiring_norm(76))

lemma visited_one [simp]: "\<not> visited c (Suc 0) d" "\<not> visited c 1 d"
  by (auto simp: visited_def)

lemma visited_Suc: "0 < i \<Longrightarrow> visited c (Suc i) d \<longleftrightarrow> visited c i d \<or> d = remote_of c i"
  by (auto simp: visited_def less_Suc_eq)

lemma visited_all: "c < PS_NUMCORES \<Longrightarrow> d < PS_NUMCORES \<Longrightarrow> visited c PS_NUMCORES d \<longleftrightarrow> d \<noteq> c"
proof
  assume c: "c < PS_NUMCORES" and "visited c PS_NUMCORES d"
  then obtain j where "0 < j" "j < PS_NUMCORES" "remote_of c j = d" unfolding visited_def by blast
  then show "d \<noteq> c" using remote_of_bounds [OF c] by blast
next
  assume "c < PS_NUMCORES" "d < PS_NUMCORES" "d \<noteq> c"
  then obtain i where "i \<in> set [1..<PS_NUMCORES]" "(c + i) mod PS_NUMCORES = d" using all_cores_visited by metis
  then show "visited c PS_NUMCORES d" unfolding visited_def remote_of_def by (intro exI [of _ i]) auto
qed

lemma in_window_simps [simp]:
  "in_window c Outside d = False" "in_window c (Entering ts) d = False" "in_window c (Looping q i mn) d = False"
  "in_window c (Recheck q i f mn) d = False" "in_window c (Reading_in q i mn) d = False"
  "in_window c (Reading_out q i mn) d = (remote_of c i = d)" "in_window c (Stamping q i mn) d = (remote_of c i = d)"
  "in_window c (Comparing q i mn) d = False" "in_window c (Taking_over q i mn) d = False"
  "in_window c (Leaving_loop q r) d = False" "in_window c (Finished q v z) d = False"
  by (simp_all add: in_window_def)

lemma smr_goto_simps [simp]:
  "ss_parsec (smr_goto c pc s) = ss_parsec s" "ss_time (smr_goto c pc s) = ss_time s"
  "ss_pc (smr_goto c pc s) = (ss_pc s)(c := pc)" "ss_stored (smr_goto c pc s) = ss_stored s"
  "ss_clean (smr_goto c pc s) = ss_clean s"
  by (simp_all add: smr_goto_def)

lemma smr_with_simps [simp]:
  "ss_parsec (smr_with c pc p s) = p" "ss_time (smr_with c pc p s) = ss_time s"
  "ss_pc (smr_with c pc p s) = (ss_pc s)(c := pc)" "ss_stored (smr_with c pc p s) = ss_stored s"
  "ss_clean (smr_with c pc p s) = ss_clean s"
  by (simp_all add: smr_with_def)

section \<open>One core moves\<close>

text \<open>
  Core \<open>c\<close> changes its own place, views and quiescence time only.  It is enough to look at its own part of the
  invariant, and at the claims it did not have before.
\<close>

lemma steps_inv_move:
  assumes inv: "steps_inv clk s" and sh: "shape (ss_parsec s')" and ts: "ss_stored s' = ss_stored s" "ss_clean s' = ss_clean s"
    and pc: "ss_pc s' = (ss_pc s)(c := pc)"
    and oth: "\<And>e. e \<noteq> c \<Longrightarrow> tm (ss_parsec s') e = tm (ss_parsec s) e \<and> oc (ss_parsec s') e = oc (ss_parsec s) e"
    and own: "qt_time_in (tm (ss_parsec s') c) = qt_time_in (tm (ss_parsec s) c)"
      "running (ss_parsec s') c \<Longrightarrow> running (ss_parsec s) c"
    and ck: "clk (ss_time s) \<le> clk (ss_time s')"
    and ok: "smr_pc_ok clk (ss_time s') (ss_parsec s') c pc" "ss_clean s \<Longrightarrow> window_ok (ss_parsec s') c pc"
    and vw: "\<And>d. d < PS_NUMCORES \<Longrightarrow> c \<noteq> d \<Longrightarrow> \<not> in_window c pc d \<Longrightarrow>
      oc_time_in (oc (ss_parsec s') c d) \<le> oc_time_updated (oc (ss_parsec s') c d)"
    and new: "\<And>d x. d < PS_NUMCORES \<Longrightarrow> claim (ss_parsec s') c pc d x \<Longrightarrow>
      (\<exists>e < PS_NUMCORES. claim (ss_parsec s) e (ss_pc s e) d x) \<or>
      x < clk (ss_time s') \<and> (ss_clean s \<longrightarrow> running (ss_parsec s) d \<longrightarrow> x \<le> clk (ss_stored s d))"
  shows "steps_inv clk s'"
proof -
  have run: "running (ss_parsec s') d \<Longrightarrow> running (ss_parsec s) d" for d using oth own(2) by (cases "d = c") auto
  have tin: "qt_time_in (tm (ss_parsec s') d) = qt_time_in (tm (ss_parsec s) d)" for d using oth own(1) by (cases "d = c") auto
  have I: "\<And>e. e < PS_NUMCORES \<Longrightarrow> core_ok clk s e" "claims_past clk s" "ss_clean s \<Longrightarrow> claims_hold clk s"
    using inv by (simp_all add: steps_inv_def)
  have win: "window_ok (ss_parsec s') e (ss_pc s e)" if "e \<noteq> c" "window_ok (ss_parsec s) e (ss_pc s e)" for e
    using that run tin oth by (cases "ss_pc s e") (auto simp: Let_def)
  have pco: "smr_pc_ok clk (ss_time s') (ss_parsec s') e (ss_pc s e)"
    if "e \<noteq> c" "smr_pc_ok clk (ss_time s) (ss_parsec s) e (ss_pc s e)" for e
    using that(2) ck oth [OF that(1)] by (cases "ss_pc s e") (auto simp: loop_ok_def call_ok_def split: qloop.splits)
  have "core_ok clk s' e" if e: "e < PS_NUMCORES" for e
  proof (cases "e = c")
    case True
    then show ?thesis using I(1) [OF e] ok vw own ck ts pc run tin unfolding core_ok_def by auto
  next
    case False
    have le: "qt_time_in (tm (ss_parsec s) e) < clk (ss_time s')" using I(1) [OF e] ck unfolding core_ok_def by auto
    show ?thesis using I(1) [OF e] False oth [OF False] win [OF False] pco [OF False] ts le pc unfolding core_ok_def by simp
  qed
  moreover have cl: "(\<exists>e' < PS_NUMCORES. claim (ss_parsec s) e' (ss_pc s e') d x) \<or>
      x < clk (ss_time s') \<and> (ss_clean s \<longrightarrow> running (ss_parsec s) d \<longrightarrow> x \<le> clk (ss_stored s d))"
    if "e < PS_NUMCORES" "d < PS_NUMCORES" "claim (ss_parsec s') e (ss_pc s' e) d x" for e d x
  proof (cases "e = c")
    case True
    then show ?thesis using new [OF that(2)] that(3) pc by simp
  next
    case False
    then show ?thesis using that oth [OF False] pc by (auto simp: claim_def)
  qed
  have "claims_past clk s'"
    using cl I(2) ck unfolding claims_past_def by (meson less_le_trans)
  moreover have "claims_hold clk s'" if "ss_clean s'"
    using cl I(3) that run unfolding claims_hold_def ts by blast
  ultimately show ?thesis using sh by (simp add: steps_inv_def)
qed

text \<open>A move that leaves memory alone.\<close>

lemma steps_inv_goto:
  assumes inv: "steps_inv clk s" and c: "c < PS_NUMCORES"
    and nw: "\<And>d. \<not> in_window c pc d" "\<And>d. \<not> in_window c (ss_pc s c) d"
    and ok: "smr_pc_ok clk (ss_time s) (ss_parsec s) c pc" "window_ok (ss_parsec s) c pc"
    and new: "\<And>d x. d < PS_NUMCORES \<Longrightarrow> pc_claim c pc d x \<Longrightarrow> claim (ss_parsec s) c (ss_pc s c) d x"
  shows "steps_inv clk (smr_goto c pc s)"
proof (rule steps_inv_move [OF inv, where c = c and pc = pc])
  fix d assume "d < PS_NUMCORES" "c \<noteq> d"
  then show "oc_time_in (oc (ss_parsec (smr_goto c pc s)) c d) \<le> oc_time_updated (oc (ss_parsec (smr_goto c pc s)) c d)"
    using inv c nw(2) by (simp add: steps_inv_def core_ok_def)
next
  fix d x assume "d < PS_NUMCORES" "claim (ss_parsec (smr_goto c pc s)) c pc d x"
  then have "claim (ss_parsec s) c (ss_pc s c) d x" using new nw by (auto simp: claim_def)
  then show "(\<exists>e < PS_NUMCORES. claim (ss_parsec s) e (ss_pc s e) d x) \<or>
      x < clk (ss_time (smr_goto c pc s)) \<and> (ss_clean s \<longrightarrow> running (ss_parsec s) d \<longrightarrow> x \<le> clk (ss_stored s d))"
    using c by blast
qed (use inv ok in \<open>simp_all add: steps_inv_def\<close>)

lemma steps_invD:
  assumes "steps_inv clk s" and "c < PS_NUMCORES"
  shows "shape (ss_parsec s)" "qt_time_in (tm (ss_parsec s) c) < clk (ss_time s)"
    "running (ss_parsec s) c \<Longrightarrow> qt_time_in (tm (ss_parsec s) c) \<le> clk (ss_stored s c)"
    "smr_pc_ok clk (ss_time s) (ss_parsec s) c (ss_pc s c)"
    "ss_clean s \<Longrightarrow> window_ok (ss_parsec s) c (ss_pc s c)"
    "d < PS_NUMCORES \<Longrightarrow> c \<noteq> d \<Longrightarrow> \<not> in_window c (ss_pc s c) d \<Longrightarrow>
       oc_time_in (oc (ss_parsec s) c d) \<le> oc_time_updated (oc (ss_parsec s) c d)"
    "d < PS_NUMCORES \<Longrightarrow> claim (ss_parsec s) c (ss_pc s c) d x \<Longrightarrow> x < clk (ss_time s)"
    "ss_clean s \<Longrightarrow> d < PS_NUMCORES \<Longrightarrow> running (ss_parsec s) d \<Longrightarrow> claim (ss_parsec s) c (ss_pc s c) d x \<Longrightarrow>
       x \<le> clk (ss_stored s d)"
  using assms unfolding steps_inv_def core_ok_def claims_past_def claims_hold_def by blast+

section \<open>The moves\<close>

lemma begin_inv:
  assumes "steps_inv clk s" and "c < PS_NUMCORES" and "ss_pc s c = Outside" and "quiesce_begin c b tsc s = Some s'"
  shows "steps_inv clk s'"
proof -
  let ?me = "tm (ss_parsec s) c"
  let ?q = "\<lparr>qc_tsc = tsc, qc_blocking = b, qc_inlib = ps_in_lib ?me, qc_qsc = qt_last_known_quiescence ?me\<rparr>"
  have s': "s' = smr_goto c (if tsc > qt_time_in ?me \<and> ps_in_lib ?me then Finished ?q (- EQUIESCENCE) (qc_qsc ?q)
      else Looping ?q 1 (- 1)) s"
    using assms(4) get_timing_in [OF steps_invD(1) [OF assms(1,2)] assms(2)] by (simp add: quiesce_begin_def Let_def)
  show ?thesis
  proof (cases "tsc > qt_time_in ?me \<and> ps_in_lib ?me")
    case True
    show ?thesis unfolding s' if_P [OF True]
      by (rule steps_inv_goto [OF assms(1,2)]) (use assms(3) in \<open>simp_all add: claim_def EQUIESCENCE_def\<close>)
  next
    case False
    show ?thesis unfolding s' if_not_P [OF False]
      by (rule steps_inv_goto [OF assms(1,2)])
        (use assms(3) False in \<open>auto simp: call_ok_def mn_above_def claim_def loop_claim_def PS_NUMCORES_def\<close>)
  qed
qed

lemma looping_inv:
  assumes "steps_inv clk s" and "c < PS_NUMCORES" and pc: "ss_pc s c = Looping q i mn" and "smr_move clk c s = Some s'"
  shows "steps_inv clk s'"
proof -
  note D = steps_invD [OF assms(1,2)]
  have ok: "call_ok (ss_parsec s) c q" "0 < i" "i \<le> PS_NUMCORES" "mn_above q i mn" using D(4) pc by simp_all
  show ?thesis
  proof (cases "i < PS_NUMCORES")
    case True
    then have s': "s' = smr_goto c (Recheck q i True mn) s" using assms(4) pc by (auto simp: smr_move_def Let_def split: if_splits)
    show ?thesis unfolding s'
      by (rule steps_inv_goto [OF assms(1,2)]) (use pc ok True in \<open>auto simp: loop_ok_def claim_def\<close>)
  next
    case False
    then have i: "i = PS_NUMCORES" and s': "s' = smr_goto c (Leaving_loop q (QAll mn)) s"
      using assms(4) pc ok by (auto simp: smr_move_def Let_def)
    have "qc_tsc q < mn" using ok(4) i by (simp add: mn_above_def PS_NUMCORES_def)
    then show ?thesis unfolding s'
      by (intro steps_inv_goto [OF assms(1,2)])
        (use pc ok i visited_all [OF assms(2)] in \<open>auto simp: claim_def loop_claim_def\<close>)
  qed
qed

lemma recheck_inv_steps:
  assumes "steps_inv clk s" and "c < PS_NUMCORES" and pc: "ss_pc s c = Recheck q i ft mn" and "smr_move clk c s = Some s'"
  shows "steps_inv clk s'"
proof -
  note D = steps_invD [OF assms(1,2)]
  let ?d = "remote_of c i" and ?me = "tm (ss_parsec s) c" and ?v = "oc (ss_parsec s) c (remote_of c i)"
  have ok: "call_ok (ss_parsec s) c q" "0 < i" "i < PS_NUMCORES" "mn_above q i mn"
    using D(4) pc by (simp_all add: loop_ok_def)
  have d: "?d \<noteq> c" "?d < PS_NUMCORES" using remote_of_bounds [OF assms(2) ok(2,3)] by auto
  have s': "s' = smr_goto c (quiesce_check q i ft mn ?me ?v) s"
    using assms(4) pc get_timing_in [OF D(1) assms(2)] get_other_in [OF D(1) assms(2) d(2)] by (simp add: smr_move_def Let_def)
  have vw: "oc_time_in ?v \<le> oc_time_updated ?v" using D(6) [OF d(2)] d(1) pc by simp
  let ?done = "qc_tsc q < oc_time_in ?v \<or> qc_tsc q < oc_time_updated ?v \<and> oc_time_in ?v < oc_time_out ?v"
  define y where "y = (if oc_time_in ?v < oc_time_out ?v then oc_time_updated ?v else oc_time_in ?v)"
  have y: "qc_tsc q < y" if ?done using that vw by (auto simp: y_def)
  have cy: "claim (ss_parsec s) c (ss_pc s c) ?d x" if "x \<le> y" for x
    using that d(1) pc by (auto simp: claim_def view_claim_def y_def split: if_splits)
  have chk: "quiesce_check q i ft mn ?me ?v = (if qc_tsc q < qt_last_known_quiescence ?me then Leaving_loop q QBreak
      else if ?done then Looping q (i + 1) (if mn > y then y else mn)
      else if \<not> ft \<and> \<not> qc_blocking q then Leaving_loop q QFail else Reading_in q i mn)"
    by (simp add: quiesce_check_def y_def)
  consider (brk) "quiesce_check q i ft mn ?me ?v = Leaving_loop q QBreak" "qc_tsc q < qt_last_known_quiescence ?me"
    | (next_core) "quiesce_check q i ft mn ?me ?v = Looping q (i + 1) (if mn > y then y else mn)" ?done
    | (fail) "quiesce_check q i ft mn ?me ?v = Leaving_loop q QFail"
    | (read) "quiesce_check q i ft mn ?me ?v = Reading_in q i mn"
    unfolding chk by (cases "qc_tsc q < qt_last_known_quiescence ?me"; cases ?done; cases "\<not> ft \<and> \<not> qc_blocking q") simp_all
  then show ?thesis
  proof cases
    case brk
    show ?thesis unfolding s' brk(1)
      by (rule steps_inv_goto [OF assms(1,2)]) (use pc ok brk in \<open>auto simp: claim_def loop_claim_def\<close>)
  next
    case next_core
    let ?mn = "if mn > y then y else mn"
    show ?thesis unfolding s' next_core(1)
    proof (rule steps_inv_goto [OF assms(1,2)])
      have "y \<le> - 1" by simp
      then have "qc_tsc q < - 1" by (rule less_le_trans [OF y [OF next_core(2)]])
      then have "qc_tsc q < ?mn" using y [OF next_core(2)] ok(4) unfolding mn_above_def by (auto split: if_splits)
      then have "mn_above q (i + 1) ?mn" using ok(2) by (simp add: mn_above_def)
      then show "smr_pc_ok clk (ss_time s) (ss_parsec s) c (Looping q (i + 1) ?mn)" using ok by simp
      fix e x assume "pc_claim c (Looping q (i + 1) ?mn) e x"
      then consider "x \<le> qc_qsc q" | "visited c i e" "x \<le> mn" | "e = ?d" "x \<le> y"
        by (auto simp: loop_claim_def visited_Suc [OF ok(2)] split: if_splits)
      then show "claim (ss_parsec s) c (ss_pc s c) e x"
        using cy pc by cases (auto simp: claim_def loop_claim_def)
    qed (use pc in auto)
  next
    case fail
    show ?thesis unfolding s' fail
      by (rule steps_inv_goto [OF assms(1,2)]) (use pc ok in \<open>auto simp: claim_def loop_claim_def\<close>)
  next
    case read
    show ?thesis unfolding s' read
      by (rule steps_inv_goto [OF assms(1,2)]) (use pc ok in \<open>auto simp: claim_def loop_ok_def\<close>)
  qed
qed

lemma comparing_inv:
  assumes "steps_inv clk s" and "c < PS_NUMCORES" and pc: "ss_pc s c = Comparing q i mn" and "smr_move clk c s = Some s'"
  shows "steps_inv clk s'"
proof -
  note D = steps_invD [OF assms(1,2)]
  have ok: "loop_ok (ss_parsec s) c q i mn" using D(4) pc by simp
  have d: "remote_of c i < PS_NUMCORES" using remote_of_bounds [OF assms(2)] ok by (auto simp: loop_ok_def)
  have s': "s' = smr_goto c (if qt_last_known_quiescence (tm (ss_parsec s) c) <
      qt_last_known_quiescence (tm (ss_parsec s) (remote_of c i)) then Taking_over q i mn else Recheck q i False mn) s"
    using assms(4) pc get_timing_in [OF D(1) assms(2)] get_timing_in [OF D(1) d] by (simp add: smr_move_def Let_def)
  show ?thesis unfolding s'
    by (rule steps_inv_goto [OF assms(1,2)]) (use pc ok in \<open>auto simp: claim_def split: if_splits\<close>)
qed

lemma finished_inv:
  assumes "steps_inv clk s" and "c < PS_NUMCORES" and "ss_pc s c = Finished q v z" and "smr_move clk c s = Some s'"
  shows "steps_inv clk s'"
proof -
  have s': "s' = smr_goto c Outside s" using assms(3,4) by (simp add: smr_move_def Let_def)
  show ?thesis unfolding s' by (rule steps_inv_goto [OF assms(1,2)]) (use assms(3) in auto)
qed

text \<open>The accesses of \<open>__ps_timing_update_remote\<close>.\<close>

lemma reading_in_inv:
  assumes "steps_inv clk s" and "c < PS_NUMCORES" and pc: "ss_pc s c = Reading_in q i mn" and "smr_move clk c s = Some s'"
  shows "steps_inv clk s'"
proof -
  note D = steps_invD [OF assms(1,2)]
  let ?d = "remote_of c i"
  have ok: "loop_ok (ss_parsec s) c q i mn" using D(4) pc by simp
  have d: "?d \<noteq> c" "?d < PS_NUMCORES" using remote_of_bounds [OF assms(2)] ok by (auto simp: loop_ok_def)
  note Dd = steps_invD [OF assms(1) d(2)]
  obtain p where p: "upd_other c ?d (\<lambda>oc. oc\<lparr>oc_time_in := qt_time_in (tm (ss_parsec s) ?d)\<rparr>) (ss_parsec s) = Some p"
    and s': "s' = smr_with c (Reading_out q i mn) p s"
    using assms(4) pc get_timing_in [OF D(1) d(2)] by (auto simp: smr_move_def timing_read_in_def Let_def bind_eq_Some_conv)
  note e = upd_other_effect [OF D(1) p]
  show ?thesis
  proof (rule steps_inv_move [OF assms(1), where c = c and pc = "Reading_out q i mn"])
    fix f assume "f < PS_NUMCORES" "c \<noteq> f" "\<not> in_window c (Reading_out q i mn) f"
    then show "oc_time_in (oc (ss_parsec s') c f) \<le> oc_time_updated (oc (ss_parsec s') c f)"
      using D(6) [of f] pc e(5) by (simp add: s')
  next
    fix f x assume f: "f < PS_NUMCORES" "claim (ss_parsec s') c (Reading_out q i mn) f x"
    then consider "claim (ss_parsec s) c (ss_pc s c) f x" | "f = ?d" "x \<le> qt_time_in (tm (ss_parsec s) ?d)"
      using pc e(4,5) by (auto simp: s' claim_def view_claim_def split: if_splits)
    then show "(\<exists>e < PS_NUMCORES. claim (ss_parsec s) e (ss_pc s e) f x) \<or>
        x < clk (ss_time s') \<and> (ss_clean s \<longrightarrow> running (ss_parsec s) f \<longrightarrow> x \<le> clk (ss_stored s f))"
      using assms(2) Dd(2,3) by cases (auto simp: s' intro: le_less_trans order.trans)
  qed (use ok e d in \<open>simp_all add: s' loop_ok_def call_ok_def\<close>)
qed

lemma reading_out_inv:
  assumes "steps_inv clk s" and "c < PS_NUMCORES" and pc: "ss_pc s c = Reading_out q i mn" and "smr_move clk c s = Some s'"
  shows "steps_inv clk s'"
proof -
  note D = steps_invD [OF assms(1,2)]
  let ?d = "remote_of c i"
  have ok: "loop_ok (ss_parsec s) c q i mn" using D(4) pc by simp
  have d: "?d \<noteq> c" "?d < PS_NUMCORES" using remote_of_bounds [OF assms(2)] ok by (auto simp: loop_ok_def)
  obtain p where p: "upd_other c ?d (\<lambda>oc. oc\<lparr>oc_time_out := qt_time_out (tm (ss_parsec s) ?d)\<rparr>) (ss_parsec s) = Some p"
    and s': "s' = smr_with c (Stamping q i mn) p s"
    using assms(4) pc get_timing_in [OF D(1) d(2)] by (auto simp: smr_move_def timing_read_out_def Let_def bind_eq_Some_conv)
  note e = upd_other_effect [OF D(1) p]
  show ?thesis
  proof (rule steps_inv_move [OF assms(1), where c = c and pc = "Stamping q i mn"])
    fix f assume "f < PS_NUMCORES" "c \<noteq> f" "\<not> in_window c (Stamping q i mn) f"
    then show "oc_time_in (oc (ss_parsec s') c f) \<le> oc_time_updated (oc (ss_parsec s') c f)"
      using D(6) [of f] pc e(5) by (simp add: s')
  next
    fix f x assume f: "f < PS_NUMCORES" "claim (ss_parsec s') c (Stamping q i mn) f x"
    then have "claim (ss_parsec s) c (ss_pc s c) f x"
      using pc e(4,5) by (auto simp: s' claim_def view_claim_def split: if_splits)
    then show "(\<exists>e < PS_NUMCORES. claim (ss_parsec s) e (ss_pc s e) f x) \<or>
        x < clk (ss_time s') \<and> (ss_clean s \<longrightarrow> running (ss_parsec s) f \<longrightarrow> x \<le> clk (ss_stored s f))"
      using assms(2) by blast
  next
    assume "ss_clean s"
    then show "window_ok (ss_parsec s') c (Stamping q i mn)"
      using D(5) pc e(4,5) d by (simp add: s' Let_def ps_in_lib_def)
  qed (use ok e d in \<open>simp_all add: s' loop_ok_def call_ok_def\<close>)
qed

lemma stamping_inv:
  assumes "steps_inv clk s" and "c < PS_NUMCORES" and pc: "ss_pc s c = Stamping q i mn" and "smr_move clk c s = Some s'"
    and ck: "clk (ss_time s) < clk (Suc (ss_time s))"
  shows "steps_inv clk s'"
proof -
  note D = steps_invD [OF assms(1,2)]
  let ?d = "remote_of c i"
  have ok: "loop_ok (ss_parsec s) c q i mn" using D(4) pc by simp
  have d: "?d \<noteq> c" "?d < PS_NUMCORES" using remote_of_bounds [OF assms(2)] ok by (auto simp: loop_ok_def)
  obtain p where p: "upd_other c ?d (\<lambda>oc. oc\<lparr>oc_time_updated := clk (ss_time s)\<rparr>) (ss_parsec s) = Some p"
    and s': "s' = smr_with c (Comparing q i mn) p (s\<lparr>ss_time := Suc (ss_time s)\<rparr>)"
    using assms(4) pc by (auto simp: smr_move_def timing_stamp_def Let_def bind_eq_Some_conv)
  note e = upd_other_effect [OF D(1) p]
  have tin: "oc_time_in (oc (ss_parsec s) c ?d) < clk (ss_time s)"
    using D(7) [OF d(2)] d(1) pc by (simp add: claim_def view_claim_def)
  show ?thesis
  proof (rule steps_inv_move [OF assms(1), where c = c and pc = "Comparing q i mn"])
    fix f assume "f < PS_NUMCORES" "c \<noteq> f"
    then show "oc_time_in (oc (ss_parsec s') c f) \<le> oc_time_updated (oc (ss_parsec s') c f)"
      using D(6) [of f] pc e(5) tin by (auto simp: s' less_imp_le)
  next
    fix f x assume f: "f < PS_NUMCORES" "claim (ss_parsec s') c (Comparing q i mn) f x"
    then consider "claim (ss_parsec s) c (ss_pc s c) f x"
      | "f = ?d" "x \<le> clk (ss_time s)" "oc_time_in (oc (ss_parsec s) c ?d) < oc_time_out (oc (ss_parsec s) c ?d)"
      using pc e(4,5) by (auto simp: s' claim_def view_claim_def split: if_splits)
    then show "(\<exists>e < PS_NUMCORES. claim (ss_parsec s) e (ss_pc s e) f x) \<or>
        x < clk (ss_time s') \<and> (ss_clean s \<longrightarrow> running (ss_parsec s) f \<longrightarrow> x \<le> clk (ss_stored s f))"
    proof cases
      case 2
      moreover have "\<not> running (ss_parsec s) ?d" if "ss_clean s" using D(5) [OF that] pc 2(3) by (auto simp: Let_def)
      ultimately show ?thesis using ck by (auto simp: s' intro: le_less_trans)
    qed (use assms(2) in blast)
  qed (use ok e d ck in \<open>simp_all add: s' loop_ok_def call_ok_def less_imp_le\<close>)
qed

lemma taking_over_inv:
  assumes "steps_inv clk s" and "c < PS_NUMCORES" and pc: "ss_pc s c = Taking_over q i mn" and "smr_move clk c s = Some s'"
  shows "steps_inv clk s'"
proof -
  note D = steps_invD [OF assms(1,2)]
  let ?d = "remote_of c i"
  have ok: "loop_ok (ss_parsec s) c q i mn" using D(4) pc by simp
  have d: "?d \<noteq> c" "?d < PS_NUMCORES" using remote_of_bounds [OF assms(2)] ok by (auto simp: loop_ok_def)
  let ?z = "qt_last_known_quiescence (tm (ss_parsec s) ?d)"
  obtain p where p: "upd_timing c (\<lambda>me. me\<lparr>qt_last_known_quiescence := ?z\<rparr>) (ss_parsec s) = Some p"
    and s': "s' = smr_with c (Recheck q i False mn) p s"
    using assms(4) pc get_timing_in [OF D(1) d(2)] by (auto simp: smr_move_def Let_def bind_eq_Some_conv)
  note e = upd_timing_effect [OF D(1) p]
  show ?thesis
  proof (rule steps_inv_move [OF assms(1), where c = c and pc = "Recheck q i False mn"])
    fix f assume "f < PS_NUMCORES" "c \<noteq> f"
    then show "oc_time_in (oc (ss_parsec s') c f) \<le> oc_time_updated (oc (ss_parsec s') c f)"
      using D(6) [of f] pc e(4) by (simp add: s')
  next
    fix f x assume f: "f < PS_NUMCORES" "claim (ss_parsec s') c (Recheck q i False mn) f x"
    then have "claim (ss_parsec s) c (ss_pc s c) f x \<or> claim (ss_parsec s) ?d (ss_pc s ?d) f x"
      using pc e(3,4) by (auto simp: s' claim_def)
    then show "(\<exists>e < PS_NUMCORES. claim (ss_parsec s) e (ss_pc s e) f x) \<or>
        x < clk (ss_time s') \<and> (ss_clean s \<longrightarrow> running (ss_parsec s) f \<longrightarrow> x \<le> clk (ss_stored s f))"
      using assms(2) d(2) by blast
  qed (use ok e d in \<open>simp_all add: s' loop_ok_def call_ok_def ps_in_lib_def\<close>)
qed

text \<open>The end of the call.\<close>

lemma finish_all:
  assumes "shape p" and "c < PS_NUMCORES" and "quiesce_finish c inlib qsc (QAll mn) p = Some (r, p')"
  shows "\<exists>y. y = (if inlib \<and> mn > qt_time_in (tm p c) then qt_time_in (tm p c) else mn) \<and>
    (if qt_last_known_quiescence (tm p c) < y
     then r = Returned 0 y \<and> upd_timing c (\<lambda>q. q\<lparr>qt_last_known_quiescence := y\<rparr>) p = Some p'
     else r = Returned 0 qsc \<and> p' = p)"
  using assms(3) get_timing_in [OF assms(1,2)]
  by (auto simp: PS_NUMCORES_def Let_def bind_eq_Some_conv split: if_splits)

lemma leaving_all_inv:
  assumes "steps_inv clk s" and "c < PS_NUMCORES" and pc: "ss_pc s c = Leaving_loop q (QAll mn)" and "smr_move clk c s = Some s'"
  shows "steps_inv clk s'"
proof -
  note D = steps_invD [OF assms(1,2)]
  let ?me = "tm (ss_parsec s) c"
  have ok: "call_ok (ss_parsec s) c q" "qc_tsc q < mn" using D(4) pc by simp_all
  obtain r p where f: "quiesce_finish c (qc_inlib q) (qc_qsc q) (QAll mn) (ss_parsec s) = Some (r, p)"
    and r: "(case r of Spinning \<Rightarrow> None | Returned v z \<Rightarrow> Some (smr_with c (Finished q v z) p s)) = Some s'"
    using assms(4) pc by (auto simp: smr_move_def Let_def bind_eq_Some_conv simp del: quiesce_finish.simps)
  define y where "y = (if qc_inlib q \<and> mn > qt_time_in ?me then qt_time_in ?me else mn)"
  have ty: "qc_tsc q \<le> y" using ok by (auto simp: y_def call_ok_def not_less)
  have clm: "claim (ss_parsec s) c (ss_pc s c) e y" if "e \<noteq> c" for e
    using that pc by (auto simp: claim_def y_def)
  have past: "y < clk (ss_time s)"
  proof -
    obtain e where "e < PS_NUMCORES" "e \<noteq> c" by (rule other_exists [OF assms(2)])
    then show ?thesis using D(7) clm by blast
  qed
  have own: "y \<le> qt_time_in ?me" if "running (ss_parsec s) c" using that ok(1) by (auto simp: y_def call_ok_def)
  have good: "x < clk (ss_time s) \<and> (ss_clean s \<longrightarrow> running (ss_parsec s) e \<longrightarrow> x \<le> clk (ss_stored s e))"
    if "e < PS_NUMCORES" "x \<le> y" for e x
  proof (cases "e = c")
    case True
    then show ?thesis using past own that D(3) by (auto intro: le_less_trans order.trans)
  next
    case False
    then show ?thesis using past that D(8) [OF _ that(1) _ clm] by (auto intro: le_less_trans order.trans)
  qed
  note fin = finish_all [OF D(1) assms(2) f, folded y_def]
  show ?thesis
  proof (cases "qt_last_known_quiescence ?me < y")
    case True
    then have p: "upd_timing c (\<lambda>q. q\<lparr>qt_last_known_quiescence := y\<rparr>) (ss_parsec s) = Some p"
      and s': "s' = smr_with c (Finished q 0 y) p s" using fin r by auto
    note e = upd_timing_effect [OF D(1) p]
    show ?thesis
    proof (rule steps_inv_move [OF assms(1), where c = c and pc = "Finished q 0 y"])
      fix f assume "f < PS_NUMCORES" "c \<noteq> f"
      then show "oc_time_in (oc (ss_parsec s') c f) \<le> oc_time_updated (oc (ss_parsec s') c f)"
        using D(6) [of f] pc e(4) by (simp add: s')
    next
      fix f x assume f: "f < PS_NUMCORES" "claim (ss_parsec s') c (Finished q 0 y) f x"
      then have "x \<le> y \<or> claim (ss_parsec s) c (ss_pc s c) f x" using pc e(3,4) by (auto simp: s' claim_def)
      then show "(\<exists>e < PS_NUMCORES. claim (ss_parsec s) e (ss_pc s e) f x) \<or>
          x < clk (ss_time s') \<and> (ss_clean s \<longrightarrow> running (ss_parsec s) f \<longrightarrow> x \<le> clk (ss_stored s f))"
        using assms(2) good [OF f(1)] by (auto simp: s')
    qed (use ty e in \<open>simp_all add: s' ps_in_lib_def\<close>)
  next
    case False
    then have s': "s' = smr_goto c (Finished q 0 (qc_qsc q)) s"
      using fin r by (auto simp: smr_with_def)
    show ?thesis unfolding s'
      by (rule steps_inv_goto [OF assms(1,2)]) (use pc ty False in \<open>auto simp: claim_def not_less\<close>)
  qed
qed

lemma leaving_inv:
  assumes "steps_inv clk s" and "c < PS_NUMCORES" and pc: "ss_pc s c = Leaving_loop q r" and "smr_move clk c s = Some s'"
  shows "steps_inv clk s'"
proof -
  note D = steps_invD [OF assms(1,2)]
  consider (all) mn where "r = QAll mn" | (other) v where "s' = smr_goto c (Finished q v (qc_qsc q)) s"
    "v = 0 \<longrightarrow> qc_tsc q \<le> qt_last_known_quiescence (tm (ss_parsec s) c)"
  proof (cases r)
    case QBreak
    then have "s' = smr_goto c (Finished q 0 (qc_qsc q)) s" using assms(4) pc by (simp add: smr_move_def Let_def smr_with_def)
    then show ?thesis using D(4) pc QBreak by (intro other) auto
  next
    case QFail
    then have "s' = smr_goto c (Finished q (- 1) (qc_qsc q)) s" using assms(4) pc by (simp add: smr_move_def Let_def smr_with_def)
    then show ?thesis by (intro other) auto
  next
    case QSpin
    then show ?thesis using assms(4) pc by (simp add: smr_move_def Let_def)
  qed
  then show ?thesis
  proof cases
    case all
    then show ?thesis using leaving_all_inv [OF assms(1,2)] assms(3,4) by blast
  next
    case other
    show ?thesis unfolding other(1)
      by (rule steps_inv_goto [OF assms(1,2)]) (use pc other(2) in \<open>auto simp: claim_def\<close>)
  qed
qed

section \<open>Entering and leaving\<close>

lemma later_inv:
  assumes "steps_inv clk s" and "clk (ss_time s) \<le> clk (Suc (ss_time s))"
  shows "steps_inv clk (s\<lparr>ss_time := Suc (ss_time s)\<rparr>)"
proof -
  have "smr_pc_ok clk (Suc (ss_time s)) (ss_parsec s) c (ss_pc s c)"
    if "smr_pc_ok clk (ss_time s) (ss_parsec s) c (ss_pc s c)" for c
    using that assms(2) by (cases "ss_pc s c") auto
  then show ?thesis
    using assms less_le_trans [OF _ assms(2)]
    by (simp add: steps_inv_def core_ok_def claims_past_def claims_hold_def)
qed

lemma enter_read_inv:
  assumes "steps_inv clk s" and "c < PS_NUMCORES" and "ss_pc s c = Outside" and ck: "clk (ss_time s) < clk (Suc (ss_time s))"
  shows "steps_inv clk (enter_read clk c s)"
proof -
  let ?s = "s\<lparr>ss_time := Suc (ss_time s)\<rparr>"
  have "steps_inv clk ?s" using later_inv [OF assms(1)] ck by simp
  then have "steps_inv clk (smr_goto c (Entering (clk (ss_time s))) ?s)"
    by (rule steps_inv_goto [OF _ assms(2)]) (use assms(3) ck in auto)
  then show ?thesis by (simp add: enter_read_def)
qed

lemma enter_store_inv:
  assumes inv: "steps_inv clk s" and c: "c < PS_NUMCORES" and pc: "ss_pc s c = Entering ts" and "enter_store c ts s = Some s'"
  shows "steps_inv clk s'"
proof -
  note D = steps_invD [OF inv c]
  obtain p where p: "upd_timing c (\<lambda>q. q\<lparr>qt_time_in := ts\<rparr>) (ss_parsec s) = Some p"
    and s': "s' = smr_with c Outside p (s\<lparr>ss_stored := (ss_stored s)(c := ss_time s),
       ss_clean := (ss_clean s \<and> list_all (\<lambda>d. \<not> in_window d (ss_pc s d) c) [0..<PS_NUMCORES])\<rparr>)"
    using assms(4) by (auto simp: enter_store_def ps_enter_def bind_eq_Some_conv)
  note e = upd_timing_effect [OF D(1) p]
  have ts: "ts < clk (ss_time s)" using D(4) pc by simp
  have cl: "claim (ss_parsec s') f (ss_pc s' f) d x \<Longrightarrow> claim (ss_parsec s) f (ss_pc s f) d x" for f d x
    using e(3,4) pc by (cases "f = c") (auto simp: s' claim_def)
  have run: "running p d = running (ss_parsec s) d" if "d \<noteq> c" for d using that e(3) by simp
  have "core_ok clk s' f" if f: "f < PS_NUMCORES" for f
  proof (cases "f = c")
    case True
    then show ?thesis using ts D(6) pc e(3,4) by (auto simp: core_ok_def s')
  next
    case False
    note F = steps_invD [OF inv f]
    have "smr_pc_ok clk (ss_time s) p f (ss_pc s f)"
      using F(4) e(3) False by (cases "ss_pc s f") (auto simp: loop_ok_def call_ok_def split: qloop.splits)
    moreover have "window_ok p f (ss_pc s f)" if "ss_clean s" "\<not> in_window f (ss_pc s f) c"
      using F(5) that e(3,4) by (cases "ss_pc s f") (auto simp: Let_def)
    ultimately show ?thesis using F(2,3,6) False f e(3,4) by (auto simp: core_ok_def s' list_all_iff)
  qed
  moreover have "claims_past clk s'" using inv cl unfolding steps_inv_def claims_past_def by (auto simp: s')
  moreover have "claims_hold clk s'" if "ss_clean s'"
    unfolding claims_hold_def
  proof (intro allI impI)
    fix f d x assume f: "f < PS_NUMCORES" "d < PS_NUMCORES" "running (ss_parsec s') d" "claim (ss_parsec s') f (ss_pc s' f) d x"
    note F = steps_invD [OF inv f(1)]
    show "x \<le> clk (ss_stored s' d)"
    proof (cases "d = c")
      case True
      then show ?thesis using F(7) [OF f(2) cl [OF f(4)]] by (simp add: s' less_imp_le)
    next
      case False
      then show ?thesis using F(8) [OF _ f(2) _ cl [OF f(4)]] f(3) run that by (simp add: s')
    qed
  qed
  ultimately show ?thesis using e(2) by (simp add: steps_inv_def s')
qed

lemma leave_inv:
  assumes inv: "steps_inv clk s" and c: "c < PS_NUMCORES" and pc: "ss_pc s c = Outside" and x: "ps_exit c (ss_parsec s) = Some p"
  shows "steps_inv clk (smr_with c Outside p s)"
proof -
  note D = steps_invD [OF inv c]
  note e = upd_timing_effect [OF D(1) x [unfolded ps_exit_def]]
  have "qt_time_in (tm (ss_parsec s) c) < qt_time_in (tm (ss_parsec s) c) + 1"
    using D(2) by (auto simp: word_less_nat_alt unat_inc)
  then have out: "\<not> running p c" using e(3) by (simp add: ps_in_lib_def)
  show ?thesis
  proof (rule steps_inv_move [OF inv, where c = c and pc = Outside])
    fix f assume "f < PS_NUMCORES" "c \<noteq> f"
    then show "oc_time_in (oc (ss_parsec (smr_with c Outside p s)) c f) \<le> oc_time_updated (oc (ss_parsec (smr_with c Outside p s)) c f)"
      using D(6) [of f] pc e(4) by simp
  next
    fix f x assume "f < PS_NUMCORES" "claim (ss_parsec (smr_with c Outside p s)) c Outside f x"
    then have "claim (ss_parsec s) c (ss_pc s c) f x" using pc e(3,4) by (auto simp: claim_def)
    then show "(\<exists>e < PS_NUMCORES. claim (ss_parsec s) e (ss_pc s e) f x) \<or>
        x < clk (ss_time (smr_with c Outside p s)) \<and> (ss_clean s \<longrightarrow> running (ss_parsec s) f \<longrightarrow> x \<le> clk (ss_stored s f))"
      using c by blast
  qed (use e out in simp_all)
qed

section \<open>All runs\<close>

lemma move_inv:
  assumes "steps_inv clk s" and "c < PS_NUMCORES" and "smr_move clk c s = Some s'" and "advancing clk (ss_time s')"
  shows "steps_inv clk s'"
proof (cases "ss_pc s c")
  case Outside
  then show ?thesis using assms(3) by (simp add: smr_move_def Let_def)
next
  case (Entering ts)
  then show ?thesis using enter_store_inv [OF assms(1,2)] assms(3) by (simp add: smr_move_def Let_def)
next
  case (Stamping q i mn)
  then have "ss_time s' = Suc (ss_time s)" using assms(3) by (auto simp: smr_move_def Let_def bind_eq_Some_conv)
  then show ?thesis using stamping_inv [OF assms(1,2) Stamping assms(3)] advancing_Suc [OF assms(4)] by simp
next
  case (Looping q i mn)
  then show ?thesis by (rule looping_inv [OF assms(1,2) _ assms(3)])
next
  case (Recheck q i ft mn)
  then show ?thesis by (rule recheck_inv_steps [OF assms(1,2) _ assms(3)])
next
  case (Reading_in q i mn)
  then show ?thesis by (rule reading_in_inv [OF assms(1,2) _ assms(3)])
next
  case (Reading_out q i mn)
  then show ?thesis by (rule reading_out_inv [OF assms(1,2) _ assms(3)])
next
  case (Comparing q i mn)
  then show ?thesis by (rule comparing_inv [OF assms(1,2) _ assms(3)])
next
  case (Taking_over q i mn)
  then show ?thesis by (rule taking_over_inv [OF assms(1,2) _ assms(3)])
next
  case (Leaving_loop q r)
  then show ?thesis by (rule leaving_inv [OF assms(1,2) _ assms(3)])
next
  case (Finished q v z)
  then show ?thesis by (rule finished_inv [OF assms(1,2) _ assms(3)])
qed

lemma do_inv:
  assumes "steps_inv clk s" and "c < PS_NUMCORES" and "smr_do clk c a s = Some s'" and "advancing clk (ss_time s')"
  shows "steps_inv clk s'"
proof (cases a)
  case Enter
  then have "ss_pc s c = Outside" "s' = enter_read clk c s" using assms(3) by (auto simp: bind_eq_Some_conv split: if_splits)
  then show ?thesis using enter_read_inv [OF assms(1,2)] advancing_Suc [OF assms(4), of "ss_time s"] by (simp add: enter_read_def)
next
  case Leave
  then show ?thesis using leave_inv [OF assms(1,2)] assms(3) by (auto simp: bind_eq_Some_conv split: if_splits)
next
  case (Quiesce b tsc)
  then show ?thesis using begin_inv [OF assms(1,2)] assms(3) by (auto split: if_splits)
next
  case Go
  then show ?thesis using move_inv [OF assms(1,2)] assms(3,4) by simp
qed

lemma move_time:
  assumes "smr_move clk c s = Some s'"
  shows "ss_time s \<le> ss_time s'"
proof (cases "ss_pc s c")
  case (Leaving_loop q r)
  then obtain res p where "(case res of Spinning \<Rightarrow> None | Returned v z \<Rightarrow> Some (smr_with c (Finished q v z) p s)) = Some s'"
    using assms by (auto simp: smr_move_def Let_def bind_eq_Some_conv)
  then show ?thesis by (cases res) auto
qed (use assms in \<open>auto simp: smr_move_def enter_store_def Let_def bind_eq_Some_conv split: if_splits\<close>)

lemma do_time: "smr_do clk c a s = Some s' \<Longrightarrow> ss_time s \<le> ss_time s'"
  by (cases a) (auto simp: enter_read_def quiesce_begin_def Let_def bind_eq_Some_conv dest: move_time split: if_splits)

lemma begin_steps_inv:
  assumes "clk 0 < clk 1"
  shows "steps_inv clk (smr_begin clk)"
proof -
  have i: "smr_inv clk (ps_init (clk 0)) (Suc 0)" using smr_inv_init [of clk] assms by simp
  have out: "\<not> running (ps_init (clk 0)) c" if "c < PS_NUMCORES" for c
  proof -
    have "clk 0 < clk 0 + 1" using assms by (auto simp: word_less_nat_alt unat_inc)
    then show ?thesis using that by (simp add: tm_def ps_init_def ps_in_lib_def)
  qed
  note D = smr_invD [OF i]
  have "x < clk 1" if "c < PS_NUMCORES" "d < PS_NUMCORES" "claim (ps_init (clk 0)) c Outside d x" for c d x
    using that D(2,3,5) [of c] D(6) [of c d] D(2) [of d] by (auto simp: claim_def view_claim_def intro: le_less_trans)
  then show ?thesis using D out
    by (simp add: steps_inv_def core_ok_def claims_past_def claims_hold_def smr_begin_def)
qed

lemma smr_steps_inv: "smr_steps clk s \<Longrightarrow> advancing clk (ss_time s) \<Longrightarrow> steps_inv clk s"
proof (induction rule: smr_steps.induct)
  case start
  then show ?case using begin_steps_inv by (simp add: advancing_def smr_begin_def)
next
  case (act s c a s')
  then show ?case using do_inv do_time advancing_less by blast
next
  case (tick s)
  then show ?case using later_inv advancing_Suc [of clk "Suc (ss_time s)" "ss_time s"] advancing_less [of clk _ "ss_time s"]
    by (simp add: less_imp_le)
qed

lemma finish_returns:
  assumes "shape p" and "c < PS_NUMCORES" and "mn < - 1" and "qt_time_in (tm p c) < - 1"
  shows "\<exists>z p'. quiesce_finish c inlib qsc (QAll mn) p = Some (Returned 0 z, p')"
  using get_timing_in [OF assms(1,2)] upd_timing_total [OF assms(1,2)] assms(3,4)
  by (fastforce simp: Let_def bind_eq_Some_conv)

text \<open>A core inside a call can always move: no assertion fails.\<close>

lemma smr_move_total:
  assumes "steps_inv clk s" and "c < PS_NUMCORES" and "ss_pc s c \<noteq> Outside"
  shows "\<exists>s'. smr_move clk c s = Some s'"
proof -
  note D = steps_invD [OF assms(1,2)]
  have d: "remote_of c i < PS_NUMCORES" "remote_of c i \<noteq> c" if "loop_ok (ss_parsec s) c q i mn" for q i mn
    using that remote_of_bounds [OF assms(2)] by (auto simp: loop_ok_def)
  note get = get_timing_in [OF D(1)] get_other_in [OF D(1) assms(2)]
  note upd = upd_other_total [OF D(1) assms(2)] upd_timing_total [OF D(1) assms(2)]
  show ?thesis
  proof (cases "ss_pc s c")
    case (Leaving_loop q r)
    show ?thesis
    proof (cases r)
      case (QAll mn)
      have top: "x < clk (ss_time s) \<Longrightarrow> x < - 1" for x by (erule less_le_trans) simp
      obtain e where "e < PS_NUMCORES" "e \<noteq> c" by (rule other_exists [OF assms(2)])
      then have "mn < - 1" using D(7) [of e mn] Leaving_loop QAll top by (simp add: claim_def)
      moreover have "qt_time_in (tm (ss_parsec s) c) < - 1" by (rule top [OF D(2)])
      ultimately obtain z p' where "quiesce_finish c (qc_inlib q) (qc_qsc q) (QAll mn) (ss_parsec s) = Some (Returned 0 z, p')"
        using finish_returns [OF D(1) assms(2)] by blast
      then show ?thesis using Leaving_loop QAll by (simp add: smr_move_def del: quiesce_finish.simps)
    qed (use Leaving_loop D(4) in \<open>simp_all add: smr_move_def\<close>)
  next
    case (Looping q i mn)
    then show ?thesis using D(4) remote_of_bounds [OF assms(2)] by (auto simp: smr_move_def Let_def)
  next
    case (Entering ts)
    obtain p where "upd_timing c (\<lambda>q. q\<lparr>qt_time_in := ts\<rparr>) (ss_parsec s) = Some p" using upd(2) by blast
    then show ?thesis using Entering by (simp add: smr_move_def enter_store_def ps_enter_def)
  next
    case (Recheck q i ft mn)
    then show ?thesis using D(4) d get assms(2) by (auto simp: smr_move_def Let_def)
  next
    case (Reading_in q i mn)
    then have "loop_ok (ss_parsec s) c q i mn" using D(4) by simp
    note d = d [OF this]
    from upd(1) [OF d(1)] obtain p where
      "upd_other c (remote_of c i) (\<lambda>oc. oc\<lparr>oc_time_in := qt_time_in (tm (ss_parsec s) (remote_of c i))\<rparr>) (ss_parsec s) = Some p"
      by blast
    then show ?thesis using Reading_in get(1) [OF d(1)] by (simp add: smr_move_def timing_read_in_def)
  next
    case (Reading_out q i mn)
    then have "loop_ok (ss_parsec s) c q i mn" using D(4) by simp
    note d = d [OF this]
    from upd(1) [OF d(1)] obtain p where
      "upd_other c (remote_of c i) (\<lambda>oc. oc\<lparr>oc_time_out := qt_time_out (tm (ss_parsec s) (remote_of c i))\<rparr>) (ss_parsec s) = Some p"
      by blast
    then show ?thesis using Reading_out get(1) [OF d(1)] by (simp add: smr_move_def timing_read_out_def)
  next
    case (Stamping q i mn)
    then have "loop_ok (ss_parsec s) c q i mn" using D(4) by simp
    from upd(1) [OF d(1) [OF this]] obtain p where
      "upd_other c (remote_of c i) (\<lambda>oc. oc\<lparr>oc_time_updated := clk (ss_time s)\<rparr>) (ss_parsec s) = Some p" by blast
    then show ?thesis using Stamping by (simp add: smr_move_def timing_stamp_def)
  next
    case (Comparing q i mn)
    then show ?thesis using D(4) d get assms(2) by (auto simp: smr_move_def Let_def)
  next
    case (Taking_over q i mn)
    then have "loop_ok (ss_parsec s) c q i mn" using D(4) by simp
    note g = get(1) [OF d(1) [OF this]]
    obtain p where "upd_timing c (\<lambda>me. me\<lparr>qt_last_known_quiescence :=
      qt_last_known_quiescence (tm (ss_parsec s) (remote_of c i))\<rparr>) (ss_parsec s) = Some p" using upd(2) by blast
    then show ?thesis using Taking_over g by (simp add: smr_move_def)
  qed (use assms(3) in \<open>simp_all add: smr_move_def\<close>)
qed

section \<open>Properties\<close>

text \<open>
  C13: safety of quiescence, whatever the interleaving of the accesses of all cores.  When a call of
  \<open>ps_quiesce\<close> returns, every section that is running was stored, by \<open>ps_enter\<close>, at the time the call leaves
  in \<open>*qsc\<close> or later; so memory that was freed up to \<open>*qsc\<close> cannot be held by a running section.  The counter
  is assumed to advance between readings, and no entry of a section to have been stored between another core's
  read of that core's entry time and the stamp that follows: the race that C17 exhibits.
\<close>

theorem ps_quiesce_safe:
  assumes "smr_steps clk s" and "advancing clk (ss_time s)" and "ss_clean s" and "c < PS_NUMCORES"
    and "ss_pc s c = Finished q v qsc" and "d < PS_NUMCORES" and "ps_in_lib (tm (ss_parsec s) d)"
  shows "qsc \<le> clk (ss_stored s d)"
proof -
  have "claim (ss_parsec s) c (ss_pc s c) d qsc" using assms(5) by (simp add: claim_def)
  then show ?thesis using steps_invD(8) [OF smr_steps_inv [OF assms(1,2)]] assms(3,4,6,7) by blast
qed

text \<open>
  C14: the meaning of the result 0.  When a call of \<open>ps_quiesce\<close> for a time answers 0, the caller's known
  quiescence has reached that time and, under the condition of C13, every section that is running was stored at
  that time or later, its own included.
\<close>

theorem ps_quiesce_zero_means_quiescent:
  assumes "smr_steps clk s" and "advancing clk (ss_time s)" and "c < PS_NUMCORES" and "ss_pc s c = Finished q 0 qsc"
  shows "qc_tsc q \<le> qt_last_known_quiescence (tm (ss_parsec s) c) \<and>
    (ss_clean s \<longrightarrow> (\<forall>d < PS_NUMCORES. ps_in_lib (tm (ss_parsec s) d) \<longrightarrow> qc_tsc q \<le> clk (ss_stored s d)))"
proof -
  note D = steps_invD [OF smr_steps_inv [OF assms(1,2)] assms(3)]
  have z: "qc_tsc q \<le> qt_last_known_quiescence (tm (ss_parsec s) c)" using D(4) assms(4) by simp
  then have "claim (ss_parsec s) c (ss_pc s c) d (qc_tsc q)" for d by (simp add: claim_def)
  then show ?thesis using z D(8) by blast
qed

section \<open>Example runs\<close>

text \<open>Core 1 enters a section, then core 0 asks for time 10.\<close>

definition wit_schedule :: "(nat \<times> smr_act) list" where
  "wit_schedule = [(1, Enter), (1, Go), (0, Quiesce False 10)] @ replicate 23 (0, Go)"

lemma wit_schedule_run:
  "(case smr_schedule race_clk wit_schedule (smr_begin race_clk) of None \<Rightarrow> False
    | Some s \<Rightarrow> ss_time s = 5 \<and> ss_clean s \<and> ps_in_lib (tm (ss_parsec s) 1) \<and>
        qt_last_known_quiescence (tm (ss_parsec s) 0) = 11 \<and> ss_stored s 1 = 2 \<and>
        ss_pc s 0 = Finished \<lparr>qc_tsc = 10, qc_blocking = False, qc_inlib = False, qc_qsc = 10\<rparr> 0 11)"
  by code_simp

lemma wit_steps:
  obtains s where "smr_steps race_clk s" "ss_time s = 5" "ss_clean s" "ps_in_lib (tm (ss_parsec s) 1)"
    "qt_last_known_quiescence (tm (ss_parsec s) 0) = 11" "ss_stored s 1 = 2"
    "ss_pc s 0 = Finished \<lparr>qc_tsc = 10, qc_blocking = False, qc_inlib = False, qc_qsc = 10\<rparr> 0 11"
  using wit_schedule_run smr_schedule_steps [OF smr_steps.start] by (auto split: option.splits)

theorem ps_quiesce_safe_witness:
  "\<exists>s q. smr_steps race_clk s \<and> ss_pc s 0 = Finished q 0 11 \<and> ps_in_lib (tm (ss_parsec s) 1) \<and>
     11 \<le> race_clk (ss_stored s 1)"
proof -
  obtain s where s: "smr_steps race_clk s" "ss_time s = 5" "ss_clean s" "ps_in_lib (tm (ss_parsec s) 1)"
    "ss_pc s 0 = Finished \<lparr>qc_tsc = 10, qc_blocking = False, qc_inlib = False, qc_qsc = 10\<rparr> 0 11"
    by (rule wit_steps)
  have a: "advancing race_clk (ss_time s)" unfolding s(2) by (rule race_clk_advancing) simp
  have "11 \<le> race_clk (ss_stored s 1)"
    by (rule ps_quiesce_safe [OF s(1) a s(3) _ s(5) _ s(4)]) (simp_all add: PS_NUMCORES_def)
  with s show ?thesis by blast
qed

theorem ps_quiesce_zero_means_quiescent_witness:
  "\<exists>s q. smr_steps race_clk s \<and> ss_pc s 0 = Finished q 0 11 \<and> qc_tsc q = 10 \<and>
     10 \<le> qt_last_known_quiescence (tm (ss_parsec s) 0) \<and> 10 \<le> race_clk (ss_stored s 1)"
proof -
  obtain s where s: "smr_steps race_clk s" "ss_time s = 5" "ss_clean s" "ps_in_lib (tm (ss_parsec s) 1)"
    "ss_pc s 0 = Finished \<lparr>qc_tsc = 10, qc_blocking = False, qc_inlib = False, qc_qsc = 10\<rparr> 0 11"
    by (rule wit_steps)
  have a: "advancing race_clk (ss_time s)" unfolding s(2) by (rule race_clk_advancing) simp
  have "10 \<le> qt_last_known_quiescence (tm (ss_parsec s) 0) \<and> 10 \<le> race_clk (ss_stored s 1)"
    using ps_quiesce_zero_means_quiescent [OF s(1) a _ s(5)] s(3,4) by (simp add: PS_NUMCORES_def)
  then show ?thesis using s by (intro exI [of _ s] exI [of _ "\<lparr>qc_tsc = 10, qc_blocking = False, qc_inlib = False, qc_qsc = 10\<rparr>"]) simp
qed

text \<open>
  The condition on the windows is needed: core 1 stores its entry, at time 12, after core 0 has read the times of
  core 1 and before core 0 stamps them with 13; the call of core 0 leaves 13 in \<open>*qsc\<close>.
\<close>

definition race_schedule :: "(nat \<times> smr_act) list" where
  "race_schedule = (0, Quiesce False 11) # replicate 4 (0, Go) @ [(1, Enter), (1, Go), (3, Enter), (3, Go), (3, Leave)] @
     replicate 19 (0, Go)"

lemma race_steps:
  "(case smr_schedule race_clk race_schedule (smr_begin race_clk) of None \<Rightarrow> False
    | Some s \<Rightarrow> \<not> ss_clean s \<and> ps_in_lib (tm (ss_parsec s) 1) \<and> race_clk (ss_stored s 1) = 12 \<and>
        ss_pc s 0 = Finished \<lparr>qc_tsc = 11, qc_blocking = False, qc_inlib = False, qc_qsc = 10\<rparr> 0 13)"
  by code_simp

end
