(* ===== verification/Smr_Steps_Alone.thy ===== *)
theory Smr_Steps_Alone
  imports Smr_Steps_Safety
begin

text \<open>
  The function \<open>ps_quiesce\<close> of \<open>Smr\<close> and the moves of \<open>Smr_Steps\<close> are the same code: a core that moves alone
  goes through the moves to the result, the structure and the number of readings that the function gives.
\<close>

text \<open>The state with core \<open>c\<close> at \<open>pc\<close>.\<close>

definition at_pc :: "smr_sys \<Rightarrow> nat \<Rightarrow> parsec \<Rightarrow> nat \<Rightarrow> smr_pc \<Rightarrow> smr_sys" where
  "at_pc s c p t pc = smr_goto c pc (s\<lparr>ss_parsec := p, ss_time := t\<rparr>)"

definition goes :: "clock \<Rightarrow> nat \<Rightarrow> smr_sys \<Rightarrow> smr_sys \<Rightarrow> bool" where
  "goes clk c s s' \<longleftrightarrow> (\<exists>n. smr_schedule clk (replicate n (c, Go)) s = Some s')"

lemma at_pc_simps [simp]:
  "ss_parsec (at_pc s c p t pc) = p" "ss_time (at_pc s c p t pc) = t" "ss_pc (at_pc s c p t pc) = (ss_pc s)(c := pc)"
  "smr_goto c pc' (at_pc s c p t pc) = at_pc s c p t pc'" "smr_with c pc' p' (at_pc s c p t pc) = at_pc s c p' t pc'"
  "smr_with c pc' p' (at_pc s c p t pc\<lparr>ss_time := t'\<rparr>) = at_pc s c p' t' pc'"
  by (simp_all add: at_pc_def smr_goto_def smr_with_def)

lemma smr_schedule_append:
  "smr_schedule clk (xs @ ys) s = Option.bind (smr_schedule clk xs s) (smr_schedule clk ys)"
proof (induction clk xs s rule: smr_schedule.induct)
  case (2 clk c a cas s)
  then show ?case by (cases "smr_do clk c a s") (auto simp del: smr_do.simps)
qed simp

lemma goes_refl: "goes clk c s s"
  unfolding goes_def by (intro exI [of _ 0]) simp

lemma goes_trans: "goes clk c s s1 \<Longrightarrow> goes clk c s1 s2 \<Longrightarrow> goes clk c s s2"
  unfolding goes_def
proof (elim exE)
  fix n m assume "smr_schedule clk (replicate n (c, Go)) s = Some s1" "smr_schedule clk (replicate m (c, Go)) s1 = Some s2"
  then show "\<exists>n. smr_schedule clk (replicate n (c, Go)) s = Some s2"
    by (intro exI [of _ "n + m"]) (simp add: replicate_add smr_schedule_append)
qed

lemma goes_step:
  assumes "c < PS_NUMCORES" and "smr_move clk c s = Some s1" and "goes clk c s1 s2"
  shows "goes clk c s s2"
proof -
  have "goes clk c s s1" unfolding goes_def by (intro exI [of _ 1]) (use assms in simp)
  then show ?thesis using assms(3) by (rule goes_trans)
qed

lemma goes_one: "c < PS_NUMCORES \<Longrightarrow> smr_move clk c s = Some s' \<Longrightarrow> goes clk c s s'"
  by (rule goes_step [OF _ _ goes_refl])

lemma share_goes:
  assumes c: "c < PS_NUMCORES" and sh: "timing_share_qsc c (remote_of c i) p = Some p'"
  shows "goes clk c (at_pc s c p t (Comparing q i mn)) (at_pc s c p' t (Recheck q i False mn))"
proof -
  obtain r me where g: "get_timing (remote_of c i) p = Some r" "get_timing c p = Some me"
    using sh by (auto simp: timing_share_qsc_def bind_eq_Some_conv)
  show ?thesis
  proof (cases "qt_last_known_quiescence me < qt_last_known_quiescence r")
    case True
    then have u: "upd_timing c (\<lambda>q. q\<lparr>qt_last_known_quiescence := qt_last_known_quiescence r\<rparr>) p = Some p'"
      using sh g by (simp add: timing_share_qsc_def)
    have "smr_move clk c (at_pc s c p t (Comparing q i mn)) = Some (at_pc s c p t (Taking_over q i mn))"
      using g True by (simp add: smr_move_def)
    moreover have "smr_move clk c (at_pc s c p t (Taking_over q i mn)) = Some (at_pc s c p' t (Recheck q i False mn))"
      using g u by (simp add: smr_move_def)
    ultimately show ?thesis using c by (blast intro: goes_step goes_one)
  next
    case False
    then have "p' = p" using sh g by (simp add: timing_share_qsc_def)
    then show ?thesis using g False by (intro goes_one [OF c]) (simp add: smr_move_def)
  qed
qed

lemma update_goes:
  assumes c: "c < PS_NUMCORES" and "ps_timing_update_remote no_env clk c (remote_of c i) p t = Some (p', t')"
  shows "goes clk c (at_pc s c p t (Reading_in q i mn)) (at_pc s c p' t' (Recheck q i False mn))"
proof -
  obtain p1 p2 p3 where 1: "timing_read_in c (remote_of c i) p = Some p1" "timing_read_out c (remote_of c i) p1 = Some p2"
    "timing_stamp c (remote_of c i) (clk t) p2 = Some p3" and 2: "timing_share_qsc c (remote_of c i) p3 = Some p'" "t' = Suc t"
    using assms(2) by (auto simp: ps_timing_update_remote_def no_env_def bind_eq_Some_conv)
  have "smr_move clk c (at_pc s c p t (Reading_in q i mn)) = Some (at_pc s c p1 t (Reading_out q i mn))"
    using 1 by (simp add: smr_move_def)
  moreover have "smr_move clk c (at_pc s c p1 t (Reading_out q i mn)) = Some (at_pc s c p2 t (Stamping q i mn))"
    using 1 by (simp add: smr_move_def)
  moreover have "smr_move clk c (at_pc s c p2 t (Stamping q i mn)) = Some (at_pc s c p3 t' (Comparing q i mn))"
    using 1 2 by (simp add: smr_move_def)
  ultimately show ?thesis using share_goes [OF c 2(1)] c by (blast intro: goes_step)
qed

text \<open>Where a core is after a round of the inner loop.\<close>

fun after_recheck :: "quiesce_call \<Rightarrow> nat \<Rightarrow> recheck \<Rightarrow> smr_pc" where
  "after_recheck q i (RNext mn) = Looping q (i + 1) mn"
| "after_recheck q i RBreak = Leaving_loop q QBreak"
| "after_recheck q i RFail = Leaving_loop q QFail"
| "after_recheck q i RSpin = Leaving_loop q QSpin"

lemma recheck_goes:
  assumes "quiesce_recheck k no_env clk (qc_blocking q) ft c (remote_of c i) (qc_tsc q) mn p t = Some (r, p', t')"
    and "r \<noteq> RSpin" and "shape p" and "c < PS_NUMCORES" and "remote_of c i < PS_NUMCORES"
  shows "goes clk c (at_pc s c p t (Recheck q i ft mn)) (at_pc s c p' t' (after_recheck q i r)) \<and> shape p'"
  using assms(1,3)
proof (induction k arbitrary: ft p t)
  case 0
  then show ?case using assms(2) by simp
next
  case (Suc k)
  let ?d = "remote_of c i"
  let ?me = "tm p c" and ?v = "oc p c ?d"
  note get = get_timing_in [OF Suc.prems(2) assms(4)] get_other_in [OF Suc.prems(2) assms(4,5)]
  have mv: "smr_move clk c (at_pc s c p t (Recheck q i ft mn)) = Some (at_pc s c p t (quiesce_check q i ft mn ?me ?v))"
    using get by (simp add: smr_move_def)
  show ?case
  proof (cases "quiesce_check q i ft mn ?me ?v = Reading_in q i mn")
    case True
    then obtain p1 t1 where 1: "ps_timing_update_remote no_env clk c ?d p t = Some (p1, t1)"
      and 2: "quiesce_recheck k no_env clk (qc_blocking q) False c ?d (qc_tsc q) mn p1 t1 = Some (r, p', t')"
      using Suc.prems(1) get by (auto simp: quiesce_check_def Let_def bind_eq_Some_conv split: if_splits)
    have "shape p1" using update_remote_effect [OF Suc.prems(2) assms(4,5), of clk t] 1 by auto
    from Suc.IH [OF 2 this] show ?thesis
      using goes_step [OF assms(4) mv] goes_trans [OF update_goes [OF assms(4) 1]] unfolding True by blast
  next
    case False
    then have "p' = p \<and> t' = t \<and> quiesce_check q i ft mn ?me ?v = after_recheck q i r"
      using Suc.prems(1) get by (auto simp: quiesce_check_def Let_def split: if_splits)
    then show ?thesis using goes_one [OF assms(4) mv] Suc.prems(2) by simp
  qed
qed

lemma loop_goes:
  assumes "quiesce_loop k no_env clk (qc_blocking q) c (qc_tsc q) [i..<PS_NUMCORES] mn p t = Some (r, p', t')"
    and "r \<noteq> QSpin" and "shape p" and "c < PS_NUMCORES" and "0 < i" and "i \<le> PS_NUMCORES"
  shows "goes clk c (at_pc s c p t (Looping q i mn)) (at_pc s c p' t' (Leaving_loop q r))"
  using assms(1,3,5,6)
proof (induction "PS_NUMCORES - i" arbitrary: i mn p t)
  case 0
  then have "i = PS_NUMCORES" by simp
  then show ?case using 0 by (intro goes_one [OF assms(4)]) (auto simp: smr_move_def)
next
  case (Suc n)
  then have i: "i < PS_NUMCORES" by simp
  have up: "[i..<PS_NUMCORES] = i # [Suc i..<PS_NUMCORES]" using i by (simp add: upt_conv_Cons)
  have d: "remote_of c i \<noteq> c" "remote_of c i < PS_NUMCORES" using remote_of_bounds [OF assms(4)] Suc.prems(3) i by auto
  obtain r1 p1 t1 where
    1: "quiesce_recheck k no_env clk (qc_blocking q) True c (remote_of c i) (qc_tsc q) mn p t = Some (r1, p1, t1)"
    and 2: "(case r1 of RNext mn \<Rightarrow> quiesce_loop k no_env clk (qc_blocking q) c (qc_tsc q) [Suc i..<PS_NUMCORES] mn p1 t1
      | RBreak \<Rightarrow> Some (QBreak, p1, t1) | RFail \<Rightarrow> Some (QFail, p1, t1) | RSpin \<Rightarrow> Some (QSpin, p1, t1)) = Some (r, p', t')"
    using Suc.prems(1) unfolding up remote_of_def by (rule quiesce_loop_ConsE)
  have ns: "r1 \<noteq> RSpin" using 2 assms(2) by auto
  have mv: "smr_move clk c (at_pc s c p t (Looping q i mn)) = Some (at_pc s c p t (Recheck q i True mn))"
    using i d by (simp add: smr_move_def)
  from recheck_goes [OF 1 ns Suc.prems(2) assms(4) d(2)]
  have g: "goes clk c (at_pc s c p t (Looping q i mn)) (at_pc s c p1 t1 (after_recheck q i r1))" and sh: "shape p1"
    using goes_step [OF assms(4) mv] by blast+
  show ?case
  proof (cases r1)
    case (RNext m1)
    then have "goes clk c (at_pc s c p1 t1 (Looping q (Suc i) m1)) (at_pc s c p' t' (Leaving_loop q r))"
      using Suc.hyps(1) [of "Suc i" m1 p1 t1] Suc.hyps(2) 2 sh i by simp
    then show ?thesis using g RNext goes_trans by simp
  qed (use 2 g ns in auto)
qed

lemma quiesce_goes:
  assumes run: "ps_quiesce k no_env clk b c tsc (ss_parsec s) (ss_time s) = Some (Returned v z, p', t')"
    and "shape (ss_parsec s)" and "c < PS_NUMCORES" and "ss_pc s c = Outside"
  shows "\<exists>s1 q. smr_do clk c (Quiesce b tsc) s = Some s1 \<and> goes clk c s1 (at_pc s c p' t' (Finished q v z)) \<and> qc_tsc q = tsc"
proof -
  let ?p = "ss_parsec s" and ?t = "ss_time s" and ?me = "tm (ss_parsec s) c"
  let ?q = "\<lparr>qc_tsc = tsc, qc_blocking = b, qc_inlib = ps_in_lib ?me, qc_qsc = qt_last_known_quiescence ?me\<rparr>"
  have st: "s\<lparr>ss_parsec := ?p, ss_time := ?t\<rparr> = s" by simp
  have beg: "smr_do clk c (Quiesce b tsc) s = Some (at_pc s c ?p ?t
      (if tsc > qt_time_in ?me \<and> ps_in_lib ?me then Finished ?q (- EQUIESCENCE) (qc_qsc ?q) else Looping ?q 1 (- 1)))"
    using assms(4) get_timing_in [OF assms(2,3)] by (simp add: quiesce_begin_def at_pc_def st Let_def)
  from run assms(2) show ?thesis
  proof (cases rule: quiesce_split)
    case inside
    then show ?thesis using beg goes_refl by (intro exI [of _ "at_pc s c p' t' (Finished ?q v z)"] exI [of _ ?q]) auto
  next
    case (looked q1 p1)
    have ns: "q1 \<noteq> QSpin" using looked(4) by auto
    from loop_goes [of k clk ?q c 1 "- 1" ?p ?t q1 p1 t', OF _ ns assms(2,3)] looked(3)
    have "goes clk c (at_pc s c ?p ?t (Looping ?q 1 (- 1))) (at_pc s c p1 t' (Leaving_loop ?q q1))"
      by (simp add: PS_NUMCORES_def)
    moreover have "smr_move clk c (at_pc s c p1 t' (Leaving_loop ?q q1)) = Some (at_pc s c p' t' (Finished ?q v z))"
      using looked(4) by (simp add: smr_move_def)
    ultimately have "goes clk c (at_pc s c ?p ?t (Looping ?q 1 (- 1))) (at_pc s c p' t' (Finished ?q v z))"
      using goes_trans goes_one [OF assms(3)] by blast
    moreover have "smr_do clk c (Quiesce b tsc) s = Some (at_pc s c ?p ?t (Looping ?q 1 (- 1)))"
      using beg unfolding if_not_P [OF looked(2)] .
    ultimately show ?thesis by (intro exI [of _ "at_pc s c ?p ?t (Looping ?q 1 (- 1))"] exI [of _ ?q]) simp
  qed
qed

end
