(* ===== verification/Ertrie_Rep.thy ===== *)
theory Ertrie_Rep
  imports Ertrie
begin

text \<open>
  What the entries of a trie mean.  A node is known by its path, the list of indices that leads to it
  from the root; \<open>P\<close> gives the address of each node that exists.  \<open>ert_rep N\<close> says that the entries of
  the nodes above level \<open>N\<close> hold the addresses of their children.  With \<open>N\<close> the depth the last level
  are the values of a trie that stores pointers in its leaves; with \<open>N\<close> one less, the leaves are
  blocks of some other kind.  The id of a lookup is cut into the indices by \<open>ert_path\<close>.
\<close>

section \<open>Paths\<close>

definition ert_levels :: "ert_consts \<Rightarrow> nat" where "ert_levels c = unat (ec_depth c)"

definition lvl_bits :: "ert_consts \<Rightarrow> nat \<Rightarrow> nat" where
  "lvl_bits c l = unat (if Suc l = ert_levels c then ec_last_order c else ec_order c)"

definition lvl_sz :: "ert_consts \<Rightarrow> nat \<Rightarrow> nat" where
  "lvl_sz c l = unat (if Suc l = ert_levels c then ec_last_sz c else ec_intern_sz c)"

definition lvl_shift :: "ert_consts \<Rightarrow> nat \<Rightarrow> nat" where
  "lvl_shift c l = (if Suc l = ert_levels c then 0
     else unat (ec_order c) * (ert_levels c - 2 - l) + unat (ec_last_order c))"

definition ert_bits :: "ert_consts \<Rightarrow> nat" where
  "ert_bits c = unat (ec_order c) * (ert_levels c - 1) + unat (ec_last_order c)"

text \<open>Constants the C code is meant for: no shift or \<open>int\<close> product overflows.\<close>

definition ert_ok :: "ert_consts \<Rightarrow> bool" where
  "ert_ok c \<longleftrightarrow> 1 \<le> ert_levels c \<and> ert_levels c < 2 ^ 32 - 1 \<and> ert_bits c < 64 \<and> unat (ec_order c) < 31 \<and> unat (ec_last_order c) < 31 \<and>
     2 ^ unat (ec_order c) * unat (ec_intern_sz c) < 2 ^ 31 \<and> 2 ^ unat (ec_last_order c) * unat (ec_last_sz c) < 2 ^ 31 \<and>
     0 < unat (ec_intern_sz c) \<and> 0 < unat (ec_last_sz c)"

definition ert_index :: "ert_consts \<Rightarrow> nat \<Rightarrow> nat \<Rightarrow> nat" where
  "ert_index c i l = (i div 2 ^ lvl_shift c l) mod 2 ^ lvl_bits c l"

definition ert_path :: "ert_consts \<Rightarrow> nat \<Rightarrow> nat list" where
  "ert_path c i = map (ert_index c i) [0..<ert_levels c]"

lemma length_ert_path [simp]: "length (ert_path c i) = ert_levels c"
  by (simp add: ert_path_def)

lemma ert_path_nth [simp]: "l < ert_levels c \<Longrightarrow> ert_path c i ! l = ert_index c i l"
  by (simp add: ert_path_def)

lemma ert_index_less: "ert_index c i l < 2 ^ lvl_bits c l"
  by (simp add: ert_index_def)

lemma ert_path_Suc:
  "l < ert_levels c \<Longrightarrow> take (Suc l) (ert_path c i) = take l (ert_path c i) @ [ert_index c i l]"
  by (simp add: take_Suc_conv_app_nth)

text \<open>Two ids have the same path exactly when they are equal; up to the leaf when they share the leaf.\<close>

lemma lvl_shift_Suc:
  assumes "Suc l < ert_levels c"
  shows "lvl_shift c l = lvl_shift c (Suc l) + lvl_bits c (Suc l)"
proof (cases "Suc (Suc l) = ert_levels c")
  case False
  then have "ert_levels c - 2 - l = Suc (ert_levels c - 2 - Suc l)" using assms by simp
  then show ?thesis using False assms by (simp add: lvl_shift_def lvl_bits_def)
qed (auto simp: lvl_shift_def lvl_bits_def)

lemma ert_bits_shift:
  assumes "1 \<le> ert_levels c"
  shows "ert_bits c = lvl_shift c 0 + lvl_bits c 0"
proof (cases "ert_levels c = 1")
  case True
  then show ?thesis by (simp add: ert_bits_def lvl_shift_def lvl_bits_def)
next
  case False
  then have "ert_levels c - 1 = Suc (ert_levels c - 2)" using assms by simp
  then show ?thesis using False by (simp add: ert_bits_def lvl_shift_def lvl_bits_def)
qed

lemma div_step: "(i :: nat) div 2 ^ s = j div 2 ^ s \<longleftrightarrow> i div 2 ^ (s + b) = j div 2 ^ (s + b) \<and>
    i div 2 ^ s mod 2 ^ b = j div 2 ^ s mod 2 ^ b"
proof -
  have d: "x div 2 ^ (s + b) = x div 2 ^ s div 2 ^ b" for x :: nat
    by (simp add: power_add div_mult2_eq)
  have "(x :: nat) = y \<longleftrightarrow> x div 2 ^ b = y div 2 ^ b \<and> x mod 2 ^ b = y mod 2 ^ b" for x y
    by (metis div_mult_mod_eq)
  then show ?thesis unfolding d by blast
qed

lemma ert_path_take_eq:
  assumes "l < ert_levels c" and "i < 2 ^ ert_bits c" and "j < 2 ^ ert_bits c"
  shows "take (Suc l) (ert_path c i) = take (Suc l) (ert_path c j) \<longleftrightarrow> i div 2 ^ lvl_shift c l = j div 2 ^ lvl_shift c l"
  using assms(1)
proof (induction l)
  case 0
  have z: "x div 2 ^ (lvl_shift c 0 + lvl_bits c 0) = 0" if "x < 2 ^ ert_bits c" for x :: nat
    using that 0 by (simp add: ert_bits_shift)
  show ?case
    using 0 z [OF assms(2)] z [OF assms(3)] div_step [of i "lvl_shift c 0" j "lvl_bits c 0"]
    by (simp add: ert_path_Suc ert_index_def)
next
  case (Suc l)
  then show ?case
    using div_step [of i "lvl_shift c (Suc l)" j "lvl_bits c (Suc l)"]
    by (simp add: ert_path_Suc ert_index_def lvl_shift_Suc [of l c]) blast
qed

lemma ert_path_eq_iff:
  assumes "1 \<le> ert_levels c" and "i < 2 ^ ert_bits c" and "j < 2 ^ ert_bits c"
  shows "ert_path c i = ert_path c j \<longleftrightarrow> i = j"
proof -
  obtain n where n: "ert_levels c = Suc n" using assms(1) by (cases "ert_levels c") auto
  have "take (Suc n) (ert_path c x) = ert_path c x" for x using n by simp
  then show ?thesis using ert_path_take_eq [of n c i j] assms(2,3) n by (simp add: lvl_shift_def)
qed

section \<open>Nodes and entries\<close>

type_synonym tnodes = "nat list \<Rightarrow> addr option"

definition entry :: "ert_consts \<Rightarrow> nat \<Rightarrow> addr \<Rightarrow> nat \<Rightarrow> addr" where
  "entry c l a k = a + of_nat (lvl_sz c l * k)"

definition entries :: "ert_consts \<Rightarrow> nat \<Rightarrow> addr \<Rightarrow> addr set" where
  "entries c l a = entry c l a ` {..<2 ^ lvl_bits c l}"

definition node_sz :: "ert_consts \<Rightarrow> nat \<Rightarrow> nat" where
  "node_sz c l = 2 ^ lvl_bits c l * lvl_sz c l"

definition child :: "tnodes \<Rightarrow> nat list \<Rightarrow> addr" where
  "child P p = (case P p of None \<Rightarrow> null | Some b \<Rightarrow> b)"

definition used :: "ert_consts \<Rightarrow> nat \<Rightarrow> tnodes \<Rightarrow> addr set" where
  "used c N P = {x. \<exists>p a. P p = Some a \<and> length p < N \<and> x \<in> entries c (length p) a}"

definition paths_ok :: "nat \<Rightarrow> ert_consts \<Rightarrow> tnodes \<Rightarrow> bool" where
  "paths_ok N c P \<longleftrightarrow> (\<forall>p a. P p = Some a \<longrightarrow> a \<noteq> null \<and> length p \<le> N \<and>
     (\<forall>q k. p = q @ [k] \<longrightarrow> k < 2 ^ lvl_bits c (length q) \<and> P q \<noteq> None))"

definition ert_rep :: "nat \<Rightarrow> ert_consts \<Rightarrow> iheap \<Rightarrow> addr \<Rightarrow> tnodes \<Rightarrow> bool" where
  "ert_rep N c h v P \<longleftrightarrow> P [] = Some v \<and> paths_ok N c P \<and>
     (\<forall>p a k. P p = Some a \<longrightarrow> length p < N \<longrightarrow> k < 2 ^ lvl_bits c (length p) \<longrightarrow>
        h (entry c (length p) a k) = Some (child P (p @ [k]))) \<and>
     (\<forall>p a k p' a' k'. P p = Some a \<longrightarrow> P p' = Some a' \<longrightarrow> length p < N \<longrightarrow> length p' < N \<longrightarrow>
        k < 2 ^ lvl_bits c (length p) \<longrightarrow> k' < 2 ^ lvl_bits c (length p') \<longrightarrow>
        entry c (length p) a k = entry c (length p') a' k' \<longrightarrow> p = p' \<and> k = k')"

lemma ert_repD:
  assumes "ert_rep N c h v P"
  shows "P [] = Some v" "paths_ok N c P"
    "P p = Some a \<Longrightarrow> length p < N \<Longrightarrow> k < 2 ^ lvl_bits c (length p) \<Longrightarrow>
       h (entry c (length p) a k) = Some (child P (p @ [k]))"
    "P p = Some a \<Longrightarrow> P p' = Some a' \<Longrightarrow> length p < N \<Longrightarrow> length p' < N \<Longrightarrow>
        k < 2 ^ lvl_bits c (length p) \<Longrightarrow> k' < 2 ^ lvl_bits c (length p') \<Longrightarrow>
        entry c (length p) a k = entry c (length p') a' k' \<Longrightarrow> p = p' \<and> k = k'"
  using assms unfolding ert_rep_def by blast+

lemma ert_rep_root: "ert_rep N c h v P \<Longrightarrow> v \<noteq> null"
  unfolding ert_rep_def paths_ok_def by blast

lemma paths_okD:
  assumes "paths_ok N c P"
  shows "P p = Some a \<Longrightarrow> a \<noteq> null" "P p = Some a \<Longrightarrow> length p \<le> N" "P (q @ [k]) = Some a \<Longrightarrow> P q \<noteq> None"
    "P (q @ [k]) = Some a \<Longrightarrow> k < 2 ^ lvl_bits c (length q)"
  using assms unfolding paths_ok_def by blast+

lemma child_null: "paths_ok N c P \<Longrightarrow> child P p = null \<longleftrightarrow> P p = None"
  by (auto simp: child_def paths_ok_def split: option.splits)

text \<open>Nodes exist only below nodes that exist.\<close>

lemma prefix_closed:
  assumes "paths_ok N c P" and "P (take m p) = None" and "m \<le> n" and "n \<le> length p"
  shows "P (take n p) = None"
  using assms(3,4)
proof (induction n rule: dec_induct)
  case (step n)
  then have "take (Suc n) p = take n p @ [p ! n]" by (simp add: take_Suc_conv_app_nth)
  moreover have "P (take n p) = None" using step by simp
  ultimately show ?case using paths_okD(3) [OF assms(1)] by (metis option.exhaust)
qed (rule assms(2))

lemma no_grandchild:
  assumes "paths_ok N c P" and "P p = None"
  shows "P (p @ q) = None"
  using prefix_closed [OF assms(1), of "length p" "p @ q" "length (p @ q)"] assms(2) by simp

lemma entries_bound:
  assumes "k < 2 ^ lvl_bits c l" and "unat a + node_sz c l < 2 ^ 64" and "0 < lvl_sz c l"
  shows "unat (entry c l a k) = unat a + lvl_sz c l * k" "lvl_sz c l * k + lvl_sz c l \<le> node_sz c l"
proof -
  have "lvl_sz c l * Suc k \<le> lvl_sz c l * 2 ^ lvl_bits c l" using assms(1) by (intro mult_le_mono2) simp
  then show 1: "lvl_sz c l * k + lvl_sz c l \<le> node_sz c l" by (simp add: node_sz_def mult.commute)
  then have k: "unat (of_nat (lvl_sz c l * k) :: u64) = lvl_sz c l * k"
    using assms by (intro unat_of_nat_small) simp
  then show "unat (entry c l a k) = unat a + lvl_sz c l * k"
    unfolding entry_def using 1 assms by (subst unat_add_small) simp_all
qed

lemma entry_inj:
  assumes "unat a + node_sz c l < 2 ^ 64" and "0 < lvl_sz c l" and "k < 2 ^ lvl_bits c l" and "k' < 2 ^ lvl_bits c l"
    and "entry c l a k = entry c l a k'"
  shows "k = k'"
proof -
  have "lvl_sz c l * k = lvl_sz c l * k'"
    using arg_cong [OF assms(5), of unat] entries_bound(1) [OF assms(3,1,2)] entries_bound(1) [OF assms(4,1,2)] by simp
  then show ?thesis using assms(2) by simp
qed

section \<open>Adding a node\<close>

text \<open>A trie whose only node is the root.\<close>

lemma ert_rep_new:
  assumes "v \<noteq> null" and "0 < N \<Longrightarrow> unat v + node_sz c 0 < 2 ^ 64" and "0 < lvl_sz c 0"
    and "\<And>x. 0 < N \<Longrightarrow> x \<in> entries c 0 v \<Longrightarrow> h x = Some null"
  shows "ert_rep N c h v [[] \<mapsto> v]"
  using assms entry_inj [of v c 0]
  by (auto simp: ert_rep_def paths_ok_def child_def entries_def)

text \<open>Hooking a node into a null entry; its own entries are null and new to the trie.\<close>

lemma ert_rep_add:
  assumes rep: "ert_rep N c h v P" and p: "P p = Some a" "length p < N" "k < 2 ^ lvl_bits c (length p)" "P (p @ [k]) = None"
    and b: "b \<noteq> null" and sz: "Suc (length p) < N \<Longrightarrow> unat b + node_sz c (Suc (length p)) < 2 ^ 64" "0 < lvl_sz c (Suc (length p))"
    and new: "\<And>x. Suc (length p) < N \<Longrightarrow> x \<in> entries c (Suc (length p)) b \<Longrightarrow> h x = Some null \<and> x \<notin> used c N P"
  shows "ert_rep N c (h(entry c (length p) a k \<mapsto> b)) v (P(p @ [k] \<mapsto> b))"
proof -
  let ?P = "P(p @ [k] \<mapsto> b)" and ?x = "entry c (length p) a k"
  note R = ert_repD [OF rep]
  have pk: "P (p @ [k] @ q) = None" for q using no_grandchild [OF R(2) p(4), of q] by simp
  have xu: "?x \<in> used c N P" using p by (auto simp: used_def entries_def)
  have nb: "entry c (Suc (length p)) b j \<noteq> ?x" "entry c (Suc (length p)) b j \<notin> used c N P"
    "h (entry c (Suc (length p)) b j) = Some null"
    if "Suc (length p) < N" "j < 2 ^ lvl_bits c (Suc (length p))" for j
    using new [OF that(1), of "entry c (Suc (length p)) b j"] that(2) xu by (auto simp: entries_def)
  have use: "entry c (length q) d j \<in> used c N P" if "P q = Some d" "length q < N" "j < 2 ^ lvl_bits c (length q)" for q d j
    using that by (auto simp: used_def entries_def)
  show ?thesis
    unfolding ert_rep_def
  proof (intro conjI allI impI)
    show "?P [] = Some v" using R(1) by simp
    show "paths_ok N c ?P"
      using R(2) b p(1-3) unfolding paths_ok_def by (auto split: if_splits)
  next
    fix q d and j :: nat assume q: "?P q = Some d" "length q < N" "j < 2 ^ lvl_bits c (length q)"
    show "(h(?x \<mapsto> b)) (entry c (length q) d j) = Some (child ?P (q @ [j]))"
    proof (cases "q = p @ [k]")
      case True
      have "child ?P (q @ [j]) = null" using True pk [of "[j]"] by (simp add: child_def)
      then show ?thesis using True q nb by simp
    next
      case False
      then have Pq: "P q = Some d" using q(1) by simp
      have "entry c (length q) d j = ?x \<longleftrightarrow> q = p \<and> j = k"
        using R(4) [OF Pq p(1) q(2) p(2) q(3) p(3)] Pq p(1) by auto
      then show ?thesis using R(3) [OF Pq q(2,3)] by (auto simp: child_def)
    qed
  next
    fix q d q' d' and j j' :: nat
    assume q: "?P q = Some d" "?P q' = Some d'" "length q < N" "length q' < N"
      "j < 2 ^ lvl_bits c (length q)" "j' < 2 ^ lvl_bits c (length q')"
      and e: "entry c (length q) d j = entry c (length q') d' j'"
    consider "q = p @ [k]" "q' = p @ [k]" | "q = p @ [k]" "P q' = Some d'" "q' \<noteq> p @ [k]" | "q' = p @ [k]" "P q = Some d" "q \<noteq> p @ [k]"
      | "P q = Some d" "P q' = Some d'" using q(1,2) by (auto split: if_splits)
    then have "q = q' \<and> j = j'"
    proof cases
      case 1
      then show ?thesis using q e entry_inj [of b c "Suc (length p)" j j'] sz by simp
    next
      case 2
      then show ?thesis using use [OF 2(2) q(4,6)] nb(2) [of j] q e by simp
    next
      case 3
      then show ?thesis using use [OF 3(2) q(3,5)] nb(2) [of j'] q e by simp
    next
      case 4
      then show ?thesis using R(4) [OF 4 q(3-6) e] by simp
    qed
    then show "q = q'" "j = j'" by simp_all
  qed
qed

lemma used_add:
  assumes "P (p @ [k]) = None"
  shows "used c N (P(p @ [k] \<mapsto> b)) = used c N P \<union> (if Suc (length p) < N then entries c (Suc (length p)) b else {})"
    (is "used c N ?P = ?R")
proof (intro set_eqI iffI)
  fix x assume "x \<in> used c N ?P"
  then show "x \<in> ?R" unfolding used_def by (auto split: if_splits)
next
  have use: "x \<in> used c N ?P" if "?P q = Some a" "length q < N" "x \<in> entries c (length q) a" for x q a
    using that unfolding used_def by blast
  fix x assume "x \<in> ?R"
  then consider (new) "Suc (length p) < N" "x \<in> entries c (Suc (length p)) b" | (old) "x \<in> used c N P"
    by (auto split: if_splits)
  then show "x \<in> used c N ?P"
  proof cases
    case new
    then show ?thesis by (intro use [of "p @ [k]" b]) simp_all
  next
    case old
    then obtain q a where "P q = Some a" "length q < N" "x \<in> entries c (length q) a" by (auto simp: used_def)
    moreover from this assms have "q \<noteq> p @ [k]" by auto
    ultimately show ?thesis by (intro use [of q a]) simp_all
  qed
qed

text \<open>Only the entries of its nodes matter.\<close>

lemma ert_rep_cong:
  assumes "ert_rep N c h v P" and "\<And>x. x \<in> used c N P \<Longrightarrow> h' x = h x"
  shows "ert_rep N c h' v P"
proof -
  have "entry c (length p) a k \<in> used c N P" if "P p = Some a" "length p < N" "k < 2 ^ lvl_bits c (length p)" for p a k
    using that by (auto simp: used_def entries_def)
  then show ?thesis using assms unfolding ert_rep_def by simp
qed

text \<open>Clearing the entry of a node that has no entries of its own here removes it.\<close>

lemma ert_rep_drop:
  assumes rep: "ert_rep N c h v P" and p: "P p = Some a" "Suc (length p) = N" "P (p @ [k]) = Some b"
  shows "ert_rep N c (h(entry c (length p) a k \<mapsto> null)) v (P(p @ [k] := None))"
proof -
  let ?P = "P(p @ [k] := None)" and ?x = "entry c (length p) a k"
  note R = ert_repD [OF rep]
  have k: "k < 2 ^ lvl_bits c (length p)" using paths_okD(4) [OF R(2) p(3)] .
  have leaf: "P (p @ [k, j]) = None" for j
    using paths_okD(2) [OF R(2), of "p @ [k, j]"] p(2) by (cases "P (p @ [k, j])") auto
  show ?thesis
    unfolding ert_rep_def
  proof (intro conjI allI impI)
    show "?P [] = Some v" using R(1) by simp
    show "paths_ok N c ?P"
      unfolding paths_ok_def
    proof (intro allI impI conjI)
      fix q d assume q: "?P q = Some d"
      then have Pq: "P q = Some d" by (auto split: if_splits)
      show "d \<noteq> null" "length q \<le> N" using paths_okD(1,2) [OF R(2) Pq] by auto
      fix r j assume r: "q = r @ [j]"
      show "j < 2 ^ lvl_bits c (length r)" using paths_okD(4) [OF R(2)] Pq r by simp
      have "r \<noteq> p @ [k]" using leaf [of j] Pq r by auto
      then show "?P r \<noteq> None" using paths_okD(3) [OF R(2)] Pq r by auto
    qed
  next
    fix q d and j :: nat assume q: "?P q = Some d" "length q < N" "j < 2 ^ lvl_bits c (length q)"
    then have Pq: "P q = Some d" by (auto split: if_splits)
    have "entry c (length q) d j = ?x \<longleftrightarrow> q = p \<and> j = k"
      using R(4) [OF Pq p(1) q(2) _ q(3) k] p(2) Pq p(1) by auto
    then show "(h(?x \<mapsto> null)) (entry c (length q) d j) = Some (child ?P (q @ [j]))"
      using R(3) [OF Pq q(2,3)] by (auto simp: child_def)
  next
    fix q d q' d' and j j' :: nat
    assume "?P q = Some d" "?P q' = Some d'" "length q < N" "length q' < N"
      "j < 2 ^ lvl_bits c (length q)" "j' < 2 ^ lvl_bits c (length q')"
      and "entry c (length q) d j = entry c (length q') d' j'"
    then have "q = q' \<and> j = j'" using R(4) [of q d q' d' j j'] by (simp split: if_splits)
    then show "q = q'" "j = j'" by simp_all
  qed
qed

end
