(* ===== verification/Ertrie_Walk.thy ===== *)
theory Ertrie_Walk
  imports Ertrie_Rep
begin

text \<open>
  The index arithmetic of the C code computes the path of an id: the walk into a level goes to the
  entry that the path names.
\<close>

section \<open>Words\<close>

lemma unat_pow_u64: "k < 64 \<Longrightarrow> unat (2 ^ k :: u64) = 2 ^ k"
  using unat_of_nat_small [of "2 ^ k"] power_strict_increasing [of k 64 "2 :: nat"] by simp

lemma unat_pow_u32:
  assumes "k < 32"
  shows "unat (2 ^ k :: u32) = 2 ^ k"
proof -
  have "(2 :: nat) ^ k < 2 ^ 32" using assms by (intro power_strict_increasing) simp_all
  then have "unat (of_nat (2 ^ k) :: u32) = 2 ^ k" by (simp only: unat_of_nat) (simp add: take_bit_nat_eq_self)
  then show ?thesis by simp
qed

lemma unat_add_u32: "unat (a :: u32) + unat b < 2 ^ 32 \<Longrightarrow> unat (a + b) = unat a + unat b"
  by (simp add: unat_word_ariths)

lemma unat_mult_u32: "unat (a :: u32) * unat b < 2 ^ 32 \<Longrightarrow> unat (a * b) = unat a * unat b"
  by (simp add: unat_word_ariths)

lemma unat_ucast_u64: "unat (ucast (a :: u32) :: u64) = unat a"
  by (simp add: unsigned_ucast_eq take_bit_nat_eq_self_iff less_trans [OF unsigned_less [of a]])

lemma unat_ucast_u32: "unat (a :: u64) < 2 ^ 32 \<Longrightarrow> unat (ucast a :: u32) = unat a"
  by (simp add: unsigned_ucast_eq take_bit_nat_eq_self)

lemma word_of_nat_eq: "unat (a :: u32) = n \<Longrightarrow> of_nat n = a"
  by auto

lemma unat_dec_u32:
  assumes "0 < unat (a :: u32)"
  shows "unat (a - 1) = unat a - 1"
proof -
  have "a \<noteq> 0" using assms by auto
  then show ?thesis by (rule unat_minus_one)
qed

lemma int_shl1_ok: "unat k < 31 \<Longrightarrow> int_shl1 k = Some (2 ^ unat k)"
  by (simp add: int_shl1_def push_bit_eq_mult)

lemma ERT_M_ok:
  assumes "unat k < 31"
  shows "\<exists>m. ERT_M i k = Some m \<and> unat m = unat i mod 2 ^ unat k"
proof -
  have "(ucast (2 ^ unat k - 1 :: u32) :: u64) = mask (unat k)"
    using assms unfolding mask_eq_exp_minus_1 [symmetric] by (auto simp: bit_eq_iff bit_simps)
  then have "ERT_M i k = Some (take_bit (unat k) i)"
    using assms by (simp add: ERT_M_def int_shl1_ok take_bit_eq_mask)
  then show ?thesis by (simp add: unat_take_bit_u64)
qed

lemma ulong_shr_ok: "unat k < 64 \<Longrightarrow> \<exists>j. ulong_shr v k = Some j \<and> unat j = unat v div 2 ^ unat k"
  by (simp add: ulong_shr_def unat_drop_bit_eq flip: drop_bit_eq_div)

lemma scast_pos:
  assumes "\<not> bit (w :: u32) 31"
  shows "scast w = (ucast w :: u64)"
proof (rule bit_word_eqI)
  fix n assume n: "n < LENGTH(64)"
  consider "n < 31" | "n = 31" | "32 \<le> n" by linarith
  then show "bit (scast w :: u64) n = bit (ucast w :: u64) n"
  proof cases
    case 3
    then have "\<not> bit w n" using bit_imp_le_length [of w n] by auto
    then show ?thesis using 3 n assms by (simp add: bit_signed_iff bit_unsigned_iff min_def)
  qed (use n assms in \<open>simp_all add: bit_signed_iff bit_unsigned_iff min_def\<close>)
qed

lemma scast_off:
  assumes "unat (sz :: u32) * i < 2 ^ 31"
  shows "scast (sz * of_nat i) = (of_nat (unat sz * i) :: u64)"
proof (cases "sz = 0")
  case False
  then have "1 \<le> unat sz" by (simp add: unat_gt_0 Suc_le_eq)
  then have "1 * i \<le> unat sz * i" by (rule mult_le_mono1)
  then have "i \<le> unat sz * i" by (simp only: mult_1)
  also have "\<dots> < 2 ^ 31" by (rule assms)
  also have "(2 :: nat) ^ 31 < 2 ^ 32" by simp
  finally have "i < 2 ^ 32" .
  then have "unat (of_nat i :: u32) = i" by (simp only: unat_of_nat) (simp add: take_bit_nat_eq_self)
  then have u: "unat (sz * of_nat i) = unat sz * i" using assms by (subst unat_mult_u32) simp_all
  have "\<not> bit (sz * of_nat i) 31"
  proof -
    have "bit (unat (sz * of_nat i)) 31 = False"
      using assms unfolding u bit_iff_odd by simp
    then show ?thesis by (simp add: bit_unsigned_iff)
  qed
  then have "scast (sz * of_nat i) = (ucast (sz * of_nat i) :: u64)" by (rule scast_pos)
  also have "\<dots> = of_nat (unat sz * i)"
    by (rule word_of_unatI) (simp only: unat_ucast_u64 u)
  finally show ?thesis .
qed simp

section \<open>Ids\<close>

lemma ert_okD:
  assumes "ert_ok c"
  shows "1 \<le> ert_levels c" "ert_bits c < 64" "lvl_bits c l < 31" "node_sz c l < 2 ^ 31" "0 < lvl_sz c l"
    "unat (ec_order c) < 31" "unat (ec_last_order c) < 31"
  using assms by (simp_all add: ert_ok_def lvl_bits_def node_sz_def lvl_sz_def)

lemma ert_bits_word:
  assumes "ert_ok c"
  shows "unat (ec_order c * (ec_depth c - 1) + ec_last_order c) = ert_bits c"
proof -
  have "ec_depth c \<noteq> 0" using assms by (auto simp: ert_ok_def ert_levels_def)
  then have "unat (ec_depth c - 1) = ert_levels c - 1" by (simp add: ert_levels_def unat_minus_one)
  moreover have "unat (ec_order c) * (ert_levels c - 1) < 2 ^ 32" using assms by (simp add: ert_ok_def ert_bits_def)
  ultimately have "unat (ec_order c * (ec_depth c - 1)) = unat (ec_order c) * (ert_levels c - 1)"
    by (subst unat_mult_u32) simp_all
  then show ?thesis using assms by (subst unat_add_u32) (simp_all add: ert_ok_def ert_bits_def)
qed

lemma ert_maxid_ok:
  assumes "ert_ok c"
  shows "\<exists>mx. ert_maxid c = Some mx \<and> unat mx = 2 ^ ert_bits c"
proof -
  let ?off = "ucast (ec_order c * (ec_depth c - 1) + ec_last_order c) :: u64"
  have o: "unat ?off = ert_bits c" using ert_bits_word [OF assms] by (simp add: unat_ucast_u64)
  then have "\<not> ?off > 64" using ert_okD(2) [OF assms] by (simp add: word_less_nat_alt)
  then have "ert_maxid c = Some (2 ^ ert_bits c)"
    using o ert_okD(2) [OF assms] by (simp add: ert_maxid_def ulong_shl1_def push_bit_eq_mult)
  then show ?thesis using unat_pow_u64 [OF ert_okD(2) [OF assms]] by blast
qed

section \<open>A walk into a level\<close>

lemma ert_walk_ok:
  assumes ok: "ert_ok c" and l: "l < ert_levels c" and get: "ef_get f q accum False w = Some a"
  shows "ert_walk f c q i accum (ec_depth c - of_nat l) w = Some (Cell (entry c l a (ert_index c (unat i) l)))"
proof -
  let ?k = "ert_index c (unat i) l" and ?lvl = "ec_depth c - of_nat l :: u32"
  have "unat (ec_depth c) < 2 ^ 32" using unsigned_less [of "ec_depth c"] by simp
  then have l32: "l < 2 ^ 32" using l by (simp add: ert_levels_def)
  have ul: "unat (of_nat l :: u32) = l" using l32 by (simp only: unat_of_nat) (simp add: take_bit_nat_eq_self)
  have lvl: "unat ?lvl = ert_levels c - l"
    using l ul by (simp add: unat_sub_if_size ert_levels_def word_size)
  have bound: "?k * lvl_sz c l < 2 ^ 31"
  proof -
    have "?k * lvl_sz c l \<le> 2 ^ lvl_bits c l * lvl_sz c l" by (intro mult_le_mono1 less_imp_le ert_index_less)
    then show ?thesis using ert_okD(4) [OF ok, of l] unfolding node_sz_def by linarith
  qed
  have off: "unat (ucast (m * ucast sz) :: u32) = ?k * lvl_sz c l"
    if "unat m = ?k" "unat sz = lvl_sz c l" for m :: u64 and sz :: u32
  proof -
    have "unat (m * ucast sz) = ?k * lvl_sz c l"
      using bound that by (subst unat_mult_small) (simp_all add: unat_ucast_u64)
    then show ?thesis using bound by (subst unat_ucast_u32) simp_all
  qed
  have fin: "Cell (a + ucast (x :: u32)) = Cell (entry c l a ?k)" if "unat x = ?k * lvl_sz c l" for x
  proof -
    have "unat (ucast x :: u64) = unat (of_nat (lvl_sz c l * ?k) :: u64)"
      using that bound unat_of_nat_small [of "lvl_sz c l * ?k"] by (simp add: unat_ucast_u64 mult.commute)
    then have "(ucast x :: u64) = of_nat (lvl_sz c l * ?k)" by (rule word_eq_unatI)
    then show ?thesis by (simp add: entry_def)
  qed
  show ?thesis
  proof (cases "Suc l = ert_levels c")
    case True
    then have "?lvl = 1" using lvl by (simp add: word_unat_eq_iff)
    moreover obtain m where m: "ERT_M i (ec_last_order c) = Some m" "unat m = unat i mod 2 ^ unat (ec_last_order c)"
      using ERT_M_ok [OF ert_okD(7) [OF ok]] by blast
    moreover have "unat m = ?k" using m(2) True by (simp add: ert_index_def lvl_shift_def lvl_bits_def)
    moreover have "unat (ec_last_sz c) = lvl_sz c l" using True by (simp add: lvl_sz_def)
    ultimately show ?thesis using get fin [OF off] by (simp add: ert_walk_def)
  next
    case False
    then have two: "2 \<le> ert_levels c - l" using l by linarith
    have nz: "?lvl - 1 \<noteq> 0"
    proof
      assume "?lvl - 1 = 0"
      then have "?lvl = 1" by simp
      then show False using lvl two by simp
    qed
    have "unat (?lvl - 2) = ert_levels c - 2 - l" using two lvl by (simp add: unat_sub_if_size word_size)
    moreover have lt: "unat (ec_order c) * (ert_levels c - 2 - l) + unat (ec_last_order c) < 64"
    proof -
      have "unat (ec_order c) * (ert_levels c - 2 - l) \<le> unat (ec_order c) * (ert_levels c - 1)" by (intro mult_le_mono2) simp
      then show ?thesis using ert_okD(2) [OF ok] unfolding ert_bits_def by linarith
    qed
    ultimately have sh: "unat (ec_order c * (?lvl - 2) + ec_last_order c) = lvl_shift c l"
      using False by (simp add: unat_add_u32 unat_mult_u32 lvl_shift_def)
    moreover have sl: "lvl_shift c l < 64" using lt False by (simp add: lvl_shift_def)
    ultimately obtain j where j: "ulong_shr i (ec_order c * (?lvl - 2) + ec_last_order c) = Some j" "unat j = unat i div 2 ^ lvl_shift c l"
      using ulong_shr_ok [of "ec_order c * (?lvl - 2) + ec_last_order c" i] by auto
    obtain m where m: "ERT_M j (ec_order c) = Some m" "unat m = unat j mod 2 ^ unat (ec_order c)"
      using ERT_M_ok [OF ert_okD(6) [OF ok]] by blast
    have "unat m = ?k" using m(2) j(2) False by (simp add: ert_index_def lvl_bits_def)
    moreover have "unat (ec_intern_sz c) = lvl_sz c l" using False by (simp add: lvl_sz_def)
    ultimately show ?thesis using get fin [OF off] nz j(1) m(1) by (simp add: ert_walk_def)
  qed
qed

end
