(* ===== verification/Ertrie_Correct.thy ===== *)
theory Ertrie_Correct
  imports Ertrie_Walk
begin

text \<open>
  The trie operations over any memory that keeps the contract \<open>ert_store\<close>: \<open>cells\<close> reads the entries of
  a memory and \<open>upd\<close> changes them, the access functions of the trie are loads and stores of entries, and
  the allocation function answers null or with a block of entries that are not in use.  If \<open>leafcells\<close>
  the last level holds entries too; otherwise a leaf is the block that the caller passes in.
\<close>

definition ert_top :: "bool \<Rightarrow> ert_consts \<Rightarrow> nat" where
  "ert_top leafcells c = (if leafcells then ert_levels c else ert_levels c - 1)"

locale ert_store =
  fixes f :: "'w ert_fns" and c :: ert_consts
    and cells :: "'w \<Rightarrow> iheap" and upd :: "(iheap \<Rightarrow> iheap) \<Rightarrow> 'w \<Rightarrow> 'w"
    and frame :: "'w \<Rightarrow> 'w \<Rightarrow> bool" and ainv :: "nat \<Rightarrow> 'w \<Rightarrow> addr set \<Rightarrow> bool" and leafcells :: bool
  assumes ok: "ert_ok c"
    and get: "ef_get f q accum leaf w = entry_next q (cells w)"
    and isnull: "ef_isnull f q accum leaf w = map_option (\<lambda>n. n = null) (entry_next q (cells w))"
    and set_local: "ef_set f (Local x) v accum leaf w = Some (0, Local v, w)"
    and set_cell: "cells w a = Some x \<Longrightarrow> ef_set f (Cell a) v accum leaf w = Some (0, Cell a, upd (\<lambda>h. h(a \<mapsto> v)) w)"
    and init: "(leaf \<Longrightarrow> leafcells) \<Longrightarrow> cells w a = Some x \<Longrightarrow> ef_init f a leaf w = Some (upd (\<lambda>h. h(a \<mapsto> null)) w)"
    and init_leaf: "\<not> leafcells \<Longrightarrow> ef_init f a True w = Some w"
    and cells_upd: "cells (upd g w) = g (cells w)"
    and upd_id: "upd (\<lambda>h. h) w = w"
    and upd_upd: "upd g (upd g' w) = upd (\<lambda>h. g (g' h)) w"
    and frame_refl: "frame w w"
    and frame_trans: "frame w w' \<Longrightarrow> frame w' w'' \<Longrightarrow> frame w w''"
    and frame_upd: "frame w (upd g w)"
    and ainv_mono: "ainv (Suc k) w U \<Longrightarrow> ainv k w U"
    and ainv_upd: "dom (g (cells w)) = dom (cells w) \<Longrightarrow> ainv k (upd g w) U = ainv k w U"
    and alloc: "ainv (Suc k) w U \<Longrightarrow> l < ert_levels c \<Longrightarrow> leaf = (Suc l = ert_levels c) \<Longrightarrow> (leaf \<Longrightarrow> leafcells) \<Longrightarrow>
      unat sz = node_sz c l \<Longrightarrow> \<exists>a w'. ef_alloc f memctxt sz leaf w = Some (a, w') \<and> frame w w' \<and>
        (\<forall>x \<in> U. cells w' x = cells w x) \<and>
        (if a = null then ainv k w' U
         else unat a + node_sz c l < 2 ^ 64 \<and> entries c l a \<inter> U = {} \<and> entries c l a \<subseteq> dom (cells w') \<and>
           ainv k w' (U \<union> entries c l a))"
    and resolve: "\<not> leaf \<or> leafcells \<Longrightarrow> ef_resolve f q accum leaf ord sz w = Some True"
    and getleaf: "leafcells \<Longrightarrow> ef_getleaf f q accum w = entry_next q (cells w)"
    and setleaf: "leafcells \<Longrightarrow> cells w a = Some x \<Longrightarrow> ef_setleaf f (Cell a) v w = Some (0, upd (\<lambda>h. h(a \<mapsto> v)) w)"
    and initval: "ef_initval f = null"
    and alloc_leaf: "\<not> leafcells \<Longrightarrow> ef_alloc f memctxt sz True w = Some (memctxt, w)"
begin

abbreviation top :: nat where "top \<equiv> ert_top leafcells c"

abbreviation rep :: "'w \<Rightarrow> addr \<Rightarrow> tnodes \<Rightarrow> bool" where
  "rep w \<equiv> ert_rep top c (cells w)"

text \<open>The state of the trie with room for \<open>k\<close> more allocations.\<close>

definition tinv :: "nat \<Rightarrow> 'w \<Rightarrow> addr \<Rightarrow> tnodes \<Rightarrow> bool" where
  "tinv k w v P \<longleftrightarrow> rep w v P \<and> ainv k w (used c top P)"

lemma tinv_mono: "tinv (Suc k) w v P \<Longrightarrow> tinv k w v P"
  by (auto simp: tinv_def ainv_mono)

lemma tinv_drop: "tinv (k + m) w v P \<Longrightarrow> tinv k w v P"
  by (induction m) (auto dest: tinv_mono)

lemma top_cases: "top = ert_levels c \<or> Suc top = ert_levels c" "leafcells \<longleftrightarrow> top = ert_levels c"
  using ert_okD(1) [OF ok] by (auto simp: ert_top_def)

section \<open>Initialising a node\<close>

text \<open>Under the index \<open>l\<close> the node is at level \<open>l\<close>; a leaf that is not of entries is left alone.\<close>

definition cleared :: "nat \<Rightarrow> addr \<Rightarrow> 'w \<Rightarrow> 'w" where
  "cleared l a w = (if l < top then upd (\<lambda>h x. if x \<in> entries c l a then Some null else h x) w else w)"

lemma init_from_ok:
  assumes "l < top" and "leaf = (Suc l = ert_levels c)" and "unat sz = lvl_sz c l"
    and "set ks \<subseteq> {..<2 ^ lvl_bits c l}" and "entries c l a \<subseteq> dom (cells w)"
  shows "ert_init_from (ef_init f) ks sz a leaf w =
    Some (upd (\<lambda>h x. if x \<in> entry c l a ` set ks then Some null else h x) w)"
  using assms(4,5)
proof (induction ks arbitrary: w)
  case Nil
  then show ?case by (simp add: upd_id)
next
  case (Cons k ks)
  have k: "k < 2 ^ lvl_bits c l" using Cons.prems(1) by simp
  then have "lvl_sz c l * k \<le> lvl_sz c l * 2 ^ lvl_bits c l" by (intro mult_le_mono2) simp
  also have "\<dots> < 2 ^ 31" using ert_okD(4) [OF ok, of l] by (simp add: node_sz_def mult.commute)
  finally have t: "a + scast (sz * of_nat k) = entry c l a k"
    using scast_off [of sz k] assms(3) by (simp add: entry_def)
  have "entry c l a k \<in> dom (cells w)" using Cons.prems(2) k by (auto simp: entries_def)
  then obtain x where x: "cells w (entry c l a k) = Some x" by auto
  have lc: "leaf \<Longrightarrow> leafcells" using assms(1,2) by (auto simp: ert_top_def split: if_splits)
  let ?w = "upd (\<lambda>h. h(entry c l a k \<mapsto> null)) w"
  have "ert_init_from (ef_init f) ks sz a leaf ?w = Some (upd (\<lambda>h x. if x \<in> entry c l a ` set ks then Some null else h x) ?w)"
    by (rule Cons.IH) (use Cons.prems in \<open>auto simp: cells_upd\<close>)
  moreover have "(\<lambda>h x. if x \<in> entry c l a ` set ks then Some null else (h(entry c l a k \<mapsto> null)) x) =
      (\<lambda>h x. if x \<in> entry c l a ` set (k # ks) then Some null else h x)"
    by (auto simp: fun_eq_iff)
  ultimately show ?case using init [OF lc x] t by (simp add: upd_upd)
qed

lemma init_from_skip:
  "\<not> leafcells \<Longrightarrow> ert_init_from (ef_init f) ks sz a True w = Some w"
  by (induction ks) (simp_all add: init_leaf)

lemma init_ok:
  assumes "l < ert_levels c" and "leaf = (Suc l = ert_levels c)" and "a \<noteq> null"
    and "l < top \<Longrightarrow> entries c l a \<subseteq> dom (cells w)"
  shows "ert_init f c a leaf w = Some (cleared l a w)"
proof -
  let ?o = "if leaf then ec_last_order c else ec_order c" and ?sz = "if leaf then ec_last_sz c else ec_intern_sz c"
  have o: "unat ?o = lvl_bits c l" "unat ?sz = lvl_sz c l" using assms(2) by (simp_all add: lvl_bits_def lvl_sz_def)
  have b: "int_shl1 ?o = Some (2 ^ lvl_bits c l)" using int_shl1_ok [of ?o] o(1) ert_okD(3) [OF ok, of l] by simp
  have n: "unat (2 ^ lvl_bits c l :: u32) = 2 ^ lvl_bits c l" using ert_okD(3) [OF ok, of l] by (intro unat_pow_u32) simp
  have r: "ert_init f c a leaf w = ert_init_from (ef_init f) [0..<2 ^ lvl_bits c l] ?sz a leaf w"
    unfolding ert_init_def Let_def b using assms(3) n by simp
  show ?thesis
  proof (cases "l < top")
    case True
    have "set [0..<2 ^ lvl_bits c l] \<subseteq> {..<2 ^ lvl_bits c l}" by auto
    from init_from_ok [OF True assms(2) o(2) this assms(4) [OF True]] True show ?thesis
      unfolding r cleared_def entries_def by (simp add: atLeast0LessThan)
  next
    case False
    then have "leaf" "\<not> leafcells" using assms(1,2) by (auto simp: ert_top_def split: if_splits)
    with False show ?thesis unfolding r cleared_def by (simp add: init_from_skip)
  qed
qed

section \<open>Lookup\<close>

lemma lookup_from_ok:
  assumes rep: "rep w v P" and "l \<le> n" and n: "n \<le> ert_levels c" and p: "p = ert_path c (unat i)"
    and q: "entry_next q (cells w) = Some (child P (take l p))"
  shows "ert_lookup_from f c [l..<n] q i accum w = Some (if l = n then Some q
    else case P (take (n - 1) p) of None \<Rightarrow> None | Some a \<Rightarrow> Some (Cell (entry c (n - 1) a (ert_index c (unat i) (n - 1)))))"
  using assms(2) q
proof (induction l arbitrary: q rule: inc_induct)
  case base
  then show ?case by simp
next
  case (step l)
  note R = ert_repD [OF rep]
  have l: "l < ert_levels c" using step.hyps n by simp
  have up: "[l..<n] = l # [Suc l..<n]" using step.hyps by (simp add: upt_conv_Cons)
  have z: "ef_isnull f q accum False w = Some (P (take l p) = None)"
    using step.prems child_null [OF R(2)] by (simp add: isnull)
  show ?case
  proof (cases "P (take l p)")
    case None
    then have "P (take (n - 1) p) = None" using prefix_closed [OF R(2)] step.hyps n p by simp
    then show ?thesis using None z step.hyps unfolding up by simp
  next
    case (Some a)
    let ?k = "ert_index c (unat i) l"
    have g: "ef_get f q accum False w = Some a" using step.prems Some by (simp add: get child_def)
    note wk = ert_walk_ok [OF ok l g, of i]
    show ?thesis
    proof (cases "Suc l = n")
      case True
      then show ?thesis using z Some wk unfolding up by auto
    next
      case False
      then have "l < top" using step.hyps n top_cases by linarith
      then have "cells w (entry c l a ?k) = Some (child P (take (Suc l) p))"
        using R(3) [OF Some, of ?k] l p ert_index_less [of c "unat i" l] by (simp add: ert_path_Suc)
      then have "entry_next (Cell (entry c l a ?k)) (cells w) = Some (child P (take (Suc l) p))" by simp
      from step.IH [OF this] False z Some wk step.hyps show ?thesis unfolding up by simp
    qed
  qed
qed

lemma id_check:
  assumes "unat i < 2 ^ ert_bits c"
  shows "\<exists>mx. ert_maxid c = Some mx \<and> i < mx"
  using ert_maxid_ok [OF ok] assms by (auto simp: word_less_nat_alt)

lemma depth_word: "unat (ec_depth c + 1) = Suc (ert_levels c)"
  using ok by (simp add: unat_add_u32 ert_ok_def ert_levels_def)

lemma dlimit_word:
  assumes "0 < dlimit" and "dlimit \<le> ec_depth c"
  shows "(if dlimit < ec_depth c then dlimit else ec_depth c) = dlimit" "max 0 dlimit = dlimit"
    "dlimit \<noteq> ec_depth c + 1" "dlimit \<le> ec_depth c + 1"
  using assms depth_word by (auto simp: word_le_nat_alt word_less_nat_alt ert_levels_def max_def word_unat_eq_iff)

text \<open>Where a lookup down to level \<open>n\<close> ends: the entry at level \<open>n - 1\<close> if its node is there.\<close>

definition slot :: "tnodes \<Rightarrow> u64 \<Rightarrow> nat \<Rightarrow> addr option" where
  "slot P i n = map_option (\<lambda>a. entry c (n - 1) a (ert_index c (unat i) (n - 1))) (P (take (n - 1) (ert_path c (unat i))))"

lemma lookup_ok:
  assumes rep: "rep w v P" and i: "unat i < 2 ^ ert_bits c" and d: "0 < dlimit" "dlimit \<le> ec_depth c"
  shows "ert_lookup f c v i 0 dlimit accum w = (case slot P i (unat dlimit) of None \<Rightarrow> Some (Cell null)
    | Some x \<Rightarrow> do { b \<leftarrow> (if dlimit = ec_depth c then ef_resolve f (Cell x) accum True (ec_last_order c) (ec_last_sz c) w else Some True);
        Some (if b then Cell x else Cell null) })"
proof -
  obtain mx where mx: "ert_maxid c = Some mx" "i < mx" using id_check [OF i] by blast
  have n: "0 < unat dlimit" "unat dlimit \<le> ert_levels c"
    using d by (simp_all add: word_less_nat_alt word_le_nat_alt ert_levels_def)
  have "entry_next (Local v) (cells w) = Some (child P (take 0 (ert_path c (unat i))))"
    using ert_repD(1) [OF rep] by (simp add: child_def)
  note L = lookup_from_ok [OF rep _ n(2) refl this]
  note lim = dlimit_word [OF d]
  have k: "dlimit = ec_depth c \<longleftrightarrow> unat dlimit = ert_levels c" by (simp add: ert_levels_def word_unat_eq_iff)
  show ?thesis
  proof (cases "P (take (unat dlimit - 1) (ert_path c (unat i)))")
    case None
    then show ?thesis
      using ert_rep_root [OF rep] mx lim n L [of accum] unfolding ert_lookup_def Let_def by (simp add: slot_def)
  next
    case (Some a)
    then show ?thesis
      using ert_rep_root [OF rep] mx lim n L [of accum] d(2) resolve
      unfolding ert_lookup_def Let_def by (auto simp: slot_def intro!: bind_ext)
  qed
qed

lemma lookup_zero:
  assumes "rep w v P" and "unat i < 2 ^ ert_bits c"
  shows "ert_lookup f c v i 0 0 accum w = Some (Local v)"
proof -
  obtain mx where "ert_maxid c = Some mx" "i < mx" using id_check [OF assms(2)] by blast
  moreover have "ec_depth c \<noteq> 0" "ec_depth c + 1 \<noteq> 0"
    using depth_word ert_okD(1) [OF ok] by (auto simp: ert_levels_def)
  ultimately show ?thesis
    using ert_rep_root [OF assms(1)] resolve by (simp add: ert_lookup_def word_gt_0)
qed

lemma lookup_leaf:
  assumes rep: "rep w v P" and i: "unat i < 2 ^ ert_bits c" and lc: leafcells
  shows "ert_lookup f c v i 0 (ec_depth c + 1) accum w = Some (Cell (child P (ert_path c (unat i))))"
proof -
  obtain mx where mx: "ert_maxid c = Some mx" "i < mx" using id_check [OF i] by blast
  let ?p = "ert_path c (unat i)"
  obtain n where n: "ert_levels c = Suc n" using ert_okD(1) [OF ok] by (cases "ert_levels c") auto
  have "entry_next (Local v) (cells w) = Some (child P (take 0 ?p))"
    using ert_repD(1) [OF rep] by (simp add: child_def)
  from lookup_from_ok [OF rep _ order_refl refl this, of accum]
  have L: "ert_lookup_from f c [0..<ert_levels c] (Local v) i accum w = Some (case P (take n ?p) of None \<Rightarrow> None
     | Some a \<Rightarrow> Some (Cell (entry c n a (ert_index c (unat i) n))))"
    using n by (simp del: upt_Suc cong: option.case_cong)
  have lim: "\<not> ec_depth c + 1 < ec_depth c" "max 0 (ec_depth c) = ec_depth c" "\<not> ec_depth c < ec_depth c"
    using depth_word by (auto simp: word_less_nat_alt ert_levels_def max_def)
  have pp: "?p = take n ?p @ [ert_index c (unat i) n]" using ert_path_Suc [of n c "unat i"] n by simp
  show ?thesis
  proof (cases "P (take n ?p)")
    case None
    then have "P ?p = None" using no_grandchild [OF ert_repD(2) [OF rep]] pp by metis
    then show ?thesis
      using None L lim mx ert_rep_root [OF rep] unfolding ert_lookup_def Let_def
      by (simp add: child_def flip: ert_levels_def)
  next
    case (Some a)
    have "top = ert_levels c" using lc by (simp add: ert_top_def)
    then have "cells w (entry c n a (ert_index c (unat i) n)) = Some (child P ?p)"
      using ert_repD(3) [OF rep Some, of "ert_index c (unat i) n"] n ert_index_less [of c "unat i" n] pp by simp
    then show ?thesis
      using Some L lim mx ert_rep_root [OF rep] resolve lc getleaf unfolding ert_lookup_def Let_def
      by (simp flip: ert_levels_def)
  qed
qed

section \<open>Allocating a node\<close>

definition may_refuse :: "addr \<Rightarrow> bool" where
  "may_refuse memctxt \<longleftrightarrow> (\<exists>k w U sz leaf w'. ainv (Suc k) w U \<and> ef_alloc f memctxt sz leaf w = Some (null, w'))"

definition node_room :: "nat \<Rightarrow> addr \<Rightarrow> 'w \<Rightarrow> addr set \<Rightarrow> bool" where
  "node_room l b w U \<longleftrightarrow> (l < top \<longrightarrow> unat b + node_sz c l < 2 ^ 64 \<and> entries c l b \<inter> U = {} \<and> entries c l b \<subseteq> dom (cells w))"

definition plus_node :: "nat \<Rightarrow> addr \<Rightarrow> addr set \<Rightarrow> addr set" where
  "plus_node l b U = U \<union> (if l < top then entries c l b else {})"

lemma node_sz_word:
  assumes "leaf = (Suc l = ert_levels c)"
  shows "\<exists>b. int_shl1 (if leaf then ec_last_order c else ec_order c) = Some b \<and>
    unat (b * (if leaf then ec_last_sz c else ec_intern_sz c)) = node_sz c l"
proof -
  let ?o = "if leaf then ec_last_order c else ec_order c" and ?sz = "if leaf then ec_last_sz c else ec_intern_sz c"
  have o: "unat ?o = lvl_bits c l" "unat ?sz = lvl_sz c l" using assms by (simp_all add: lvl_bits_def lvl_sz_def)
  have "int_shl1 ?o = Some (2 ^ lvl_bits c l)" using int_shl1_ok [of ?o] o(1) ert_okD(3) [OF ok, of l] by simp
  moreover have "unat (2 ^ lvl_bits c l :: u32) = 2 ^ lvl_bits c l" using ert_okD(3) [OF ok, of l] by (intro unat_pow_u32) simp
  then have "unat (2 ^ lvl_bits c l * ?sz) = node_sz c l"
    using ert_okD(4) [OF ok, of l] o(2) by (subst unat_mult_u32) (simp_all add: node_sz_def)
  ultimately show ?thesis by blast
qed

text \<open>One allocation at level \<open>l\<close>, as both callers make it.\<close>

lemma alloc_node:
  assumes inv: "ainv (Suc k) w U" and l: "l < ert_levels c" and leaf: "leaf = (Suc l = ert_levels c)"
  shows "\<exists>b w'. do { s \<leftarrow> int_shl1 (if leaf then ec_last_order c else ec_order c);
      ef_alloc f memctxt (s * (if leaf then ec_last_sz c else ec_intern_sz c)) leaf w } = Some (b, w') \<and>
    frame w w' \<and> (\<forall>x \<in> U. cells w' x = cells w x) \<and> (b = null \<longrightarrow> ainv k w' U \<and> may_refuse memctxt) \<and>
    (b \<noteq> null \<longrightarrow> node_room l b w' U \<and> ainv k w' (plus_node l b U) \<and> (leaf \<longrightarrow> \<not> leafcells \<longrightarrow> b = memctxt))"
proof -
  obtain s where s: "int_shl1 (if leaf then ec_last_order c else ec_order c) = Some s"
    "unat (s * (if leaf then ec_last_sz c else ec_intern_sz c)) = node_sz c l"
    using node_sz_word [OF leaf] by blast
  let ?sz = "s * (if leaf then ec_last_sz c else ec_intern_sz c)"
  show ?thesis
  proof (cases "leaf \<and> \<not> leafcells")
    case True
    then have a: "ef_alloc f memctxt ?sz leaf w = Some (memctxt, w)" using alloc_leaf by simp
    have "\<not> l < top" using True leaf by (auto simp: ert_top_def)
    moreover have "may_refuse memctxt" if "memctxt = null"
      unfolding may_refuse_def using a inv that by metis
    ultimately show ?thesis
      using s(1) a inv ainv_mono [OF inv] frame_refl by (simp add: node_room_def plus_node_def)
  next
    case False
    then have lc: "leaf \<Longrightarrow> leafcells" and lt: "l < top" using l leaf by (auto simp: ert_top_def)
    obtain b w' where b: "ef_alloc f memctxt ?sz leaf w = Some (b, w')" "frame w w'" "\<forall>x \<in> U. cells w' x = cells w x"
      "if b = null then ainv k w' U
         else unat b + node_sz c l < 2 ^ 64 \<and> entries c l b \<inter> U = {} \<and> entries c l b \<subseteq> dom (cells w') \<and>
           ainv k w' (U \<union> entries c l b)"
      using alloc [OF inv l leaf lc s(2)] by blast
    have "may_refuse memctxt" if "b = null" unfolding may_refuse_def using b(1) inv that by metis
    then show ?thesis using s(1) b lt lc by (auto simp: node_room_def plus_node_def)
  qed
qed

lemma cleared_frame: "frame w (cleared l b w)"
  by (simp add: cleared_def frame_upd frame_refl)

lemma cleared_cells: "x \<notin> entries c l b \<Longrightarrow> cells (cleared l b w) x = cells w x"
  "l < top \<Longrightarrow> x \<in> entries c l b \<Longrightarrow> cells (cleared l b w) x = Some null"
  by (simp_all add: cleared_def cells_upd)

lemma cleared_ainv: "node_room l b w U \<Longrightarrow> ainv k (cleared l b w) U' = ainv k w U'"
  unfolding cleared_def node_room_def by (auto intro!: ainv_upd simp: dom_def subset_iff split: if_splits)

text \<open>A new trie.\<close>

lemma alloc_trie:
  assumes inv: "ainv (Suc k) w {}"
  shows "\<exists>v w'. ert_alloc f c memctxt accum w = Some (v, w') \<and> frame w w' \<and>
    (if v = null then may_refuse memctxt else tinv k w' v [[] \<mapsto> v])"
proof -
  define leaf where "leaf = (Suc 0 = ert_levels c)"
  have l: "0 < ert_levels c" using ert_okD(1) [OF ok] by simp
  have chk: "ec_order c * (ec_depth c - 1) + ec_last_order c < 64" "ec_depth c \<ge> 1"
    using ert_bits_word [OF ok] ert_okD(2) [OF ok] l by (simp_all add: word_less_nat_alt word_le_nat_alt ert_levels_def)
  have lf: "(ec_depth c = 1) = leaf" by (simp add: leaf_def ert_levels_def word_unat_eq_iff eq_commute)
  have gt: "(ec_depth c > 1) = (\<not> leaf)" using l by (auto simp: leaf_def ert_levels_def word_less_nat_alt)
  obtain v w1 where 1: "do { s \<leftarrow> int_shl1 (if leaf then ec_last_order c else ec_order c);
      ef_alloc f memctxt (s * (if leaf then ec_last_sz c else ec_intern_sz c)) leaf w } = Some (v, w1)" "frame w w1"
    "v = null \<longrightarrow> may_refuse memctxt" "v \<noteq> null \<longrightarrow> node_room 0 v w1 {} \<and> ainv k w1 (plus_node 0 v {})"
    using alloc_node [OF inv l leaf_def, of memctxt] by blast
  have run: "ert_alloc f c memctxt accum w = (if v = null then Some (null, w1)
     else do { w \<leftarrow> ert_init f c v leaf w1; Some (v, w) })"
    using 1(1) chk unfolding ert_alloc_def gt lf by (cases leaf) (simp_all add: set_local)
  show ?thesis
  proof (cases "v = null")
    case True
    then show ?thesis using run 1 by simp
  next
    case False
    then have room: "node_room 0 v w1 {}" and a1: "ainv k w1 (plus_node 0 v {})" using 1(4) by simp_all
    have "ert_init f c v leaf w1 = Some (cleared 0 v w1)"
      by (rule init_ok [OF l leaf_def False]) (use room in \<open>simp add: node_room_def\<close>)
    moreover have "rep (cleared 0 v w1) v [[] \<mapsto> v]"
      by (rule ert_rep_new [OF False]) (use room ert_okD(5) [OF ok, of 0] in \<open>auto simp: node_room_def cleared_cells\<close>)
    moreover have "used c top [[] \<mapsto> v] = plus_node 0 v {}" by (auto simp: used_def plus_node_def)
    ultimately show ?thesis
      using run False a1 cleared_ainv [OF room] 1(2) frame_trans [OF _ cleared_frame] by (auto simp: tinv_def)
  qed
qed

section \<open>Expanding\<close>

text \<open>The nodes that expanding down to level \<open>n\<close> may add.\<close>

definition grows :: "addr \<Rightarrow> nat list \<Rightarrow> nat \<Rightarrow> nat \<Rightarrow> tnodes \<Rightarrow> tnodes \<Rightarrow> bool" where
  "grows memctxt p l n P P' \<longleftrightarrow> (\<forall>x. P' x = P x \<or> (P x = None \<and> (\<exists>j. l < j \<and> j \<le> n \<and> x = take j p) \<and>
     (length x = top \<longrightarrow> \<not> leafcells \<longrightarrow> P' x = Some memctxt)))"

lemma grows_refl: "grows m p l n P P"
  by (simp add: grows_def)

lemma grows_step:
  assumes "grows m p (Suc l) n P1 P2" and "l < n" and "n \<le> length p" and "P (take (Suc l) p) = None"
    and "P1 = P(take (Suc l) p \<mapsto> b)" and "Suc l = top \<Longrightarrow> \<not> leafcells \<Longrightarrow> b = m"
  shows "grows m p l n P P2"
  unfolding grows_def
proof
  fix x
  have len: "length (take (Suc l) p) = Suc l" using assms(2,3) by simp
  have "P2 (take (Suc l) p) = P1 (take (Suc l) p)" using assms(1,5) unfolding grows_def by (metis fun_upd_same option.distinct(1))
  moreover have "P2 x = P x \<or> P x = None \<and> (\<exists>j. l < j \<and> j \<le> n \<and> x = take j p) \<and>
      (length x = top \<longrightarrow> \<not> leafcells \<longrightarrow> P2 x = Some m)" if "x \<noteq> take (Suc l) p"
    using assms(1,5) that unfolding grows_def by (metis Suc_lessD fun_upd_other)
  ultimately show "P2 x = P x \<or> P x = None \<and> (\<exists>j. l < j \<and> j \<le> n \<and> x = take j p) \<and>
      (length x = top \<longrightarrow> \<not> leafcells \<longrightarrow> P2 x = Some m)"
    using assms len by (cases "x = take (Suc l) p") (auto intro!: exI [of _ "Suc l"])
qed

lemma grows_mono: "grows m p (Suc l) n P P' \<Longrightarrow> grows m p l n P P'"
  unfolding grows_def by (metis Suc_lessD)

text \<open>One node added below the node at level \<open>l\<close> of the path.\<close>

lemma add_node:
  assumes inv: "tinv (Suc k) w v P" and l: "Suc l < ert_levels c" and p: "p = ert_path c (unat i)"
    and P: "P (take l p) = Some a" "P (take (Suc l) p) = None" and leaf: "leaf = (Suc (Suc l) = ert_levels c)"
  shows "\<exists>b w1. do { s \<leftarrow> int_shl1 (if leaf then ec_last_order c else ec_order c);
      ef_alloc f memctxt (s * (if leaf then ec_last_sz c else ec_intern_sz c)) leaf w } = Some (b, w1) \<and>
    (if b = null then frame w w1 \<and> tinv k w1 v P \<and> may_refuse memctxt
     else \<exists>w2 w3. ert_init f c b leaf w1 = Some w2 \<and>
       ef_set f (Cell (entry c l a (ert_index c (unat i) l))) b accum False w2 = Some (0, Cell (entry c l a (ert_index c (unat i) l)), w3) \<and>
       frame w w3 \<and> tinv k w3 v (P(take (Suc l) p \<mapsto> b)) \<and>
       cells w3 (entry c l a (ert_index c (unat i) l)) = Some b \<and> (leaf \<longrightarrow> \<not> leafcells \<longrightarrow> b = memctxt))"
proof -
  have R: "rep w v P" and A: "ainv (Suc k) w (used c top P)" using inv by (simp_all add: tinv_def)
  let ?k = "ert_index c (unat i) l" and ?U = "used c top P"
  let ?x = "entry c l a ?k"
  have lt: "l < top" using l top_cases by linarith
  have pl: "length (take l p) = l" "take (Suc l) p = take l p @ [?k]" using p l by (simp_all add: ert_path_Suc)
  have kb: "?k < 2 ^ lvl_bits c l" by (rule ert_index_less)
  obtain b w1 where 1: "do { s \<leftarrow> int_shl1 (if leaf then ec_last_order c else ec_order c);
      ef_alloc f memctxt (s * (if leaf then ec_last_sz c else ec_intern_sz c)) leaf w } = Some (b, w1)" "frame w w1"
    "\<forall>x \<in> ?U. cells w1 x = cells w x" "b = null \<longrightarrow> ainv k w1 ?U \<and> may_refuse memctxt"
    "b \<noteq> null \<longrightarrow> node_room (Suc l) b w1 ?U \<and> ainv k w1 (plus_node (Suc l) b ?U) \<and> (leaf \<longrightarrow> \<not> leafcells \<longrightarrow> b = memctxt)"
    using alloc_node [OF A l leaf, of memctxt] by blast
  have R1: "rep w1 v P" by (rule ert_rep_cong [OF R]) (use 1(3) in simp)
  show ?thesis
  proof (cases "b = null")
    case True
    then show ?thesis using 1 R1 by (simp add: tinv_def)
  next
    case False
    then have room: "node_room (Suc l) b w1 ?U" and a1: "ainv k w1 (plus_node (Suc l) b ?U)"
      and lf: "leaf \<longrightarrow> \<not> leafcells \<longrightarrow> b = memctxt" using 1(5) by simp_all
    define w2 where "w2 = cleared (Suc l) b w1"
    have init: "ert_init f c b leaf w1 = Some w2" unfolding w2_def
      by (rule init_ok [OF l leaf False]) (use room in \<open>simp add: node_room_def\<close>)
    have out: "cells w2 x = cells w1 x" if "x \<in> ?U" for x
    proof (cases "Suc l < top")
      case True
      then show ?thesis using room that unfolding w2_def node_room_def by (intro cleared_cells) auto
    qed (simp add: w2_def cleared_def)
    have R2: "rep w2 v P" by (rule ert_rep_cong [OF R1 out])
    have xv: "cells w2 ?x = Some null"
      using ert_repD(3) [OF R2 P(1), of ?k] pl lt kb P(2) by (simp add: child_def)
    define w3 where "w3 = upd (\<lambda>h. h(?x \<mapsto> b)) w2"
    have set: "ef_set f (Cell ?x) b accum False w2 = Some (0, Cell ?x, w3)" unfolding w3_def by (rule set_cell [OF xv])
    have new: "cells w2 y = Some null \<and> y \<notin> ?U" if "Suc (length (take l p)) < top" "y \<in> entries c (Suc (length (take l p))) b" for y
      using room that pl(1) cleared_cells(2) unfolding w2_def node_room_def by auto
    have "ert_rep top c ((cells w2)(entry c (length (take l p)) a ?k \<mapsto> b)) v (P(take l p @ [?k] \<mapsto> b))"
      by (rule ert_rep_add [OF R2 P(1) _ _ _ False _ ert_okD(5) [OF ok] new])
         (use pl lt kb P(2) room in \<open>auto simp: node_room_def\<close>)
    then have R3: "rep w3 v (P(take (Suc l) p \<mapsto> b))" unfolding w3_def cells_upd pl(2) [symmetric] pl(1) .
    have U3: "used c top (P(take (Suc l) p \<mapsto> b)) = plus_node (Suc l) b ?U"
      using used_add [of P "take l p" ?k c top b] P(2) pl by (simp add: plus_node_def)
    have "ainv k w3 (plus_node (Suc l) b ?U)"
      unfolding w3_def using a1 xv cleared_ainv [OF room] unfolding w2_def by (subst ainv_upd) auto
    then have T3: "tinv k w3 v (P(take (Suc l) p \<mapsto> b))" using R3 U3 by (simp add: tinv_def)
    have "frame w w3" unfolding w3_def w2_def
      by (rule frame_trans [OF 1(2) frame_trans [OF cleared_frame frame_upd]])
    moreover have "cells w3 ?x = Some b" by (simp add: w3_def cells_upd)
    ultimately show ?thesis using 1(1) False init set T3 lf by auto
  qed
qed

lemma expand_from_ok:
  assumes "l \<le> n" and n: "n < ert_levels c" and p: "p = ert_path c (unat i)"
    and "tinv (k + (n - l)) w v P" and "P (take l p) = Some a" and "entry_next q (cells w) = Some a"
  shows "\<exists>r w' P'. ert_expand_from f c [l..<n] q i accum memctxt w = Some (r, w') \<and> frame w w' \<and> tinv k w' v P' \<and>
    grows memctxt p l n P P' \<and> (case r of None \<Rightarrow> may_refuse memctxt
      | Some q' \<Rightarrow> \<exists>a'. P' (take n p) = Some a' \<and> entry_next q' (cells w') = Some a')"
  using assms(1,4-6)
proof (induction l arbitrary: q w P a rule: inc_induct)
  case base
  then show ?case using grows_refl frame_refl by auto
next
  case (step l)
  have up: "[l..<n] = l # [Suc l..<n]" using step.hyps by (simp add: upt_conv_Cons)
  have l: "l < ert_levels c" "Suc l < ert_levels c" using step.hyps n by simp_all
  have R: "rep w v P" using step.prems(1) by (simp add: tinv_def)
  let ?k = "ert_index c (unat i) l"
  let ?x = "entry c l a ?k"
  define leaf where "leaf = (Suc (Suc l) = ert_levels c)"
  have g: "ef_get f q accum False w = Some a" using step.prems(3) by (simp add: get)
  note wk = ert_walk_ok [OF ok l(1) g, of i]
  have lt: "l < top" using l(2) top_cases by linarith
  have xv: "cells w ?x = Some (child P (take (Suc l) p))"
    using ert_repD(3) [OF R step.prems(2), of ?k] l(1) p lt ert_index_less [of c "unat i" l] by (simp add: ert_path_Suc)
  have z: "ef_isnull f (Cell ?x) accum False w = Some (P (take (Suc l) p) = None)"
    using xv child_null [OF ert_repD(2) [OF R]] by (simp add: isnull)
  have k1: "k + (n - l) = Suc (k + (n - Suc l))" using step.hyps by simp
  have l2: "(of_nat l + 2 < ec_depth c) = (\<not> leaf)" "(of_nat l + 2 \<ge> ec_depth c) = leaf"
  proof -
    have "ert_levels c < 2 ^ 32 - 1" using ok by (simp add: ert_ok_def)
    then have "unat (of_nat l :: u32) = l" using l(1)
      by (simp only: unat_of_nat) (simp add: take_bit_nat_eq_self)
    then have u: "unat (of_nat l + 2 :: u32) = l + 2" using l(2) \<open>ert_levels c < 2 ^ 32 - 1\<close> by (subst unat_add_u32) simp_all
    show "(of_nat l + 2 < ec_depth c) = (\<not> leaf)" "(of_nat l + 2 \<ge> ec_depth c) = leaf"
      unfolding word_less_nat_alt word_le_nat_alt u leaf_def using l(2) by (auto simp flip: ert_levels_def)
  qed
  show ?case
  proof (cases "P (take (Suc l) p)")
    case (Some b)
    have "entry_next (Cell ?x) (cells w) = Some b" using xv Some by (simp add: child_def)
    moreover have "tinv (k + (n - Suc l)) w v P" using step.prems(1) tinv_mono unfolding k1 by blast
    ultimately obtain r w' P' where "ert_expand_from f c [Suc l..<n] (Cell ?x) i accum memctxt w = Some (r, w')" "frame w w'"
      "tinv k w' v P'" "grows memctxt p (Suc l) n P P'" "case r of None \<Rightarrow> may_refuse memctxt
      | Some q' \<Rightarrow> \<exists>a'. P' (take n p) = Some a' \<and> entry_next q' (cells w') = Some a'"
      using step.IH [where P = P and a = b, OF _ Some] by blast
    then show ?thesis using wk z Some grows_mono unfolding up by auto
  next
    case None
    obtain b w1 where 1: "do { s \<leftarrow> int_shl1 (if leaf then ec_last_order c else ec_order c);
      ef_alloc f memctxt (s * (if leaf then ec_last_sz c else ec_intern_sz c)) leaf w } = Some (b, w1)"
      and 2: "if b = null then frame w w1 \<and> tinv (k + (n - Suc l)) w1 v P \<and> may_refuse memctxt
       else \<exists>w2 w3. ert_init f c b leaf w1 = Some w2 \<and> ef_set f (Cell ?x) b accum False w2 = Some (0, Cell ?x, w3) \<and>
         frame w w3 \<and> tinv (k + (n - Suc l)) w3 v (P(take (Suc l) p \<mapsto> b)) \<and> cells w3 ?x = Some b \<and>
         (leaf \<longrightarrow> \<not> leafcells \<longrightarrow> b = memctxt)"
      using add_node [OF step.prems(1) [unfolded k1] l(2) p step.prems(2) None leaf_def, of memctxt accum] by blast
    have run: "ert_expand_from f c [l..<n] q i accum memctxt w = (if b = null then Some (None, w1)
       else do { w \<leftarrow> ert_init f c b leaf w1; (r, q, w) \<leftarrow> ef_set f (Cell ?x) b accum False w;
                 ert_expand_from f c [Suc l..<n] q i accum memctxt w })"
      using wk z None 1 l2 unfolding up by (cases leaf) simp_all
    show ?thesis
    proof (cases "b = null")
      case True
      then have "tinv k w1 v P"
        using 2 by (auto intro: tinv_drop)
      then show ?thesis using run True 2 grows_refl by auto
    next
      case False
      then obtain w2 w3 where 3: "ert_init f c b leaf w1 = Some w2" "ef_set f (Cell ?x) b accum False w2 = Some (0, Cell ?x, w3)"
        "frame w w3" "tinv (k + (n - Suc l)) w3 v (P(take (Suc l) p \<mapsto> b))" "cells w3 ?x = Some b"
        "leaf \<longrightarrow> \<not> leafcells \<longrightarrow> b = memctxt" using 2 by auto
      have "(P(take (Suc l) p \<mapsto> b)) (take (Suc l) p) = Some b" "entry_next (Cell ?x) (cells w3) = Some b" using 3(5) by simp_all
      from step.IH [where P = "P(take (Suc l) p \<mapsto> b)" and a = b, OF 3(4) this] obtain r w' P' where
        4: "ert_expand_from f c [Suc l..<n] (Cell ?x) i accum memctxt w3 = Some (r, w')" "frame w3 w'" "tinv k w' v P'"
        "grows memctxt p (Suc l) n (P(take (Suc l) p \<mapsto> b)) P'" "case r of None \<Rightarrow> may_refuse memctxt
        | Some q' \<Rightarrow> \<exists>a'. P' (take n p) = Some a' \<and> entry_next q' (cells w') = Some a'" by blast
      have "grows memctxt p l n P P'"
        by (rule grows_step [OF 4(4) _ _ None refl])
           (use step.hyps n p 3(6) top_cases in \<open>auto simp: leaf_def\<close>)
      moreover have "ert_expand_from f c [l..<n] q i accum memctxt w = Some (r, w')" using run False 3(1,2) 4(1) by simp
      ultimately show ?thesis using frame_trans [OF 3(3) 4(2)] 4(3,5) by blast
    qed
  qed
qed

lemma expand_ok:
  assumes i: "unat i < 2 ^ ert_bits c" and d: "0 < dlimit" "dlimit \<le> ec_depth c" and p: "p = ert_path c (unat i)"
    and inv: "tinv (k + (unat dlimit - 1)) w v P"
  shows "\<exists>z w' P'. ert_expand f c v i 0 dlimit accum memctxt data w = Some (z, w') \<and> frame w w' \<and> tinv k w' v P' \<and>
    grows memctxt p 0 (unat dlimit - 1) P P' \<and>
    (z = 0 \<and> P' (take (unat dlimit - 1) p) \<noteq> None \<or> z = - 1 \<and> may_refuse memctxt)"
proof -
  obtain mx where mx: "ert_maxid c = Some mx" "i < mx" using id_check [OF i] by blast
  let ?n = "unat dlimit - 1"
  have n: "?n < ert_levels c" "unat (dlimit - 1) = ?n"
    using d by (auto simp: word_less_nat_alt word_le_nat_alt ert_levels_def unat_dec_u32)
  have R: "rep w v P" using inv by (simp add: tinv_def)
  obtain r w' P' where 1: "ert_expand_from f c [0..<?n] (Local v) i accum memctxt w = Some (r, w')" "frame w w'" "tinv k w' v P'"
    "grows memctxt p 0 ?n P P'" "case r of None \<Rightarrow> may_refuse memctxt
      | Some q' \<Rightarrow> \<exists>a'. P' (take ?n p) = Some a' \<and> entry_next q' (cells w') = Some a'"
    using expand_from_ok [of 0 ?n p i k w v P v "Local v" accum memctxt] n(1) p inv ert_repD(1) [OF R] by auto
  have "ert_expand f c v i 0 dlimit accum memctxt data w = Some (case r of None \<Rightarrow> - 1 | Some _ \<Rightarrow> 0, w')"
    using 1(1) mx dlimit_word [OF d] n(2) ert_rep_root [OF R] unfolding ert_expand_def Let_def
    by (simp split: option.split)
  then show ?thesis using 1(2-5) by (cases r) auto
qed

lemma grows_off_path: "grows m p l n P P' \<Longrightarrow> n < length x \<Longrightarrow> P' x = P x"
  unfolding grows_def by (metis length_take min.cobounded2 not_le order_trans)

lemma expand_leaf:
  assumes i: "unat i < 2 ^ ert_bits c" and p: "p = ert_path c (unat i)" and lc: leafcells
    and inv: "tinv (k + (ert_levels c - 1)) w v P"
  shows "\<exists>z w' P1. ert_expand f c v i 0 (ec_depth c + 1) accum memctxt data w = Some (z, w') \<and> frame w w' \<and>
    grows memctxt p 0 (ert_levels c - 1) P P1 \<and>
    (z = - 1 \<and> may_refuse memctxt \<and> tinv k w' v P1 \<or>
     z = 1 \<and> data \<noteq> null \<and> P p \<noteq> None \<and> tinv k w' v P1 \<or>
     z = 0 \<and> (data = null \<or> P p = None) \<and> tinv k w' v (P1(p := if data = null then None else Some data)))"
proof -
  obtain mx where mx: "ert_maxid c = Some mx" "i < mx" using id_check [OF i] by blast
  obtain n where n: "ert_levels c = Suc n" using ert_okD(1) [OF ok] by (cases "ert_levels c") auto
  have R: "rep w v P" using inv by (simp add: tinv_def)
  obtain r w' P1 where 1: "ert_expand_from f c [0..<n] (Local v) i accum memctxt w = Some (r, w')" "frame w w'" "tinv k w' v P1"
    "grows memctxt p 0 n P P1" "case r of None \<Rightarrow> may_refuse memctxt
      | Some q' \<Rightarrow> \<exists>a'. P1 (take n p) = Some a' \<and> entry_next q' (cells w') = Some a'"
    using expand_from_ok [of 0 n p i k w v P v "Local v" accum memctxt] n p inv ert_repD(1) [OF R] by auto
  have d1: "unat (ec_depth c - 1) = n" using n by (simp add: ert_levels_def unat_dec_u32)
  have lim: "\<not> ec_depth c + 1 < ec_depth c" "max 0 (ec_depth c - 1) = ec_depth c - 1"
    "ec_depth c - (ec_depth c - 1) = ec_depth c - of_nat n"
    using depth_word d1 word_of_nat_eq [of "ec_depth c - 1" n]
    by (auto simp: word_less_nat_alt ert_levels_def max_def)
  have run: "ert_expand f c v i 0 (ec_depth c + 1) accum memctxt data w = (case r of None \<Rightarrow> Some (- 1, w')
     | Some q \<Rightarrow> do { q \<leftarrow> ert_walk f c q i accum (ec_depth c - of_nat n) w'; z \<leftarrow> ef_isnull f q accum False w';
         if data \<noteq> ef_initval f \<and> \<not> z then Some (1, w')
         else do { (e, w) \<leftarrow> ef_setleaf f q data w'; Some (if e \<noteq> 0 then - EAGAIN else 0, w) } })"
    using 1(1) mx lim d1 ert_rep_root [OF R] unfolding ert_expand_def Let_def by (simp cong: option.case_cong)
  show ?thesis
  proof (cases r)
    case None
    then show ?thesis using 1 run n by auto
  next
    case (Some q)
    then obtain a where a: "P1 (take n p) = Some a" "entry_next q (cells w') = Some a" using 1(5) by auto
    let ?k = "ert_index c (unat i) n"
    let ?x = "entry c n a ?k"
    have top: "top = Suc n" using lc n by (simp add: ert_top_def)
    have pp: "p = take n p @ [?k]" "length (take n p) = n" using ert_path_Suc [of n c "unat i"] n p by simp_all
    have kb: "?k < 2 ^ lvl_bits c n" by (rule ert_index_less)
    have R1: "rep w' v P1" and A1: "ainv k w' (used c top P1)" using 1(3) by (simp_all add: tinv_def)
    have xv: "cells w' ?x = Some (child P1 p)"
      using ert_repD(3) [OF R1 a(1), of ?k] pp kb top by simp
    have P1p: "P1 p = P p" by (rule grows_off_path [OF 1(4)]) (use n p in simp)
    have "ef_get f q accum False w' = Some a" using a(2) by (simp add: get)
    from ert_walk_ok [OF ok _ this, of n i] have wk: "ert_walk f c q i accum (ec_depth c - of_nat n) w' = Some (Cell ?x)"
      using n by simp
    have z: "ef_isnull f (Cell ?x) accum False w' = Some (P p = None)"
      using xv child_null [OF ert_repD(2) [OF R1], of p] P1p by (simp add: isnull)
    let ?w = "upd (\<lambda>h. h(?x \<mapsto> data)) w'" and ?P = "P1(p := if data = null then None else Some data)"
    have st: "ef_setleaf f (Cell ?x) data w' = Some (0, ?w)" by (rule setleaf [OF lc xv])
    have run': "ert_expand f c v i 0 (ec_depth c + 1) accum memctxt data w =
      Some (if data \<noteq> null \<and> P p \<noteq> None then (1, w') else (0, ?w))"
      using run Some wk z st initval by simp
    show ?thesis
    proof (cases "data \<noteq> null \<and> P p \<noteq> None")
      case True
      then show ?thesis using run' 1(2-4) n by auto
    next
      case False
      have rep': "ert_rep top c ((cells w')(?x \<mapsto> data)) v ?P"
      proof (cases "data = null")
        case True
        show ?thesis
        proof (cases "P1 p")
          case None
          then have "(cells w')(?x \<mapsto> data) = cells w'" using xv True by (auto simp: child_def fun_upd_idem)
          moreover have "?P = P1" using None True by auto
          ultimately show ?thesis using R1 by simp
        next
          case (Some b)
          then show ?thesis using ert_rep_drop [OF R1 a(1), of ?k b] pp top True by simp
        qed
      next
        case nn: False
        then have "P1 p = None" using False P1p by simp
        then show ?thesis
          using ert_rep_add [OF R1 a(1), of ?k data] pp kb top nn ert_okD(5) [OF ok] by simp
      qed
      have "used c top ?P = used c top P1"
      proof -
        have "length p = top" using top n p by simp
        then show ?thesis unfolding used_def by (intro Collect_cong) (metis fun_upd_other less_irrefl)
      qed
      moreover have "ainv k ?w U = ainv k w' U" for U using xv by (intro ainv_upd) auto
      ultimately have "tinv k ?w v ?P" unfolding tinv_def cells_upd using rep' A1 by simp
      then show ?thesis
        using run' False frame_trans [OF 1(2) frame_upd] 1(4) n by auto
    qed
  qed
qed

end

end
