(* ===== verification/Ertrie_World.thy ===== *)
theory Ertrie_World
  imports Slab_Default Ertrie_Correct
begin

text \<open>
  The default trie functions in the world, with nodes from the platform allocator, keep the contract
  \<open>ert_store\<close>.  \<open>roomy k\<close> says that the platform can answer \<open>k\<close> more requests of any size up to
  \<open>2 ^ 32\<close>: page aligned, not overlapping each other or a block in use.  As the answers are given before the sizes
  are known, they are \<open>2 ^ 32\<close> bytes apart; that is more than \<open>aligned_alloc\<close> documents, whose answers are
  apart by the sizes asked for.
\<close>

section \<open>Room\<close>

definition room :: u64 where "room = 2 ^ 32"

definition roomy :: "nat \<Rightarrow> world \<Rightarrow> bool" where
  "roomy k w \<longleftrightarrow> k \<le> length (w_answers w) \<and> blocks_ok (w_blocks w) \<and>
     (\<forall>a \<in> set (w_answers w). good_block (w_blocks w) a room \<and> w_blocks w a = None) \<and>
     sorted_wrt (\<lambda>a b. apart a room b room) (w_answers w)"

lemma unat_room: "unat room = 2 ^ 32"
  by (simp add: room_def)

lemma apart_smaller: "apart a sz b sz' \<Longrightarrow> unat sz1 \<le> unat sz \<Longrightarrow> unat sz2 \<le> unat sz' \<Longrightarrow> apart a sz1 b sz2"
  by (auto simp: apart_def)

lemma apart_sym: "apart a sz b sz' \<longleftrightarrow> apart b sz' a sz"
  by (auto simp: apart_def)

lemma good_block_smaller: "good_block B a sz \<Longrightarrow> unat sz1 \<le> unat sz \<Longrightarrow> good_block B a sz1"
  unfolding good_block_def using apart_smaller by fastforce

lemma roomy_mono: "roomy (Suc k) w \<Longrightarrow> roomy k w"
  by (simp add: roomy_def)

lemma roomy_le: "roomy k w \<Longrightarrow> j \<le> k \<Longrightarrow> roomy j w"
  by (simp add: roomy_def)

lemma blocks_ok_new: "blocks_ok B \<Longrightarrow> good_block B a sz \<Longrightarrow> blocks_ok (B(a \<mapsto> sz))"
  unfolding blocks_ok_def good_block_def apart_def by (auto split: if_splits)

lemma blocks_ok_drop: "blocks_ok B \<Longrightarrow> blocks_ok (B(a := None))"
  unfolding blocks_ok_def by auto

lemma roomy_drop:
  assumes "roomy k w" and "w_answers w' = w_answers w" and "w_blocks w' = (w_blocks w)(a := None)"
  shows "roomy k w'"
  using assms unfolding roomy_def good_block_def by (auto intro: blocks_ok_drop)

lemma in_block_apart: "apart a sz b sz' \<Longrightarrow> in_block a sz x \<Longrightarrow> \<not> in_block b sz' x"
  by (auto simp: apart_def in_block_def)

text \<open>The block a cell lies in.\<close>

definition in_use :: "world \<Rightarrow> addr \<Rightarrow> bool" where
  "in_use w x \<longleftrightarrow> (\<exists>b sz. w_blocks w b = Some sz \<and> in_block b sz x)"

text \<open>A step that only takes new blocks: what is in use stays.\<close>

definition plat_frame :: "world \<Rightarrow> world \<Rightarrow> bool" where
  "plat_frame w w' \<longleftrightarrow> w_mem w' = w_mem w \<and> w_ps w' = w_ps w \<and>
     (\<forall>b sz. w_blocks w b = Some sz \<longrightarrow> w_blocks w' b = Some sz) \<and>
     (\<forall>x. in_use w x \<longrightarrow> w_mh w' x = w_mh w x \<and> w_sl w' x = w_sl w x \<and> w_ls w' x = w_ls w x)"

lemma plat_frame_refl: "plat_frame w w"
  by (simp add: plat_frame_def)

lemma plat_frame_in_use: "plat_frame w w' \<Longrightarrow> in_use w x \<Longrightarrow> in_use w' x"
  unfolding plat_frame_def in_use_def by blast

lemma plat_frame_trans: "plat_frame w w' \<Longrightarrow> plat_frame w' w'' \<Longrightarrow> plat_frame w w''"
  using plat_frame_in_use [of w w'] unfolding plat_frame_def by simp

text \<open>One request.\<close>

lemma plat_alloc_ok:
  assumes "roomy (Suc k) w" and "unat sz \<le> 2 ^ 32"
  shows "\<exists>a w'. ps_plat_alloc_linux sz w = Some (a, w') \<and> w' = zero_block a sz (w\<lparr>w_answers := tl (w_answers w)\<rparr>) \<and>
    a \<noteq> null \<and> w_blocks w a = None \<and> good_block (w_blocks w) a sz \<and> roomy k w' \<and>
    (\<forall>x. in_use w x \<longrightarrow> \<not> in_block a sz x)"
proof -
  obtain a as where a: "w_answers w = a # as" using assms(1) by (cases "w_answers w") (auto simp: roomy_def)
  have r: "k \<le> length as" "blocks_ok (w_blocks w)" "good_block (w_blocks w) a room" "w_blocks w a = None"
    "\<forall>b \<in> set as. good_block (w_blocks w) b room \<and> w_blocks w b = None \<and> apart a room b room"
    "sorted_wrt (\<lambda>a b. apart a room b room) as"
    using assms(1) a by (auto simp: roomy_def)
  have sz: "unat sz \<le> unat room" using assms(2) by (simp add: unat_room)
  have g: "good_block (w_blocks w) a sz" by (rule good_block_smaller [OF r(3) sz])
  then have an: "a \<noteq> null" by (simp add: good_block_def)
  let ?w = "zero_block a sz (w\<lparr>w_answers := as\<rparr>)"
  have "good_block ((w_blocks w)(a \<mapsto> sz)) b room \<and> ((w_blocks w)(a \<mapsto> sz)) b = None" if "b \<in> set as" for b
  proof -
    have b: "good_block (w_blocks w) b room" "w_blocks w b = None" "apart a room b room" using r(5) that by auto
    then have "b \<noteq> a" by (auto simp: apart_def unat_room)
    moreover have "apart b room a sz" using b(3) sz apart_sym apart_smaller by blast
    ultimately show ?thesis using b(1,2) by (auto simp: good_block_def)
  qed
  then have "roomy k ?w" using r(1,2,6) blocks_ok_new [OF r(2) g] by (simp add: roomy_def zero_block_def)
  moreover have "\<not> in_block a sz x" if u: "in_use w x" for x
  proof -
    obtain b sz' where b: "w_blocks w b = Some sz'" "in_block b sz' x" using u by (auto simp: in_use_def)
    then have "apart a sz b sz'" using g by (simp add: good_block_def)
    from apart_in_block [OF this b(2)] show ?thesis .
  qed
  moreover have "ps_plat_alloc_linux sz w = Some (a, ?w)"
    using a an by (simp add: ps_plat_alloc_linux_def plat_answer_def)
  ultimately show ?thesis using a an r(4) g by auto
qed

lemma zero_block_frame:
  assumes "w_blocks w a = None" and "\<forall>x. in_use w x \<longrightarrow> \<not> in_block a sz x"
  shows "plat_frame w (zero_block a sz (w\<lparr>w_answers := as\<rparr>))"
  using assms by (auto simp: plat_frame_def zero_block_def fill_def)

section \<open>The trie functions in the world\<close>

definition in_world :: "(iheap \<Rightarrow> ('a \<times> iheap) option) \<Rightarrow> world \<Rightarrow> ('a \<times> world) option" where
  "in_world f w = map_option (\<lambda>(r, h). (r, w\<lparr>w_ert := h\<rparr>)) (f (w_ert w))"

text \<open>\<open>ERT_CREATE_DEF\<close> with an allocation function that asks the platform for every node.\<close>

definition ert_world_fns :: "(u64 \<Rightarrow> world \<Rightarrow> (addr \<times> world) option) \<Rightarrow> world ert_fns" where
  "ert_world_fns plat_alloc =
     \<lparr>ef_initval = null,
      ef_init = (\<lambda>a leaf w. map_option (\<lambda>h. w\<lparr>w_ert := h\<rparr>) (ert_definit a leaf (w_ert w))),
      ef_get = (\<lambda>q accum leaf w. ert_defget q accum leaf (w_ert w)),
      ef_isnull = (\<lambda>q accum leaf w. ert_defisnull q accum leaf (w_ert w)),
      ef_set = (\<lambda>q v accum leaf w. map_option (\<lambda>(r, q, h). (r, q, w\<lparr>w_ert := h\<rparr>)) (ert_defset q v accum leaf (w_ert w))),
      ef_alloc = (\<lambda>memctxt sz leaf w. plat_alloc (scast sz) w),
      ef_setleaf = (\<lambda>q data. in_world (ert_defsetleaf q data)),
      ef_getleaf = (\<lambda>q accum w. ert_defgetleaf q accum (w_ert w)),
      ef_resolve = (\<lambda>q accum leaf ord sz w. ert_defresolve q accum leaf ord sz (w_ert w))\<rparr>"

text \<open>
  Constants that pass \<open>ert_ok\<close>: the given ones if they do.  So the interpretation needs no premise; the
  results are used for constants that are fine.
\<close>

definition ert_sane :: "ert_consts \<Rightarrow> ert_consts" where
  "ert_sane c = (if ert_ok c then c else ert_def_consts 1 0 0 8)"

lemma ert_sane: "ert_ok c \<Longrightarrow> ert_sane c = c" "ert_ok (ert_sane c)"
proof -
  show "ert_ok c \<Longrightarrow> ert_sane c = c" by (simp add: ert_sane_def)
  have "ert_ok (ert_def_consts 1 0 0 8)"
    by (simp add: ert_ok_def ert_def_consts_def ert_levels_def ert_bits_def)
  then show "ert_ok (ert_sane c)" by (simp add: ert_sane_def)
qed

text \<open>Cells in use lie in blocks other than those of \<open>avoid\<close>, which belong to someone else.\<close>

definition cells_inv :: "addr set \<Rightarrow> nat \<Rightarrow> world \<Rightarrow> addr set \<Rightarrow> bool" where
  "cells_inv avoid k w U \<longleftrightarrow> roomy k w \<and> avoid \<subseteq> dom (w_blocks w) \<and>
     (\<forall>x \<in> U. \<exists>b sz. w_blocks w b = Some sz \<and> b \<notin> avoid \<and> in_block b sz x)"

definition on_cells :: "(iheap \<Rightarrow> iheap) \<Rightarrow> world \<Rightarrow> world" where
  "on_cells g w = w\<lparr>w_ert := g (w_ert w)\<rparr>"

lemma on_cells_frame: "plat_frame w (on_cells g w)"
  by (simp add: plat_frame_def on_cells_def)

lemma cells_inv_on_cells: "cells_inv avoid k (on_cells g w) U = cells_inv avoid k w U"
  by (simp add: cells_inv_def on_cells_def roomy_def)

lemma entries_in_block:
  assumes "unat a + node_sz c l < 2 ^ 64" and "0 < lvl_sz c l" and "unat sz = node_sz c l" and "x \<in> entries c l a"
  shows "in_block a sz x"
  using assms entries_bound [OF _ assms(1,2)] by (fastforce simp: entries_def in_block_def)

lemma world_alloc:
  assumes ok: "ert_ok c" and inv: "cells_inv avoid (Suc k) w U" and sz: "unat (sz :: u32) = node_sz c l"
  shows "\<exists>a w'. ps_plat_alloc_linux (scast sz) w = Some (a, w') \<and> plat_frame w w' \<and> (\<forall>x \<in> U. w_ert w' x = w_ert w x) \<and>
    a \<noteq> null \<and> unat a + node_sz c l < 2 ^ 64 \<and> entries c l a \<inter> U = {} \<and> entries c l a \<subseteq> dom (w_ert w') \<and>
    cells_inv avoid k w' (U \<union> entries c l a)"
proof -
  have n31: "node_sz c l < 2 ^ 31" by (rule ert_okD(4) [OF ok])
  let ?sz = "scast sz :: u64"
  have s: "unat ?sz = node_sz c l"
  proof -
    have "?sz = of_nat (unat sz * 1)" using scast_off [of sz 1] n31 sz by simp
    then show ?thesis using n31 sz by (simp add: unat_of_nat_small)
  qed
  have r: "roomy (Suc k) w" and av: "avoid \<subseteq> dom (w_blocks w)"
    and U: "\<And>x. x \<in> U \<Longrightarrow> \<exists>b sz. w_blocks w b = Some sz \<and> b \<notin> avoid \<and> in_block b sz x"
    using inv by (auto simp: cells_inv_def)
  have "unat ?sz \<le> 2 ^ 32" using s n31 by simp
  from plat_alloc_ok [OF r this] obtain a w' where a: "ps_plat_alloc_linux ?sz w = Some (a, w')"
    "w' = zero_block a ?sz (w\<lparr>w_answers := tl (w_answers w)\<rparr>)" "a \<noteq> null" "w_blocks w a = None"
    "good_block (w_blocks w) a ?sz" "roomy k w'" "\<forall>x. in_use w x \<longrightarrow> \<not> in_block a ?sz x" by blast
  have b: "unat a + node_sz c l < 2 ^ 64" using a(5) s by (simp add: good_block_def)
  have e: "in_block a ?sz x" if "x \<in> entries c l a" for x
    by (rule entries_in_block [OF b ert_okD(5) [OF ok] s that])
  have Uu: "in_use w x" if "x \<in> U" for x using U [OF that] by (auto simp: in_use_def)
  have "\<forall>x \<in> U. w_ert w' x = w_ert w x" using a(7) Uu by (simp add: a(2) zero_block_def fill_def)
  moreover have "entries c l a \<inter> U = {}" using e a(7) Uu by blast
  moreover have "entries c l a \<subseteq> dom (w_ert w')" using e by (auto simp: a(2) zero_block_def fill_def)
  moreover have "cells_inv avoid k w' (U \<union> entries c l a)"
  proof -
    have "\<exists>b sz. w_blocks w' b = Some sz \<and> b \<notin> avoid \<and> in_block b sz x" if "x \<in> U \<union> entries c l a" for x
    proof (cases "x \<in> U")
      case True
      then obtain b sz where "w_blocks w b = Some sz" "b \<notin> avoid" "in_block b sz x" using U by blast
      moreover from this a(4) have "b \<noteq> a" by auto
      ultimately show ?thesis by (intro exI [of _ b] exI [of _ sz]) (simp add: a(2) zero_block_def)
    next
      case False
      then have "in_block a ?sz x" using that e by simp
      moreover have "a \<notin> avoid" using av a(4) by auto
      ultimately show ?thesis by (intro exI [of _ a] exI [of _ ?sz]) (simp add: a(2) zero_block_def)
    qed
    moreover have "avoid \<subseteq> dom (w_blocks w')" using av by (auto simp: a(2) zero_block_def)
    ultimately show ?thesis using a(6) by (simp add: cells_inv_def)
  qed
  moreover have "plat_frame w w'" unfolding a(2) by (rule zero_block_frame [OF a(4,7)])
  ultimately show ?thesis using a(1,3) b by blast
qed

interpretation wt: ert_store "ert_world_fns ps_plat_alloc_linux" "ert_sane c" w_ert on_cells plat_frame "cells_inv {}" True for c
proof (unfold_locales, goal_cases)
  case (1)
  show ?case by (rule ert_sane)
next
  case (12 w w' w'')
  then show ?case by (rule plat_frame_trans)
next
  case (16 k w U l leaf sz memctxt)
  then show ?case
    using world_alloc [OF ert_sane(2) 16(1,5)]
    by (simp add: ert_world_fns_def) metis
qed (auto simp: ert_world_fns_def ert_defget_def ert_defisnull_def ert_defset_def ert_definit_def
    plat_frame_refl in_world_def ert_defresolve_def ert_defgetleaf_def ert_defsetleaf_def on_cells_def
    plat_frame_def cells_inv_def roomy_def)

section \<open>Runs of a trie with pointers in its leaves\<close>

abbreviation linux_fns :: "world ert_fns" where "linux_fns \<equiv> ert_world_fns ps_plat_alloc_linux"

text \<open>\<open>V\<close> is the map from ids to values that the calls should have built.\<close>

inductive ert_run :: "ert_consts \<Rightarrow> addr \<Rightarrow> world \<Rightarrow> (u64 \<Rightarrow> addr option) \<Rightarrow> bool" for c v where
  create: "ert_ok c \<Longrightarrow> roomy 1 w \<Longrightarrow> ert_alloc linux_fns c memctxt accum w = Some (v, w') \<Longrightarrow>
    ert_run c v w' Map.empty"
| answer: "ert_run c v w V \<Longrightarrow> roomy 0 (w\<lparr>w_answers := as\<rparr>) \<Longrightarrow> ert_run c v (w\<lparr>w_answers := as\<rparr>) V"
| expand: "ert_run c v w V \<Longrightarrow> roomy (ert_levels c - 1) w \<Longrightarrow> unat i < 2 ^ ert_bits c \<Longrightarrow>
    ert_expandn linux_fns c v i (ec_depth c + 1) accum memctxt data w = Some (z, w') \<Longrightarrow>
    ert_run c v w' (if z = 0 then V(i := if data = null then None else Some data) else V)"

definition trie_map :: "ert_consts \<Rightarrow> tnodes \<Rightarrow> (u64 \<Rightarrow> addr option) \<Rightarrow> bool" where
  "trie_map c P V \<longleftrightarrow> (\<forall>i. unat i < 2 ^ ert_bits c \<longrightarrow> P (ert_path c (unat i)) = V i)"

abbreviation wt_inv :: "ert_consts \<Rightarrow> nat \<Rightarrow> world \<Rightarrow> addr \<Rightarrow> tnodes \<Rightarrow> bool" where
  "wt_inv c \<equiv> ert_store.tinv c w_ert (cells_inv {}) True"

lemma wt_inv_iff:
  "ert_ok c \<Longrightarrow> wt_inv c k w v P \<longleftrightarrow> ert_rep (ert_top True c) c (w_ert w) v P \<and> cells_inv {} k w (used c (ert_top True c) P)"
  using wt.tinv_def [of c] by (simp add: ert_sane)

lemma wt_never_refuses: "ert_ok c \<Longrightarrow> \<not> wt.may_refuse memctxt"
  unfolding wt.may_refuse_def
  by (auto simp: ert_world_fns_def ps_plat_alloc_linux_def c_assert_def plat_answer_def
      split: if_splits list.splits prod.splits)

lemma wt_room:
  assumes "ert_ok c" and "wt_inv c 0 w v P" and "roomy k w"
  shows "wt_inv c k w v P"
  using assms by (simp add: wt_inv_iff cells_inv_def)

lemma expand_step:
  assumes ok: "ert_ok c" and inv: "wt_inv c 0 w v P" and V: "trie_map c P V" and r: "roomy (k + (ert_levels c - 1)) w"
    and i: "unat i < 2 ^ ert_bits c"
  shows "\<exists>w' P'. ert_expandn linux_fns c v i (ec_depth c + 1) accum memctxt data w =
      Some (if data \<noteq> null \<and> V i \<noteq> None then 1 else 0, w') \<and> wt_inv c k w' v P' \<and>
    trie_map c P' (if data \<noteq> null \<and> V i \<noteq> None then V else V(i := if data = null then None else Some data))"
proof -
  note sane = ert_sane(1) [OF ok]
  let ?p = "ert_path c (unat i)"
  have "wt_inv c (k + (ert_levels c - 1)) w v P" using wt_room [OF ok inv r] by simp
  from wt.expand_leaf [of i c, unfolded sane, OF i refl TrueI this, of accum memctxt data]
  obtain z w' P1 where 1: "ert_expand linux_fns c v i 0 (ec_depth c + 1) accum memctxt data w = Some (z, w')"
    and g: "ert_store.grows c True memctxt ?p 0 (ert_levels c - 1) P P1"
    and cs3: "z = - 1 \<and> wt.may_refuse memctxt \<and> wt_inv c k w' v P1 \<or>
     z = 1 \<and> data \<noteq> null \<and> P ?p \<noteq> None \<and> wt_inv c k w' v P1 \<or>
     z = 0 \<and> (data = null \<or> P ?p = None) \<and> wt_inv c k w' v (P1(?p := if data = null then None else Some data))"
    by (elim exE conjE) (rule that)
  then have cs: "z = 1 \<and> data \<noteq> null \<and> P ?p \<noteq> None \<and> wt_inv c k w' v P1 \<or>
     z = 0 \<and> (data = null \<or> P ?p = None) \<and> wt_inv c k w' v (P1(?p := if data = null then None else Some data))"
    using wt_never_refuses [OF ok] by simp
  have Vi: "P ?p = V i" using V i by (simp add: trie_map_def)
  have n: "ert_levels c - 1 < ert_levels c" using ert_okD(1) [OF ok] by simp
  have V1: "trie_map c P1 V"
    using V wt.grows_off_path [of c, unfolded sane, OF g] n by (simp add: trie_map_def)
  have upd: "trie_map c (P1(?p := x)) (V(i := x))" for x
    using V1 ert_path_eq_iff [OF ert_okD(1) [OF ok]] i unfolding trie_map_def
    by (auto simp: word_unat_eq_iff)
  show ?thesis
  proof (cases "data \<noteq> null \<and> P ?p \<noteq> None")
    case True
    then have "z = 1" "wt_inv c k w' v P1" using cs by auto
    then show ?thesis using 1 Vi V1 True by (auto simp: ert_expandn_def)
  next
    case False
    then have z: "z = 0" "data = null \<or> P ?p = None" "wt_inv c k w' v (P1(?p := if data = null then None else Some data))"
      using cs by auto
    have "ert_expandn linux_fns c v i (ec_depth c + 1) accum memctxt data w =
      Some (if data \<noteq> null \<and> V i \<noteq> None then 1 else 0, w')" using 1 z(1,2) Vi by (auto simp: ert_expandn_def)
    moreover have "trie_map c (P1(?p := if data = null then None else Some data))
       (if data \<noteq> null \<and> V i \<noteq> None then V else V(i := if data = null then None else Some data))"
      using upd [of "if data = null then None else Some data"] z(2) Vi by auto
    ultimately show ?thesis using z(3) by blast
  qed
qed

lemma create_step:
  assumes ok: "ert_ok c" and r: "roomy (Suc k) w"
  shows "\<exists>v w'. ert_alloc linux_fns c memctxt accum w = Some (v, w') \<and> v \<noteq> null \<and> wt_inv c k w' v [[] \<mapsto> v] \<and>
    trie_map c [[] \<mapsto> v] Map.empty"
proof -
  note sane = ert_sane(1) [OF ok]
  have "cells_inv {} (Suc k) w {}" using r by (simp add: cells_inv_def)
  from wt.alloc_trie [OF this, of c memctxt accum, unfolded sane] wt_never_refuses [OF ok, of memctxt]
  obtain v w' where "ert_alloc linux_fns c memctxt accum w = Some (v, w')" "v \<noteq> null" "wt_inv c k w' v [[] \<mapsto> v]"
    by (auto split: if_splits)
  moreover have "ert_path c i \<noteq> []" for i
    using ert_okD(1) [OF ok] length_ert_path [of c i] by (metis list.size(3) not_one_le_zero)
  then have "trie_map c [[] \<mapsto> v] Map.empty" for v by (simp add: trie_map_def)
  ultimately show ?thesis by blast
qed

lemma wt_inv_roomy: "ert_ok c \<Longrightarrow> wt_inv c k w v P \<Longrightarrow> roomy k w"
  by (simp add: wt_inv_iff cells_inv_def)

lemma ert_run_state: "ert_run c v w V \<Longrightarrow> ert_ok c \<and> (\<exists>P. wt_inv c 0 w v P \<and> trie_map c P V)"
proof (induction rule: ert_run.induct)
  case (create w memctxt accum w')
  from create_step [OF create(1), where k = 0 and w = w and memctxt = memctxt and accum = accum] create(2) create(1,3) show ?case by auto
next
  case (answer w V as)
  then obtain P where "ert_ok c" "wt_inv c 0 w v P" "trie_map c P V" by blast
  moreover from this answer(2) have "wt_inv c 0 (w\<lparr>w_answers := as\<rparr>) v P"
    by (simp add: wt_inv_iff cells_inv_def)
  ultimately show ?case by blast
next
  case (expand w V i accum memctxt data z w')
  then obtain P where "ert_ok c" "wt_inv c 0 w v P" "trie_map c P V" by blast
  from expand_step [where k = 0, unfolded add_0, OF this expand(2,3), where accum = accum and memctxt = memctxt and data = data] expand(4) this(1) show ?case
    by (auto split: if_splits)
qed

end
