(* ===== verification/Ertrie_Properties.thy ===== *)
theory Ertrie_Properties
  imports Ertrie_World
begin

text \<open>
  What callers of a trie see: lookups agree with the map that the calls to \<open>expand\<close> built, \<open>expand\<close>
  itself, the ids a trie takes, and the corner cases of \<open>dlimit\<close>.
\<close>

section \<open>A run on a small trie\<close>

text \<open>Two levels of four entries.\<close>

definition ex_ert :: ert_consts where "ex_ert = ert_def_consts 2 2 2 8"

definition ex_ert_w :: world where
  "ex_ert_w = \<lparr>w_answers = [0x100000000, 0x200000000], w_blocks = Map.empty, w_mh = Map.empty, w_sl = Map.empty,
     w_ls = Map.empty, w_mem = Map.empty, w_ps = Map.empty, w_ert = Map.empty, w_pg = Map.empty\<rparr>"

lemma ex_ert_ok: "ert_ok ex_ert" "ert_levels ex_ert = 2" "ert_bits ex_ert = 4"
  by (simp_all add: ert_ok_def ex_ert_def ert_def_consts_def ert_levels_def ert_bits_def)

lemma ex_ert_roomy: "roomy 2 ex_ert_w"
  by (simp add: roomy_def ex_ert_w_def blocks_ok_def good_block_def apart_def room_def)

lemma ex_ert_run:
  "\<exists>v w. ert_run ex_ert v w Map.empty \<and> roomy 1 w"
proof -
  have "roomy (Suc 1) ex_ert_w" using ex_ert_roomy by (simp add: numeral_2_eq_2)
  from create_step [OF ex_ert_ok(1) this, of 0 0] obtain v w where
    1: "ert_alloc linux_fns ex_ert 0 0 ex_ert_w = Some (v, w)" "wt_inv ex_ert 1 w v [[] \<mapsto> v]" by blast
  have "ert_run ex_ert v w Map.empty"
    by (rule ert_run.create [OF ex_ert_ok(1) _ 1(1)]) (rule roomy_le [OF ex_ert_roomy], simp)
  then show ?thesis using wt_inv_roomy [OF ex_ert_ok(1) 1(2)] by blast
qed

lemma ert_run_expands:
  assumes "ert_run c v w V" and "roomy (ert_levels c - 1) w" and "unat i < 2 ^ ert_bits c"
  shows "\<exists>w'. ert_expandn linux_fns c v i (ec_depth c + 1) accum memctxt data w =
      Some (if data \<noteq> null \<and> V i \<noteq> None then 1 else 0, w') \<and>
    ert_run c v w' (if data \<noteq> null \<and> V i \<noteq> None then V else V(i := if data = null then None else Some data))"
proof -
  obtain P where P: "ert_ok c" "wt_inv c 0 w v P" "trie_map c P V" using ert_run_state [OF assms(1)] by blast
  from expand_step [where k = 0, unfolded add_0, OF this assms(2,3), where accum = accum and memctxt = memctxt and data = data] obtain w' where
    w': "ert_expandn linux_fns c v i (ec_depth c + 1) accum memctxt data w =
      Some (if data \<noteq> null \<and> V i \<noteq> None then 1 else 0, w')" by blast
  from ert_run.expand [OF assms this] w' show ?thesis by (auto split: if_splits)
qed

lemma ert_run_value: "ert_run c v w V \<Longrightarrow> V i \<noteq> Some null"
  by (induction rule: ert_run.induct) (auto split: if_splits)

lemma ert_run_lookup_leaf:
  assumes "ert_run c v w V" and "unat i < 2 ^ ert_bits c"
  shows "ert_lkupan linux_fns c v i (ec_depth c + 1) accum w = Some (Cell (case V i of None \<Rightarrow> null | Some x \<Rightarrow> x))"
proof -
  obtain P where P: "ert_ok c" "wt_inv c 0 w v P" "trie_map c P V" using ert_run_state [OF assms(1)] by blast
  then have "ert_rep (ert_top True c) c (w_ert w) v P" by (simp add: wt_inv_iff)
  from wt.lookup_leaf [of c, unfolded ert_sane(1) [OF P(1)], OF this assms(2) TrueI, of accum] show ?thesis
    using P(3) assms(2) by (simp add: ert_lkupan_def child_def trie_map_def)
qed

section \<open>Properties\<close>

text \<open>
  C31: the trie is a map.  After any run of calls, a lookup past the last level answers the value that the
  map of ids to values built by the calls has at this id, and null for an id that has none.
\<close>

theorem ert_run_lookup:
  assumes "ert_run c v w V" and "unat i < 2 ^ ert_bits c"
  shows "ert_lkupan linux_fns c v i (ec_depth c + 1) accum w = Some (Cell (case V i of None \<Rightarrow> null | Some x \<Rightarrow> x))"
  by (rule ert_run_lookup_leaf [OF assms])

theorem ert_run_lookup_witness:
  "\<exists>v w. ert_run ex_ert v w [5 \<mapsto> 0x77] \<and> ert_lkupan linux_fns ex_ert v 5 (ec_depth ex_ert + 1) 0 w = Some (Cell 0x77) \<and>
    ert_lkupan linux_fns ex_ert v 6 (ec_depth ex_ert + 1) 0 w = Some (Cell null)"
proof -
  obtain v w where 1: "ert_run ex_ert v w Map.empty" "roomy 1 w" using ex_ert_run by blast
  obtain w' where 2: "ert_run ex_ert v w' [5 \<mapsto> 0x77]"
    using ert_run_expands [OF 1(1), of 5 0 0 "0x77"] 1(2) ex_ert_ok by auto
  show ?thesis
    using 2 ert_run_lookup [OF 2, of 5 0] ert_run_lookup [OF 2, of 6 0] ex_ert_ok by auto
qed

text \<open>
  C32: setting a value and reading it back.  With memory for a path of nodes, \<open>expand\<close> past the last level
  always returns.  If the id has a value and the data is not null it answers 1 and every lookup stays as it
  was; otherwise it answers 0, a lookup of this id gives the data and every other lookup stays as it was.
\<close>

theorem ert_expand_sets:
  assumes "ert_run c v w V" and "roomy (ert_levels c - 1) w" and "unat i < 2 ^ ert_bits c"
  shows "\<exists>z w'. ert_expandn linux_fns c v i (ec_depth c + 1) accum memctxt data w = Some (z, w') \<and>
    z = (if data \<noteq> null \<and> ert_lkupan linux_fns c v i (ec_depth c + 1) accum w \<noteq> Some (Cell null) then 1 else 0) \<and>
    (\<forall>j. unat j < 2 ^ ert_bits c \<longrightarrow> ert_lkupan linux_fns c v j (ec_depth c + 1) accum w' =
      (if z = 0 \<and> j = i then Some (Cell data) else ert_lkupan linux_fns c v j (ec_depth c + 1) accum w))"
proof -
  obtain w' where w': "ert_expandn linux_fns c v i (ec_depth c + 1) accum memctxt data w =
      Some (if data \<noteq> null \<and> V i \<noteq> None then 1 else 0, w')"
    "ert_run c v w' (if data \<noteq> null \<and> V i \<noteq> None then V else V(i := if data = null then None else Some data))"
    using ert_run_expands [OF assms] by blast
  note L = ert_run_lookup_leaf [OF assms(1), of _ accum] and L' = ert_run_lookup_leaf [OF w'(2), of _ accum]
  have "(V i \<noteq> None) = (ert_lkupan linux_fns c v i (ec_depth c + 1) accum w \<noteq> Some (Cell null))"
    using L [OF assms(3)] ert_run_value [OF assms(1), of i] by (auto split: option.splits)
  then show ?thesis using w'(1) L L' by (intro exI [of _ "if data \<noteq> null \<and> V i \<noteq> None then 1 else 0"] exI [of _ w']) auto
qed

theorem ert_expand_sets_witness:
  "\<exists>v w w'. roomy 1 w \<and> ert_expandn linux_fns ex_ert v 5 (ec_depth ex_ert + 1) 0 0 0x77 w = Some (0, w') \<and>
    ert_lkupan linux_fns ex_ert v 5 (ec_depth ex_ert + 1) 0 w' = Some (Cell 0x77) \<and>
    ert_lkupan linux_fns ex_ert v 6 (ec_depth ex_ert + 1) 0 w' = Some (Cell null)"
proof -
  obtain v w where 1: "ert_run ex_ert v w Map.empty" "roomy 1 w" using ex_ert_run by blast
  show ?thesis
    using ert_expand_sets [OF 1(1), of 5 0 0 "0x77"] 1(2) ex_ert_ok ert_run_lookup_leaf [OF 1(1), of 5 0]
      ert_run_lookup_leaf [OF 1(1), of 6 0] by fastforce
qed

text \<open>
  C37: the number of ids.  If the id bits fit in 32 bits of arithmetic, \<open>__ert_maxid\<close> is \<open>2 ^\<close> the number of id
  bits below 64 of them, and from 64 on both branches of its bounds check shift by 64 or more places, which
  has no defined result: the clamp for large tries never takes effect.
\<close>

theorem ert_maxid_bounds:
  assumes "unat (ec_order c) * (unat (ec_depth c) - 1) + unat (ec_last_order c) < 2 ^ 32" and "1 \<le> unat (ec_depth c)"
  shows "ert_maxid c = (if ert_bits c < 64 then Some (2 ^ ert_bits c) else None)"
proof -
  have u: "unat (ec_order c * (ec_depth c - 1) + ec_last_order c) = ert_bits c"
  proof -
    have d: "unat (ec_depth c - 1) = unat (ec_depth c) - 1" using assms(2) by (simp add: unat_dec_u32)
    then have "unat (ec_order c * (ec_depth c - 1)) = unat (ec_order c) * (unat (ec_depth c) - 1)"
      using assms(1) by (subst unat_mult_u32) simp_all
    then show ?thesis using assms(1) by (subst unat_add_u32) (simp_all add: ert_bits_def ert_levels_def)
  qed
  define off :: u64 where "off = ucast (ec_order c * (ec_depth c - 1) + ec_last_order c)"
  have o: "unat off = ert_bits c" using u by (simp add: off_def unat_ucast_u64)
  have "ert_maxid c = (if off > 64 then ulong_shl1 64 else ulong_shl1 off)" by (simp add: ert_maxid_def off_def)
  then show ?thesis using o by (simp add: ulong_shl1_def push_bit_eq_mult word_less_nat_alt)
qed

theorem ert_maxid_bounds_witness:
  "ert_maxid (ert_def_consts 8 8 7 8) = Some (2 ^ 63) \<and> ert_maxid (ert_def_consts 8 8 8 8) = None \<and>
   ert_maxid (ert_def_consts 9 8 8 8) = None"
  using ert_maxid_bounds [of "ert_def_consts 8 8 7 8"] ert_maxid_bounds [of "ert_def_consts 8 8 8 8"]
    ert_maxid_bounds [of "ert_def_consts 9 8 8 8"]
  by (simp add: ert_def_consts_def ert_bits_def ert_levels_def)

text \<open>
  C38: the depth limits of a lookup.  With \<open>dlimit\<close> 0, documented to answer the top level, a lookup answers
  the address of its own local variable, which is dead when the caller gets it.
\<close>

theorem ert_lookup_zero_is_local:
  assumes "ert_run c v w V" and "unat i < 2 ^ ert_bits c"
  shows "ert_lkupan linux_fns c v i 0 accum w = Some (Local v)"
proof -
  obtain P where P: "ert_ok c" "wt_inv c 0 w v P" "trie_map c P V" using ert_run_state [OF assms(1)] by blast
  then have "ert_rep (ert_top True c) c (w_ert w) v P" by (simp add: wt_inv_iff)
  from wt.lookup_zero [of c, unfolded ert_sane(1) [OF P(1)], OF this assms(2), of accum] show ?thesis
    by (simp add: ert_lkupan_def)
qed

theorem ert_lookup_zero_is_local_witness:
  "\<exists>v w. ert_run ex_ert v w Map.empty \<and> ert_lkupan linux_fns ex_ert v 3 0 0 w = Some (Local v)"
proof -
  obtain v w where 1: "ert_run ex_ert v w Map.empty" using ex_ert_run by blast
  show ?thesis using 1 ert_lookup_zero_is_local [OF 1, of 3 0] ex_ert_ok by auto
qed

end
