(* ===== verification/Ns.thy ===== *)
theory Ns
  imports Ertrie_World Smr_Mem Lock
begin

text \<open>
  Namespaces (\<open>ps_ns.h\<close>, \<open>ps_ns.c\<close>): allocators whose objects have a number, the descriptor, by which a
  trie finds them.  A leaf of the trie is the memory of a slab; its slab descriptor lies elsewhere, in an
  object of the allocator \<open>slabhead\<close>, so that the objects are aligned in the leaf.

  \<open>pa\<close> and \<open>pf\<close> are the platform's allocation functions, \<open>gh\<close> is the address of the allocator structure of
  \<open>slabhead\<close>, \<open>here\<close> the core and locality the call runs on and \<open>k\<close> the bound on remote lists of \<open>Slab\<close>.  A
  call runs alone, so a lock is taken in the first round or never.
\<close>

type_synonym plat_alloc = "u64 \<Rightarrow> world \<Rightarrow> (addr \<times> world) option"
type_synonym plat_free = "addr \<Rightarrow> world \<Rightarrow> world option"

section \<open>The trie of a namespace\<close>

definition ps_ns_alloc_intern :: "plat_alloc \<Rightarrow> addr \<Rightarrow> u32 \<Rightarrow> bool \<Rightarrow> world \<Rightarrow> (addr \<times> world) option" where
  "ps_ns_alloc_intern pa c sz isleaf w = (if isleaf then Some (c, w) else pa (scast sz) w)"

text \<open>Both are \<open>assert(0)\<close>.\<close>

definition ps_ns_setleaf_intern :: "ert_ptr \<Rightarrow> addr \<Rightarrow> world \<Rightarrow> (int \<times> world) option" where
  "ps_ns_setleaf_intern e data w = None"

definition ps_ns_getleaf_intern :: "ert_ptr \<Rightarrow> addr \<Rightarrow> world \<Rightarrow> addr option" where
  "ps_ns_getleaf_intern e accum w = None"

text \<open>A leaf entry is the header of an object.\<close>

definition ps_ns_resolve_intern :: "ert_ptr \<Rightarrow> addr \<Rightarrow> bool \<Rightarrow> u32 \<Rightarrow> u32 \<Rightarrow> world \<Rightarrow> bool option" where
  "ps_ns_resolve_intern a accum leaf ord sz w =
     (if \<not> leaf then ert_defresolve a accum leaf ord sz (w_ert w)
      else case a of Local _ \<Rightarrow> None | Cell h \<Rightarrow> map_option Not (ps_mhead_isfree h (w_mh w)))"

definition ps_ns_init_intern :: "addr \<Rightarrow> bool \<Rightarrow> world \<Rightarrow> world option" where
  "ps_ns_init_intern a leaf w =
     (if \<not> leaf then map_option (\<lambda>h. w\<lparr>w_ert := h\<rparr>) (ert_definit a leaf (w_ert w)) else Some w)"

definition ns_fns :: "plat_alloc \<Rightarrow> world ert_fns" where
  "ns_fns pa = (ert_world_fns pa)\<lparr>ef_init := ps_ns_init_intern, ef_alloc := ps_ns_alloc_intern pa,
     ef_setleaf := ps_ns_setleaf_intern, ef_getleaf := ps_ns_getleaf_intern, ef_resolve := ps_ns_resolve_intern\<rparr>"

section \<open>The allocator of slab descriptors\<close>

definition slabhead_params :: "plat_alloc \<Rightarrow> plat_free \<Rightarrow> slab_params" where
  "slabhead_params pa pf = \<lparr>sp_coreid = 0, sp_obj_sz = sizeof_ps_slab, sp_allocsz = PS_PAGE_SIZE, sp_headoff = sizeof_ps_slab,
     sp_afn = ps_slab_defalloc pa, sp_ffn = ps_slab_deffree pf\<rparr>"

definition ps_slab_alloc_slabhead :: "plat_alloc \<Rightarrow> plat_free \<Rightarrow> nat \<Rightarrow> addr \<Rightarrow> cpu \<Rightarrow> world \<Rightarrow> (addr \<times> world) option" where
  "ps_slab_alloc_slabhead pa pf k gh here = ps_slabptr_alloc k (slabhead_params pa pf) gh here"

definition ps_slab_free_slabhead :: "plat_alloc \<Rightarrow> plat_free \<Rightarrow> addr \<Rightarrow> addr \<Rightarrow> cpu \<Rightarrow> world \<Rightarrow> world option" where
  "ps_slab_free_slabhead pa pf gh s here = ps_slabptr_free (slabhead_params pa pf) gh s here"

section \<open>The namespace part of an allocator structure\<close>

definition ns_lock_take :: "addr \<Rightarrow> world \<Rightarrow> world option" where
  "ns_lock_take m w = do {
     ni \<leftarrow> get_ns m w;
     l \<leftarrow> ps_lock_take 1 \<lparr>lk_o = ns_lock ni\<rparr>;
     upd_ns m (\<lambda>ni. ni\<lparr>ns_lock := lk_o l\<rparr>) w }"

definition ns_lock_release :: "addr \<Rightarrow> world \<Rightarrow> world option" where
  "ns_lock_release m w = upd_ns m (\<lambda>ni. ni\<lparr>ns_lock := lk_o (ps_lock_release \<lparr>lk_o = ns_lock ni\<rparr>)\<rparr>) w"

text \<open>An operation on the list of slab descriptors that have an identity but no memory.\<close>

definition on_ns_fl :: "(addr \<Rightarrow> lheap \<Rightarrow> (addr \<times> lheap) option) \<Rightarrow> addr \<Rightarrow> world \<Rightarrow> world option" where
  "on_ns_fl f m w = do {
     ni \<leftarrow> get_ns m w;
     (fl, ls) \<leftarrow> f (ns_fl ni) (w_ls w);
     upd_ns m (\<lambda>ni. ni\<lparr>ns_fl := fl\<rparr>) (w\<lparr>w_ls := ls\<rparr>) }"

text \<open>Calls through the function pointers; \<open>size_t\<close> is cut to the \<open>u32_t\<close> of the parameter.\<close>

definition ns_lkup :: "plat_alloc \<Rightarrow> ps_ns_info \<Rightarrow> u64 \<Rightarrow> u64 \<Rightarrow> world \<Rightarrow> ert_ptr option" where
  "ns_lkup pa ni i dlimit w = do {
     c \<leftarrow> ns_lkupfn ni;
     ert_lkupan (ns_fns pa) c (ns_ert ni) i (ucast dlimit) null w }"

definition ns_expand :: "plat_alloc \<Rightarrow> ps_ns_info \<Rightarrow> u64 \<Rightarrow> u64 \<Rightarrow> addr \<Rightarrow> world \<Rightarrow> (int \<times> world) option" where
  "ns_expand pa ni i dlimit memctxt w = do {
     c \<leftarrow> ns_expandfn ni;
     ert_expandn (ns_fns pa) c (ns_ert ni) i (ucast dlimit) null memctxt null w }"

section \<open>Memory for a slab\<close>

text \<open>\<open>memset\<close> to zero at the beginning of a block.\<close>

definition memset_zero :: "addr \<Rightarrow> u64 \<Rightarrow> world \<Rightarrow> world option" where
  "memset_zero a sz w = do {
     n \<leftarrow> w_blocks w a;
     c_assert (sz \<le> n);
     Some (w\<lparr>w_mh := fill a sz (Some zero_mheader) (w_mh w),
       w_sl := fill a sz (Some zero_slab) (w_sl w),
       w_ls := fill a sz (Some zero_list) (w_ls w),
       w_ert := fill a sz (Some null) (w_ert w),
       w_pg := fill a sz (Some zero_page) (w_pg w)\<rparr>) }"

text \<open>The slab descriptor: one with an identity off the list, or a new one with the next range of identities.
  Also whether it is new, and the range's beginning.  The descriptor is null if there is none to be had.\<close>

definition nsalloc_slab :: "plat_alloc \<Rightarrow> plat_free \<Rightarrow> nat \<Rightarrow> addr \<Rightarrow> cpu \<Rightarrow> addr \<Rightarrow> world \<Rightarrow>
    (addr \<times> bool \<times> u64 \<times> world) option" where
  "nsalloc_slab pa pf k gh here m w = do {
     ni \<leftarrow> get_ns m w;
     let rng = ns_desc_range ni;
     w \<leftarrow> ns_lock_take m w;
     ni \<leftarrow> get_ns m w;
     let s = ns_fl ni;
     w \<leftarrow> (if s \<noteq> null then on_ns_fl (\<lambda>fl. slab_freelist_rem fl s) m w else Some w);
     w \<leftarrow> ns_lock_release m w;
     if s \<noteq> null then Some (s, False, 0, w)
     else do {
       ni \<leftarrow> get_ns m w;
       let (i, fr) = ps_faa (ns_frontier ni) rng;
       w \<leftarrow> upd_ns m (\<lambda>ni. ni\<lparr>ns_frontier := fr\<rparr>) w;
       if i \<ge> ns_desc_max ni then Some (null, False, i, w)
       else do {
         (s, w) \<leftarrow> ps_slab_alloc_slabhead pa pf k gh here w;
         if s = null then Some (null, False, i, w)
         else do {
           w \<leftarrow> upd_slab s (\<lambda>sl. sl\<lparr>sl_start := i\<rparr>) w;
           w \<leftarrow> upd_slab s (\<lambda>sl. sl\<lparr>sl_end := sl_start sl + rng\<rparr>) w;
           Some (s, True, i, w) } } } }"

text \<open>The frontier moved back, unless it has moved on.\<close>

definition ns_frontier_back :: "u64 \<Rightarrow> u64 \<Rightarrow> u64 \<Rightarrow> u64" where
  "ns_frontier_back fr i rng = snd (ps_cas fr (i + rng) i)"

text \<open>The labels of the error path, in the order they fall through.\<close>

definition nsalloc_reset_frontier :: "addr \<Rightarrow> bool \<Rightarrow> u64 \<Rightarrow> u64 \<Rightarrow> world \<Rightarrow> (addr \<times> world) option" where
  "nsalloc_reset_frontier m newslab i rng w = do {
     w \<leftarrow> (if newslab then upd_ns m (\<lambda>ni. ni\<lparr>ns_frontier := ns_frontier_back (ns_frontier ni) i rng\<rparr>) w else Some w);
     Some (null, w) }"

definition nsalloc_free_slab :: "plat_alloc \<Rightarrow> plat_free \<Rightarrow> addr \<Rightarrow> cpu \<Rightarrow> addr \<Rightarrow> addr \<Rightarrow> bool \<Rightarrow> u64 \<Rightarrow> u64 \<Rightarrow> world \<Rightarrow>
    (addr \<times> world) option" where
  "nsalloc_free_slab pa pf gh here m s newslab i rng w = do {
     w \<leftarrow> ps_slab_free_slabhead pa pf gh s here w;
     nsalloc_reset_frontier m newslab i rng w }"

definition nsalloc_free_mem :: "plat_alloc \<Rightarrow> plat_free \<Rightarrow> addr \<Rightarrow> cpu \<Rightarrow> addr \<Rightarrow> addr \<Rightarrow> addr \<Rightarrow> bool \<Rightarrow> u64 \<Rightarrow> u64 \<Rightarrow> world \<Rightarrow>
    (addr \<times> world) option" where
  "nsalloc_free_mem pa pf gh here m mem s newslab i rng w = do {
     w \<leftarrow> pf mem w;
     nsalloc_free_slab pa pf gh here m s newslab i rng w }"

definition ps_slab_nsalloc :: "plat_alloc \<Rightarrow> plat_free \<Rightarrow> nat \<Rightarrow> addr \<Rightarrow> cpu \<Rightarrow> ps_alloc_fn" where
  "ps_slab_nsalloc pa pf k gh here m sz coreid w = do {
     ni \<leftarrow> get_ns m w;
     let rng = ns_desc_range ni;
     (s, newslab, i, w) \<leftarrow> nsalloc_slab pa pf k gh here m w;
     if s = null then nsalloc_reset_frontier m newslab i rng w
     else do {
       sl \<leftarrow> w_sl w s;
       c_assert (sl_memory sl = null);
       (mem, w) \<leftarrow> pa sz w;
       if mem = null then nsalloc_free_slab pa pf gh here m s newslab i rng w
       else do {
         w \<leftarrow> memset_zero mem sz w;
         w \<leftarrow> upd_slab s (\<lambda>sl. sl\<lparr>sl_memory := mem\<rparr>) w;
         ni \<leftarrow> get_ns m w;
         sl \<leftarrow> w_sl w s;
         q \<leftarrow> ns_lkup pa ni (sl_start sl) (ns_ert_depth ni) w;
         c_assert (q = Cell null);
         (r, w) \<leftarrow> ns_expand pa ni (sl_start sl) (ns_ert_depth ni) mem w;
         if r \<noteq> 0 then nsalloc_free_mem pa pf gh here m mem s newslab i rng w
         else do {
           q \<leftarrow> ns_lkup pa ni (sl_start sl) (ns_ert_depth ni) w;
           c_assert (q = Cell mem);
           Some (s, w) } } } }"

text \<open>Storing through the pointer that the lookup gave.\<close>

definition ps_slab_nsfree :: "plat_alloc \<Rightarrow> plat_free \<Rightarrow> ps_free_fn" where
  "ps_slab_nsfree pa pf m s sz coreid w = do {
     sl \<leftarrow> w_sl w s;
     w \<leftarrow> pf (sl_memory sl) w;
     ni \<leftarrow> get_ns m w;
     w \<leftarrow> (if ns_ert_depth ni > 1 then do {
         sl \<leftarrow> w_sl w s;
         intern \<leftarrow> ns_lkup pa ni (sl_start sl) (ns_ert_depth ni - 1) w;
         v \<leftarrow> entry_next intern (w_ert w);
         c_assert (v = sl_memory sl);
         (q, h) \<leftarrow> set_next intern null (w_ert w);
         let w = w\<lparr>w_ert := h\<rparr>;
         q \<leftarrow> ns_lkup pa ni (sl_start sl) (ns_ert_depth ni) w;
         c_assert (q = Cell null);
         Some w }
       else Some w);
     w \<leftarrow> upd_slab s (\<lambda>sl. sl\<lparr>sl_memory := null\<rparr>) w;
     w \<leftarrow> ns_lock_take m w;
     w \<leftarrow> on_ns_fl (\<lambda>fl. slab_freelist_add fl s) m w;
     ns_lock_release m w }"

text \<open>\<open>executed\<close> is the static variable of that name; the result has its new value.\<close>

definition ps_ns_init :: "addr \<Rightarrow> addr \<Rightarrow> addr \<Rightarrow> ert_consts option \<Rightarrow> ert_consts option \<Rightarrow> u64 \<Rightarrow> u64 \<Rightarrow> u64 \<Rightarrow> u64 \<Rightarrow>
    world \<Rightarrow> (u64 \<times> world) option" where
  "ps_ns_init gh m ert lkup expand depth maxid rng executed w = do {
     (executed, w) \<leftarrow> (if executed = 0 then
         let (old, executed) = ps_faa executed 1
         in if old = 0 then do { w \<leftarrow> ps_slabptr_init gh w; Some (executed, w) } else Some (executed, w)
       else Some (executed, w));
     w \<leftarrow> upd_ns m (\<lambda>ni. ni\<lparr>ns_desc_max := maxid, ns_desc_range := rng, ns_fl := null, ns_frontier := 0,
         ns_ert := ert, ns_ert_depth := depth, ns_lkupfn := lkup, ns_expandfn := expand,
         ns_lock := lk_o (ps_lock_init \<lparr>lk_o = ns_lock ni\<rparr>)\<rparr>) w;
     Some (executed, w) }"

section \<open>The functions of one namespace type\<close>

datatype ns_type = NS_mem | NS_slab

text \<open>The arguments of \<open>PS_NS_CREATE\<close> (\<open>NS_mem\<close>) and \<open>PS_NSSLAB_CREATE\<close> (\<open>NS_slab\<close>).\<close>

record ns_class =
  nc_type :: ns_type
  nc_nodesz :: u64
  nc_depth :: u32
  nc_order :: u32
  nc_leaforder :: u32

definition ns_objmemsz :: "ns_class \<Rightarrow> u64" where
  "ns_objmemsz nc = ps_rndpow2 (ps_slab_objmemsz (nc_nodesz nc))"

definition ns_consts :: "ns_class \<Rightarrow> ert_consts" where
  "ns_consts nc = \<lparr>ec_depth = nc_depth nc, ec_order = nc_order nc, ec_intern_sz = ucast PS_WORD,
     ec_last_order = nc_leaforder nc, ec_last_sz = ucast (ns_objmemsz nc)\<rparr>"

text \<open>\<open>1<<nobjord\<close> is an \<open>int\<close>, so \<open>nobjord < 31\<close>.\<close>

definition ns_range :: "ns_class \<Rightarrow> u64" where
  "ns_range nc = push_bit (unat (nc_leaforder nc)) 1"

definition ns_params :: "plat_alloc \<Rightarrow> plat_free \<Rightarrow> nat \<Rightarrow> addr \<Rightarrow> ns_class \<Rightarrow> cpu \<Rightarrow> slab_params" where
  "ns_params pa pf k gh nc here = \<lparr>sp_coreid = fst here, sp_obj_sz = ns_objmemsz nc - sizeof_ps_mheader,
     sp_allocsz = ns_objmemsz nc * ns_range nc, sp_headoff = 0,
     sp_afn = ps_slab_nsalloc pa pf k gh here, sp_ffn = ps_slab_nsfree pa pf\<rparr>"

definition ps_ns_desc_isfree :: "addr \<Rightarrow> world \<Rightarrow> bool option" where
  "ps_ns_desc_isfree slot w = ps_mhead_isfree (ps_mhead_get slot) (w_mh w)"

definition ps_ns_desc :: "slab_params \<Rightarrow> addr \<Rightarrow> world \<Rightarrow> u64 option" where
  "ps_ns_desc p slot w = do {
     h \<leftarrow> w_mh w (ps_mhead_get slot);
     sl \<leftarrow> w_sl w (mh_slab h);
     off \<leftarrow> ps_slab_objoff p slot w;
     Some (sl_start sl + ucast off) }"

definition ps_nsptr_lkup :: "plat_alloc \<Rightarrow> ns_class \<Rightarrow> addr \<Rightarrow> u64 \<Rightarrow> addr \<Rightarrow> world \<Rightarrow> addr option" where
  "ps_nsptr_lkup pa nc ns desc accum w = do {
     ni \<leftarrow> get_ns ns w;
     q \<leftarrow> ert_lkup (ns_fns pa) (ns_consts nc) accum (ns_ert ni) desc w;
     case q of Local _ \<Rightarrow> None
     | Cell h \<Rightarrow> Some (if h = null then null else ps_mhead_mem h) }"

text \<open>\<open>ps_memptr_alloc\<close> or \<open>ps_slabptr_alloc\<close> by the type.  The descriptor is not written on failure.\<close>

definition ps_nsptr_alloc :: "nat \<Rightarrow> slab_params \<Rightarrow> ns_class \<Rightarrow> addr \<Rightarrow> cpu \<Rightarrow> world \<Rightarrow> (addr \<times> u64 option \<times> world) option" where
  "ps_nsptr_alloc k p nc ns here w = do {
     (a, w) \<leftarrow> (case nc_type nc of NS_mem \<Rightarrow> ps_memptr_alloc k p ns here w | NS_slab \<Rightarrow> ps_slabptr_alloc k p ns here w);
     if a = null then Some (null, None, w)
     else do {
       d \<leftarrow> ps_ns_desc p a w;
       Some (a, Some d, w) } }"

definition ps_nsptr_free :: "environment \<Rightarrow> clock \<Rightarrow> slab_params \<Rightarrow> ns_class \<Rightarrow> addr \<Rightarrow> addr \<Rightarrow> cpu \<Rightarrow> world \<Rightarrow> nat \<Rightarrow>
    (world \<times> nat) option" where
  "ps_nsptr_free env clk p nc ns slot here w t = (case nc_type nc of
       NS_mem \<Rightarrow> ps_memptr_free env clk p ns slot here w t
     | NS_slab \<Rightarrow> map_option (\<lambda>w. (w, t)) (ps_slabptr_free p ns slot here w))"

definition ps_nsptr_freedesc :: "environment \<Rightarrow> clock \<Rightarrow> plat_alloc \<Rightarrow> slab_params \<Rightarrow> ns_class \<Rightarrow> addr \<Rightarrow> u64 \<Rightarrow> addr \<Rightarrow> cpu \<Rightarrow>
    world \<Rightarrow> nat \<Rightarrow> (world \<times> nat) option" where
  "ps_nsptr_freedesc env clk pa p nc ns d accum here w t = do {
     m \<leftarrow> ps_nsptr_lkup pa nc ns d accum w;
     if m \<noteq> null then ps_nsptr_free env clk p nc ns m here w t else Some (w, t) }"

definition ns_init_type :: "addr \<Rightarrow> ns_class \<Rightarrow> addr \<Rightarrow> addr \<Rightarrow> u64 \<Rightarrow> world \<Rightarrow> (u64 \<times> world) option" where
  "ns_init_type gh nc m ert executed w = do {
     maxid \<leftarrow> ert_maxid (ns_consts nc);
     ps_ns_init gh m ert (Some (ns_consts nc)) (Some (ns_consts nc)) (ucast (nc_depth nc)) maxid (ns_range nc) executed w }"

text \<open>\<open>ps_ns_init_\<dots>\<close> and \<open>ps_ns_init_slab_\<dots>\<close>; \<open>m\<close> is the structure the macro defines.\<close>

definition ps_ns_init_name :: "addr \<Rightarrow> ns_class \<Rightarrow> addr \<Rightarrow> addr \<Rightarrow> addr \<Rightarrow> u64 \<Rightarrow> world \<Rightarrow> (u64 \<times> world) option" where
  "ps_ns_init_name gh nc m ps ert executed w = do {
     w \<leftarrow> ps_mem_init m ps w;
     ns_init_type gh nc m ert executed w }"

definition ps_ns_init_slab_name :: "addr \<Rightarrow> ns_class \<Rightarrow> addr \<Rightarrow> addr \<Rightarrow> u64 \<Rightarrow> world \<Rightarrow> (u64 \<times> world) option" where
  "ps_ns_init_slab_name gh nc m ert executed w = do {
     w \<leftarrow> ps_slabptr_init m w;
     ns_init_type gh nc m ert executed w }"

definition ps_nsptr_delete :: "plat_free \<Rightarrow> addr \<Rightarrow> world \<Rightarrow> (int \<times> world) option" where
  "ps_nsptr_delete pf ns w = ps_memptr_delete_name pf ns w"

text \<open>\<open>sz\<close> is \<open>sizeof(struct ps_mem)\<close>.\<close>

definition ps_nsptr_create :: "plat_alloc \<Rightarrow> plat_free \<Rightarrow> addr \<Rightarrow> ns_class \<Rightarrow> u64 \<Rightarrow> addr \<Rightarrow> addr \<Rightarrow> u64 \<Rightarrow> world \<Rightarrow>
    (addr \<times> u64 \<times> world) option" where
  "ps_nsptr_create pa pf gh nc sz ps accum executed w = do {
     (m, w) \<leftarrow> (if ps \<noteq> null then ps_memptr_create pa sz ps w else ps_slabptr_create pa sz w);
     if m = null then Some (null, executed, w)
     else do {
       (e, w) \<leftarrow> ert_alloc (ns_fns pa) (ns_consts nc) null accum w;
       w \<leftarrow> (if e = null then map_option snd (ps_memptr_delete_name pf m w) else Some w);
       (executed, w) \<leftarrow> ns_init_type gh nc m e executed w;
       Some (m, executed, w) } }"

definition ps_nsptr_create_slab :: "plat_alloc \<Rightarrow> plat_free \<Rightarrow> addr \<Rightarrow> ns_class \<Rightarrow> u64 \<Rightarrow> addr \<Rightarrow> u64 \<Rightarrow> world \<Rightarrow>
    (addr \<times> u64 \<times> world) option" where
  "ps_nsptr_create_slab pa pf gh nc sz accum executed w = ps_nsptr_create pa pf gh nc sz null accum executed w"

end
