(* ===== verification/Ns_Heads.thy ===== *)
theory Ns_Heads
  imports Ns Slab_Properties
begin

text \<open>
  The allocator of slab descriptors that namespaces use, an ordinary slab allocator (\<open>slabhead\<close>).  Its
  objects hold descriptors, so besides its own state the cells of the descriptors matter: those of
  objects not handed out have no memory yet.  Taking a descriptor needs no other block of the platform than,
  sometimes, one of its own, and leaves all cells in use alone that are not its own.
\<close>

abbreviation shp :: slab_params where
  "shp \<equiv> slabhead_params ps_plat_alloc_linux ps_plat_free_linux"

abbreviation no_remotes :: remotes where "no_remotes \<equiv> \<lambda>_ _ _. []"

lemma shp_sizes:
  "params_ok shp" "sp_headoff shp = sizeof_ps_slab" "unat (sp_allocsz shp) = 4096" "objsz shp = 120" "nobjs shp = 33"
  "def_params shp = shp" "unat sizeof_ps_slab = 96"
proof -
  show p: "params_ok shp" and "sp_headoff shp = sizeof_ps_slab" "unat (sp_allocsz shp) = 4096" "def_params shp = shp"
    "unat sizeof_ps_slab = 96"
    by (simp_all add: slabhead_params_def params_ok_def sizeof_ps_slab_def PS_CACHE_LINE_def PS_PAGE_SIZE_def def_params_def)
  show o: "objsz shp = 120"
    using objsz_bounds [OF p] by (simp add: slabhead_params_def sizeof_ps_slab_def PS_CACHE_LINE_def) presburger
  show "nobjs shp = 33"
    using nobjs_div [OF p] o by (simp add: slabhead_params_def sizeof_ps_slab_def PS_CACHE_LINE_def PS_PAGE_SIZE_def)
qed

section \<open>Where descriptors lie\<close>

text \<open>Behind the header of an object, inside the slab's block and behind the slab's own descriptor.\<close>

lemma desc_place:
  assumes "fits shp s" and "h \<in> set (slab_objs shp s)"
  shows "unat (ps_mhead_mem h) = unat h + 24" "unat (ps_mhead_mem h + SLAB_LIST) = unat h + 96"
    "unat s + 96 \<le> unat h" "unat h + 120 \<le> unat s + 4096"
proof -
  obtain i where i: "i < nobjs shp" "h = obj_at shp s i" using assms(2) by (auto simp: slab_objs_def)
  from slab_obj_extent(1,2) [OF shp_sizes(1) assms(1) i(1)] show b: "unat s + 96 \<le> unat h" "unat h + 120 \<le> unat s + 4096"
    unfolding shp_sizes(2-4,7) i(2) by simp_all
  have f: "unat s + 4096 < 2 ^ 64" using assms(1) shp_sizes(3) by (simp add: fits_def)
  then show m: "unat (ps_mhead_mem h) = unat h + 24"
    using b by (simp add: ps_mhead_mem_def sizeof_ps_mheader_def unat_add_small)
  show "unat (ps_mhead_mem h + SLAB_LIST) = unat h + 96"
    using b f m sizes_nat(2) by (subst unat_add_small) simp_all
qed

lemma desc_in_block:
  assumes "fits shp s" and "h \<in> set (slab_objs shp s)"
  shows "in_block s (sp_allocsz shp) (ps_mhead_mem h)" "in_block s (sp_allocsz shp) (ps_mhead_mem h + SLAB_LIST)"
    "in_block s (sp_allocsz shp) h"
  using desc_place [OF assms] shp_sizes(3) by (simp_all add: in_block_def)

lemma def_slab:
  assumes "def_binv shp w M" and "M s = Some mem"
  shows "mem = s" "w_blocks w s = Some (sp_allocsz shp)" "fits shp s"
  using assms fits_block [where p = shp and B = "w_blocks w" and s = s] by (auto simp: def_binv_def)

text \<open>A cell lies in at most one block.\<close>

lemma block_unique:
  assumes "blocks_ok B" and "B b = Some sz" and "B b' = Some sz'" and "in_block b sz x" and "in_block b' sz' x"
  shows "b = b'"
proof (rule ccontr)
  assume "b \<noteq> b'"
  then have "apart b sz b' sz'" using assms(1-3) by (auto simp: blocks_ok_def)
  then show False using in_block_apart assms(4,5) by blast
qed

lemma head_slab:
  assumes "def_binv shp w M" and "h \<in> slab_heads shp M"
  obtains s where "M s = Some s" "fits shp s" "w_blocks w s = Some (sp_allocsz shp)" "h \<in> set (slab_objs shp s)"
proof -
  obtain s mem where "M s = Some mem" "h \<in> set (slab_objs shp mem)" using assms(2) by (auto simp: slab_heads_def ran_def)
  then show thesis using def_slab [OF assms(1)] that by metis
qed

lemma desc_in_use:
  assumes "def_binv shp w M" and "h \<in> slab_heads shp M"
  shows "in_use w (ps_mhead_mem h)" "in_use w (ps_mhead_mem h + SLAB_LIST)" "in_use w h"
proof -
  obtain s where s: "fits shp s" "w_blocks w s = Some (sp_allocsz shp)" "h \<in> set (slab_objs shp s)"
    using head_slab [OF assms] by metis
  then show "in_use w (ps_mhead_mem h)" "in_use w (ps_mhead_mem h + SLAB_LIST)" "in_use w h"
    using desc_in_block [OF s(1,3)] by (auto simp: in_use_def)
qed

lemma desc_not_own:
  assumes b: "def_binv shp w M" and h: "h \<in> slab_heads shp M"
  shows "ps_mhead_mem h \<notin> dom M" "ps_mhead_mem h + SLAB_LIST \<notin> slab_links M"
proof -
  have ok: "blocks_ok (w_blocks w)" using b by (simp add: def_binv_def)
  obtain s where s: "M s = Some s" "fits shp s" "w_blocks w s = Some (sp_allocsz shp)" "h \<in> set (slab_objs shp s)"
    using head_slab [OF b h] .
  note pl = desc_place [OF s(2,4)] and ib = desc_in_block [OF s(2,4)]
  have own: "s' = s" if "M s' \<noteq> None" "in_block s' (sp_allocsz shp) x" "in_block s (sp_allocsz shp) x" for s' x
    using that def_slab(2) [OF b, of s'] block_unique [OF ok _ s(3) that(2,3)] by auto
  note cells = cells_in_block [OF shp_sizes(1,2)]
  show "ps_mhead_mem h \<notin> dom M"
  proof
    assume d: "ps_mhead_mem h \<in> dom M"
    then have "fits shp (ps_mhead_mem h)" using def_slab [OF b, of "ps_mhead_mem h"] by auto
    from own [OF _ cells(1) [OF this] ib(1)] d have "ps_mhead_mem h = s" by auto
    then show False using pl by simp
  qed
  then show "ps_mhead_mem h + SLAB_LIST \<notin> slab_links M" by (auto simp: slab_links_def)
qed

section \<open>The state\<close>

text \<open>A descriptor without memory, with a list field.\<close>

definition spare :: "world \<Rightarrow> addr \<Rightarrow> bool" where
  "spare w s \<longleftrightarrow> (\<exists>sl. w_sl w s = Some sl \<and> sl_memory sl = null) \<and> w_ls w (s + SLAB_LIST) \<noteq> None"

definition heads_inv :: "addr \<Rightarrow> world \<Rightarrow> slabs \<Rightarrow> rings \<Rightarrow> bool" where
  "heads_inv gh w F R \<longleftrightarrow> slab_state shp gh w F R no_remotes \<and>
     (\<forall>h \<in> slab_heads shp (mems F) - live shp F no_remotes. spare w (ps_mhead_mem h))"

text \<open>The cells \<open>U\<close> stay as they are but for those of the allocator \<open>gh\<close> with the slabs \<open>M\<close>.\<close>

definition heads_frame :: "addr \<Rightarrow> (addr \<Rightarrow> addr option) \<Rightarrow> (addr \<Rightarrow> bool) \<Rightarrow> world \<Rightarrow> world \<Rightarrow> bool" where
  "heads_frame gh M U w w' \<longleftrightarrow> (\<forall>m. m \<noteq> gh \<longrightarrow> w_mem w' m = w_mem w m) \<and>
     (\<forall>b sz. w_blocks w b = Some sz \<longrightarrow> w_blocks w' b = Some sz) \<and>
     (\<forall>x. U x \<longrightarrow> w_ert w' x = w_ert w x \<and> (x \<notin> dom M \<longrightarrow> w_sl w' x = w_sl w x) \<and>
       (x \<notin> slab_links M \<longrightarrow> w_ls w' x = w_ls w x) \<and> (x \<notin> slab_heads shp M \<longrightarrow> w_mh w' x = w_mh w x))"

lemma heads_frame_trans: "heads_frame gh M U w w1 \<Longrightarrow> heads_frame gh M U w1 w2 \<Longrightarrow> heads_frame gh M U w w2"
  by (simp add: heads_frame_def)

lemma heads_frame_own: "own_step shp gh M w w' \<Longrightarrow> heads_frame gh M U w w'"
  by (simp add: heads_frame_def own_step_def)

text \<open>The same for own steps after a slab was added that lies outside of \<open>U\<close>.\<close>

lemma heads_frame_grown:
  assumes "own_step shp gh (M(s \<mapsto> s)) w w'" and "fits shp s" and "\<And>x. U x \<Longrightarrow> \<not> in_block s (sp_allocsz shp) x"
  shows "heads_frame gh M U w w'"
proof -
  note cells = cells_in_block [OF shp_sizes(1,2) assms(2)]
  have out: "x \<noteq> s" "x \<noteq> s + SLAB_LIST" "x \<notin> set (slab_objs shp s)" if "U x" for x
    using assms(3) [OF that] cells by auto
  have "ran (M(s \<mapsto> s)) \<subseteq> insert s (ran M)" by (auto simp: ran_def)
  then have "x \<notin> slab_heads shp (M(s \<mapsto> s))" if "U x" "x \<notin> slab_heads shp M" for x
    using out(3) [OF that(1)] that(2) unfolding slab_heads_def by auto
  moreover have "x \<notin> slab_links (M(s \<mapsto> s))" if "U x" "x \<notin> slab_links M" for x
    using out(2) [OF that(1)] that(2) by (auto simp: slab_links_def)
  ultimately show ?thesis
    using assms(1) out(1) by (simp add: own_step_def heads_frame_def)
qed

lemma spare_keep:
  assumes "heads_frame gh M U w w'" and "def_binv shp w M" and "h \<in> slab_heads shp M"
    and "U (ps_mhead_mem h)" and "U (ps_mhead_mem h + SLAB_LIST)"
  shows "spare w' (ps_mhead_mem h) = spare w (ps_mhead_mem h)"
  using assms(1,4,5) desc_not_own [OF assms(2,3)] by (simp add: heads_frame_def spare_def)

text \<open>A new slab of descriptors.\<close>

lemma heads_new_slab:
  assumes r: "roomy (Suc j) w" and run: "ps_slab_defalloc ps_plat_alloc_linux gh (sp_allocsz shp) c w = Some (s, w')"
    and U: "\<And>x. U x \<Longrightarrow> in_use w x"
  shows "w_blocks w s = None" "fits shp s" "roomy j w'" "heads_frame gh M U w w'" "\<And>x. U x \<Longrightarrow> \<not> in_block s (sp_allocsz shp) x"
    "h \<in> set (slab_objs shp s) \<Longrightarrow> spare w' (ps_mhead_mem h)"
proof -
  have "unat (sp_allocsz shp) \<le> 2 ^ 32" using shp_sizes(3) by simp
  from plat_alloc_ok [OF r this] obtain a w1 where a: "ps_plat_alloc_linux (sp_allocsz shp) w = Some (a, w1)"
    "w1 = zero_block a (sp_allocsz shp) (w\<lparr>w_answers := tl (w_answers w)\<rparr>)" "a \<noteq> null" "w_blocks w a = None"
    "good_block (w_blocks w) a (sp_allocsz shp)" "roomy j w1" "\<forall>x. in_use w x \<longrightarrow> \<not> in_block a (sp_allocsz shp) x" by blast
  have f: "fits shp a" using a(3,5) by (auto simp: good_block_def fits_def)
  note cells = cells_in_block [OF shp_sizes(1,2) f]
  have "w_sl w1 a = Some zero_slab" using cells(1) by (simp add: a(2) zero_block_def fill_def)
  then have s: "s = a" "w' = w1\<lparr>w_sl := (w_sl w1)(a \<mapsto> zero_slab\<lparr>sl_memory := a\<rparr>)\<rparr>"
    using run a(1,3) by (auto simp: ps_slab_defalloc_def upd_slab_def)
  show "w_blocks w s = None" "fits shp s" using a(4) f s(1) by simp_all
  show out: "\<And>x. U x \<Longrightarrow> \<not> in_block s (sp_allocsz shp) x" using U a(7) s(1) by blast
  show "roomy j w'" using a(6) s(2) by (simp add: roomy_def)
  show "heads_frame gh M U w w'"
  proof -
    have "x \<noteq> a" if "U x" for x using out [OF that] cells(1) s(1) by auto
    moreover have "b \<noteq> a" if "w_blocks w b = Some sz" for b sz using that a(4) by auto
    ultimately show ?thesis using out unfolding s by (simp add: heads_frame_def a(2) zero_block_def fill_def)
  qed
  assume h: "h \<in> set (slab_objs shp s)"
  note ib = desc_in_block [OF f h [unfolded s(1)]] and pl = desc_place [OF f h [unfolded s(1)]]
  have "ps_mhead_mem h \<noteq> a" using pl by auto
  then show "spare w' (ps_mhead_mem h)"
    using ib by (simp add: spare_def s(2) a(2) zero_block_def fill_def zero_slab_def)
qed

lemma roomy_cong: "w_answers w' = w_answers w \<Longrightarrow> w_blocks w' = w_blocks w \<Longrightarrow> roomy k w' = roomy k w"
  by (simp add: roomy_def)

lemma in_use_cong: "w_blocks w' = w_blocks w \<Longrightarrow> in_use w' = in_use w"
  by (simp add: in_use_def fun_eq_iff)

lemma roomy_ready:
  assumes "roomy (Suc j) w"
  shows "def_ready shp w"
proof -
  obtain a as where a: "w_answers w = a # as" using assms by (cases "w_answers w") (auto simp: roomy_def)
  then have "good_block (w_blocks w) a room" using assms by (simp add: roomy_def)
  then have "good_block (w_blocks w) a (sp_allocsz shp)"
    by (rule good_block_smaller) (simp add: unat_room shp_sizes(3))
  with a show ?thesis by (simp add: def_ready_def)
qed

lemma live_heads: "live p F Q \<subseteq> slab_heads p (mems F)"
  by (auto simp: live_def elim!: ownedE intro: slab_headsI)

text \<open>Taking a descriptor.\<close>

lemma heads_alloc:
  assumes inv: "heads_inv gh w F R" and r: "roomy (Suc j) w" and c: "fst here < PS_NUMCORES"
  shows "\<exists>h w' F' R'. ps_slab_alloc_slabhead ps_plat_alloc_linux ps_plat_free_linux k gh here w = Some (ps_mhead_mem h, w') \<and>
    ps_mhead_mem h \<noteq> null \<and> heads_inv gh w' F' R' \<and> roomy j w' \<and> h \<notin> live shp F no_remotes \<and>
    live shp F' no_remotes = insert h (live shp F no_remotes) \<and> spare w' (ps_mhead_mem h) \<and>
    (\<forall>s. mems F' s = mems F s \<or> w_blocks w s = None) \<and> heads_frame gh (mems F) (in_use w) w w'"
proof -
  let ?L = "live shp F no_remotes"
  have st: "slab_state shp gh w F R no_remotes" and sp: "\<And>h. h \<in> slab_heads shp (mems F) \<Longrightarrow> h \<notin> ?L \<Longrightarrow> spare w (ps_mhead_mem h)"
    using inv by (auto simp: heads_inv_def)
  have b: "def_binv shp w (mems F)" using st by (simp add: slab_state_def)
  have run: "ps_slab_alloc_slabhead ps_plat_alloc_linux ps_plat_free_linux k gh here = ps_slab_mem_alloc k gh (on_core (fst here) shp) here"
    unfolding ps_slab_alloc_slabhead_def ps_slabptr_alloc_def on_core_def shp_sizes(6) ..
  obtain h w' F' R' w1 w2 where 1: "ps_slab_mem_alloc k gh (on_core (fst here) shp) (fst here, snd here) w = Some (ps_mhead_mem h, w')"
    "ps_mhead_mem h \<noteq> null" "slab_state shp gh w' F' R' no_remotes" "h \<notin> ?L" "live shp F' no_remotes = insert h ?L"
    and o: "own_step shp gh (mems F) w w1" "own_step shp gh (mems F') w2 w'"
    and cs: "w2 = w1 \<and> mems F' = mems F \<or> (\<exists>s. ps_slab_defalloc ps_plat_alloc_linux gh (sp_allocsz shp) (fst here) w1 = Some (s, w2) \<and>
      mems F s = None \<and> mems F' = (mems F)(s \<mapsto> s))"
    using core_alloc_quiet [OF st roomy_ready [OF r] c, of k "snd here"] by (elim exE conjE) (rule that)
  have w1: "roomy (Suc j) w1" "in_use w1 = in_use w" "w_blocks w1 = w_blocks w"
    using own_step_basic [OF o(1)] r roomy_cong [of w1 w] in_use_cong [of w1 w] by simp_all
  have f1: "heads_frame gh (mems F) (in_use w) w w1" by (rule heads_frame_own [OF o(1)])
  have ans: "roomy j w' = roomy j w2" using own_step_basic [OF o(2)] by (intro roomy_cong) simp_all
  have keep: "spare w' (ps_mhead_mem x)" if "heads_frame gh (mems F) (in_use w) w w'" "x \<in> slab_heads shp (mems F)" "x \<notin> ?L" for x
    using spare_keep [OF that(1) b that(2)] desc_in_use [OF b that(2)] sp [OF that(2,3)] by simp
  have hh: "h \<in> slab_heads shp (mems F')" using live_heads [of shp F' no_remotes] 1(5) by auto
  obtain "roomy j w'" and fr: "heads_frame gh (mems F) (in_use w) w w'" and bl: "\<forall>s. mems F' s = mems F s \<or> w_blocks w s = None"
    and fresh: "\<And>x. x \<in> slab_heads shp (mems F') \<Longrightarrow> x \<notin> slab_heads shp (mems F) \<Longrightarrow> spare w' (ps_mhead_mem x)"
    using cs
  proof (elim disjE exE conjE, goal_cases)
    case 1
    have "heads_frame gh (mems F) (in_use w) w w'"
      using heads_frame_trans [OF f1 heads_frame_own] o(2) 1(2,3) by simp
    moreover have "roomy j w'" using ans roomy_mono [OF w1(1)] 1(2) by simp
    ultimately show ?case using 1 by simp
  next
    case (2 s)
    note new = heads_new_slab [OF w1(1) 2(2), of "in_use w", unfolded w1(2)]
    have f2: "heads_frame gh (mems F) (in_use w) w1 w2" and out: "\<And>x. in_use w x \<Longrightarrow> \<not> in_block s (sp_allocsz shp) x"
      using new(4,5) by simp_all
    have o2: "own_step shp gh ((mems F)(s \<mapsto> s)) w2 w'" using o(2) 2(4) by simp
    have f3: "heads_frame gh (mems F) (in_use w) w2 w'" by (rule heads_frame_grown [OF o2 new(2) out]) simp_all
    have "spare w' (ps_mhead_mem x)" if x: "x \<in> slab_heads shp (mems F')" "x \<notin> slab_heads shp (mems F)" for x
    proof -
      have b': "def_binv shp w' (mems F')" using 1(3) by (simp add: slab_state_def)
      have "ran (mems F') \<subseteq> insert s (ran (mems F))" unfolding 2(4) by (auto simp: ran_def)
      then have xs: "x \<in> set (slab_objs shp s)" using x unfolding slab_heads_def by auto
      have "def_binv shp w2 (mems F')" using b' o(2) by (simp add: def_binv_def own_step_def)
      from spare_keep [OF heads_frame_own [OF o(2), of "\<lambda>_. True"] this x(1)] new(6) [OF _ xs] show ?thesis by simp
    qed
    moreover have "roomy j w'" using ans new(3) by simp
    moreover have "mems F' t = mems F t \<or> w_blocks w t = None" for t using 2(4) new(1) w1(3) by auto
    ultimately show ?case using 2(1) heads_frame_trans [OF f1 heads_frame_trans [OF f2 f3]] by blast
  qed
  have all: "spare w' (ps_mhead_mem x)" if "x \<in> slab_heads shp (mems F')" "x \<notin> ?L" for x
    using fresh [OF that(1)] keep [OF fr _ that(2)] by blast
  then have "heads_inv gh w' F' R'" using 1(3,5) by (simp add: heads_inv_def)
  moreover have "spare w' (ps_mhead_mem h)" using all [OF hh 1(4)] .
  ultimately show ?thesis using run 1(1,2,4,5) fr bl \<open>roomy j w'\<close> by (intro exI [of _ h] exI [of _ w'] exI [of _ F'] exI [of _ R']) simp
qed

text \<open>The state depends on its own cells only.\<close>

lemma heads_inv_frame:
  assumes inv: "heads_inv gh w F R" and m: "w_mem w' gh = w_mem w gh" and b: "blocks_ok (w_blocks w')"
    and bl: "\<And>s. mems F s \<noteq> None \<Longrightarrow> w_blocks w' s = w_blocks w s"
    and sc: "\<And>s. mems F s = Some s \<Longrightarrow> same_cells shp w w' s s"
    and sp: "\<And>h. h \<in> slab_heads shp (mems F) \<Longrightarrow> h \<notin> live shp F no_remotes \<Longrightarrow> spare w' (ps_mhead_mem h)"
  shows "heads_inv gh w' F R"
proof -
  have si: "slab_inv shp gh w F R no_remotes" and bi: "def_binv shp w (mems F)"
    using inv by (simp_all add: heads_inv_def slab_state_def)
  have "slab_inv shp gh w' F R no_remotes"
  proof (rule slab_inv_frame [OF si])
    show "get_pc gh c w' = get_pc gh c w" for c using m by (simp add: get_pc_def)
    fix s mem assume "mems F s = Some mem"
    then show "same_cells shp w w' s mem" using def_slab(1) [OF bi] sc by metis
  qed
  moreover have "def_binv shp w' (mems F)"
    using bi b bl unfolding def_binv_def by (metis option.distinct(1))
  ultimately show ?thesis using sp by (simp add: heads_inv_def slab_state_def)
qed

end
