(* ===== verification/Ns_Trie.thy ===== *)
theory Ns_Trie
  imports Ns_Heads
begin

text \<open>
  The trie of a namespace: the functions of \<open>PS_NS_CREATE\<close> keep the contract \<open>ert_store\<close> with leaves that
  are blocks of the caller, the memory of slabs.  From it: lookups of a leaf's entry and of the entry that
  points to a leaf, adding a leaf, and removing one the way \<open>ps_slab_nsfree\<close> does.
\<close>

abbreviation linux_ns :: "world ert_fns" where "linux_ns \<equiv> ns_fns ps_plat_alloc_linux"

interpretation nt: ert_store "ns_fns ps_plat_alloc_linux" "ert_sane c" w_ert on_cells plat_frame "cells_inv avoid" False for c avoid
proof (unfold_locales, goal_cases)
  case 1
  show ?case by (rule ert_sane)
next
  case (12 w w' w'')
  then show ?case by (rule plat_frame_trans)
next
  case (16 k w U l leaf sz memctxt)
  then show ?case
    using world_alloc [OF ert_sane(2) 16(1,5)]
    by (simp add: ns_fns_def ps_ns_alloc_intern_def) metis
qed (auto simp: ns_fns_def ert_world_fns_def ert_defget_def ert_defisnull_def ert_defset_def ert_definit_def
    plat_frame_refl in_world_def ert_defresolve_def on_cells_def ps_ns_init_intern_def ps_ns_resolve_intern_def
    ps_ns_alloc_intern_def plat_frame_def cells_inv_def roomy_def)

section \<open>Leaves\<close>

text \<open>The path of the leaf that holds the entry of an id; ids share a leaf in groups.\<close>

definition leaf_path :: "ert_consts \<Rightarrow> nat \<Rightarrow> nat list" where
  "leaf_path c i = take (ert_levels c - 1) (ert_path c i)"

definition leaf_entry :: "ert_consts \<Rightarrow> addr \<Rightarrow> nat \<Rightarrow> addr" where
  "leaf_entry c a i = entry c (ert_levels c - 1) a (ert_index c i (ert_levels c - 1))"

definition ids_per_leaf :: "ert_consts \<Rightarrow> nat" where
  "ids_per_leaf c = 2 ^ unat (ec_last_order c)"

lemma leaf_path_eq:
  assumes "2 \<le> ert_levels c" and "i < 2 ^ ert_bits c" and "j < 2 ^ ert_bits c"
  shows "leaf_path c i = leaf_path c j \<longleftrightarrow> i div ids_per_leaf c = j div ids_per_leaf c"
proof -
  define l where "l = ert_levels c - 2"
  have l: "l < ert_levels c" "ert_levels c - 1 = Suc l" "Suc l \<noteq> ert_levels c" using assms(1) by (auto simp: l_def)
  have "lvl_shift c l = unat (ec_last_order c)" using l(3) by (simp add: lvl_shift_def l_def)
  then show ?thesis using ert_path_take_eq [OF l(1) assms(2,3)] by (simp add: leaf_path_def l(2) ids_per_leaf_def del: One_nat_def)
qed

lemma length_leaf_path [simp]: "length (leaf_path c i) = ert_levels c - 1"
  by (simp add: leaf_path_def)

lemma leaf_entry_eq:
  assumes "1 \<le> ert_levels c"
  shows "leaf_entry c a i = a + of_nat (unat (ec_last_sz c) * (i mod ids_per_leaf c))"
  using assms by (simp add: leaf_entry_def entry_def lvl_sz_def ert_index_def lvl_shift_def lvl_bits_def ids_per_leaf_def)

section \<open>The trie in the world\<close>

definition ns_trie :: "ert_consts \<Rightarrow> addr set \<Rightarrow> world \<Rightarrow> addr \<Rightarrow> tnodes \<Rightarrow> bool" where
  "ns_trie c avoid w v P \<longleftrightarrow> ert_rep (ert_levels c - 1) c (w_ert w) v P \<and>
     cells_inv avoid 0 w (used c (ert_levels c - 1) P)"

lemma nt_tinv:
  assumes "ert_ok c"
  shows "ert_store.tinv c w_ert (cells_inv avoid) False k w v P \<longleftrightarrow> ns_trie c avoid w v P \<and> roomy k w"
  using nt.tinv_def [of c avoid, unfolded ert_sane(1) [OF assms]]
  by (auto simp: ns_trie_def ert_top_def cells_inv_def roomy_def)

lemma ns_trie_lookup:
  assumes ok: "ert_ok c" and t: "ns_trie c avoid w v P" and i: "unat i < 2 ^ ert_bits c"
  shows "ert_lkupan linux_ns c v i (ec_depth c) accum w = (case P (leaf_path c (unat i)) of None \<Rightarrow> Some (Cell null)
    | Some a \<Rightarrow> map_option (\<lambda>f. if f then Cell null else Cell (leaf_entry c a (unat i)))
        (ps_mhead_isfree (leaf_entry c a (unat i)) (w_mh w)))"
proof -
  have r: "ert_rep (ert_top False c) c (w_ert w) v P" using t by (simp add: ns_trie_def ert_top_def)
  have d: "0 < ec_depth c" using ert_okD(1) [OF ok] by (simp add: ert_levels_def word_less_nat_alt)
  have res: "ef_resolve linux_ns (Cell x) accum True ord sz w = map_option Not (ps_mhead_isfree x (w_mh w))" for x ord sz
    by (simp add: ns_fns_def ps_ns_resolve_intern_def)
  have "ert_store.slot c P i (unat (ec_depth c)) = map_option (\<lambda>a. leaf_entry c a (unat i)) (P (leaf_path c (unat i)))"
    using nt.slot_def [of c, unfolded ert_sane(1) [OF ok]] by (simp add: leaf_path_def leaf_entry_def ert_levels_def)
  then show ?thesis
    using nt.lookup_ok [of c, unfolded ert_sane(1) [OF ok], OF r i d order_refl, of accum]
    by (cases "P (leaf_path c (unat i))")
       (auto simp: ert_lkupan_def res map_option_case split: option.splits)
qed

text \<open>The entry above a leaf.\<close>

definition above_entry :: "ert_consts \<Rightarrow> addr \<Rightarrow> nat \<Rightarrow> addr" where
  "above_entry c a i = entry c (ert_levels c - 2) a (ert_index c i (ert_levels c - 2))"

lemma leaf_path_snoc:
  assumes "2 \<le> ert_levels c"
  shows "leaf_path c i = take (ert_levels c - 2) (ert_path c i) @ [ert_index c i (ert_levels c - 2)]"
proof -
  have "ert_levels c - 1 = Suc (ert_levels c - 2)" "ert_levels c - 2 < ert_levels c" using assms by auto
  then show ?thesis using ert_path_Suc [of "ert_levels c - 2" c i] by (simp add: leaf_path_def)
qed

lemma ns_trie_above:
  assumes ok: "ert_ok c" and L: "2 \<le> ert_levels c" and t: "ns_trie c avoid w v P" and i: "unat i < 2 ^ ert_bits c"
    and P: "P (leaf_path c (unat i)) = Some mem"
  shows "\<exists>x. ert_lkupan linux_ns c v i (ec_depth c - 1) accum w = Some (Cell x) \<and> w_ert w x = Some mem \<and>
    x \<in> used c (ert_levels c - 1) P \<and>
    ert_rep (ert_levels c - 1) c ((w_ert w)(x \<mapsto> null)) v (P(leaf_path c (unat i) := None))"
proof -
  let ?p = "take (ert_levels c - 2) (ert_path c (unat i))" and ?k = "ert_index c (unat i) (ert_levels c - 2)"
  have r: "ert_rep (ert_levels c - 1) c (w_ert w) v P" using t by (simp add: ns_trie_def)
  have d: "unat (ec_depth c - 1) = ert_levels c - 1" using L by (simp add: ert_levels_def unat_dec_u32)
  then have d0: "0 < ec_depth c - 1" "ec_depth c - 1 \<le> ec_depth c" "ec_depth c - 1 \<noteq> ec_depth c"
    using L by (auto simp: word_less_nat_alt word_le_nat_alt ert_levels_def)
  note snoc = leaf_path_snoc [OF L, of "unat i"]
  obtain a where a: "P ?p = Some a"
    using paths_okD(3) [OF ert_repD(2) [OF r], of ?p ?k mem] P unfolding snoc by auto
  have len: "length ?p = ert_levels c - 2" by simp
  have k: "?k < 2 ^ lvl_bits c (length ?p)" unfolding len by (rule ert_index_less)
  let ?x = "above_entry c a (unat i)"
  have lt: "length ?p < ert_levels c - 1" and S: "Suc (length ?p) = ert_levels c - 1" using L unfolding len by auto
  have x: "?x = entry c (length ?p) a ?k" unfolding len by (simp add: above_entry_def)
  have "ert_store.slot c P i (unat (ec_depth c - 1)) = Some ?x"
    using nt.slot_def [of c, unfolded ert_sane(1) [OF ok]] a d L
    by (simp add: above_entry_def diff_diff_eq numeral_2_eq_2)
  then have "ert_lkupan linux_ns c v i (ec_depth c - 1) accum w = Some (Cell ?x)"
    using nt.lookup_ok [of c, unfolded ert_sane(1) [OF ok], of w v P i "ec_depth c - 1" accum] r i d0
    by (simp add: ert_lkupan_def ert_top_def)
  moreover have "w_ert w ?x = Some mem"
    using ert_repD(3) [OF r a lt k] P unfolding x snoc by (simp add: child_def)
  moreover have "?x \<in> used c (ert_levels c - 1) P"
    unfolding used_def x entries_def using a lt k by blast
  moreover have "ert_rep (ert_levels c - 1) c ((w_ert w)(?x \<mapsto> null)) v (P(leaf_path c (unat i) := None))"
    unfolding x snoc by (rule ert_rep_drop [OF r a S]) (use P in \<open>simp add: snoc\<close>)
  ultimately show ?thesis by blast
qed

lemma used_drop_leaf: "length q = ert_levels c - 1 \<Longrightarrow> used c (ert_levels c - 1) (P(q := x)) = used c (ert_levels c - 1) P"
  unfolding used_def by (intro Collect_cong) (metis fun_upd_other less_irrefl)

text \<open>Adding a leaf.\<close>

lemma ns_never_refuses:
  assumes "ert_ok c" and "memctxt \<noteq> null"
  shows "\<not> nt.may_refuse avoid memctxt"
  unfolding nt.may_refuse_def using assms(2)
  by (auto simp: ns_fns_def ps_ns_alloc_intern_def ps_plat_alloc_linux_def c_assert_def plat_answer_def
      split: if_splits list.splits prod.splits)

lemma ns_trie_expand:
  assumes ok: "ert_ok c" and L: "2 \<le> ert_levels c" and t: "ns_trie c avoid w v P" and r: "roomy (k + (ert_levels c - 1)) w"
    and i: "unat i < 2 ^ ert_bits c" and mem: "mem \<noteq> null" and P: "P (leaf_path c (unat i)) = None"
  shows "\<exists>w' P'. ert_expandn linux_ns c v i (ec_depth c) accum mem data w = Some (0, w') \<and> plat_frame w w' \<and>
    ns_trie c avoid w' v P' \<and> roomy k w' \<and>
    (\<forall>q. length q = ert_levels c - 1 \<longrightarrow> P' q = (if q = leaf_path c (unat i) then Some mem else P q))"
proof -
  let ?p = "ert_path c (unat i)"
  have d: "0 < ec_depth c" using ert_okD(1) [OF ok] by (simp add: ert_levels_def word_less_nat_alt)
  have "ert_store.tinv c w_ert (cells_inv avoid) False (k + (unat (ec_depth c) - 1)) w v P"
    using t r nt_tinv [OF ok] by (simp add: ert_levels_def)
  from nt.expand_ok [of i c, unfolded ert_sane(1) [OF ok], OF i d order_refl refl this, of accum mem data]
  obtain z w' P' where 1: "ert_expand linux_ns c v i 0 (ec_depth c) accum mem data w = Some (z, w')" "plat_frame w w'"
    "ert_store.tinv c w_ert (cells_inv avoid) False k w' v P'"
    "ert_store.grows c False mem ?p 0 (unat (ec_depth c) - 1) P P'"
    "z = 0 \<and> P' (take (unat (ec_depth c) - 1) ?p) \<noteq> None"
    using ns_never_refuses [OF ok mem, of avoid] by auto
  have g: "P' x = P x \<or> P x = None \<and> (\<exists>j. 0 < j \<and> j \<le> ert_levels c - 1 \<and> x = take j ?p) \<and>
      (length x = ert_levels c - 1 \<longrightarrow> P' x = Some mem)" for x
    using 1(4) nt.grows_def [of c, unfolded ert_sane(1) [OF ok]] by (simp add: ert_levels_def ert_top_def)
  have "P' q = (if q = leaf_path c (unat i) then Some mem else P q)" if q: "length q = ert_levels c - 1" for q
  proof (cases "q = leaf_path c (unat i)")
    case True
    then show ?thesis using g [of q] 1(5) P q by (auto simp: leaf_path_def ert_levels_def)
  next
    case False
    have "q = leaf_path c (unat i)" if "q = take j ?p" "j \<le> ert_levels c - 1" for j
    proof -
      have "length q = j" using that by simp
      then show ?thesis using q that(1) by (simp add: leaf_path_def)
    qed
    then show ?thesis using g [of q] False by auto
  qed
  then show ?thesis using 1(1-3,5) nt_tinv [OF ok] by (auto simp: ert_expandn_def)
qed

text \<open>A step that leaves the blocks of the trie alone.\<close>

lemma ns_trie_frame:
  assumes t: "ns_trie c avoid w v P" and r: "roomy 0 w'" and av: "avoid' \<subseteq> dom (w_blocks w')"
    and keep: "\<And>b sz x. w_blocks w b = Some sz \<Longrightarrow> b \<notin> avoid \<Longrightarrow> b \<notin> avoid' \<and> w_blocks w' b = Some sz \<and>
      (in_block b sz x \<longrightarrow> w_ert w' x = w_ert w x)"
  shows "ns_trie c avoid' w' v P"
proof -
  have rep: "ert_rep (ert_levels c - 1) c (w_ert w) v P"
    and U: "\<And>x. x \<in> used c (ert_levels c - 1) P \<Longrightarrow> \<exists>b sz. w_blocks w b = Some sz \<and> b \<notin> avoid \<and> in_block b sz x"
    using t by (auto simp: ns_trie_def cells_inv_def)
  have "ert_rep (ert_levels c - 1) c (w_ert w') v P" by (rule ert_rep_cong [OF rep]) (use U keep in blast)
  moreover have "cells_inv avoid' 0 w' (used c (ert_levels c - 1) P)"
    unfolding cells_inv_def using r av U keep by blast
  ultimately show ?thesis by (simp add: ns_trie_def)
qed

end
