(* ===== verification/Ns_Sizes.thy ===== *)
theory Ns_Sizes
  imports Ns_Trie
begin

text \<open>
  The constants of a namespace type.  An object and its header together have a power of two as size, a leaf
  holds \<open>ns_range\<close> of them, and its entries as the trie computes them are the objects as the slab allocator
  lays them out.
\<close>

text \<open>
  The types considered: constants the trie is meant for, object sizes that fit the trie's 32 bits, at least
  one level above the leaves and at least four objects in a leaf.
\<close>

definition ns_ok :: "ns_class \<Rightarrow> bool" where
  "ns_ok nc \<longleftrightarrow> ert_ok (ns_consts nc) \<and> 2 \<le> unat (nc_depth nc) \<and> 2 \<le> unat (nc_leaforder nc) \<and>
     unat (nc_nodesz nc) < 2 ^ 30"

abbreviation nsp :: "nat \<Rightarrow> addr \<Rightarrow> ns_class \<Rightarrow> cpu \<Rightarrow> slab_params" where
  "nsp \<equiv> ns_params ps_plat_alloc_linux ps_plat_free_linux"

lemma nsp_fields [simp]:
  "sp_coreid (nsp k gh nc here) = fst here" "sp_allocsz (nsp k gh nc here) = ns_objmemsz nc * ns_range nc"
  "sp_headoff (nsp k gh nc here) = 0" "sp_obj_sz (nsp k gh nc here) = ns_objmemsz nc - sizeof_ps_mheader"
  "sp_afn (nsp k gh nc here) = ps_slab_nsalloc ps_plat_alloc_linux ps_plat_free_linux k gh here"
  "sp_ffn (nsp k gh nc here) = ps_slab_nsfree ps_plat_alloc_linux ps_plat_free_linux"
  by (simp_all add: ns_params_def)

text \<open>The object size.\<close>

lemma ns_objmemsz_pow:
  assumes "ns_ok nc"
  shows "\<exists>j. unat (ns_objmemsz nc) = 2 ^ j \<and> 5 \<le> j \<and> j < 32"
proof -
  have n: "unat (nc_nodesz nc) < 2 ^ 30" using assms by (simp add: ns_ok_def)
  then have s: "unat (nc_nodesz nc + sizeof_ps_mheader) = unat (nc_nodesz nc) + 24"
    by (subst unat_add_small) (simp_all add: sizeof_ps_mheader_def)
  have o: "unat (nc_nodesz nc) + 24 \<le> unat (ps_slab_objmemsz (nc_nodesz nc))"
    "unat (ps_slab_objmemsz (nc_nodesz nc)) < unat (nc_nodesz nc) + 32" "8 dvd unat (ps_slab_objmemsz (nc_nodesz nc))"
    unfolding ps_slab_objmemsz_def using unat_PS_RNDUP_word [of "nc_nodesz nc + sizeof_ps_mheader"] n
    by (simp_all add: s)
  from ps_rndpow2_pow [of "ps_slab_objmemsz (nc_nodesz nc)"] o n obtain j where
    j: "unat (ns_objmemsz nc) = 2 ^ j" "unat (ps_slab_objmemsz (nc_nodesz nc)) \<le> 2 ^ j"
      "2 ^ j < 2 * unat (ps_slab_objmemsz (nc_nodesz nc))" by (auto simp: ns_objmemsz_def)
  have "(2 :: nat) ^ 4 < 2 ^ j" using j(2) o(1) by simp
  then have "4 < j" by (rule power_less_imp_less_exp [rotated]) simp
  moreover have "(2 :: nat) ^ j < 2 ^ 32" using j(3) o(2) n by simp
  then have "j < 32" by (rule power_less_imp_less_exp [rotated]) simp
  ultimately show ?thesis using j(1) by auto
qed

lemma ns_objmemsz_bounds:
  assumes "ns_ok nc"
  shows "32 \<le> unat (ns_objmemsz nc)" "8 dvd unat (ns_objmemsz nc)" "unat (ec_last_sz (ns_consts nc)) = unat (ns_objmemsz nc)"
proof -
  obtain j where j: "unat (ns_objmemsz nc) = 2 ^ j" "5 \<le> j" "j < 32" using ns_objmemsz_pow [OF assms] by blast
  have "(2 :: nat) ^ 5 \<le> 2 ^ j" using j(2) by (rule power_increasing) simp
  then show "32 \<le> unat (ns_objmemsz nc)" using j(1) by simp
  have "(2 :: nat) ^ 3 dvd 2 ^ j" using j(2) by (intro le_imp_power_dvd) simp
  then show "8 dvd unat (ns_objmemsz nc)" using j(1) by simp
  have "(2 :: nat) ^ j < 2 ^ 32" using j(3) by (rule power_strict_increasing) simp
  then show "unat (ec_last_sz (ns_consts nc)) = unat (ns_objmemsz nc)"
    using j(1,3) by (simp add: ns_consts_def unsigned_ucast_eq take_bit_nat_eq_self)
qed

lemma ns_range_nat:
  assumes "ns_ok nc"
  shows "unat (ns_range nc) = ids_per_leaf (ns_consts nc)" "4 \<le> ids_per_leaf (ns_consts nc)"
    "ids_per_leaf (ns_consts nc) = 2 ^ unat (nc_leaforder nc)"
proof -
  have o: "unat (nc_leaforder nc) < 31" "2 \<le> unat (nc_leaforder nc)"
    using assms by (auto simp: ns_ok_def ert_ok_def ns_consts_def)
  show p: "ids_per_leaf (ns_consts nc) = 2 ^ unat (nc_leaforder nc)" by (simp add: ids_per_leaf_def ns_consts_def)
  have "(2 :: nat) ^ unat (nc_leaforder nc) < 2 ^ 64" using o(1) by (intro power_strict_increasing) simp_all
  then have "unat (2 ^ unat (nc_leaforder nc) :: u64) = 2 ^ unat (nc_leaforder nc)"
    using unat_of_nat_small [of "2 ^ unat (nc_leaforder nc)"] by simp
  then show "unat (ns_range nc) = ids_per_leaf (ns_consts nc)"
    using p by (simp add: ns_range_def push_bit_eq_mult)
  have "(2 :: nat) ^ 2 \<le> 2 ^ unat (nc_leaforder nc)" using o(2) by (rule power_increasing) simp
  then show "4 \<le> ids_per_leaf (ns_consts nc)" using p by simp
qed

lemma ns_sizes:
  assumes "ns_ok nc"
  shows "params_ok (nsp k gh nc here)" "unat (sp_allocsz (nsp k gh nc here)) = unat (ns_objmemsz nc) * ids_per_leaf (ns_consts nc)"
    "unat (ns_objmemsz nc) * ids_per_leaf (ns_consts nc) < 2 ^ 31"
    "ps_slab_objmemsz (sp_obj_sz (nsp k gh nc here)) = ns_objmemsz nc" "nobjs (nsp k gh nc here) = ids_per_leaf (ns_consts nc)"
proof -
  note b = ns_objmemsz_bounds [OF assms] and r = ns_range_nat [OF assms]
  show lt: "unat (ns_objmemsz nc) * ids_per_leaf (ns_consts nc) < 2 ^ 31"
    using assms b(3) by (auto simp: ns_ok_def ert_ok_def ids_per_leaf_def mult.commute)
  then show a: "unat (sp_allocsz (nsp k gh nc here)) = unat (ns_objmemsz nc) * ids_per_leaf (ns_consts nc)"
    using r(1) by (simp add: unat_mult_small)
  have o: "unat (ns_objmemsz nc - sizeof_ps_mheader) = unat (ns_objmemsz nc) - 24"
    using b(1) by (subst unat_sub_small) (simp_all add: sizeof_ps_mheader_def)
  have "unat (ns_objmemsz nc) * 4 \<le> unat (ns_objmemsz nc) * ids_per_leaf (ns_consts nc)" using r(2) by simp
  then have "2 * unat (ns_objmemsz nc) + 16 \<le> unat (ns_objmemsz nc) * ids_per_leaf (ns_consts nc)" using b(1) by linarith
  then show p: "params_ok (nsp k gh nc here)" using a o lt b(1) by (simp add: params_ok_def)
  have "unat (ps_slab_objmemsz (sp_obj_sz (nsp k gh nc here))) = unat (ns_objmemsz nc)"
  proof -
    have "unat (ns_objmemsz nc) \<le> objsz (nsp k gh nc here)" "objsz (nsp k gh nc here) < unat (ns_objmemsz nc) + 8"
      "8 dvd objsz (nsp k gh nc here)" using objsz_bounds [OF p] o b(1) by simp_all
    then show ?thesis using b(2) by presburger
  qed
  then show s: "ps_slab_objmemsz (sp_obj_sz (nsp k gh nc here)) = ns_objmemsz nc" by (rule word_eq_unatI)
  show "nobjs (nsp k gh nc here) = ids_per_leaf (ns_consts nc)"
    using nobjs_div [OF p] a b(1) unfolding s by simp
qed

lemma ucast_u64_u32 [simp]: "(ucast (ucast (d :: u32) :: u64) :: u32) = d"
  by (rule bit_word_eqI) (simp add: bit_simps)

text \<open>Entry and object.\<close>

lemma leaf_entry_obj:
  assumes "ns_ok nc"
  shows "leaf_entry (ns_consts nc) mem i = obj_at (nsp k gh nc here) mem (i mod ids_per_leaf (ns_consts nc))"
proof -
  have "1 \<le> ert_levels (ns_consts nc)" using assms by (simp add: ns_ok_def ns_consts_def ert_levels_def)
  then show ?thesis
    using ns_objmemsz_bounds(3) [OF assms] unfolding obj_at_def ns_sizes(4) [OF assms]
    by (simp add: leaf_entry_eq mult.commute)
qed

lemma ns_levels:
  assumes "ns_ok nc"
  shows "2 \<le> ert_levels (ns_consts nc)" "ert_ok (ns_consts nc)" "ec_depth (ns_consts nc) = nc_depth nc"
  using assms by (simp_all add: ns_ok_def ns_consts_def ert_levels_def)

text \<open>Parameters with the same sizes have the same invariant.\<close>

lemma nsp_sizes_only:
  "slab_inv (nsp k gh nc here) = slab_inv (nsp 0 0 nc (0, 0))" "live (nsp k gh nc here) = live (nsp 0 0 nc (0, 0))"
  "belongs (nsp k gh nc here) = belongs (nsp 0 0 nc (0, 0))" "same_obj (nsp k gh nc here) = same_obj (nsp 0 0 nc (0, 0))"
  "own_step (nsp k gh nc here) = own_step (nsp 0 0 nc (0, 0))" "slab_objs (nsp k gh nc here) = slab_objs (nsp 0 0 nc (0, 0))"
  "fits (nsp k gh nc here) = fits (nsp 0 0 nc (0, 0))"
  by (rule sizes_only; simp)+

end
