(* ===== verification/Ns_Rep.thy ===== *)
theory Ns_Rep
  imports Ns_Sizes
begin

text \<open>
  The state of a namespace whose objects come straight from the slab allocator.  \<open>M\<close> gives the memory of
  the slabs in use, \<open>E\<close> are the descriptors that keep a range of identities but have no memory, \<open>FL\<close> the
  list of those on the free list, \<open>F\<close> and \<open>R\<close> the state of the allocator of descriptors, \<open>P\<close> the trie.
\<close>

section \<open>The descriptors in the memory of their allocator\<close>

definition heads_cell :: "slabs \<Rightarrow> addr \<Rightarrow> bool" where
  "heads_cell F x \<longleftrightarrow> (\<exists>s. mems F s = Some s \<and> in_block s (sp_allocsz shp) x)"

definition ns_heads :: "addr \<Rightarrow> world \<Rightarrow> addr set \<Rightarrow> slabs \<Rightarrow> rings \<Rightarrow> bool" where
  "ns_heads gh w D F R \<longleftrightarrow> heads_inv gh w F R \<and> ps_mhead_get ` D \<subseteq> live shp F no_remotes"

lemma ns_heads_binv: "ns_heads gh w D F R \<Longrightarrow> def_binv shp w (mems F)"
  by (simp add: ns_heads_def heads_inv_def slab_state_def)

lemma heads_cell_block:
  assumes "ns_heads gh w D F R" and "mems F s = Some mem"
  shows "mem = s" "w_blocks w s = Some (sp_allocsz shp)" "heads_cell F s" "heads_cell F (s + SLAB_LIST)"
    "h \<in> set (slab_objs shp s) \<Longrightarrow> heads_cell F h \<and> heads_cell F (ps_mhead_mem h) \<and> heads_cell F (ps_mhead_mem h + SLAB_LIST)"
proof -
  note d = def_slab [OF ns_heads_binv [OF assms(1)] assms(2)]
  show "mem = s" "w_blocks w s = Some (sp_allocsz shp)" by (rule d)+
  note c = cells_in_block [OF shp_sizes(1,2) d(3)]
  have m: "mems F s = Some s" using assms(2) d(1) by simp
  then show "heads_cell F s" "heads_cell F (s + SLAB_LIST)" using c(1,2) unfolding heads_cell_def by blast+
  assume "h \<in> set (slab_objs shp s)"
  from desc_in_block [OF d(3) this] m
  show "heads_cell F h \<and> heads_cell F (ps_mhead_mem h) \<and> heads_cell F (ps_mhead_mem h + SLAB_LIST)"
    unfolding heads_cell_def by blast
qed

lemma slab_heads_cell:
  assumes "ns_heads gh w D F R" and "h \<in> slab_heads shp (mems F)"
  shows "heads_cell F h"
proof -
  obtain t where "mems F t = Some t" "h \<in> set (slab_objs shp t)"
    using head_slab [OF ns_heads_binv [OF assms(1)] assms(2)] by metis
  then show ?thesis using heads_cell_block(5) [OF assms(1)] by blast
qed

lemma ns_desc_place:
  assumes "ns_heads gh w D F R" and "s \<in> D"
  shows "ps_mhead_get s \<in> slab_heads shp (mems F)" "s \<notin> dom (mems F)" "heads_cell F s" "heads_cell F (s + SLAB_LIST)"
proof -
  show h: "ps_mhead_get s \<in> slab_heads shp (mems F)"
    using assms live_heads [of shp F no_remotes] by (auto simp: ns_heads_def)
  then show "s \<notin> dom (mems F)" using desc_not_own(1) [OF ns_heads_binv [OF assms(1)] h] by simp
  obtain t where "mems F t = Some t" "ps_mhead_get s \<in> set (slab_objs shp t)"
    using head_slab [OF ns_heads_binv [OF assms(1)] h] by metis
  from heads_cell_block(5) [OF assms(1) this] show "heads_cell F s" "heads_cell F (s + SLAB_LIST)" by simp_all
qed

lemma heads_cell_in_use: "ns_heads gh w D F R \<Longrightarrow> heads_cell F x \<Longrightarrow> in_use w x"
  using heads_cell_block(2) unfolding heads_cell_def in_use_def by blast

lemma ns_desc_nonnull:
  assumes "ns_heads gh w D F R" and "s \<in> D"
  shows "s \<noteq> null"
proof -
  obtain t where t: "fits shp t" "ps_mhead_get s \<in> set (slab_objs shp t)"
    using head_slab [OF ns_heads_binv [OF assms(1)] ns_desc_place(1) [OF assms]] by metis
  show ?thesis using desc_place(1) [OF t] by auto
qed

text \<open>The state of the allocator under steps that change only descriptors handed out.\<close>

lemma ns_heads_frame:
  assumes inv: "ns_heads gh w D F R" and m: "w_mem w' gh = w_mem w gh" and b: "blocks_ok (w_blocks w')"
    and bl: "\<And>s. mems F s \<noteq> None \<Longrightarrow> w_blocks w' s = w_blocks w s"
    and keep: "\<And>x. heads_cell F x \<Longrightarrow> w_mh w' x = w_mh w x \<and> (x \<notin> D \<longrightarrow> w_sl w' x = w_sl w x) \<and>
      (x \<notin> (\<lambda>s. s + SLAB_LIST) ` D \<longrightarrow> w_ls w' x = w_ls w x)"
  shows "ns_heads gh w' D F R"
proof -
  have hi: "heads_inv gh w F R" and D: "ps_mhead_get ` D \<subseteq> live shp F no_remotes" using inv by (simp_all add: ns_heads_def)
  have "heads_inv gh w' F R"
  proof (rule heads_inv_frame [OF hi m b bl])
    fix s assume s: "mems F s = Some s"
    note c = heads_cell_block [OF inv s]
    have "s \<notin> D" using ns_desc_place(2) [OF inv, of s] s by auto
    then have "s + SLAB_LIST \<notin> (\<lambda>s. s + SLAB_LIST) ` D" by auto
    with \<open>s \<notin> D\<close> show "same_cells shp w w' s s" using keep c(3-5) by (simp add: same_cells_def)
  next
    fix h assume h: "h \<in> slab_heads shp (mems F)" "h \<notin> live shp F no_remotes"
    obtain t where "mems F t = Some t" "h \<in> set (slab_objs shp t)"
      using head_slab [OF ns_heads_binv [OF inv] h(1)] by metis
    note c = heads_cell_block(5) [OF inv this]
    have "ps_mhead_mem h \<notin> D" using D h(2) by force
    then have "ps_mhead_mem h + SLAB_LIST \<notin> (\<lambda>s. s + SLAB_LIST) ` D" by auto
    with \<open>ps_mhead_mem h \<notin> D\<close> have "spare w' (ps_mhead_mem h) = spare w (ps_mhead_mem h)"
      using keep c by (simp add: spare_def)
    then show "spare w' (ps_mhead_mem h)" using hi h by (simp add: heads_inv_def)
  qed
  with D show ?thesis by (simp add: ns_heads_def)
qed

section \<open>Identities\<close>

definition desc_id :: "world \<Rightarrow> addr \<Rightarrow> nat" where
  "desc_id w s = (case w_sl w s of None \<Rightarrow> 0 | Some sl \<Rightarrow> unat (sl_start sl))"

abbreviation id_bits :: "ns_class \<Rightarrow> nat" where "id_bits nc \<equiv> ert_bits (ns_consts nc)"
abbreviation leaf_ids :: "ns_class \<Rightarrow> nat" where "leaf_ids nc \<equiv> ids_per_leaf (ns_consts nc)"

text \<open>Each descriptor has a range of identities of its own below the frontier \<open>fr\<close>.\<close>

definition desc_ok :: "ns_class \<Rightarrow> world \<Rightarrow> nat \<Rightarrow> addr \<Rightarrow> addr \<Rightarrow> bool" where
  "desc_ok nc w fr s mem \<longleftrightarrow> (\<exists>sl. w_sl w s = Some sl \<and> sl_memory sl = mem) \<and>
     leaf_ids nc dvd desc_id w s \<and> desc_id w s < 2 ^ id_bits nc \<and> desc_id w s + leaf_ids nc \<le> fr"

definition ns_descs :: "ns_class \<Rightarrow> world \<Rightarrow> (addr \<Rightarrow> addr option) \<Rightarrow> addr set \<Rightarrow> nat \<Rightarrow> bool" where
  "ns_descs nc w M E fr \<longleftrightarrow> leaf_ids nc dvd fr \<and> dom M \<inter> E = {} \<and> inj_on (desc_id w) (dom M \<union> E) \<and>
     (\<forall>s mem. M s = Some mem \<longrightarrow> desc_ok nc w fr s mem) \<and> (\<forall>s \<in> E. desc_ok nc w fr s null)"

lemma desc_id_cong: "map_option slab_ids (w_sl w' s) = map_option slab_ids (w_sl w s) \<Longrightarrow> desc_id w' s = desc_id w s"
  by (cases "w_sl w s"; cases "w_sl w' s") (auto simp: desc_id_def slab_ids_def)

lemma desc_ok_cong:
  assumes "map_option slab_ids (w_sl w' s) = map_option slab_ids (w_sl w s)"
  shows "desc_ok nc w' fr s mem = desc_ok nc w fr s mem"
  using assms desc_id_cong [OF assms]
  by (cases "w_sl w s"; cases "w_sl w' s") (auto simp: desc_ok_def slab_ids_def)

lemma desc_ok_mono: "desc_ok nc w fr s mem \<Longrightarrow> fr \<le> fr' \<Longrightarrow> desc_ok nc w fr' s mem"
  by (auto simp: desc_ok_def)

lemma ns_descs_cong:
  assumes "ns_descs nc w M E fr" and "\<And>s. s \<in> dom M \<union> E \<Longrightarrow> map_option slab_ids (w_sl w' s) = map_option slab_ids (w_sl w s)"
  shows "ns_descs nc w' M E fr"
proof -
  have "inj_on (desc_id w') (dom M \<union> E) = inj_on (desc_id w) (dom M \<union> E)"
    by (intro inj_on_cong desc_id_cong assms(2))
  moreover have "desc_ok nc w' fr s mem = desc_ok nc w fr s mem" if "s \<in> dom M \<union> E" for s mem
    by (rule desc_ok_cong [OF assms(2) [OF that]])
  ultimately show ?thesis using assms(1) unfolding ns_descs_def by (auto simp: domI)
qed

text \<open>Descriptors in use share no leaf.\<close>

lemma desc_id_div:
  assumes "leaf_ids nc dvd i" and "leaf_ids nc dvd j" and "i div leaf_ids nc = j div leaf_ids nc"
  shows "i = j"
  using assms by (metis dvd_div_mult_self)

section \<open>Leaves\<close>

definition ns_blocks :: "ns_class \<Rightarrow> world \<Rightarrow> (addr \<Rightarrow> addr option) \<Rightarrow> slabs \<Rightarrow> bool" where
  "ns_blocks nc w M F \<longleftrightarrow> inj_on M (dom M) \<and>
     (\<forall>s mem. M s = Some mem \<longrightarrow> w_blocks w mem = Some (ns_objmemsz nc * ns_range nc) \<and> mems F mem = None)"

definition ns_leaves :: "ns_class \<Rightarrow> world \<Rightarrow> (addr \<Rightarrow> addr option) \<Rightarrow> tnodes \<Rightarrow> bool" where
  "ns_leaves nc w M P \<longleftrightarrow> (\<forall>i mem. i < 2 ^ id_bits nc \<longrightarrow>
     (P (leaf_path (ns_consts nc) i) = Some mem \<longleftrightarrow> (\<exists>s. M s = Some mem \<and> i div leaf_ids nc = desc_id w s div leaf_ids nc)))"

definition ns_info_ok :: "ns_class \<Rightarrow> ps_ns_info \<Rightarrow> bool" where
  "ns_info_ok nc ni \<longleftrightarrow> ns_ert_depth ni = ucast (nc_depth nc) \<and> ns_lkupfn ni = Some (ns_consts nc) \<and>
     ns_expandfn ni = Some (ns_consts nc) \<and> ns_desc_range ni = ns_range nc \<and> unat (ns_desc_max ni) = 2 ^ id_bits nc \<and> ns_lock ni = 0"

definition ns_inv :: "addr \<Rightarrow> ns_class \<Rightarrow> addr \<Rightarrow> world \<Rightarrow> (addr \<Rightarrow> addr option) \<Rightarrow> addr set \<Rightarrow> addr list \<Rightarrow>
    slabs \<Rightarrow> rings \<Rightarrow> tnodes \<Rightarrow> bool" where
  "ns_inv gh nc m w M E FL F R P \<longleftrightarrow> ns_ok nc \<and> gh \<noteq> m \<and> set FL \<subseteq> E \<and> ns_heads gh w (dom M \<union> E) F R \<and>
     ns_blocks nc w M F \<and> ns_leaves nc w M P \<and>
     (\<exists>ni. get_ns m w = Some ni \<and> ns_info_ok nc ni \<and> pl.list_at SLAB_LIST (w_ls w) (ns_fl ni) FL \<and>
        ns_descs nc w M E (unat (ns_frontier ni)) \<and> ns_trie (ns_consts nc) (ran M) w (ns_ert ni) P)"

lemma ns_invD:
  assumes "ns_inv gh nc m w M E FL F R P"
  obtains ni where "ns_ok nc" "gh \<noteq> m" "set FL \<subseteq> E" "ns_heads gh w (dom M \<union> E) F R" "ns_blocks nc w M F" "ns_leaves nc w M P"
    "get_ns m w = Some ni" "ns_info_ok nc ni" "pl.list_at SLAB_LIST (w_ls w) (ns_fl ni) FL"
    "ns_descs nc w M E (unat (ns_frontier ni))" "ns_trie (ns_consts nc) (ran M) w (ns_ert ni) P"
  using assms unfolding ns_inv_def by blast

end
