(* ===== verification/Ns_Frame.thy ===== *)
theory Ns_Frame
  imports Ns_Rep
begin

text \<open>
  How the parts of a namespace's state change: which cells the leaves and the descriptors have, and what a
  step does to the descriptors, the leaves and the trie when it gives a descriptor a leaf or takes it away.
\<close>

lemma list_at_frame:
  assumes "\<And>s. s \<in> set xs \<Longrightarrow> ls' (s + off) = ls (s + off)"
  shows "pl.list_at off ls' fl xs = pl.list_at off ls fl xs"
proof -
  have "dll ls' (map (\<lambda>s. s + off) xs) = dll ls (map (\<lambda>s. s + off) xs)" by (rule dll_frame) (use assms in auto)
  then show ?thesis by (simp add: pl.list_at_def objs_dll_def)
qed

lemma in_useI: "w_blocks w b = Some sz \<Longrightarrow> in_block b sz x \<Longrightarrow> in_use w x"
  unfolding in_use_def by blast

section \<open>Leaves and descriptors do not meet\<close>

lemma leaf_apart:
  assumes "ns_heads gh w D F R" and "ns_blocks nc w M F" and "M s = Some mem" and "heads_cell F x"
  shows "\<not> in_block mem (ns_objmemsz nc * ns_range nc) x"
proof
  assume x: "in_block mem (ns_objmemsz nc * ns_range nc) x"
  have ok: "blocks_ok (w_blocks w)" using ns_heads_binv [OF assms(1)] by (simp add: def_binv_def)
  obtain t where t: "mems F t = Some t" "in_block t (sp_allocsz shp) x" using assms(4) by (auto simp: heads_cell_def)
  have "mem = t"
    using block_unique [OF ok _ _ x t(2)] assms(2,3) heads_cell_block(2) [OF assms(1) t(1)] by (auto simp: ns_blocks_def)
  then show False using assms(2,3) t(1) by (auto simp: ns_blocks_def)
qed

lemma ns_leaf_fits:
  assumes "blocks_ok B" and "B mem = Some (ns_objmemsz nc * ns_range nc)"
  shows "fits (nsp k gh nc here) mem"
  using assms by (auto simp: blocks_ok_def fits_def)

lemma leaf_obj_in_block:
  assumes "ns_ok nc" and "fits (nsp k gh nc here) mem" and "h \<in> set (slab_objs (nsp k gh nc here) mem)"
  shows "in_block mem (ns_objmemsz nc * ns_range nc) h"
proof -
  let ?p = "nsp k gh nc here"
  obtain i where i: "i < nobjs ?p" "h = obj_at ?p mem i" using assms(3) by (auto simp: slab_objs_def)
  have "0 < objsz ?p" using objsz_bounds(1) [OF ns_sizes(1) [OF assms(1)], of k gh here] by simp
  then show ?thesis
    using slab_obj_extent(1,2) [OF ns_sizes(1) [OF assms(1)] assms(2) i(1)] by (simp add: in_block_def i(2))
qed

lemma ns_leaf_places:
  assumes "ns_ok nc" and "ns_heads gh w D F R" and "ns_blocks nc w M F" and "M s = Some mem"
  shows "w_blocks w mem = Some (ns_objmemsz nc * ns_range nc)" "fits (nsp k gh' nc here) mem"
    "h \<in> set (slab_objs (nsp k gh' nc here) mem) \<Longrightarrow> in_use w h \<and> \<not> heads_cell F h"
proof -
  have ok: "blocks_ok (w_blocks w)" using ns_heads_binv [OF assms(2)] by (simp add: def_binv_def)
  show b: "w_blocks w mem = Some (ns_objmemsz nc * ns_range nc)" using assms(3,4) by (simp add: ns_blocks_def)
  show f: "fits (nsp k gh' nc here) mem" by (rule ns_leaf_fits [OF ok b])
  assume "h \<in> set (slab_objs (nsp k gh' nc here) mem)"
  from leaf_obj_in_block [OF assms(1) f this] b leaf_apart [OF assms(2-4), of h]
  show "in_use w h \<and> \<not> heads_cell F h" unfolding in_use_def by blast
qed

text \<open>What a step leaves of the slabs in use.\<close>

definition ns_keeps :: "ns_class \<Rightarrow> addr \<Rightarrow> (addr \<Rightarrow> addr option) \<Rightarrow> world \<Rightarrow> world \<Rightarrow> bool" where
  "ns_keeps nc m M w w' \<longleftrightarrow> (\<forall>c. get_pc m c w' = get_pc m c w) \<and>
     (\<forall>s mem. M s = Some mem \<longrightarrow> same_cells (nsp 0 0 nc (0, 0)) w w' s mem)"

lemma ns_keeps_trans: "ns_keeps nc m M w w1 \<Longrightarrow> ns_keeps nc m M w1 w2 \<Longrightarrow> ns_keeps nc m M w w2"
  by (simp add: ns_keeps_def same_cells_def)

lemma ns_keeps_refl: "ns_keeps nc m M w w"
  by (simp add: ns_keeps_def same_cells_def)

text \<open>Steps that leave the descriptors in use and all cells outside the descriptors' pages alone.\<close>

lemma ns_keepsI:
  assumes ok: "ns_ok nc" and h: "ns_heads gh w D F R" and b: "ns_blocks nc w M F" and pc: "\<And>e. get_pc m e w' = get_pc m e w"
    and d: "\<And>t. t \<in> dom M \<Longrightarrow> w_sl w' t = w_sl w t \<and> w_ls w' (t + SLAB_LIST) = w_ls w (t + SLAB_LIST)"
    and x: "\<And>x. in_use w x \<Longrightarrow> \<not> heads_cell F x \<Longrightarrow> w_mh w' x = w_mh w x"
  shows "ns_keeps nc m M w w'"
  unfolding ns_keeps_def
proof (intro conjI allI impI pc)
  fix t mem assume t: "M t = Some mem"
  note p = ns_leaf_places(3) [OF ok h b t]
  have "w_mh w' y = w_mh w y" if "y \<in> set (slab_objs (nsp 0 0 nc (0, 0)) mem)" for y using x p [OF that] by blast
  then show "same_cells (nsp 0 0 nc (0, 0)) w w' t mem" using d [of t] t by (simp add: same_cells_def domI)
qed

section \<open>Descriptors\<close>

text \<open>A new one, with the identities at the frontier.\<close>

lemma ns_descs_new:
  assumes ok: "ns_ok nc" and d: "ns_descs nc w M {} fr" and mx: "fr < 2 ^ id_bits nc" and s: "s \<notin> dom M"
    and sl: "w_sl w' s = Some sl" "sl_memory sl = null" "unat (sl_start sl) = fr"
    and old: "\<And>t. t \<in> dom M \<Longrightarrow> w_sl w' t = w_sl w t"
  shows "ns_descs nc w' M {s} (fr + leaf_ids nc)"
proof -
  have D: "leaf_ids nc dvd fr" "inj_on (desc_id w) (dom M)" "\<And>t mem. M t = Some mem \<Longrightarrow> desc_ok nc w fr t mem"
    using d by (simp_all add: ns_descs_def)
  have i: "desc_id w' s = fr" using sl by (simp add: desc_id_def)
  have ids: "desc_id w' t = desc_id w t" if "t \<in> dom M" for t using old [OF that] by (simp add: desc_id_def)
  have o: "desc_ok nc w' (fr + leaf_ids nc) t mem" if t: "M t = Some mem" for t mem
    using desc_ok_mono [OF D(3) [OF t]] desc_ok_cong [of w' t w] old [of t] t by (simp add: domI)
  have "desc_ok nc w' (fr + leaf_ids nc) s null" using sl D(1) mx i by (simp add: desc_ok_def)
  moreover have "inj_on (desc_id w') (insert s (dom M))"
  proof -
    have "desc_id w t < fr" if "t \<in> dom M" for t
      using D(3) that ns_range_nat(2) [OF ok] by (fastforce simp: desc_ok_def)
    then have "fr \<notin> desc_id w' ` dom M" using ids by fastforce
    moreover have "inj_on (desc_id w') (dom M)" using D(2) inj_on_cong [OF ids, of "dom M"] by simp
    ultimately show ?thesis using i s by (simp add: inj_on_insert)
  qed
  ultimately show ?thesis using D(1) o s unfolding ns_descs_def by auto
qed

text \<open>Memory given to one, or taken away.\<close>

lemma ns_descs_memory:
  assumes d: "ns_descs nc w M E fr" and s: "s \<in> dom M \<union> E" and sl: "w_sl w s = Some sl" "w_sl w' s = Some (sl\<lparr>sl_memory := x\<rparr>)"
    and old: "\<And>t. t \<in> dom M \<union> E \<Longrightarrow> t \<noteq> s \<Longrightarrow> w_sl w' t = w_sl w t"
  shows "ns_descs nc w' (M(s \<mapsto> x)) (E - {s}) fr" "x = null \<Longrightarrow> ns_descs nc w' (M(s := None)) (insert s E) fr"
proof -
  have D: "leaf_ids nc dvd fr" "dom M \<inter> E = {}" "inj_on (desc_id w) (dom M \<union> E)"
    "\<And>t mem. M t = Some mem \<Longrightarrow> desc_ok nc w fr t mem" "\<And>t. t \<in> E \<Longrightarrow> desc_ok nc w fr t null"
    using d by (simp_all add: ns_descs_def)
  have ids: "desc_id w' t = desc_id w t" if "t \<in> dom M \<union> E" for t
    using old [OF that] sl by (cases "t = s") (simp_all add: desc_id_def)
  have "\<exists>y. desc_ok nc w fr s y" using s D(4,5) by blast
  then have so: "desc_ok nc w' fr s x" using ids [OF s] sl(2) by (auto simp: desc_ok_def)
  have o: "desc_ok nc w' fr t y" if "t \<in> dom M \<union> E" "t \<noteq> s" "desc_ok nc w fr t y" for t y
    using old [OF that(1,2)] ids [OF that(1)] that(3) by (simp add: desc_ok_def)
  have "inj_on (desc_id w') (dom M \<union> E)" using D(3) inj_on_cong [OF ids, of "dom M \<union> E"] by simp
  moreover have "dom (M(s \<mapsto> x)) \<union> (E - {s}) = dom M \<union> E" "dom (M(s := None)) \<union> insert s E = dom M \<union> E" using s by auto
  ultimately have inj: "inj_on (desc_id w') (dom (M(s \<mapsto> x)) \<union> (E - {s}))" "inj_on (desc_id w') (dom (M(s := None)) \<union> insert s E)" by simp_all
  show "ns_descs nc w' (M(s \<mapsto> x)) (E - {s}) fr"
    unfolding ns_descs_def using D(1,2) inj(1) so o D(4,5) by (auto simp: domI split: if_splits)
  show "ns_descs nc w' (M(s := None)) (insert s E) fr" if n: "x = null"
  proof -
    have "desc_ok nc w' fr t null" if "t \<in> insert s E" for t using so o [of t null] D(5) that n by (cases "t = s") auto
    moreover have "desc_ok nc w' fr t y" if "(M(s := None)) t = Some y" for t y
      using o [of t y] D(4) that by (auto simp: domI split: if_splits)
    ultimately show ?thesis unfolding ns_descs_def using D(1,2) inj(2) by auto
  qed
qed

section \<open>Leaves and the trie\<close>

lemma ns_leaves_cong:
  assumes "ns_leaves nc w M P" and "\<And>t. t \<in> dom M \<Longrightarrow> desc_id w' t = desc_id w t"
  shows "ns_leaves nc w' M P"
proof -
  have "(M s = Some mem \<and> i div leaf_ids nc = desc_id w' s div leaf_ids nc) \<longleftrightarrow>
      (M s = Some mem \<and> i div leaf_ids nc = desc_id w s div leaf_ids nc)" for s mem i
    using assms(2) [OF domI, of s mem] by auto
  then show ?thesis using assms(1) by (simp add: ns_leaves_def)
qed

text \<open>The leaves after one is added or taken away.\<close>

lemma ns_leaf_unique:
  assumes "ns_descs nc w M E fr" and "s \<in> dom M \<union> E" and "t \<in> dom M \<union> E"
    and "desc_id w s div leaf_ids nc = desc_id w t div leaf_ids nc"
  shows "s = t"
proof -
  have "desc_ok nc w fr x (if x \<in> dom M then the (M x) else null)" if "x \<in> dom M \<union> E" for x
    using assms(1) that by (auto simp: ns_descs_def)
  then have "leaf_ids nc dvd desc_id w s" "leaf_ids nc dvd desc_id w t" using assms(2,3) by (simp_all add: desc_ok_def)
  then have "desc_id w s = desc_id w t" using assms(4) by (rule desc_id_div)
  then show ?thesis using assms(1-3) unfolding ns_descs_def inj_on_def by blast
qed

lemma desc_ok_id: "desc_ok nc w fr s mem \<Longrightarrow> desc_id w s < 2 ^ id_bits nc \<and> leaf_ids nc dvd desc_id w s"
  by (simp add: desc_ok_def)

lemma ns_no_leaf:
  assumes "ns_ok nc" and "ns_leaves nc w M P" and "ns_descs nc w M E fr" and "s \<in> E"
  shows "P (leaf_path (ns_consts nc) (desc_id w s)) = None"
proof (rule ccontr)
  have d: "dom M \<inter> E = {}" "desc_id w s < 2 ^ id_bits nc" using assms(3,4) by (auto simp: ns_descs_def desc_ok_def)
  assume "P (leaf_path (ns_consts nc) (desc_id w s)) \<noteq> None"
  then obtain mem where "P (leaf_path (ns_consts nc) (desc_id w s)) = Some mem" by auto
  then obtain t where t: "M t = Some mem" "desc_id w s div leaf_ids nc = desc_id w t div leaf_ids nc"
    using assms(2) d(2) unfolding ns_leaves_def by blast
  then have "s = t" using assms(4) by (intro ns_leaf_unique [OF assms(3)]) auto
  then show False using d(1) t(1) assms(4) by auto
qed

lemma ns_leaves_add:
  assumes ok: "ns_ok nc" and lv: "ns_leaves nc w M P" and d: "ns_descs nc w M E fr" and s: "s \<in> E"
    and P': "\<And>q. length q = ert_levels (ns_consts nc) - 1 \<Longrightarrow>
      P' q = (if q = leaf_path (ns_consts nc) (desc_id w s) then Some mem else P q)"
    and id: "\<And>t. t \<in> insert s (dom M) \<Longrightarrow> desc_id w' t = desc_id w t"
  shows "ns_leaves nc w' (M(s \<mapsto> mem)) P'"
  unfolding ns_leaves_def
proof (intro allI impI)
  fix i :: nat and x assume i: "i < 2 ^ id_bits nc"
  have sM: "s \<notin> dom M" using d s by (auto simp: ns_descs_def)
  have b: "desc_id w s < 2 ^ id_bits nc" using d s by (auto simp: ns_descs_def desc_ok_def)
  have same: "leaf_path (ns_consts nc) i = leaf_path (ns_consts nc) (desc_id w s) \<longleftrightarrow> i div leaf_ids nc = desc_id w s div leaf_ids nc"
    by (rule leaf_path_eq [OF ns_levels(1) [OF ok] i b])
  have new: "P' (leaf_path (ns_consts nc) i) = (if i div leaf_ids nc = desc_id w s div leaf_ids nc then Some mem
    else P (leaf_path (ns_consts nc) i))" using P' same by simp
  have uniq: "\<not> i div leaf_ids nc = desc_id w s div leaf_ids nc" if "M t = Some y" "i div leaf_ids nc = desc_id w t div leaf_ids nc" for t y
  proof
    assume "i div leaf_ids nc = desc_id w s div leaf_ids nc"
    then have "s = t" using that s by (intro ns_leaf_unique [OF d]) auto
    then show False using sM that(1) by auto
  qed
  have old: "P (leaf_path (ns_consts nc) i) = Some x \<longleftrightarrow> (\<exists>t. M t = Some x \<and> i div leaf_ids nc = desc_id w t div leaf_ids nc)"
    using lv i by (simp add: ns_leaves_def)
  have AB: "(\<exists>t. (M(s \<mapsto> mem)) t = Some x \<and> i div leaf_ids nc = desc_id w' t div leaf_ids nc) \<longleftrightarrow>
    x = mem \<and> i div leaf_ids nc = desc_id w s div leaf_ids nc \<or> (\<exists>t. M t = Some x \<and> i div leaf_ids nc = desc_id w t div leaf_ids nc)"
    (is "?A \<longleftrightarrow> ?B \<or> ?C")
  proof
    assume ?A
    then obtain t where "(M(s \<mapsto> mem)) t = Some x" "i div leaf_ids nc = desc_id w' t div leaf_ids nc" by blast
    then show "?B \<or> ?C" using id [of t] by (cases "t = s") (auto simp: domI)
  next
    assume "?B \<or> ?C"
    then show ?A
    proof
      assume ?B
      then show ?A using id [of s] by (intro exI [of _ s]) simp
    next
      assume ?C
      then obtain t where "M t = Some x" "i div leaf_ids nc = desc_id w t div leaf_ids nc" by blast
      moreover from this sM have "t \<noteq> s" "t \<in> dom M" by auto
      ultimately show ?A using id [of t] by (intro exI [of _ t]) simp
    qed
  qed
  show "P' (leaf_path (ns_consts nc) i) = Some x \<longleftrightarrow>
      (\<exists>t. (M(s \<mapsto> mem)) t = Some x \<and> i div leaf_ids nc = desc_id w' t div leaf_ids nc)"
  proof (cases "i div leaf_ids nc = desc_id w s div leaf_ids nc")
    case True
    then have "\<not> (\<exists>t. M t = Some x \<and> i div leaf_ids nc = desc_id w t div leaf_ids nc)" using uniq by blast
    then show ?thesis unfolding AB new using True by auto
  next
    case False
    then show ?thesis unfolding AB new using old by simp
  qed
qed

lemma ns_leaves_drop:
  assumes ok: "ns_ok nc" and lv: "ns_leaves nc w M P" and d: "ns_descs nc w M E fr" and s: "M s = Some mem"
    and id: "\<And>t. t \<in> dom M \<Longrightarrow> desc_id w' t = desc_id w t"
  shows "ns_leaves nc w' (M(s := None)) (P(leaf_path (ns_consts nc) (desc_id w s) := None))"
  unfolding ns_leaves_def
proof (intro allI impI)
  fix i :: nat and x assume i: "i < 2 ^ id_bits nc"
  let ?P = "P(leaf_path (ns_consts nc) (desc_id w s) := None)"
  have b: "desc_id w s < 2 ^ id_bits nc" using d s by (auto simp: ns_descs_def desc_ok_def)
  have same: "leaf_path (ns_consts nc) i = leaf_path (ns_consts nc) (desc_id w s) \<longleftrightarrow> i div leaf_ids nc = desc_id w s div leaf_ids nc"
    by (rule leaf_path_eq [OF ns_levels(1) [OF ok] i b])
  have old: "P (leaf_path (ns_consts nc) i) = Some x \<longleftrightarrow> (\<exists>t. M t = Some x \<and> i div leaf_ids nc = desc_id w t div leaf_ids nc)"
    using lv i by (simp add: ns_leaves_def)
  have uniq: "t = s" if "M t = Some y" "desc_id w t div leaf_ids nc = desc_id w s div leaf_ids nc" for t y
    using that s by (intro ns_leaf_unique [OF d]) auto
  have AB: "(\<exists>t. (M(s := None)) t = Some x \<and> i div leaf_ids nc = desc_id w' t div leaf_ids nc) \<longleftrightarrow>
    (\<exists>t. t \<noteq> s \<and> M t = Some x \<and> i div leaf_ids nc = desc_id w t div leaf_ids nc)"
    using id by (intro arg_cong [of _ _ Ex] ext) (auto simp: domI)
  show "?P (leaf_path (ns_consts nc) i) = Some x \<longleftrightarrow>
      (\<exists>t. (M(s := None)) t = Some x \<and> i div leaf_ids nc = desc_id w' t div leaf_ids nc)"
  proof (cases "i div leaf_ids nc = desc_id w s div leaf_ids nc")
    case True
    then have "\<not> (\<exists>t. t \<noteq> s \<and> M t = Some x \<and> i div leaf_ids nc = desc_id w t div leaf_ids nc)" using uniq by metis
    then show ?thesis unfolding AB using True same by simp
  next
    case False
    then have "(\<exists>t. t \<noteq> s \<and> M t = Some x \<and> i div leaf_ids nc = desc_id w t div leaf_ids nc) \<longleftrightarrow>
      (\<exists>t. M t = Some x \<and> i div leaf_ids nc = desc_id w t div leaf_ids nc)" by metis
    then show ?thesis unfolding AB using False same old by simp
  qed
qed

text \<open>A step that keeps all blocks and their cells keeps the trie.\<close>

lemma ns_trie_kept:
  assumes t: "ns_trie c (ran M) w v P" and r: "roomy 0 w'"
    and b: "\<And>b sz. w_blocks w b = Some sz \<Longrightarrow> w_blocks w' b = Some sz" and e: "\<And>x. in_use w x \<Longrightarrow> w_ert w' x = w_ert w x"
  shows "ns_trie c (ran M) w' v P"
proof (rule ns_trie_frame [OF t r])
  have "ran M \<subseteq> dom (w_blocks w)" using t by (simp add: ns_trie_def cells_inv_def)
  then show "ran M \<subseteq> dom (w_blocks w')" using b by blast
  fix a sz x assume a: "w_blocks w a = Some sz" "a \<notin> ran M"
  then show "a \<notin> ran M \<and> w_blocks w' a = Some sz \<and> (in_block a sz x \<longrightarrow> w_ert w' x = w_ert w x)"
    using b e in_useI by blast
qed

end
