(* ===== verification/Ns_Alloc.thy ===== *)
theory Ns_Alloc
  imports Ns_Frame
begin

text \<open>
  \<open>ps_slab_nsalloc\<close> keeps the state of a namespace: first the descriptor, off the free list or new with
  the next range of identities, then its leaf and the leaf's place in the trie.
\<close>

section \<open>Small steps\<close>

definition set_ns :: "addr \<Rightarrow> ps_ns_info \<Rightarrow> world \<Rightarrow> world" where
  "set_ns m ni w = (case w_mem w m of None \<Rightarrow> w | Some me \<Rightarrow> w\<lparr>w_mem := (w_mem w)(m \<mapsto> me\<lparr>me_ns_info := ni\<rparr>)\<rparr>)"

lemma set_ns_fields [simp]:
  "w_blocks (set_ns m ni w) = w_blocks w" "w_answers (set_ns m ni w) = w_answers w" "w_mh (set_ns m ni w) = w_mh w"
  "w_sl (set_ns m ni w) = w_sl w" "w_ls (set_ns m ni w) = w_ls w" "w_ert (set_ns m ni w) = w_ert w"
  "m' \<noteq> m \<Longrightarrow> w_mem (set_ns m ni w) m' = w_mem w m'" "get_pc m' c (set_ns m ni w) = get_pc m' c w"
  by (auto simp: set_ns_def get_pc_def split: option.split)

lemma get_set_ns: "get_ns m w = Some ni0 \<Longrightarrow> get_ns m (set_ns m ni w) = Some ni"
  by (auto simp: set_ns_def get_ns_def)

lemma upd_ns_set: "get_ns m w = Some ni \<Longrightarrow> upd_ns m f w = Some (set_ns m (f ni) w)"
  by (auto simp: set_ns_def get_ns_def upd_ns_def)

lemma set_set_ns [simp]: "set_ns m ni' (set_ns m ni w) = set_ns m ni' w"
  by (auto simp: set_ns_def split: option.split)

lemma set_ns_other: "set_ns m ni (w\<lparr>w_ls := ls\<rparr>) = (set_ns m ni w)\<lparr>w_ls := ls\<rparr>"
  by (auto simp: set_ns_def split: option.split)

lemma get_ns_ls [simp]: "get_ns m (w\<lparr>w_ls := ls\<rparr>) = get_ns m w" "get_ns m (w\<lparr>w_sl := sls\<rparr>) = get_ns m w"
  "get_ns m (w\<lparr>w_ert := h\<rparr>) = get_ns m w"
  by (simp_all add: get_ns_def)

lemma get_pc_ls [simp]: "get_pc m c (w\<lparr>w_ls := ls\<rparr>) = get_pc m c w" "get_pc m c (w\<lparr>w_sl := sls\<rparr>) = get_pc m c w"
  "get_pc m c (w\<lparr>w_ert := h\<rparr>) = get_pc m c w"
  by (simp_all add: get_pc_def)

lemma set_get_ns: "get_ns m w = Some ni \<Longrightarrow> set_ns m ni w = w"
  by (auto simp: set_ns_def get_ns_def map_upd_triv)

lemma ns_lock_take_set: "get_ns m w = Some ni \<Longrightarrow> ns_lock ni = 0 \<Longrightarrow> ns_lock_take m w = Some (set_ns m (ni\<lparr>ns_lock := 1\<rparr>) w)"
  by (simp add: ns_lock_take_def ps_lock_take_try_eq upd_ns_set)

lemma ns_lock_release_set: "get_ns m w = Some ni \<Longrightarrow> ns_lock_release m w = Some (set_ns m (ni\<lparr>ns_lock := 0\<rparr>) w)"
  by (simp add: ns_lock_release_def ps_lock_release_def upd_ns_set)

lemma on_ns_fl_set:
  "get_ns m w = Some ni \<Longrightarrow> f (ns_fl ni) (w_ls w) = Some (fl, ls) \<Longrightarrow>
   on_ns_fl f m w = Some (set_ns m (ni\<lparr>ns_fl := fl\<rparr>) (w\<lparr>w_ls := ls\<rparr>))"
  by (simp add: on_ns_fl_def upd_ns_set)

section \<open>Descriptors\<close>

text \<open>What the slab allocator itself does.\<close>

lemma ns_inv_own:
  assumes o: "own_step (nsp k gh' nc here) m M w w'" and inv: "ns_inv gh nc m w M E FL F R P"
  shows "ns_inv gh nc m w' M E FL F R P"
proof -
  obtain ni where I: "ns_ok nc" "gh \<noteq> m" "set FL \<subseteq> E" "ns_heads gh w (dom M \<union> E) F R" "ns_blocks nc w M F" "ns_leaves nc w M P"
    "get_ns m w = Some ni" "ns_info_ok nc ni" "pl.list_at SLAB_LIST (w_ls w) (ns_fl ni) FL"
    "ns_descs nc w M E (unat (ns_frontier ni))" "ns_trie (ns_consts nc) (ran M) w (ns_ert ni) P"
    using ns_invD [OF inv] .
  have O: "w_blocks w' = w_blocks w" "w_answers w' = w_answers w" "w_ert w' = w_ert w" "w_mem w' gh = w_mem w gh"
    "get_ns m w' = get_ns m w" "\<And>s. map_option slab_ids (w_sl w' s) = map_option slab_ids (w_sl w s)"
    "\<And>s. s \<notin> dom M \<Longrightarrow> w_sl w' s = w_sl w s" "\<And>x. x \<notin> slab_links M \<Longrightarrow> w_ls w' x = w_ls w x"
    "\<And>x. x \<notin> slab_heads (nsp k gh' nc here) M \<Longrightarrow> w_mh w' x = w_mh w x"
    using o I(2) by (auto simp: own_step_def)
  have dis: "dom M \<inter> E = {}" using I(10) by (simp add: ns_descs_def)
  have nh: "x \<notin> slab_heads (nsp k gh' nc here) M" if "heads_cell F x" for x
    using that ns_leaf_places(3) [OF I(1,4,5), where k = k and gh' = gh' and here = here] unfolding slab_heads_def ran_def by blast
  have "ns_heads gh w' (dom M \<union> E) F R"
  proof (rule ns_heads_frame [OF I(4) O(4)])
    show "blocks_ok (w_blocks w')" using ns_heads_binv [OF I(4)] by (simp add: O(1) def_binv_def)
    fix x assume x: "heads_cell F x"
    show "w_mh w' x = w_mh w x \<and> (x \<notin> dom M \<union> E \<longrightarrow> w_sl w' x = w_sl w x) \<and>
      (x \<notin> (\<lambda>s. s + SLAB_LIST) ` (dom M \<union> E) \<longrightarrow> w_ls w' x = w_ls w x)"
      using O(9) [OF nh [OF x]] O(7) [of x] O(8) [of x] by (auto simp: slab_links_def)
  qed (simp add: O(1))
  moreover have "ns_blocks nc w' M F" using I(5) by (simp add: ns_blocks_def O(1))
  moreover have "ns_leaves nc w' M P" using I(6) desc_id_cong [OF O(6)] by (simp add: ns_leaves_def)
  moreover have "pl.list_at SLAB_LIST (w_ls w') (ns_fl ni) FL"
  proof -
    have "w_ls w' (s + SLAB_LIST) = w_ls w (s + SLAB_LIST)" if "s \<in> set FL" for s
    proof (rule O(8))
      have "s \<notin> dom M" using that I(3) dis by blast
      then show "s + SLAB_LIST \<notin> slab_links M" by (auto simp: slab_links_def)
    qed
    from list_at_frame [of FL "w_ls w'" SLAB_LIST "w_ls w", OF this] I(9) show ?thesis by simp
  qed
  moreover have "ns_descs nc w' M E (unat (ns_frontier ni))" by (rule ns_descs_cong [OF I(10) O(6)])
  moreover have "ns_trie (ns_consts nc) (ran M) w' (ns_ert ni) P"
    using I(11) by (simp add: ns_trie_def cells_inv_def roomy_def O)
  ultimately show ?thesis using I O(5) unfolding ns_inv_def by auto
qed

section \<open>A descriptor\<close>

text \<open>Changes of the list of descriptors and of the frontier.\<close>

lemma ns_inv_ns:
  assumes inv: "ns_inv gh nc m w M E FL F R P" and g: "get_ns m w = Some ni"
    and ni': "ns_info_ok nc ni'" "ns_ert ni' = ns_ert ni" "pl.list_at SLAB_LIST ls (ns_fl ni') FL'" "set FL' \<subseteq> E"
    and d: "ns_descs nc w M E (unat (ns_frontier ni'))"
    and ls: "\<And>x. x \<notin> (\<lambda>s. s + SLAB_LIST) ` E \<Longrightarrow> ls x = w_ls w x"
  shows "ns_inv gh nc m (set_ns m ni' (w\<lparr>w_ls := ls\<rparr>)) M E FL' F R P"
proof -
  let ?w = "set_ns m ni' (w\<lparr>w_ls := ls\<rparr>)"
  have I: "ns_ok nc" "gh \<noteq> m" "ns_heads gh w (dom M \<union> E) F R" "ns_blocks nc w M F" "ns_leaves nc w M P"
    "ns_trie (ns_consts nc) (ran M) w (ns_ert ni) P"
    using inv g unfolding ns_inv_def by auto
  have "ns_heads gh ?w (dom M \<union> E) F R"
  proof (rule ns_heads_frame [OF I(3)])
    show "blocks_ok (w_blocks ?w)" using ns_heads_binv [OF I(3)] by (simp add: def_binv_def)
    show "w_mem ?w gh = w_mem w gh" using I(2) by simp
    fix x
    show "w_mh ?w x = w_mh w x \<and> (x \<notin> dom M \<union> E \<longrightarrow> w_sl ?w x = w_sl w x) \<and>
      (x \<notin> (\<lambda>s. s + SLAB_LIST) ` (dom M \<union> E) \<longrightarrow> w_ls ?w x = w_ls w x)" using ls [of x] by auto
  qed simp
  moreover have "ns_blocks nc ?w M F" using I(4) by (simp add: ns_blocks_def)
  moreover have "ns_leaves nc ?w M P" using I(5) by (simp add: ns_leaves_def desc_id_def)
  moreover have "ns_descs nc ?w M E (unat (ns_frontier ni'))" by (rule ns_descs_cong [OF d]) simp
  moreover have "ns_trie (ns_consts nc) (ran M) ?w (ns_ert ni') P"
    using I(6) ni'(2) by (simp add: ns_trie_def cells_inv_def roomy_def)
  moreover have "get_ns m ?w = Some ni'" by (rule get_set_ns) (simp add: g)
  ultimately show ?thesis using I(1,2) ni' unfolding ns_inv_def by simp
qed

text \<open>Off the free list.\<close>

lemma ns_take_listed:
  assumes inv: "ns_inv gh nc m w M (set (s # FL)) (s # FL) F R P" and g: "get_ns m w = Some ni"
  shows "\<exists>fl ls. ns_fl ni = s \<and> s \<noteq> null \<and> slab_freelist_rem s s (w_ls w) = Some (fl, ls) \<and>
    ns_inv gh nc m (set_ns m (ni\<lparr>ns_fl := fl, ns_lock := 0\<rparr>) (w\<lparr>w_ls := ls\<rparr>)) M (insert s (set FL)) FL F R P \<and>
    s \<notin> dom M \<and> s \<notin> set FL \<and> ls (s + SLAB_LIST) \<noteq> None \<and>
    ns_keeps nc m M w (set_ns m (ni\<lparr>ns_fl := fl, ns_lock := 0\<rparr>) (w\<lparr>w_ls := ls\<rparr>))"
proof -
  have I: "ns_info_ok nc ni" "pl.list_at SLAB_LIST (w_ls w) (ns_fl ni) ([] @ s # FL)" "ns_descs nc w M (set (s # FL)) (unat (ns_frontier ni))"
    using inv g unfolding ns_inv_def by auto
  have s: "ns_fl ni = s" "s \<noteq> null" using I(2) by (auto simp: pl.list_at_def)
  have dis: "s \<notin> set FL" using I(2) pl.ring_distinct [of SLAB_LIST "w_ls w" "s # FL"] by (simp add: pl.list_at_def)
  from pl.list_at_rem [OF I(2)] obtain fl ls where ls:
    "(if ns_fl ni = s then Option.bind (ps_list_singleton s SLAB_LIST (w_ls w))
        (\<lambda>e. if e then Some null else ps_list_next s SLAB_LIST (w_ls w)) else Some (ns_fl ni)) = Some fl"
    "ps_list_rem s SLAB_LIST (w_ls w) = Some ls" "pl.list_at SLAB_LIST ls fl FL" "objs_dll SLAB_LIST ls [s]"
    by auto
  have rem: "slab_freelist_rem s s (w_ls w) = Some (fl, ls)" using ls(1,2) s by (simp add: slab_freelist_rem_def)
  have out: "ls x = w_ls w x" if "x \<notin> (\<lambda>s. s + SLAB_LIST) ` set (s # FL)" for x
    using list_at_rem_cells [OF I(2) ls(2)] that by simp
  let ?w = "set_ns m (ni\<lparr>ns_fl := fl, ns_lock := 0\<rparr>) (w\<lparr>w_ls := ls\<rparr>)"
  have "ns_inv gh nc m ?w M (set (s # FL)) FL F R P"
    by (rule ns_inv_ns [OF inv g]) (use I ls(3) out in \<open>auto simp: ns_info_ok_def\<close>)
  moreover have d: "dom M \<inter> set (s # FL) = {}" using I(3) by (simp add: ns_descs_def)
  moreover have "ls (s + SLAB_LIST) \<noteq> None" using ls(4) by (auto simp: objs_dll_def get_ll_Some)
  moreover have "ns_keeps nc m M w ?w"
  proof -
    have "ls (t + SLAB_LIST) = w_ls w (t + SLAB_LIST)" if "M t = Some mem" for t mem
      by (rule out) (use that d in auto)
    then show ?thesis by (simp add: ns_keeps_def same_cells_def)
  qed
  ultimately show ?thesis using s rem dis by (intro exI [of _ fl] exI [of _ ls]) auto
qed

text \<open>With the next identities.\<close>

lemma ns_take_new:
  assumes inv: "ns_inv gh nc m w M {} [] F R P" and g: "get_ns m w = Some ni" and r: "roomy (Suc j) w" and c: "fst here < PS_NUMCORES"
    and fr: "unat (ns_frontier ni) + leaf_ids nc < 2 ^ 64" and mx: "unat (ns_frontier ni) < 2 ^ id_bits nc"
  shows "\<exists>s w1 sl w2 F' R'. ps_slab_alloc_slabhead ps_plat_alloc_linux ps_plat_free_linux k gh here
      (set_ns m (ni\<lparr>ns_frontier := ns_frontier ni + ns_range nc, ns_lock := 0\<rparr>) w) = Some (s, w1) \<and> s \<noteq> null \<and> w_sl w1 s = Some sl \<and>
    w2 = w1\<lparr>w_sl := (w_sl w1)(s \<mapsto> sl\<lparr>sl_start := ns_frontier ni, sl_end := ns_frontier ni + ns_range nc\<rparr>)\<rparr> \<and>
    ns_inv gh nc m w2 M {s} [] F' R' P \<and> s \<notin> dom M \<and> w_ls w2 (s + SLAB_LIST) \<noteq> None \<and> roomy j w2 \<and> ns_keeps nc m M w w2"
proof -
  let ?ni = "ni\<lparr>ns_frontier := ns_frontier ni + ns_range nc, ns_lock := 0\<rparr>"
  let ?w = "set_ns m ?ni w"
  have I: "ns_ok nc" "gh \<noteq> m" "ns_heads gh w (dom M) F R" "ns_blocks nc w M F" "ns_leaves nc w M P"
    "ns_info_ok nc ni" "pl.list_at SLAB_LIST (w_ls w) (ns_fl ni) []"
    "ns_descs nc w M {} (unat (ns_frontier ni))" "ns_trie (ns_consts nc) (ran M) w (ns_ert ni) P"
    using inv g unfolding ns_inv_def by auto
  note rng = ns_range_nat [OF I(1)]
  have u: "unat (ns_frontier ni + ns_range nc) = unat (ns_frontier ni) + leaf_ids nc"
    using fr rng(1) by (simp add: unat_add_small)
  have "ns_heads gh ?w (dom M) F R"
  proof (rule ns_heads_frame [OF I(3)])
    show "blocks_ok (w_blocks ?w)" using ns_heads_binv [OF I(3)] by (simp add: def_binv_def)
    show "w_mem ?w gh = w_mem w gh" using I(2) by simp
  qed simp_all
  then have hi: "heads_inv gh ?w F R" and D: "ps_mhead_get ` dom M \<subseteq> live shp F no_remotes" by (simp_all add: ns_heads_def)
  have r': "roomy (Suc j) ?w" using r by (simp add: roomy_def)
  obtain h w1 F' R' where 1: "ps_slab_alloc_slabhead ps_plat_alloc_linux ps_plat_free_linux k gh here ?w = Some (ps_mhead_mem h, w1)"
    "ps_mhead_mem h \<noteq> null" "heads_inv gh w1 F' R'" "roomy j w1" "h \<notin> live shp F no_remotes"
    "live shp F' no_remotes = insert h (live shp F no_remotes)" "spare w1 (ps_mhead_mem h)"
    "\<forall>s. mems F' s = mems F s \<or> w_blocks ?w s = None" "heads_frame gh (mems F) (in_use ?w) ?w w1"
    using heads_alloc [OF hi r' c, of k] by (elim exE conjE) (rule that)
  let ?s = "ps_mhead_mem h"
  obtain sl where sl: "w_sl w1 ?s = Some sl" "sl_memory sl = null" and ls: "w_ls w1 (?s + SLAB_LIST) \<noteq> None"
    using 1(7) by (auto simp: spare_def)
  let ?w2 = "w1\<lparr>w_sl := (w_sl w1)(?s \<mapsto> sl\<lparr>sl_start := ns_frontier ni, sl_end := ns_frontier ni + ns_range nc\<rparr>)\<rparr>"
  have sD: "?s \<notin> dom M" using D 1(5) by force
  have fr1: "w_mem w1 m = w_mem ?w m" "\<And>b sz. w_blocks w b = Some sz \<Longrightarrow> w_blocks w1 b = Some sz"
    "\<And>x. in_use w x \<Longrightarrow> w_ert w1 x = w_ert w x \<and> (x \<notin> dom (mems F) \<longrightarrow> w_sl w1 x = w_sl w x) \<and>
       (x \<notin> slab_links (mems F) \<longrightarrow> w_ls w1 x = w_ls w x) \<and> (x \<notin> slab_heads shp (mems F) \<longrightarrow> w_mh w1 x = w_mh w x)"
    using 1(9) I(2) by (auto simp: heads_frame_def in_use_def)
  have old: "w_sl w1 t = w_sl w t" "w_ls w1 (t + SLAB_LIST) = w_ls w (t + SLAB_LIST)" if t: "t \<in> dom M" for t
  proof -
    note p = ns_desc_place [OF I(3) t]
    have "t + SLAB_LIST \<notin> slab_links (mems F)" using p(2) by (auto simp: slab_links_def)
    then show "w_sl w1 t = w_sl w t" "w_ls w1 (t + SLAB_LIST) = w_ls w (t + SLAB_LIST)"
      using fr1(3) heads_cell_in_use [OF I(3)] p(2-4) by auto
  qed
  have sl2: "w_sl ?w2 t = w_sl w t" if "t \<in> dom M" for t using old(1) [OF that] that sD by auto
  then have ids: "desc_id ?w2 t = desc_id w t" if "t \<in> dom M" for t using that by (simp add: desc_id_def)
  have bl: "blocks_ok (w_blocks w1)" using 1(3) by (simp add: heads_inv_def slab_state_def def_binv_def)
  have h1: "ns_heads gh w1 (insert ?s (dom M)) F' R'" using 1(3,6) D by (auto simp: ns_heads_def)
  have "ns_heads gh ?w2 (insert ?s (dom M)) F' R'" by (rule ns_heads_frame [OF h1 _ _]) (use bl in auto)
  moreover have "ns_blocks nc ?w2 M F'"
  proof -
    have "w_blocks w1 mem = Some (ns_objmemsz nc * ns_range nc) \<and> mems F' mem = None" if "M t = Some mem" for t mem
    proof -
      have "w_blocks w mem = Some (ns_objmemsz nc * ns_range nc)" "mems F mem = None" using I(4) that by (simp_all add: ns_blocks_def)
      with 1(8) fr1(2) show ?thesis by (metis option.distinct(1) set_ns_fields(1))
    qed
    then show ?thesis using I(4) by (simp add: ns_blocks_def)
  qed
  moreover have "ns_leaves nc ?w2 M P" by (rule ns_leaves_cong [OF I(5) ids])
  moreover have "ns_descs nc ?w2 M {?s} (unat (ns_frontier ni) + leaf_ids nc)"
    by (rule ns_descs_new [where sl = "sl\<lparr>sl_start := ns_frontier ni, sl_end := ns_frontier ni + ns_range nc\<rparr>", OF I(1,8) mx sD _ _ _ sl2])
       (use sl(2) in simp_all)
  moreover have "ns_trie (ns_consts nc) (ran M) ?w2 (ns_ert ni) P"
    by (rule ns_trie_kept [OF I(9)]) (use 1(4) fr1(2,3) in \<open>auto simp: roomy_def\<close>)
  moreover have "get_ns m ?w2 = Some ?ni" using fr1(1) get_set_ns [OF g, of ?ni] by (simp add: get_ns_def)
  moreover have "ns_info_ok nc ?ni" "pl.list_at SLAB_LIST (w_ls ?w2) (ns_fl ?ni) []"
    using I(6,7) by (simp_all add: ns_info_ok_def pl.list_at_def)
  ultimately have "ns_inv gh nc m ?w2 M {?s} [] F' R' P"
    using I(1,2) u unfolding ns_inv_def by simp
  moreover have "ns_keeps nc m M w ?w2"
  proof (rule ns_keepsI [OF I(1,3,4)])
    have "get_pc m e ?w2 = get_pc m e ?w" for e using fr1(1) by (simp add: get_pc_def)
    then show "get_pc m e ?w2 = get_pc m e w" for e by simp
    show "w_sl ?w2 t = w_sl w t \<and> w_ls ?w2 (t + SLAB_LIST) = w_ls w (t + SLAB_LIST)" if "t \<in> dom M" for t
      using sl2 [OF that] old(2) [OF that] by simp
    show "w_mh ?w2 x = w_mh w x" if "in_use w x" "\<not> heads_cell F x" for x
      using fr1(3) [OF that(1)] slab_heads_cell [OF I(3), of x] that(2) by auto
  qed
  moreover have "roomy j ?w2" using 1(4) by (simp add: roomy_def)
  ultimately show ?thesis using 1(1,2) sl(1) sD ls by (intro exI [of _ ?s] exI [of _ w1] exI [of _ sl] exI [of _ ?w2]) auto
qed

text \<open>Both ways: what \<open>nsalloc_slab\<close> does.\<close>

lemma nsalloc_slab_ok:
  assumes inv: "ns_inv gh nc m w M (set FL) FL F R P" and g: "get_ns m w = Some ni" and r: "roomy (Suc j) w"
    and c: "fst here < PS_NUMCORES" and fr: "unat (ns_frontier ni) + leaf_ids nc < 2 ^ 64"
  shows "\<exists>s b i w1. nsalloc_slab ps_plat_alloc_linux ps_plat_free_linux k gh here m w = Some (s, b, i, w1) \<and>
    ns_keeps nc m M w w1 \<and> roomy j w1 \<and>
    (if s = null then \<not> b \<and> ns_inv gh nc m w1 M {} [] F R P \<and> 2 ^ id_bits nc \<le> unat (ns_frontier ni) \<and>
       (\<exists>ni. get_ns m w1 = Some ni \<and> 2 ^ id_bits nc \<le> unat (ns_frontier ni) \<and> ns_fl ni = null)
     else \<exists>FL' F' R'. ns_inv gh nc m w1 M (insert s (set FL')) FL' F' R' P \<and> s \<notin> dom M \<and> s \<notin> set FL' \<and>
       w_ls w1 (s + SLAB_LIST) \<noteq> None)"
proof -
  have I: "ns_ok nc" "ns_info_ok nc ni" "pl.list_at SLAB_LIST (w_ls w) (ns_fl ni) FL" "ns_descs nc w M (set FL) (unat (ns_frontier ni))"
    using inv g unfolding ns_inv_def by auto
  have ni: "ns_lock ni = 0" "ns_desc_range ni = ns_range nc" "unat (ns_desc_max ni) = 2 ^ id_bits nc"
    using I(2) by (simp_all add: ns_info_ok_def)
  have take: "ns_lock_take m w = Some (set_ns m (ni\<lparr>ns_lock := 1\<rparr>) w)" by (rule ns_lock_take_set [OF g ni(1)])
  have g1: "get_ns m (set_ns m x w) = Some x" for x by (rule get_set_ns [OF g])
  show ?thesis
  proof (cases FL)
    case (Cons s FL')
    note inv' = inv [unfolded Cons]
    from ns_take_listed [OF inv' g] obtain fl ls where s: "ns_fl ni = s" "s \<noteq> null" and rem: "slab_freelist_rem s s (w_ls w) = Some (fl, ls)"
      and res: "ns_inv gh nc m (set_ns m (ni\<lparr>ns_fl := fl, ns_lock := 0\<rparr>) (w\<lparr>w_ls := ls\<rparr>)) M (insert s (set FL')) FL' F R P"
        "s \<notin> dom M" "s \<notin> set FL'" "ls (s + SLAB_LIST) \<noteq> None"
        "ns_keeps nc m M w (set_ns m (ni\<lparr>ns_fl := fl, ns_lock := 0\<rparr>) (w\<lparr>w_ls := ls\<rparr>))" by blast
    let ?w = "set_ns m (ni\<lparr>ns_fl := fl, ns_lock := 0\<rparr>) (w\<lparr>w_ls := ls\<rparr>)"
    have "on_ns_fl (\<lambda>fl. slab_freelist_rem fl s) m (set_ns m (ni\<lparr>ns_lock := 1\<rparr>) w) =
        Some (set_ns m (ni\<lparr>ns_lock := 1, ns_fl := fl\<rparr>) (w\<lparr>w_ls := ls\<rparr>))"
      using on_ns_fl_set [OF g1, of "\<lambda>fl. slab_freelist_rem fl s" "ni\<lparr>ns_lock := 1\<rparr>" fl ls] rem s(1)
      by (simp add: set_ns_other)
    moreover have "ns_lock_release m (set_ns m (ni\<lparr>ns_lock := 1, ns_fl := fl\<rparr>) (w\<lparr>w_ls := ls\<rparr>)) = Some ?w"
      using ns_lock_release_set [OF get_set_ns, of m "w\<lparr>w_ls := ls\<rparr>" ni "ni\<lparr>ns_lock := 1, ns_fl := fl\<rparr>"] g by simp
    ultimately have "nsalloc_slab ps_plat_alloc_linux ps_plat_free_linux k gh here m w = Some (s, False, 0, ?w)"
      using g take g1 s by (simp add: nsalloc_slab_def)
    moreover have "roomy j ?w" using roomy_mono [OF r] by (simp add: roomy_def)
    ultimately show ?thesis using res s(2)
      by (intro exI [of _ s] exI [of _ False] exI [of _ 0] exI [of _ ?w]) auto
  next
    case Nil
    have fl: "ns_fl ni = null" using I(3) Nil by (simp add: pl.list_at_def)
    have inv': "ns_inv gh nc m w M {} [] F R P" using inv Nil by simp
    let ?ni = "ni\<lparr>ns_frontier := ns_frontier ni + ns_range nc, ns_lock := 0\<rparr>"
    have rel: "ns_lock_release m (set_ns m (ni\<lparr>ns_lock := 1\<rparr>) w) = Some (set_ns m (ni\<lparr>ns_lock := 0\<rparr>) w)"
      using ns_lock_release_set [OF g1, of "ni\<lparr>ns_lock := 1\<rparr>"] by simp
    have up: "upd_ns m (\<lambda>ni. ni\<lparr>ns_frontier := x\<rparr>) (set_ns m (ni\<lparr>ns_lock := 0\<rparr>) w) = Some (set_ns m (ni\<lparr>ns_frontier := x, ns_lock := 0\<rparr>) w)" for x
    proof -
      have e: "ni\<lparr>ns_lock := 0, ns_frontier := x\<rparr> = ni\<lparr>ns_frontier := x, ns_lock := 0\<rparr>" by simp
      show ?thesis using upd_ns_set [OF g1, of "\<lambda>ni. ni\<lparr>ns_frontier := x\<rparr>" "ni\<lparr>ns_lock := 0\<rparr>"]
        unfolding e by simp
    qed
    have run: "nsalloc_slab ps_plat_alloc_linux ps_plat_free_linux k gh here m w =
      (if ns_frontier ni \<ge> ns_desc_max ni then Some (null, False, ns_frontier ni, set_ns m ?ni w)
       else do {
         (s, w) \<leftarrow> ps_slab_alloc_slabhead ps_plat_alloc_linux ps_plat_free_linux k gh here (set_ns m ?ni w);
         if s = null then Some (null, False, ns_frontier ni, w)
         else do {
           w \<leftarrow> upd_slab s (\<lambda>sl. sl\<lparr>sl_start := ns_frontier ni\<rparr>) w;
           w \<leftarrow> upd_slab s (\<lambda>sl. sl\<lparr>sl_end := sl_start sl + ns_range nc\<rparr>) w;
           Some (s, True, ns_frontier ni, w) } })"
      using g take g1 rel up fl ni(2) by (simp add: nsalloc_slab_def ps_faa_def Let_def cong: if_cong)
    show ?thesis
    proof (cases "ns_frontier ni \<ge> ns_desc_max ni")
      case True
      have up: "unat (ns_frontier ni + ns_range nc) = unat (ns_frontier ni) + leaf_ids nc"
        using fr ns_range_nat(1) [OF I(1)] by (simp add: unat_add_small)
      have "ns_descs nc w M {} (unat (ns_frontier ni) + leaf_ids nc)"
        using I(4) Nil desc_ok_mono [of nc w "unat (ns_frontier ni)" _ _ "unat (ns_frontier ni) + leaf_ids nc"]
        unfolding ns_descs_def by auto
      with up have "ns_inv gh nc m (set_ns m ?ni (w\<lparr>w_ls := w_ls w\<rparr>)) M {} [] F R P"
        using I(2,3) Nil by (intro ns_inv_ns [OF inv' g]) (simp_all add: ns_info_ok_def)
      moreover have "ns_keeps nc m M w (set_ns m ?ni w)" by (simp add: ns_keeps_def same_cells_def)
      moreover have "roomy j (set_ns m ?ni w)" using roomy_mono [OF r] by (simp add: roomy_def)
      moreover have max: "2 ^ id_bits nc \<le> unat (ns_frontier ni)" using True ni(3) by (simp add: word_le_nat_alt)
      moreover have "2 ^ id_bits nc \<le> unat (ns_frontier ?ni)" using up max by simp
      ultimately show ?thesis using run True get_set_ns [OF g, of ?ni] fl
        by (intro exI [of _ null] exI [of _ False] exI [of _ "ns_frontier ni"] exI [of _ "set_ns m ?ni w"]) simp
    next
      case False
      then have "unat (ns_frontier ni) < 2 ^ id_bits nc" using ni(3) by (simp add: word_le_nat_alt)
      from ns_take_new [OF inv' g r c fr this, of k] obtain s w1 sl w2 F' R' where
        1: "ps_slab_alloc_slabhead ps_plat_alloc_linux ps_plat_free_linux k gh here (set_ns m ?ni w) = Some (s, w1)" "s \<noteq> null"
        "w_sl w1 s = Some sl" "w2 = w1\<lparr>w_sl := (w_sl w1)(s \<mapsto> sl\<lparr>sl_start := ns_frontier ni, sl_end := ns_frontier ni + ns_range nc\<rparr>)\<rparr>"
        "ns_inv gh nc m w2 M {s} [] F' R' P" "s \<notin> dom M" "w_ls w2 (s + SLAB_LIST) \<noteq> None" "roomy j w2" "ns_keeps nc m M w w2"
        by (elim exE conjE) (rule that)
      have "nsalloc_slab ps_plat_alloc_linux ps_plat_free_linux k gh here m w = Some (s, True, ns_frontier ni, w2)"
        using run False 1(1-4) by (simp add: upd_slab_def)
      moreover have "\<exists>FL' F' R'. ns_inv gh nc m w2 M (insert s (set FL')) FL' F' R' P \<and> s \<notin> dom M \<and> s \<notin> set FL' \<and>
          w_ls w2 (s + SLAB_LIST) \<noteq> None"
        using 1(5-7) by (intro exI [of _ "[]"] exI [of _ F'] exI [of _ R']) auto
      ultimately show ?thesis using 1(2,8,9)
        by (intro exI [of _ s] exI [of _ True] exI [of _ "ns_frontier ni"] exI [of _ w2]) simp
    qed
  qed
qed

section \<open>Its leaf\<close>

lemma memset_zero_block: "memset_zero a sz (zero_block a sz w) = Some (zero_block a sz w)"
  by (simp add: memset_zero_def zero_block_def fill_def fun_eq_iff)

text \<open>The state once a descriptor has a leaf.\<close>

lemma ns_add_leaf:
  assumes inv: "ns_inv gh nc m w M (insert s (set FL)) FL F R P" and g: "get_ns m w = Some ni"
    and s: "s \<notin> dom M" "s \<notin> set FL" and sl: "w_sl w s = Some sl"
    and mem: "w_blocks w mem = None" "w_blocks w' mem = Some (ns_objmemsz nc * ns_range nc)"
    and frm: "w_mem w' = w_mem w" "\<And>b sz. w_blocks w b = Some sz \<Longrightarrow> w_blocks w' b = Some sz" "blocks_ok (w_blocks w')"
    and fr: "\<And>x. in_use w x \<Longrightarrow> w_mh w' x = w_mh w x \<and> w_ls w' x = w_ls w x \<and>
      w_sl w' x = (if x = s then Some (sl\<lparr>sl_memory := mem\<rparr>) else w_sl w x)"
    and t: "ns_trie (ns_consts nc) (insert mem (ran M)) w' (ns_ert ni) P'"
    and P': "\<And>q. length q = ert_levels (ns_consts nc) - 1 \<Longrightarrow>
      P' q = (if q = leaf_path (ns_consts nc) (desc_id w s) then Some mem else P q)"
  shows "ns_inv gh nc m w' (M(s \<mapsto> mem)) (set FL) FL F R P'" "ns_keeps nc m M w w'"
proof -
  let ?E = "insert s (set FL)"
  have I: "ns_ok nc" "gh \<noteq> m" "ns_heads gh w (dom M \<union> ?E) F R" "ns_blocks nc w M F" "ns_leaves nc w M P"
    "ns_info_ok nc ni" "pl.list_at SLAB_LIST (w_ls w) (ns_fl ni) FL" "ns_descs nc w M ?E (unat (ns_frontier ni))"
    using inv g unfolding ns_inv_def by auto
  have use: "in_use w x" if "heads_cell F x" for x using heads_cell_in_use [OF I(3) that] .
  note sp = ns_desc_place [OF I(3)]
  have D: "dom (M(s \<mapsto> mem)) \<union> set FL = dom M \<union> ?E" by auto
  have slw: "w_sl w' x = (if x = s then Some (sl\<lparr>sl_memory := mem\<rparr>) else w_sl w x)" "w_ls w' (x + SLAB_LIST) = w_ls w (x + SLAB_LIST)"
    if "x \<in> dom M \<union> ?E" for x
    using fr [OF use [OF sp(3) [OF that]]] fr [OF use [OF sp(4) [OF that]]] by simp_all
  have ids: "desc_id w' x = desc_id w x" if "x \<in> dom M \<union> ?E" for x using slw(1) [OF that] sl by (simp add: desc_id_def)
  have "ns_heads gh w' (dom (M(s \<mapsto> mem)) \<union> set FL) F R"
    unfolding D
  proof (rule ns_heads_frame [OF I(3) _ frm(3)])
    show "w_mem w' gh = w_mem w gh" using frm(1) by simp
    show "w_blocks w' x = w_blocks w x" if "mems F x \<noteq> None" for x
      using that frm(2) heads_cell_block(2) [OF I(3)] by fastforce
    fix x assume "heads_cell F x"
    from fr [OF use [OF this]] show "w_mh w' x = w_mh w x \<and> (x \<notin> dom M \<union> ?E \<longrightarrow> w_sl w' x = w_sl w x) \<and>
      (x \<notin> (\<lambda>s. s + SLAB_LIST) ` (dom M \<union> ?E) \<longrightarrow> w_ls w' x = w_ls w x)" by auto
  qed
  moreover have "ns_blocks nc w' (M(s \<mapsto> mem)) F"
  proof -
    have "mem \<notin> ran M" using I(4) mem(1) by (auto simp: ns_blocks_def ran_def)
    then have "inj_on (M(s \<mapsto> mem)) (dom (M(s \<mapsto> mem)))"
      using I(4) s(1) unfolding ns_blocks_def inj_on_def ran_def by (auto split: if_splits)
    moreover have "mems F mem = None" using heads_cell_block(2) [OF I(3), of mem] mem(1) by (cases "mems F mem") auto
    ultimately show ?thesis using I(4) frm(2) mem(2) by (simp add: ns_blocks_def)
  qed
  moreover have "ns_leaves nc w' (M(s \<mapsto> mem)) P'" by (rule ns_leaves_add [OF I(1,5,8)]) (use P' ids in auto)
  moreover have "get_ns m w' = Some ni" using g frm(1) by (simp add: get_ns_def)
  moreover have "pl.list_at SLAB_LIST (w_ls w') (ns_fl ni) FL"
    using list_at_frame [of FL "w_ls w'" SLAB_LIST "w_ls w"] slw(2) I(7) by simp
  moreover have "ns_descs nc w' (M(s \<mapsto> mem)) (set FL) (unat (ns_frontier ni))"
  proof -
    have "ns_descs nc w' (M(s \<mapsto> mem)) (?E - {s}) (unat (ns_frontier ni))"
      by (rule ns_descs_memory(1) [OF I(8) _ sl]) (use slw(1) in simp_all)
    then show ?thesis using s(2) by simp
  qed
  moreover have "ns_trie (ns_consts nc) (ran (M(s \<mapsto> mem))) w' (ns_ert ni) P'" using t s(1) by (simp add: ran_map_upd domIff)
  ultimately show "ns_inv gh nc m w' (M(s \<mapsto> mem)) (set FL) FL F R P'"
    using I(1,2,6) unfolding ns_inv_def by blast
  show "ns_keeps nc m M w w'"
  proof (rule ns_keepsI [OF I(1,3,4)])
    show "get_pc m e w' = get_pc m e w" for e using frm(1) by (simp add: get_pc_def)
    show "w_sl w' x = w_sl w x \<and> w_ls w' (x + SLAB_LIST) = w_ls w (x + SLAB_LIST)" if "x \<in> dom M" for x
      using slw [of x] that s(1) by auto
  qed (use fr in simp)
qed

text \<open>The rest of \<open>ps_slab_nsalloc\<close>, from a descriptor without memory.\<close>

lemma ns_get_leaf:
  assumes inv: "ns_inv gh nc m w M (insert s (set FL)) FL F R P" and g: "get_ns m w = Some ni"
    and s: "s \<notin> dom M" "s \<notin> set FL" "w_ls w (s + SLAB_LIST) \<noteq> None"
    and r: "roomy (Suc (j + (ert_levels (ns_consts nc) - 1))) w"
  shows "\<exists>sl mem w2 w3 w4 P'. w_sl w s = Some sl \<and> sl_memory sl = null \<and>
    ps_plat_alloc_linux (ns_objmemsz nc * ns_range nc) w = Some (mem, w2) \<and> mem \<noteq> null \<and>
    memset_zero mem (ns_objmemsz nc * ns_range nc) w2 = Some w2 \<and> upd_slab s (\<lambda>sl. sl\<lparr>sl_memory := mem\<rparr>) w2 = Some w3 \<and>
    get_ns m w3 = Some ni \<and> w_sl w3 s = Some (sl\<lparr>sl_memory := mem\<rparr>) \<and>
    ns_lkup ps_plat_alloc_linux ni (sl_start sl) (ns_ert_depth ni) w3 = Some (Cell null) \<and>
    ns_expand ps_plat_alloc_linux ni (sl_start sl) (ns_ert_depth ni) mem w3 = Some (0, w4) \<and>
    ns_lkup ps_plat_alloc_linux ni (sl_start sl) (ns_ert_depth ni) w4 = Some (Cell mem) \<and>
    ns_inv gh nc m w4 (M(s \<mapsto> mem)) (set FL) FL F R P' \<and> roomy j w4 \<and> ns_keeps nc m M w w4 \<and>
    fresh_slab (nsp 0 0 nc (0, 0)) w4 s mem \<and>
    (\<forall>t mem'. M t = Some mem' \<longrightarrow> set (slab_objs (nsp 0 0 nc (0, 0)) mem') \<inter> set (slab_objs (nsp 0 0 nc (0, 0)) mem) = {})"
proof -
  let ?c = "ns_consts nc" and ?sz = "ns_objmemsz nc * ns_range nc" and ?E = "insert s (set FL)" and ?p = "nsp 0 0 nc (0, 0)"
  have I: "ns_ok nc" "gh \<noteq> m" "ns_heads gh w (dom M \<union> ?E) F R" "ns_blocks nc w M F" "ns_leaves nc w M P"
    "ns_info_ok nc ni" "pl.list_at SLAB_LIST (w_ls w) (ns_fl ni) FL"
    "ns_descs nc w M ?E (unat (ns_frontier ni))" "ns_trie ?c (ran M) w (ns_ert ni) P"
    using inv g unfolding ns_inv_def by auto
  note L = ns_levels [OF I(1)]
  obtain sl where sl: "w_sl w s = Some sl" "sl_memory sl = null" using I(8) by (auto simp: ns_descs_def desc_ok_def)
  have id: "desc_id w s = unat (sl_start sl)" using sl by (simp add: desc_id_def)
  have ido: "unat (sl_start sl) < 2 ^ id_bits nc" "leaf_ids nc dvd unat (sl_start sl)"
    using I(8) desc_ok_id [of nc w _ s null] unfolding id by (auto simp: ns_descs_def)
  have szn: "unat ?sz = unat (ns_objmemsz nc) * leaf_ids nc" "unat ?sz < 2 ^ 31" using ns_sizes(2) [OF I(1), of 0 0 "(0, 0)"] ns_sizes(3) [OF I(1)] by simp_all
  then have "unat ?sz \<le> 2 ^ 32" by simp
  from plat_alloc_ok [OF r this] obtain mem w2 where mem: "ps_plat_alloc_linux ?sz w = Some (mem, w2)"
    "w2 = zero_block mem ?sz (w\<lparr>w_answers := tl (w_answers w)\<rparr>)" "mem \<noteq> null" "w_blocks w mem = None" "good_block (w_blocks w) mem ?sz"
    "roomy (j + (ert_levels ?c - 1)) w2" "\<forall>x. in_use w x \<longrightarrow> \<not> in_block mem ?sz x" by blast
  let ?w3 = "w2\<lparr>w_sl := (w_sl w2)(s \<mapsto> sl\<lparr>sl_memory := mem\<rparr>)\<rparr>"
  have use: "in_use w x" if "heads_cell F x" for x using heads_cell_in_use [OF I(3) that] .
  note sp = ns_desc_place [OF I(3)]
  have "w_sl w2 s = Some sl" using sl(1) mem(7) use [OF sp(3) [of s]] by (simp add: mem(2) zero_block_def fill_def)
  then have u: "upd_slab s (\<lambda>sl. sl\<lparr>sl_memory := mem\<rparr>) w2 = Some ?w3" by (simp add: upd_slab_def)
  have f2: "plat_frame w w2" unfolding mem(2) by (rule zero_block_frame [OF mem(4,7)])
  have t3: "ns_trie ?c (insert mem (ran M)) ?w3 (ns_ert ni) P"
  proof (rule ns_trie_frame [OF I(9)])
    show "roomy 0 ?w3" using mem(6) by (simp add: roomy_def)
    show "insert mem (ran M) \<subseteq> dom (w_blocks ?w3)" using I(4) by (auto simp: ns_blocks_def ran_def mem(2) zero_block_def)
    fix b sz x assume b: "w_blocks w b = Some sz" "b \<notin> ran M"
    have "b \<noteq> mem" using b(1) mem(4) by auto
    with b show "b \<notin> insert mem (ran M) \<and> w_blocks ?w3 b = Some sz \<and> (in_block b sz x \<longrightarrow> w_ert ?w3 x = w_ert w x)"
      using mem(7) in_useI [OF b(1), of x] by (auto simp: mem(2) zero_block_def fill_def)
  qed
  have none: "P (leaf_path ?c (unat (sl_start sl))) = None"
    using ns_no_leaf [OF I(1,5,8), of s] id by simp
  have dep: "(ucast (ns_ert_depth ni) :: u32) = ec_depth ?c" "ns_lkupfn ni = Some ?c" "ns_expandfn ni = Some ?c"
    using I(6) L(3) by (simp_all add: ns_info_ok_def)
  have l1: "ns_lkup ps_plat_alloc_linux ni (sl_start sl) (ns_ert_depth ni) ?w3 = Some (Cell null)"
    using ns_trie_lookup [OF L(2) t3 ido(1), of null] none by (simp add: ns_lkup_def dep)
  have r3: "roomy (j + (ert_levels ?c - 1)) ?w3" using mem(6) by (simp add: roomy_def)
  from ns_trie_expand [OF L(2,1) t3 r3 ido(1) mem(3) none, of null] obtain w4 P' where
    4: "ert_expandn linux_ns ?c (ns_ert ni) (sl_start sl) (ec_depth ?c) null mem null ?w3 = Some (0, w4)" "plat_frame ?w3 w4"
    "ns_trie ?c (insert mem (ran M)) w4 (ns_ert ni) P'" "roomy j w4"
    "\<forall>q. length q = ert_levels ?c - 1 \<longrightarrow> P' q = (if q = leaf_path ?c (unat (sl_start sl)) then Some mem else P q)" by blast
  have ex: "ns_expand ps_plat_alloc_linux ni (sl_start sl) (ns_ert_depth ni) mem ?w3 = Some (0, w4)"
    using 4(1) by (simp add: ns_expand_def dep)
  have bmem: "w_blocks ?w3 mem = Some ?sz" by (simp add: mem(2) zero_block_def)
  have um: "in_use ?w3 x" if "in_block mem ?sz x" for x by (rule in_useI [OF bmem that])
  have inm: "in_block mem ?sz mem"
    using szn(1) ns_objmemsz_bounds(1) [OF I(1)] ns_range_nat(2) [OF I(1)] by (simp add: in_block_def)
  have mhm: "w_mh w4 x = Some zero_mheader" if "in_block mem ?sz x" for x
    using 4(2) um [OF that] that by (simp add: plat_frame_def mem(2) zero_block_def fill_def)
  have l2: "ns_lkup ps_plat_alloc_linux ni (sl_start sl) (ns_ert_depth ni) w4 = Some (Cell mem)"
  proof -
    have "leaf_entry ?c mem (unat (sl_start sl)) = mem"
      using leaf_entry_obj [OF I(1), of mem "unat (sl_start sl)" 0 0 "(0, 0)"] ido(2) by (simp add: obj_at_def dvd_eq_mod_eq_0)
    then show ?thesis
      using ns_trie_lookup [OF L(2) 4(3) ido(1), of null] 4(5) mhm [OF inm]
      by (simp add: ns_lkup_def dep ps_mhead_isfree_def zero_mheader_def)
  qed
  have use3: "in_use ?w3 x" if "in_use w x" for x
    using plat_frame_in_use [OF f2 that] by (simp add: in_use_def)
  have fr: "w_mh w4 x = w_mh w x" "w_ls w4 x = w_ls w x" "w_sl w4 x = (if x = s then Some (sl\<lparr>sl_memory := mem\<rparr>) else w_sl w x)"
    if "in_use w x" for x
    using that f2 4(2) use3 [OF that] by (simp_all add: plat_frame_def)
  have bl: "w_mem w4 = w_mem w" "\<And>b sz. w_blocks w b = Some sz \<Longrightarrow> w_blocks w4 b = Some sz" "w_blocks w4 mem = Some ?sz"
    using f2 4(2) bmem by (simp_all add: plat_frame_def)
  have bl4: "blocks_ok (w_blocks w4)" using 4(4) by (simp add: roomy_def)
  have "P' q = (if q = leaf_path ?c (desc_id w s) then Some mem else P q)" if "length q = ert_levels ?c - 1" for q
    using 4(5) that id by simp
  from ns_add_leaf [OF inv g s(1,2) sl(1) mem(4) bl(3,1,2) bl4 _ 4(3) this] fr
  have inv4: "ns_inv gh nc m w4 (M(s \<mapsto> mem)) (set FL) FL F R P'" and keeps: "ns_keeps nc m M w w4" by simp_all
  have us: "in_use w s" "in_use w (s + SLAB_LIST)" using use sp(3,4) [of s] by auto
  note places = ns_leaf_places(3) [OF I(1,3,4), where k = 0 and gh' = 0 and here = "(0, 0)"]
  have ft: "fits ?p mem" using mem(3,5) by (auto simp: good_block_def fits_def)
  note objs = leaf_obj_in_block [OF I(1) ft]
  have "fresh_slab ?p w4 s mem"
    using ns_desc_nonnull [OF I(3), of s] ft mhm objs fr(2,3) us s(3) by (auto simp: fresh_slab_def)
  moreover have "set (slab_objs ?p mem') \<inter> set (slab_objs ?p mem) = {}" if "M t = Some mem'" for t mem'
    using places [OF that] objs mem(7) by auto
  ultimately show ?thesis using sl mem(1,3) memset_zero_block [of mem ?sz "w\<lparr>w_answers := tl (w_answers w)\<rparr>"] u g l1 ex l2 inv4 4(4) keeps
    by (intro exI [of _ sl] exI [of _ mem] exI [of _ w2] exI [of _ ?w3] exI [of _ w4] exI [of _ P'])
       (simp add: mem(2) get_ns_def zero_block_def)
qed

end
