(* ===== verification/Ns_Free.thy ===== *)
theory Ns_Free
  imports Ns_Alloc
begin

text \<open>
  \<open>ps_slab_nsfree\<close> keeps the state of a namespace: the leaf goes back to the platform, the entry that pointed
  to it is cleared, and the descriptor goes on the free list with its identities.
\<close>

text \<open>The leaf given back and its entry cleared.\<close>

lemma ns_drop_leaf:
  assumes inv: "ns_inv gh nc m w M (set FL) FL F R P" and g: "get_ns m w = Some ni" and s: "M s = Some mem"
    and w1: "w1 = drop_block mem (ns_objmemsz nc * ns_range nc) w"
    and w3: "w3 = w1\<lparr>w_ert := h, w_sl := (w_sl w1)(s \<mapsto> sl\<lparr>sl_memory := null\<rparr>)\<rparr>" and sl: "w_sl w s = Some sl"
    and t: "ns_trie (ns_consts nc) (ran (M(s := None))) w3 (ns_ert ni) (P(leaf_path (ns_consts nc) (desc_id w s) := None))"
  shows "ns_inv gh nc m w3 (M(s := None)) (insert s (set FL)) FL F R (P(leaf_path (ns_consts nc) (desc_id w s) := None))"
    "ns_keeps nc m (M(s := None)) w w3"
proof -
  let ?sz = "ns_objmemsz nc * ns_range nc" and ?M = "M(s := None)" and ?P = "P(leaf_path (ns_consts nc) (desc_id w s) := None)"
  have I: "ns_ok nc" "gh \<noteq> m" "ns_heads gh w (dom M \<union> set FL) F R" "ns_blocks nc w M F" "ns_leaves nc w M P"
    "ns_info_ok nc ni" "pl.list_at SLAB_LIST (w_ls w) (ns_fl ni) FL"
    "ns_descs nc w M (set FL) (unat (ns_frontier ni))"
    using inv g unfolding ns_inv_def by auto
  have sM: "s \<in> dom M" using s by blast
  have D: "dom ?M \<union> insert s (set FL) = dom M \<union> set FL" using sM by auto
  have sFL: "s \<notin> set FL" using I(8) sM by (auto simp: ns_descs_def)
  note sp = ns_desc_place [OF I(3)]
  have fr: "w_mh w3 x = w_mh w x" "w_ls w3 x = w_ls w x" "w_sl w3 x = (if x = s then Some (sl\<lparr>sl_memory := null\<rparr>) else w_sl w x)"
    if "\<not> in_block mem ?sz x" for x
    using that by (simp_all add: w3 w1 drop_block_def fill_def)
  have hc: "\<not> in_block mem ?sz x" if "heads_cell F x" for x by (rule leaf_apart [OF I(3,4) s that])
  have frm: "w_mem w3 = w_mem w" "w_blocks w3 = (w_blocks w)(mem := None)" by (simp_all add: w3 w1 drop_block_def)
  have ids: "desc_id w3 x = desc_id w x" if "x \<in> dom M \<union> set FL" for x
    using fr(3) [OF hc [OF sp(3) [OF that]]] sl by (simp add: desc_id_def)
  have bok: "blocks_ok (w_blocks w3)"
    using ns_heads_binv [OF I(3)] by (simp add: frm(2) def_binv_def blocks_ok_drop)
  have "ns_heads gh w3 (dom ?M \<union> insert s (set FL)) F R"
    unfolding D
  proof (rule ns_heads_frame [OF I(3) _ bok])
    show "w_blocks w3 x = w_blocks w x" if "mems F x \<noteq> None" for x
      using that I(4) s by (auto simp: frm(2) ns_blocks_def)
    fix x assume "heads_cell F x"
    then show "w_mh w3 x = w_mh w x \<and> (x \<notin> dom M \<union> set FL \<longrightarrow> w_sl w3 x = w_sl w x) \<and>
      (x \<notin> (\<lambda>s. s + SLAB_LIST) ` (dom M \<union> set FL) \<longrightarrow> w_ls w3 x = w_ls w x)"
      using fr [OF hc] sM by auto
  qed (simp add: frm(1))
  moreover have ne: "x \<noteq> mem" if "?M y = Some x" for x y
    using that I(4) s unfolding ns_blocks_def inj_on_def by (metis domI fun_upd_apply option.distinct(1))
  have "ns_blocks nc w3 ?M F"
    unfolding ns_blocks_def
  proof (intro conjI allI impI)
    have "inj_on M (dom M)" using I(4) by (simp add: ns_blocks_def)
    then show "inj_on ?M (dom ?M)" unfolding inj_on_def by auto
    fix y x assume y: "?M y = Some x"
    then have "M y = Some x" by (simp split: if_splits)
    then show "w_blocks w3 x = Some ?sz" "mems F x = None" using I(4) ne [OF y] by (simp_all add: ns_blocks_def frm(2))
  qed
  moreover have "ns_leaves nc w3 ?M ?P" by (rule ns_leaves_drop [OF I(1,5,8) s]) (use ids in simp)
  moreover have "get_ns m w3 = Some ni" using g frm(1) by (simp add: get_ns_def)
  moreover have "pl.list_at SLAB_LIST (w_ls w3) (ns_fl ni) FL"
    using list_at_frame [of FL "w_ls w3" SLAB_LIST "w_ls w"] fr(2) [OF hc [OF sp(4)]] I(7) by simp
  moreover have "ns_descs nc w3 ?M (insert s (set FL)) (unat (ns_frontier ni))"
    by (rule ns_descs_memory(2) [OF I(8) _ sl]) (use fr(3) [OF hc [OF sp(3)]] sM in auto)
  ultimately show "ns_inv gh nc m w3 ?M (insert s (set FL)) FL F R ?P"
    using I(1,2,6) t unfolding ns_inv_def by auto
  show "ns_keeps nc m ?M w w3"
    unfolding ns_keeps_def
  proof (intro conjI allI impI)
    show "get_pc m e w3 = get_pc m e w" for e using frm(1) by (simp add: get_pc_def)
    fix x y assume xy: "?M x = Some y"
    then have x: "x \<in> dom M \<union> set FL" "x \<noteq> s" "M x = Some y" by (auto split: if_splits)
    note places = ns_leaf_places [OF I(1,3,4) x(3)]
    have "\<not> in_block mem ?sz z" if "z \<in> set (slab_objs (nsp 0 0 nc (0, 0)) y)" for z
    proof
      assume z: "in_block mem ?sz z"
      have "blocks_ok (w_blocks w)" using ns_heads_binv [OF I(3)] by (simp add: def_binv_def)
      moreover have "w_blocks w mem = Some ?sz" using I(4) s by (simp add: ns_blocks_def)
      moreover have "in_block y ?sz z" by (rule leaf_obj_in_block [OF I(1) places(2) that])
      ultimately have "y = mem" using block_unique [of "w_blocks w"] places(1) z by blast
      then show False using ne [OF xy] by simp
    qed
    then show "same_cells (nsp 0 0 nc (0, 0)) w w3 x y"
      using fr [OF hc [OF sp(3) [OF x(1)]]] fr [OF hc [OF sp(4) [OF x(1)]]] fr(1) x(2) by (simp add: same_cells_def)
  qed
qed

lemma ucast_dec:
  assumes "1 \<le> unat (d :: u32)"
  shows "(ucast (ucast d - 1 :: u64) :: u32) = d - 1"
proof -
  have u: "unat (ucast d :: u64) = unat d" by (rule unat_ucast_u64)
  then have "unat (ucast d - 1 :: u64) = unat d - 1" using assms by (subst unat_dec) auto
  moreover have "unat d < 2 ^ LENGTH(32)" by (rule unsigned_less)
  then have "unat d - 1 < 2 ^ 32" by simp
  ultimately have "unat (ucast (ucast d - 1 :: u64) :: u32) = unat d - 1"
    by (simp add: unsigned_ucast_eq take_bit_nat_eq_self)
  moreover have "unat (d - 1) = unat d - 1" using assms by (simp add: unat_dec_u32)
  ultimately show ?thesis by (simp add: word_unat_eq_iff)
qed

text \<open>A descriptor without memory put on the free list.\<close>

lemma ns_list_desc:
  assumes inv: "ns_inv gh nc m w M (insert s (set FL)) FL F R P" and g: "get_ns m w = Some ni"
    and s: "s \<notin> set FL" "s \<noteq> null" and dl: "objs_dll SLAB_LIST (w_ls w) [s]"
  shows "\<exists>ls FL'. do { w \<leftarrow> ns_lock_take m w; w \<leftarrow> on_ns_fl (\<lambda>fl. slab_freelist_add fl s) m w; ns_lock_release m w } =
      Some (set_ns m (ni\<lparr>ns_fl := s, ns_lock := 0\<rparr>) (w\<lparr>w_ls := ls\<rparr>)) \<and>
    ns_inv gh nc m (set_ns m (ni\<lparr>ns_fl := s, ns_lock := 0\<rparr>) (w\<lparr>w_ls := ls\<rparr>)) M (set FL') FL' F R P \<and>
    ns_keeps nc m M w (set_ns m (ni\<lparr>ns_fl := s, ns_lock := 0\<rparr>) (w\<lparr>w_ls := ls\<rparr>))"
proof -
  have J: "pl.list_at SLAB_LIST (w_ls w) (ns_fl ni) FL" "ns_info_ok nc ni" "ns_descs nc w M (insert s (set FL)) (unat (ns_frontier ni))"
    using inv g unfolding ns_inv_def by auto
  from pl.list_at_add [OF J(1) dl s] obtain ls where
    ls: "(if ns_fl ni \<noteq> null then ps_list_add (ns_fl ni) s SLAB_LIST (w_ls w) else Some (w_ls w)) = Some ls"
    "pl.list_at SLAB_LIST ls s (s # tl FL @ take 1 FL)" by blast
  let ?FL = "s # tl FL @ take 1 FL" and ?w = "set_ns m (ni\<lparr>ns_fl := s, ns_lock := 0\<rparr>) (w\<lparr>w_ls := ls\<rparr>)"
  have setFL: "set ?FL = insert s (set FL)" by (cases FL) auto
  have ne: "s \<noteq> ns_fl ni" using J(1) s by (cases FL) (auto simp: pl.list_at_def)
  have add: "slab_freelist_add (ns_fl ni) s (w_ls w) = Some (s, ls)"
    using ls(1) ne s(2) pl.ring_single [OF dl] by (simp add: slab_freelist_add_def)
  have out: "ls y = w_ls w y" if "y \<notin> (\<lambda>s. s + SLAB_LIST) ` insert s (set FL)" for y
    by (rule list_at_add_cells [OF J(1) dl s(1) ls(1) that])
  have "ns_inv gh nc m ?w M (insert s (set FL)) ?FL F R P"
    by (rule ns_inv_ns [OF inv g]) (use J ls(2) setFL out in \<open>auto simp: ns_info_ok_def\<close>)
  then have fin: "ns_inv gh nc m ?w M (set ?FL) ?FL F R P" unfolding setFL .
  have take: "ns_lock_take m w = Some (set_ns m (ni\<lparr>ns_lock := 1\<rparr>) w)"
    by (rule ns_lock_take_set [OF g]) (use J(2) in \<open>simp add: ns_info_ok_def\<close>)
  have "on_ns_fl (\<lambda>fl. slab_freelist_add fl s) m (set_ns m (ni\<lparr>ns_lock := 1\<rparr>) w) =
      Some (set_ns m (ni\<lparr>ns_lock := 1, ns_fl := s\<rparr>) (w\<lparr>w_ls := ls\<rparr>))"
    using on_ns_fl_set [OF get_set_ns [OF g], of "\<lambda>fl. slab_freelist_add fl s" "ni\<lparr>ns_lock := 1\<rparr>" s ls] add
    by (simp add: set_ns_other)
  moreover have "ns_lock_release m (set_ns m (ni\<lparr>ns_lock := 1, ns_fl := s\<rparr>) (w\<lparr>w_ls := ls\<rparr>)) = Some ?w"
    using ns_lock_release_set [OF get_set_ns, of m "w\<lparr>w_ls := ls\<rparr>" ni "ni\<lparr>ns_lock := 1, ns_fl := s\<rparr>"] g by simp
  ultimately have "do { w \<leftarrow> ns_lock_take m w; w \<leftarrow> on_ns_fl (\<lambda>fl. slab_freelist_add fl s) m w; ns_lock_release m w } = Some ?w"
    using take by simp
  moreover have "ns_keeps nc m M w ?w"
  proof -
    have "ls (t + SLAB_LIST) = w_ls w (t + SLAB_LIST)" if "M t = Some y" for t y
    proof (rule out)
      have "t \<notin> insert s (set FL)" using that J(3) unfolding ns_descs_def by blast
      then show "t + SLAB_LIST \<notin> (\<lambda>s. s + SLAB_LIST) ` insert s (set FL)" by auto
    qed
    then show ?thesis by (simp add: ns_keeps_def same_cells_def)
  qed
  ultimately show ?thesis using fin by blast
qed

text \<open>The whole function.\<close>

text \<open>With the leaf given back, the entry that pointed to it is found and can be cleared.\<close>

lemma ns_trie_without_leaf:
  assumes inv: "ns_inv gh nc m w M (set FL) FL F R P" and g: "get_ns m w = Some ni" and s: "M s = Some mem"
    and w1: "w1 = drop_block mem (ns_objmemsz nc * ns_range nc) w"
  shows "ns_trie (ns_consts nc) (ran (M(s := None))) w1 (ns_ert ni) P"
proof -
  let ?c = "ns_consts nc" and ?sz = "ns_objmemsz nc * ns_range nc" and ?M = "M(s := None)"
  have I: "ns_heads gh w (dom M \<union> set FL) F R" "ns_blocks nc w M F" "ns_trie ?c (ran M) w (ns_ert ni) P"
    using inv g unfolding ns_inv_def by auto
  have bm: "w_blocks w mem = Some ?sz" using I(2) s by (simp add: ns_blocks_def)
  have bok: "blocks_ok (w_blocks w)" using ns_heads_binv [OF I(1)] by (simp add: def_binv_def)
  have ij: "inj_on M (dom M)" using I(2) by (simp add: ns_blocks_def)
  have ranM: "ran ?M \<subseteq> ran M" by (auto simp: ran_def)
  have nr: "mem \<notin> ran ?M"
  proof
    assume "mem \<in> ran ?M"
    then obtain a where "M a = Some mem" "a \<noteq> s" by (auto simp: ran_def split: if_splits)
    then show False using inj_onD [OF ij, of a s] s by (simp add: domI)
  qed
  have rm: "roomy 0 w" using I(3) by (simp add: ns_trie_def cells_inv_def)
  have dom1: "ran ?M \<subseteq> dom (w_blocks w1)"
  proof
    fix y assume y: "y \<in> ran ?M"
    then obtain a where "M a = Some y" using ranM by (auto simp: ran_def)
    moreover have "y \<noteq> mem" using y nr by auto
    ultimately show "y \<in> dom (w_blocks w1)" using I(2) by (auto simp: ns_blocks_def w1 drop_block_def)
  qed
  show ?thesis
  proof (rule ns_trie_frame [OF I(3) _ dom1])
    show "roomy 0 w1" by (rule roomy_drop [OF rm]) (simp_all add: w1 drop_block_def)
    fix b z x assume b: "w_blocks w b = Some z" "b \<notin> ran M"
    have "b \<noteq> mem" using b(2) s by (auto simp: ran_def)
    moreover have "\<not> in_block mem ?sz x" if "in_block b z x"
      using block_unique [OF bok b(1) bm that] calculation by blast
    ultimately show "b \<notin> ran ?M \<and> w_blocks w1 b = Some z \<and> (in_block b z x \<longrightarrow> w_ert w1 x = w_ert w x)"
      using b ranM by (auto simp: w1 drop_block_def fill_def)
  qed
qed

lemma ns_clear_entry:
  assumes inv: "ns_inv gh nc m w M (set FL) FL F R P" and g: "get_ns m w = Some ni" and s: "M s = Some mem"
    and sl: "w_sl w s = Some sl" and w1: "w1 = drop_block mem (ns_objmemsz nc * ns_range nc) w"
  obtains x where "ns_lkup ps_plat_alloc_linux ni (sl_start sl) (ns_ert_depth ni - 1) w1 = Some (Cell x)"
    "w_ert w1 x = Some mem"
    "ns_lkup ps_plat_alloc_linux ni (sl_start sl) (ns_ert_depth ni) (w1\<lparr>w_ert := (w_ert w1)(x \<mapsto> null)\<rparr>) = Some (Cell null)"
    "ns_trie (ns_consts nc) (ran (M(s := None))) (w1\<lparr>w_ert := (w_ert w1)(x \<mapsto> null)\<rparr>) (ns_ert ni)
      (P(leaf_path (ns_consts nc) (desc_id w s) := None))"
proof -
  let ?c = "ns_consts nc" and ?M = "M(s := None)" and ?P = "P(leaf_path (ns_consts nc) (desc_id w s) := None)"
  have I: "ns_ok nc" "ns_info_ok nc ni" "ns_leaves nc w M P" "ns_descs nc w M (set FL) (unat (ns_frontier ni))"
    using inv g unfolding ns_inv_def by auto
  note L = ns_levels [OF I(1)]
  have id: "desc_id w s = unat (sl_start sl)" using sl by (simp add: desc_id_def)
  have ido: "unat (sl_start sl) < 2 ^ id_bits nc" using I(4) s desc_ok_id [of nc w _ s mem] unfolding id by (auto simp: ns_descs_def)
  have t1: "ns_trie ?c (ran ?M) w1 (ns_ert ni) P" by (rule ns_trie_without_leaf [OF inv g s w1])
  have Ps: "P (leaf_path ?c (unat (sl_start sl))) = Some mem"
    using I(3) ido s id unfolding ns_leaves_def by auto
  from ns_trie_above [OF L(2,1) t1 ido Ps, of null] obtain x where
    x: "ert_lkupan linux_ns ?c (ns_ert ni) (sl_start sl) (ec_depth ?c - 1) null w1 = Some (Cell x)" "w_ert w1 x = Some mem"
    "ert_rep (ert_levels ?c - 1) ?c ((w_ert w1)(x \<mapsto> null)) (ns_ert ni) ?P" unfolding id by blast
  have dn: "2 \<le> unat (nc_depth nc)" using I(1) by (simp add: ns_ok_def)
  have dep: "ns_ert_depth ni = ucast (nc_depth nc)" "ns_lkupfn ni = Some ?c" using I(2) by (simp_all add: ns_info_ok_def)
  have l1: "ns_lkup ps_plat_alloc_linux ni (sl_start sl) (ns_ert_depth ni - 1) w1 = Some (Cell x)"
    using x(1) ucast_dec [of "nc_depth nc"] dn L(3) by (simp add: ns_lkup_def dep)
  let ?w2 = "w1\<lparr>w_ert := (w_ert w1)(x \<mapsto> null)\<rparr>"
  have "used ?c (ert_levels ?c - 1) ?P = used ?c (ert_levels ?c - 1) P" by (rule used_drop_leaf) simp
  then have t2: "ns_trie ?c (ran ?M) ?w2 (ns_ert ni) ?P"
    using t1 x(3) by (simp add: ns_trie_def cells_inv_def roomy_def)
  have l2: "ns_lkup ps_plat_alloc_linux ni (sl_start sl) (ns_ert_depth ni) ?w2 = Some (Cell null)"
    using ns_trie_lookup [OF L(2) t2 ido, of null] L(3) by (simp add: ns_lkup_def dep id)
  show ?thesis by (rule that [OF l1 x(2) l2 t2])
qed

lemma ns_free_ok:
  assumes inv: "ns_inv gh nc m w M (set FL) FL F R P" and g: "get_ns m w = Some ni" and s: "M s = Some mem"
    and dl: "objs_dll SLAB_LIST (w_ls w) [s]"
  shows "\<exists>w' FL' P' ni'. ps_slab_nsfree ps_plat_alloc_linux ps_plat_free_linux m s sz e w = Some w' \<and>
    ns_inv gh nc m w' (M(s := None)) (set FL') FL' F R P' \<and> ns_keeps nc m (M(s := None)) w w' \<and>
    w_answers w' = w_answers w \<and> w_blocks w' = (w_blocks w)(mem := None) \<and> get_ns m w' = Some ni' \<and>
    ns_frontier ni' = ns_frontier ni"
proof -
  let ?c = "ns_consts nc" and ?sz = "ns_objmemsz nc * ns_range nc" and ?M = "M(s := None)"
  have I: "ns_ok nc" "gh \<noteq> m" "ns_heads gh w (dom M \<union> set FL) F R" "ns_blocks nc w M F" "ns_leaves nc w M P"
    "ns_info_ok nc ni" "pl.list_at SLAB_LIST (w_ls w) (ns_fl ni) FL"
    "ns_descs nc w M (set FL) (unat (ns_frontier ni))" "ns_trie ?c (ran M) w (ns_ert ni) P"
    using inv g unfolding ns_inv_def by auto
  have sM: "s \<in> dom M" using s by blast
  have sFL: "s \<notin> set FL" using I(8) sM by (auto simp: ns_descs_def)
  note sp = ns_desc_place [OF I(3)]
  have sn: "s \<noteq> null" using ns_desc_nonnull [OF I(3), of s] sM by simp
  obtain sl where sl: "w_sl w s = Some sl" "sl_memory sl = mem" using I(8) s unfolding ns_descs_def desc_ok_def by blast
  have bm: "w_blocks w mem = Some ?sz" using I(4) s by (simp add: ns_blocks_def)
  have bok: "blocks_ok (w_blocks w)" using ns_heads_binv [OF I(3)] by (simp add: def_binv_def)
  then have mn: "mem \<noteq> null" using bm by (auto simp: blocks_ok_def)
  define w1 where "w1 = drop_block mem ?sz w"
  have free: "ps_plat_free_linux mem w = Some w1" using bm mn by (simp add: ps_plat_free_linux_def w1_def)
  have sl1: "w_sl w1 s = Some sl"
    using leaf_apart [OF I(3,4) s sp(3)] sM sl(1) by (simp add: w1_def drop_block_def fill_def)
  have g1: "get_ns m w1 = Some ni" using g by (simp add: w1_def drop_block_def get_ns_def)
  let ?P = "P(leaf_path ?c (desc_id w s) := None)"
  obtain x where l1: "ns_lkup ps_plat_alloc_linux ni (sl_start sl) (ns_ert_depth ni - 1) w1 = Some (Cell x)"
    and x: "w_ert w1 x = Some mem"
    and l2: "ns_lkup ps_plat_alloc_linux ni (sl_start sl) (ns_ert_depth ni) (w1\<lparr>w_ert := (w_ert w1)(x \<mapsto> null)\<rparr>) = Some (Cell null)"
    and t2: "ns_trie ?c (ran ?M) (w1\<lparr>w_ert := (w_ert w1)(x \<mapsto> null)\<rparr>) (ns_ert ni) ?P"
    by (rule ns_clear_entry [OF inv g s sl(1) w1_def])
  have gt: "ns_ert_depth ni > 1" using I(1,6) by (auto simp: ns_info_ok_def ns_ok_def word_less_nat_alt unat_ucast_u64)
  define w2 where "w2 = w1\<lparr>w_ert := (w_ert w1)(x \<mapsto> null)\<rparr>"
  define w3 where "w3 = w2\<lparr>w_sl := (w_sl w2)(s \<mapsto> sl\<lparr>sl_memory := null\<rparr>)\<rparr>"
  have w3: "w3 = w1\<lparr>w_ert := (w_ert w1)(x \<mapsto> null), w_sl := (w_sl w1)(s \<mapsto> sl\<lparr>sl_memory := null\<rparr>)\<rparr>"
    by (simp add: w3_def w2_def)
  have t3: "ns_trie ?c (ran ?M) w3 (ns_ert ni) ?P"
    using t2 by (simp add: ns_trie_def cells_inv_def roomy_def w3_def w2_def)
  note inv3 = ns_drop_leaf [OF inv g s w1_def w3 sl(1) t3]
  have g3: "get_ns m w3 = Some ni" using g1 by (simp add: w3)
  have lsc: "w_ls w3 (s + SLAB_LIST) = w_ls w (s + SLAB_LIST)"
    using leaf_apart [OF I(3,4) s sp(4)] sM by (simp add: w3 w1_def drop_block_def fill_def)
  have "dll (w_ls w3) [s + SLAB_LIST] = dll (w_ls w) [s + SLAB_LIST]" by (rule dll_frame) (simp add: lsc)
  then have dl3: "objs_dll SLAB_LIST (w_ls w3) [s]" using dl by (simp add: objs_dll_def)
  from ns_list_desc [OF inv3(1) g3 sFL sn dl3] obtain ls FL' where
    4: "do { w \<leftarrow> ns_lock_take m w3; w \<leftarrow> on_ns_fl (\<lambda>fl. slab_freelist_add fl s) m w; ns_lock_release m w } =
      Some (set_ns m (ni\<lparr>ns_fl := s, ns_lock := 0\<rparr>) (w3\<lparr>w_ls := ls\<rparr>))"
    "ns_inv gh nc m (set_ns m (ni\<lparr>ns_fl := s, ns_lock := 0\<rparr>) (w3\<lparr>w_ls := ls\<rparr>)) ?M (set FL') FL' F R ?P"
    "ns_keeps nc m ?M w3 (set_ns m (ni\<lparr>ns_fl := s, ns_lock := 0\<rparr>) (w3\<lparr>w_ls := ls\<rparr>))" by blast
  let ?w = "set_ns m (ni\<lparr>ns_fl := s, ns_lock := 0\<rparr>) (w3\<lparr>w_ls := ls\<rparr>)"
  have "upd_slab s (\<lambda>sl. sl\<lparr>sl_memory := null\<rparr>) w2 = Some w3"
    using sl1 by (simp add: upd_slab_def w3_def w2_def)
  then have run: "ps_slab_nsfree ps_plat_alloc_linux ps_plat_free_linux m s sz e w = Some ?w"
    using sl free g1 gt sl1 l1 l2 x 4(1) by (simp add: ps_slab_nsfree_def w2_def [symmetric])
  moreover have "ns_keeps nc m ?M w ?w" by (rule ns_keeps_trans [OF inv3(2) 4(3)])
  moreover have "get_ns m ?w = Some (ni\<lparr>ns_fl := s, ns_lock := 0\<rparr>)" by (rule get_set_ns) (simp add: g3)
  ultimately show ?thesis using 4(2)
    by (intro exI [of _ ?w] exI [of _ FL'] exI [of _ ?P] exI [of _ "ni\<lparr>ns_fl := s, ns_lock := 0\<rparr>"])
       (simp add: w3 w1_def drop_block_def)
qed

end
