(* ===== verification/Ns_Correct.thy ===== *)
theory Ns_Correct
  imports Ns_Free
begin

text \<open>
  The functions \<open>ps_slab_nsalloc\<close> and \<open>ps_slab_nsfree\<close> keep the contract \<open>slab_backend\<close>, so the slab
  allocator is correct over them; what a lookup and \<open>ps_ns_desc\<close> then answer.
\<close>

section \<open>The backend of a namespace\<close>

definition ns_binv :: "addr \<Rightarrow> ns_class \<Rightarrow> cpu \<Rightarrow> addr \<Rightarrow> world \<Rightarrow> (addr \<Rightarrow> addr option) \<Rightarrow> bool" where
  "ns_binv gh nc here m w M \<longleftrightarrow> fst here < PS_NUMCORES \<and> (\<exists>FL F R P. ns_inv gh nc m w M (set FL) FL F R P)"

text \<open>Memory for a page of descriptors, a leaf and a path of the trie; and the frontier \<open>f\<close> does not wrap.\<close>

definition ns_ready :: "ns_class \<Rightarrow> u64 \<Rightarrow> addr \<Rightarrow> world \<Rightarrow> bool" where
  "ns_ready nc f m w \<longleftrightarrow> roomy (ert_levels (ns_consts nc) + 1) w \<and> unat f + leaf_ids nc < 2 ^ 64 \<and>
     (\<exists>ni. get_ns m w = Some ni \<and> ns_frontier ni = f)"

text \<open>No memory is handed out only when the identities are used up.\<close>

definition ns_exhausted :: "ns_class \<Rightarrow> addr \<Rightarrow> world \<Rightarrow> bool" where
  "ns_exhausted nc m w \<longleftrightarrow> (\<exists>ni. get_ns m w = Some ni \<and> 2 ^ id_bits nc \<le> unat (ns_frontier ni) \<and> ns_fl ni = null)"

lemma ns_afn:
  assumes b: "ns_binv gh nc here m w M" and r: "ns_ready nc f m w"
  shows "\<exists>s w'. ps_slab_nsalloc ps_plat_alloc_linux ps_plat_free_linux k gh here m (ns_objmemsz nc * ns_range nc) co w = Some (s, w') \<and>
    ns_keeps nc m M w w' \<and>
    (if s = null then ns_binv gh nc here m w' M \<and> ns_exhausted nc m w' \<and> 2 ^ id_bits nc \<le> unat f
     else M s = None \<and> (\<exists>mem. fresh_slab (nsp 0 0 nc (0, 0)) w' s mem \<and> ns_binv gh nc here m w' (M(s \<mapsto> mem)) \<and>
       (\<forall>t mem'. M t = Some mem' \<longrightarrow> set (slab_objs (nsp 0 0 nc (0, 0)) mem') \<inter> set (slab_objs (nsp 0 0 nc (0, 0)) mem) = {})))"
proof -
  let ?L = "ert_levels (ns_consts nc)"
  obtain FL F R P where inv: "ns_inv gh nc m w M (set FL) FL F R P" and c: "fst here < PS_NUMCORES"
    using b by (auto simp: ns_binv_def)
  obtain ni where g: "get_ns m w = Some ni" and f: "ns_frontier ni = f" and fr: "unat (ns_frontier ni) + leaf_ids nc < 2 ^ 64"
    and rm: "roomy (?L + 1) w" using r by (auto simp: ns_ready_def)
  have I: "ns_ok nc" "ns_info_ok nc ni" "pl.list_at SLAB_LIST (w_ls w) (ns_fl ni) FL" using inv g unfolding ns_inv_def by auto
  have "?L + 1 = Suc (Suc (0 + (?L - 1)))" using ns_levels(1) [OF I(1)] by simp
  then have rm': "roomy (Suc (Suc (0 + (?L - 1)))) w" using rm by simp
  have rng: "ns_desc_range ni = ns_range nc" using I(2) by (simp add: ns_info_ok_def)
  from nsalloc_slab_ok [OF inv g rm' c fr, of k] obtain s nw i w1 where
    1: "nsalloc_slab ps_plat_alloc_linux ps_plat_free_linux k gh here m w = Some (s, nw, i, w1)" "ns_keeps nc m M w w1"
    "roomy (Suc (0 + (?L - 1))) w1" and cs: "if s = null then \<not> nw \<and> ns_inv gh nc m w1 M {} [] F R P \<and> 2 ^ id_bits nc \<le> unat (ns_frontier ni) \<and>
       (\<exists>ni. get_ns m w1 = Some ni \<and> 2 ^ id_bits nc \<le> unat (ns_frontier ni) \<and> ns_fl ni = null)
     else \<exists>FL' F' R'. ns_inv gh nc m w1 M (insert s (set FL')) FL' F' R' P \<and> s \<notin> dom M \<and> s \<notin> set FL' \<and>
       w_ls w1 (s + SLAB_LIST) \<noteq> None" by (elim exE conjE) (rule that)
  show ?thesis
  proof (cases "s = null")
    case True
    then have 2: "\<not> nw" "ns_inv gh nc m w1 M {} [] F R P" "ns_exhausted nc m w1" "2 ^ id_bits nc \<le> unat f"
      using cs f by (simp_all add: ns_exhausted_def)
    have "ps_slab_nsalloc ps_plat_alloc_linux ps_plat_free_linux k gh here m (ns_objmemsz nc * ns_range nc) co w = Some (null, w1)"
      using g 1(1) True 2(1) by (simp add: ps_slab_nsalloc_def nsalloc_reset_frontier_def)
    moreover have "ns_binv gh nc here m w1 M" unfolding ns_binv_def using c 2(2) by (intro conjI exI [of _ "[]"] exI [of _ F] exI [of _ R] exI [of _ P]) simp_all
    ultimately show ?thesis using 1(2) 2(3,4) by (intro exI [of _ null] exI [of _ w1]) simp
  next
    case False
    with cs have "\<exists>FL' F' R'. ns_inv gh nc m w1 M (insert s (set FL')) FL' F' R' P \<and> s \<notin> dom M \<and> s \<notin> set FL' \<and>
       w_ls w1 (s + SLAB_LIST) \<noteq> None" by (simp only: if_False)
    then obtain FL' F' R' where inv1: "ns_inv gh nc m w1 M (insert s (set FL')) FL' F' R' P"
      and s: "s \<notin> dom M" "s \<notin> set FL'" "w_ls w1 (s + SLAB_LIST) \<noteq> None" by (elim exE conjE) (rule that)
    obtain ni1 where g1: "get_ns m w1 = Some ni1" using inv1 by (auto simp: ns_inv_def)
    from ns_get_leaf [OF inv1 g1 s 1(3)] obtain sl mem w2 w3 w4 P' where
      2: "w_sl w1 s = Some sl" "sl_memory sl = null" "ps_plat_alloc_linux (ns_objmemsz nc * ns_range nc) w1 = Some (mem, w2)" "mem \<noteq> null"
      "memset_zero mem (ns_objmemsz nc * ns_range nc) w2 = Some w2" "upd_slab s (\<lambda>sl. sl\<lparr>sl_memory := mem\<rparr>) w2 = Some w3"
      "get_ns m w3 = Some ni1" "w_sl w3 s = Some (sl\<lparr>sl_memory := mem\<rparr>)"
      "ns_lkup ps_plat_alloc_linux ni1 (sl_start sl) (ns_ert_depth ni1) w3 = Some (Cell null)"
      "ns_expand ps_plat_alloc_linux ni1 (sl_start sl) (ns_ert_depth ni1) mem w3 = Some (0, w4)"
      "ns_lkup ps_plat_alloc_linux ni1 (sl_start sl) (ns_ert_depth ni1) w4 = Some (Cell mem)"
      and 3: "ns_inv gh nc m w4 (M(s \<mapsto> mem)) (set FL') FL' F' R' P'" "ns_keeps nc m M w1 w4" "fresh_slab (nsp 0 0 nc (0, 0)) w4 s mem"
      "\<forall>t mem'. M t = Some mem' \<longrightarrow> set (slab_objs (nsp 0 0 nc (0, 0)) mem') \<inter> set (slab_objs (nsp 0 0 nc (0, 0)) mem) = {}"
      by (elim exE conjE) (rule that)
    have "ps_slab_nsalloc ps_plat_alloc_linux ps_plat_free_linux k gh here m (ns_objmemsz nc * ns_range nc) co w = Some (s, w4)"
      using g 1(1) False 2 by (simp add: ps_slab_nsalloc_def)
    moreover have "ns_binv gh nc here m w4 (M(s \<mapsto> mem))" unfolding ns_binv_def using c 3(1) by blast
    moreover have "M s = None" using s(1) by (simp add: domIff)
    ultimately show ?thesis using False ns_keeps_trans [OF 1(2) 3(2)] 3(3,4) by (intro exI [of _ s] exI [of _ w4]) auto
  qed
qed

lemma nsp_cells: "same_cells (nsp k gh nc here) = same_cells (nsp 0 0 nc (0, 0))" "fresh_slab (nsp k gh nc here) = fresh_slab (nsp 0 0 nc (0, 0))"
  using nsp_sizes_only(6,7) [of k gh nc here] by (simp_all add: same_cells_def fresh_slab_def fun_eq_iff)

interpretation ns: slab_backend "nsp k gh nc here" "ns_binv gh nc here" "ns_ready nc f" for k gh nc here f
proof (unfold_locales, goal_cases)
  case (1 m M w w')
  then obtain FL F R P where inv: "ns_inv gh nc m w M (set FL) FL F R P" and c: "fst here < PS_NUMCORES" by (auto simp: ns_binv_def)
  have "ns_inv gh nc m w' M (set FL) FL F R P" by (rule ns_inv_own [OF 1(1) inv])
  moreover have "ns_ready nc f m w' = ns_ready nc f m w" using 1(1) roomy_cong [of w' w] by (simp add: ns_ready_def own_step_def)
  ultimately show ?case using c unfolding ns_binv_def by blast
next
  case (2 m w M)
  then show ?case using ns_sizes(1) by (auto simp: ns_binv_def ns_inv_def)
next
  case (3 m w M)
  from ns_afn [OF 3, of k "fst here"] obtain s w' where
    1: "ps_slab_nsalloc ps_plat_alloc_linux ps_plat_free_linux k gh here m (ns_objmemsz nc * ns_range nc) (fst here) w = Some (s, w')"
    "ns_keeps nc m M w w'" "if s = null then ns_binv gh nc here m w' M \<and> ns_exhausted nc m w' \<and> 2 ^ id_bits nc \<le> unat f
     else M s = None \<and> (\<exists>mem. fresh_slab (nsp 0 0 nc (0, 0)) w' s mem \<and> ns_binv gh nc here m w' (M(s \<mapsto> mem)) \<and>
       (\<forall>t mem'. M t = Some mem' \<longrightarrow> set (slab_objs (nsp 0 0 nc (0, 0)) mem') \<inter> set (slab_objs (nsp 0 0 nc (0, 0)) mem) = {}))"
    by blast
  then show ?case unfolding nsp_fields nsp_cells [of k gh nc here] nsp_sizes_only(6) [of k gh nc here] ns_keeps_def
    by (intro exI [of _ s] exI [of _ w']) (auto split: if_splits)
next
  case (4 m w M s mem)
  then obtain FL F R P where inv: "ns_inv gh nc m w M (set FL) FL F R P" and c: "fst here < PS_NUMCORES" by (auto simp: ns_binv_def)
  obtain ni where g: "get_ns m w = Some ni" using inv by (auto simp: ns_inv_def)
  from ns_free_ok [OF inv g 4(2,3), of "ns_objmemsz nc * ns_range nc" "fst here"] obtain w' FL' P' ni' where
    1: "ps_slab_nsfree ps_plat_alloc_linux ps_plat_free_linux m s (ns_objmemsz nc * ns_range nc) (fst here) w = Some w'"
    "ns_inv gh nc m w' (M(s := None)) (set FL') FL' F R P'" "ns_keeps nc m (M(s := None)) w w'"
    "w_answers w' = w_answers w" "w_blocks w' = (w_blocks w)(mem := None)" "get_ns m w' = Some ni'" "ns_frontier ni' = ns_frontier ni"
    by (elim exE conjE) (rule that)
  have "ns_ready nc f m w \<longrightarrow> ns_ready nc f m w'"
    using g 1(6,7) roomy_drop [OF _ 1(4,5)] by (simp add: ns_ready_def)
  moreover have "ns_binv gh nc here m w' (M(s := None))" unfolding ns_binv_def using c 1(2) by blast
  ultimately show ?case unfolding nsp_fields nsp_cells [of k gh nc here] using 1(1,3)
    by (intro exI [of _ w']) (simp add: ns_keeps_def)
qed

end
