(* ===== verification/Ns_Lookup.thy ===== *)
theory Ns_Lookup
  imports Ns_Correct Slab_Queries
begin

text \<open>
  What a lookup answers and what \<open>ps_ns_desc\<close> gives, in the state of a namespace whose objects come
  straight from the slab allocator.
\<close>

section \<open>The state\<close>

definition ns_state :: "addr \<Rightarrow> ns_class \<Rightarrow> addr \<Rightarrow> world \<Rightarrow> slabs \<Rightarrow> rings \<Rightarrow> remotes \<Rightarrow> bool" where
  "ns_state gh nc m w F R Q \<longleftrightarrow> slab_inv (nsp 0 0 nc (0, 0)) m w F R Q \<and>
     (\<exists>FL FH RH P. ns_inv gh nc m w (mems F) (set FL) FL FH RH P)"

lemma ns_sinv:
  "fst here < PS_NUMCORES \<Longrightarrow>
   slab_backend.sinv (nsp k gh nc here) (ns_binv gh nc here) m w F R Q = ns_state gh nc m w F R Q"
  unfolding ns.sinv_def [of k gh nc here] ns_state_def ns_binv_def nsp_sizes_only [of k gh nc here] by simp

lemma ns_state_ok: "ns_state gh nc m w F R Q \<Longrightarrow> ns_ok nc"
  by (auto simp: ns_state_def ns_inv_def)

lemma ns_stateD:
  assumes "ns_state gh nc m w F R Q"
  shows "slab_inv (nsp k gh' nc here) m w F R Q" "slabs_ok (nsp k gh' nc here) w F" "params_ok (nsp k gh' nc here)"
    "remotes_ok (nsp k gh' nc here) m w F Q"
proof -
  show i: "slab_inv (nsp k gh' nc here) m w F R Q"
    unfolding nsp_sizes_only(1) [of k gh' nc here] using assms by (simp add: ns_state_def)
  show "slabs_ok (nsp k gh' nc here) w F" "remotes_ok (nsp k gh' nc here) m w F Q" using slab_invD(1,4) [OF i] by simp_all
  show "params_ok (nsp k gh' nc here)" by (rule ns_sizes(1) [OF ns_state_ok [OF assms]])
qed

text \<open>An object has the size \<open>ns_objmemsz\<close>, whatever the core.\<close>

definition ns_obj :: "ns_class \<Rightarrow> addr \<Rightarrow> nat \<Rightarrow> addr" where
  "ns_obj nc mem j = leaf_entry (ns_consts nc) mem j"

lemma ns_obj_at: "ns_ok nc \<Longrightarrow> j < leaf_ids nc \<Longrightarrow> ns_obj nc mem j = obj_at (nsp k gh nc here) mem j"
  using leaf_entry_obj [of nc mem j k gh here] by (simp add: ns_obj_def)

lemma ns_objs: "ns_ok nc \<Longrightarrow> x \<in> set (slab_objs (nsp k gh nc here) mem) \<longleftrightarrow> (\<exists>j < leaf_ids nc. x = ns_obj nc mem j)"
  using ns_obj_at [of nc _ mem k gh here] by (auto simp: slab_objs_def ns_sizes(5))

section \<open>Identities of objects\<close>

text \<open>The ranges of the slabs: within the bounds, and each slab has its own.\<close>

lemma ns_ids_leaf: "ns_ok nc \<Longrightarrow> leaf_ids nc dvd 2 ^ id_bits nc"
  using ns_range_nat(3) [of nc] by (simp add: le_imp_power_dvd ert_bits_def ns_consts_def)

lemma dvd_less_add:
  assumes "(k :: nat) dvd a" and "k dvd b" and "a < b"
  shows "a + k \<le> b"
proof -
  obtain i j where "a = k * i" "b = k * j" using assms(1,2) by (auto elim!: dvdE)
  moreover from this assms(3) have "i < j" by simp
  then have "k * Suc i \<le> k * j" by (intro mult_le_mono2) simp
  ultimately show ?thesis by simp
qed

lemma ns_slab_ids:
  assumes "ns_state gh nc m w F R Q" and "F s = Some (mem, c, fs)"
  shows "leaf_ids nc dvd desc_id w s" "desc_id w s + leaf_ids nc \<le> 2 ^ id_bits nc"
    "F t = Some (mem', c', fs') \<Longrightarrow> desc_id w t = desc_id w s \<Longrightarrow> t = s"
proof -
  have M: "mems F s = Some mem" using assms(2) by (simp add: mems_def)
  obtain E fr where d: "ns_descs nc w (mems F) E fr" using assms(1) by (auto simp: ns_state_def ns_inv_def)
  then have ok: "desc_ok nc w fr s mem" using M by (simp add: ns_descs_def)
  then show l: "leaf_ids nc dvd desc_id w s" by (simp add: desc_ok_def)
  have "desc_id w s < 2 ^ id_bits nc" using ok by (simp add: desc_ok_def)
  then show "desc_id w s + leaf_ids nc \<le> 2 ^ id_bits nc"
    by (rule dvd_less_add [OF l ns_ids_leaf [OF ns_state_ok [OF assms(1)]]])
  assume "F t = Some (mem', c', fs')" "desc_id w t = desc_id w s"
  moreover from this have "mems F t = Some mem'" by (simp add: mems_def)
  ultimately show "t = s" using d M inj_onD [of "desc_id w" "dom (mems F) \<union> E" t s] by (auto simp: ns_descs_def domI)
qed


lemma ns_obj_header:
  assumes "ns_state gh nc m w F R Q" and "F s = Some (mem, c, fs)" and "j < leaf_ids nc"
  shows "\<exists>hd. w_mh w (ns_obj nc mem j) = Some hd \<and> mh_slab hd = s \<and> (ns_obj nc mem j \<in> set fs \<longrightarrow> mh_tsc_free hd \<noteq> 0)"
    "ns_obj nc mem j \<noteq> null" "ps_mhead_mem (ns_obj nc mem j) \<noteq> null"
proof -
  let ?p = "nsp 0 0 nc (0, 0)"
  note ok = ns_state_ok [OF assms(1)] and D = ns_stateD [OF assms(1), where k = 0 and gh' = 0 and here = "(0, 0)"]
  have h: "ns_obj nc mem j \<in> set (slab_objs ?p mem)" using ns_objs [OF ok] assms(3) by blast
  show "\<exists>hd. w_mh w (ns_obj nc mem j) = Some hd \<and> mh_slab hd = s \<and> (ns_obj nc mem j \<in> set fs \<longrightarrow> mh_tsc_free hd \<noteq> 0)"
    by (rule header_slab [OF D(2) assms(2) h])
  have f: "fits ?p mem" using slabs_okD [OF D(2) assms(2)] by (simp add: slab_rep_def)
  show "ps_mhead_mem (ns_obj nc mem j) \<noteq> null" by (rule mhead_mem_nonnull [OF D(3) f h])
  have "unat mem \<le> unat (ns_obj nc mem j)"
    using slab_obj_extent(1) [OF D(3) f, of j] assms(3) ns_sizes(5) [OF ok] by (simp add: ns_obj_at [OF ok assms(3), of mem 0 0 "(0, 0)"])
  then show "ns_obj nc mem j \<noteq> null" using f by (auto simp: fits_def unat_eq_0 dest: le_0_eq [THEN iffD1])
qed

lemma ns_obj_desc:
  assumes st: "ns_state gh nc m w F R Q" and F: "F s = Some (mem, c, fs)" and j: "j < leaf_ids nc"
  shows "\<exists>d. ps_ns_desc (nsp k gh' nc here) (ps_mhead_mem (ns_obj nc mem j)) w = Some d \<and> unat d = desc_id w s + j"
proof -
  let ?p = "nsp k gh' nc here"
  note ok = ns_state_ok [OF st] and D = ns_stateD [OF st, where k = k and gh' = gh' and here = here]
  obtain hd where hd: "w_mh w (ns_obj nc mem j) = Some hd" "mh_slab hd = s" using ns_obj_header(1) [OF st F j] by blast
  obtain sl where sl: "w_sl w s = Some sl" using slabs_okD [OF D(2) F] by (auto simp: slab_rep_def)
  have "ps_slab_objoff ?p (ps_mhead_mem (ns_obj nc mem j)) w = Some (of_nat j)"
    using slab_objoff_at [OF D(3,2) F, of j] j unfolding ns_obj_at [OF ok j, of mem k gh' here] ns_sizes(5) [OF ok] .
  moreover have lf: "leaf_ids nc < 2 ^ 32"
  proof -
    have "unat (nc_leaforder nc) < 31" using ok by (auto simp: ns_ok_def ert_ok_def ns_consts_def)
    then have "(2 :: nat) ^ unat (nc_leaforder nc) < 2 ^ 32" by (intro power_strict_increasing) simp_all
    then show ?thesis using ns_range_nat(3) [OF ok] by simp
  qed
  have "unat (ucast (of_nat j :: u32) :: u64) = j"
    using j lf by (simp add: unat_ucast_u64 unat_of_nat take_bit_nat_eq_self)
  moreover have "desc_id w s + j < 2 ^ 64"
  proof -
    have "id_bits nc < 64" using ok by (auto simp: ns_ok_def ert_ok_def)
    then have "(2 :: nat) ^ id_bits nc < 2 ^ 64" by (intro power_strict_increasing) simp_all
    then show ?thesis using ns_slab_ids(2) [OF st F] j by linarith
  qed
  ultimately show ?thesis using hd sl
    by (intro exI [of _ "sl_start sl + ucast (of_nat j :: u32)"]) (simp add: ps_ns_desc_def desc_id_def unat_add_small)
qed

text \<open>What \<open>ps_ns_desc\<close> reads of the object.\<close>

lemma ns_desc_same:
  assumes "w_mh w' x = w_mh w x" and "obj_ids w' x = obj_ids w x"
  shows "ps_ns_desc p (ps_mhead_mem x) w' = ps_ns_desc p (ps_mhead_mem x) w"
proof (cases "w_mh w x")
  case (Some d)
  then show ?thesis using assms
    by (cases "w_sl w (mh_slab d)"; cases "w_sl w' (mh_slab d)")
       (auto simp: ps_ns_desc_def ps_slab_objoff_def obj_ids_def slab_ids_def)
qed (use assms in \<open>simp add: ps_ns_desc_def\<close>)

lemma ns_desc_any: "ps_ns_desc (nsp k gh' nc here) b w = ps_ns_desc (nsp 0 0 nc (0, 0)) b w"
  by (simp add: ps_ns_desc_def ps_slab_objoff_def)

section \<open>Lookup\<close>

lemma ns_obj_mod: "ns_ok nc \<Longrightarrow> ns_obj nc mem (i mod leaf_ids nc) = ns_obj nc mem i"
  using ns_levels(1) [of nc] by (simp add: ns_obj_def leaf_entry_eq)

text \<open>The leaf that holds an identity.\<close>

definition ns_covers :: "ns_class \<Rightarrow> world \<Rightarrow> addr \<Rightarrow> nat \<Rightarrow> bool" where
  "ns_covers nc w s i \<longleftrightarrow> desc_id w s \<le> i \<and> i < desc_id w s + leaf_ids nc"

lemma ns_covers_div:
  assumes "ns_state gh nc m w F R Q" and "F s = Some (mem, c, fs)"
  shows "ns_covers nc w s i \<longleftrightarrow> i div leaf_ids nc = desc_id w s div leaf_ids nc"
proof -
  let ?n = "leaf_ids nc"
  obtain a where a: "desc_id w s = ?n * a" using ns_slab_ids(1) [OF assms] by (rule dvdE)
  have n: "0 < ?n" using ns_range_nat(2) [OF ns_state_ok [OF assms(1)]] by simp
  show ?thesis
  proof
    assume "ns_covers nc w s i"
    then have "i = ?n * a + (i - ?n * a)" "i - ?n * a < ?n" by (auto simp: ns_covers_def a)
    then have "i div ?n = a" using n by (metis div_mult_self4 div_less add.commute add_0 less_not_refl)
    then show "i div ?n = desc_id w s div ?n" using n by (simp add: a)
  next
    assume "i div ?n = desc_id w s div ?n"
    then have "i div ?n = a" using n by (simp add: a)
    then have "i = ?n * a + i mod ?n" by (metis mult_div_mod_eq)
    moreover have "i mod ?n < ?n" using n by simp
    ultimately show "ns_covers nc w s i" by (auto simp: ns_covers_def a)
  qed
qed

lemma ns_lookup_obj:
  assumes st: "ns_state gh nc m w F R Q" and F: "F s = Some (mem, c, fs)" and i: "ns_covers nc w s (unat d)"
    and h: "w_mh w (ns_obj nc mem (unat d)) = Some hdr"
  shows "ps_nsptr_lkup ps_plat_alloc_linux nc m d accum w =
    Some (if mh_tsc_free hdr = 0 then ps_mhead_mem (ns_obj nc mem (unat d)) else null)"
proof -
  have ok: "ns_ok nc" by (rule ns_state_ok [OF st])
  obtain FL FH RH P ni where I: "ns_leaves nc w (mems F) P" "get_ns m w = Some ni" "ns_trie (ns_consts nc) (ran (mems F)) w (ns_ert ni) P"
    using st unfolding ns_state_def ns_inv_def by blast
  have b: "unat d < 2 ^ id_bits nc" using i ns_slab_ids(2) [OF st F] by (simp add: ns_covers_def)
  have P: "P (leaf_path (ns_consts nc) (unat d)) = Some mem"
    using I(1) b i F unfolding ns_leaves_def ns_covers_div [OF st F] by (auto simp: mems_def)
  have n: "ns_obj nc mem (unat d) \<noteq> null"
    using ns_obj_header(2) [OF st F, of "unat d mod leaf_ids nc"] ns_range_nat(2) [OF ok] unfolding ns_obj_mod [OF ok] by simp
  show ?thesis
    using ns_trie_lookup [OF ns_levels(2) [OF ok] I(3) b, of accum] P I(2) h n
    by (simp add: ps_nsptr_lkup_def ert_lkup_def ert_lkupan_def ns_obj_def ps_mhead_isfree_def)
qed

lemma ns_lookup_none:
  assumes st: "ns_state gh nc m w F R Q" and b: "unat d < 2 ^ id_bits nc" and i: "\<And>s. s \<in> dom F \<Longrightarrow> \<not> ns_covers nc w s (unat d)"
  shows "ps_nsptr_lkup ps_plat_alloc_linux nc m d accum w = Some null"
proof -
  have ok: "ns_ok nc" by (rule ns_state_ok [OF st])
  obtain FL FH RH P ni where I: "ns_leaves nc w (mems F) P" "get_ns m w = Some ni" "ns_trie (ns_consts nc) (ran (mems F)) w (ns_ert ni) P"
    using st unfolding ns_state_def ns_inv_def by blast
  have "P (leaf_path (ns_consts nc) (unat d)) = None"
  proof (rule ccontr)
    assume "P (leaf_path (ns_consts nc) (unat d)) \<noteq> None"
    then obtain mem where "P (leaf_path (ns_consts nc) (unat d)) = Some mem" by blast
    then obtain s c fs where "F s = Some (mem, c, fs)" "unat d div leaf_ids nc = desc_id w s div leaf_ids nc"
      using I(1) b unfolding ns_leaves_def mems_def by fastforce
    then show False using i [of s] ns_covers_div [OF st] by blast
  qed
  then show ?thesis
    using ns_trie_lookup [OF ns_levels(2) [OF ok] I(3) b, of accum] I(2)
    by (simp add: ps_nsptr_lkup_def ert_lkup_def ert_lkupan_def)
qed


section \<open>Objects and identities\<close>

text \<open>An object of a slab and its identity.\<close>

definition ns_is_obj :: "ns_class \<Rightarrow> world \<Rightarrow> slabs \<Rightarrow> addr \<Rightarrow> nat \<Rightarrow> bool" where
  "ns_is_obj nc w F h i \<longleftrightarrow> (\<exists>s mem c fs. F s = Some (mem, c, fs) \<and> ns_covers nc w s i \<and> h = ns_obj nc mem i)"

lemma ns_is_obj_of:
  assumes st: "ns_state gh nc m w F R Q" and F: "F s = Some (mem, c, fs)" and h: "h \<in> set (slab_objs (nsp k gh' nc here) mem)"
  shows "\<exists>d. ps_ns_desc (nsp k2 gh2 nc here2) (ps_mhead_mem h) w = Some d \<and> ns_is_obj nc w F h (unat d) \<and>
    ns_covers nc w s (unat d) \<and> h = ns_obj nc mem (unat d)"
proof -
  note ok = ns_state_ok [OF st]
  obtain j where j: "j < leaf_ids nc" "h = ns_obj nc mem j" using h ns_objs [OF ok] by blast
  obtain d where d: "ps_ns_desc (nsp k2 gh2 nc here2) (ps_mhead_mem h) w = Some d" "unat d = desc_id w s + j"
    using ns_obj_desc [OF st F j(1), of k2 gh2 here2] j(2) by blast
  have c: "ns_covers nc w s (unat d)" using d(2) j(1) by (simp add: ns_covers_def)
  have "unat d mod leaf_ids nc = j" using d(2) j(1) ns_slab_ids(1) [OF st F] by (auto elim!: dvdE)
  then have "h = ns_obj nc mem (unat d)" using j(2) ns_obj_mod [OF ok, of mem "unat d"] by simp
  with F c d(1) show ?thesis unfolding ns_is_obj_def by blast
qed

lemma ns_covers_unique:
  assumes st: "ns_state gh nc m w F R Q" and "F s = Some (mem, c, fs)" and "F t = Some (mem', c', fs')"
    and "ns_covers nc w s i" and "ns_covers nc w t i"
  shows "t = s"
proof -
  have "desc_id w t div leaf_ids nc = desc_id w s div leaf_ids nc"
    using assms(4,5) ns_covers_div [OF st assms(2)] ns_covers_div [OF st assms(3)] by simp
  then have "desc_id w t = desc_id w s"
    using ns_slab_ids(1) [OF st assms(2)] ns_slab_ids(1) [OF st assms(3)] desc_id_div by blast
  then show ?thesis by (rule ns_slab_ids(3) [OF st assms(2,3)])
qed

lemma ns_is_obj_unique:
  assumes "ns_state gh nc m w F R Q" and "ns_is_obj nc w F h i" and "ns_is_obj nc w F h' i"
  shows "h' = h"
  using assms(2,3) ns_covers_unique [OF assms(1)] unfolding ns_is_obj_def by fastforce

lemma ns_desc_inj:
  assumes st: "ns_state gh nc m w F R Q" and "x \<in> live (nsp 0 0 nc (0, 0)) F Q" and "y \<in> live (nsp 0 0 nc (0, 0)) F Q"
    and "ps_ns_desc (nsp 0 0 nc (0, 0)) (ps_mhead_mem x) w = Some d" and "ps_ns_desc (nsp 0 0 nc (0, 0)) (ps_mhead_mem y) w = Some d"
  shows "x = y"
proof -
  have "ns_is_obj nc w F z (unat d)" if z: "z \<in> live (nsp 0 0 nc (0, 0)) F Q" "ps_ns_desc (nsp 0 0 nc (0, 0)) (ps_mhead_mem z) w = Some d" for z
  proof -
    obtain s mem c fs where "F s = Some (mem, c, fs)" "z \<in> set (slab_objs (nsp 0 0 nc (0, 0)) mem)"
      using liveE [OF z(1) ns_stateD(2) [OF st]] by metis
    from ns_is_obj_of [OF st this, of 0 0 "(0, 0)"] z(2) show ?thesis by auto
  qed
  from ns_is_obj_unique [OF st this [OF assms(3,5)] this [OF assms(2,4)]] show ?thesis .
qed

text \<open>A live object has an identity; a lookup of it gives the object as long as the header is not marked free.\<close>

lemma ns_live_lookup:
  assumes st: "ns_state gh nc m w F R Q" and h: "h \<in> owned (nsp 0 0 nc (0, 0)) F" and d: "w_mh w h = Some hdr" "mh_tsc_free hdr = 0"
  shows "\<exists>i. ps_ns_desc (nsp k gh' nc here) (ps_mhead_mem h) w = Some i \<and> unat i < 2 ^ id_bits nc \<and>
    ps_nsptr_lkup ps_plat_alloc_linux nc m i accum w = Some (ps_mhead_mem h)"
proof -
  obtain s mem c fs where F: "F s = Some (mem, c, fs)" "h \<in> set (slab_objs (nsp 0 0 nc (0, 0)) mem)"
    using h by (rule ownedE)
  from ns_is_obj_of [OF st this, of k gh' here] obtain i where
    i: "ps_ns_desc (nsp k gh' nc here) (ps_mhead_mem h) w = Some i" "ns_covers nc w s (unat i)" "h = ns_obj nc mem (unat i)" by blast
  have "unat i < 2 ^ id_bits nc" using i(2) ns_slab_ids(2) [OF st F(1)] by (simp add: ns_covers_def)
  moreover have "ps_nsptr_lkup ps_plat_alloc_linux nc m i accum w = Some (ps_mhead_mem h)"
    using ns_lookup_obj [OF st F(1) i(2), of hdr accum] d i(3) by simp
  ultimately show ?thesis using i(1) by blast
qed

lemma ns_live_nonnull:
  assumes st: "ns_state gh nc m w F R Q" and h: "h \<in> live (nsp 0 0 nc (0, 0)) F Q"
  shows "ps_mhead_mem h \<noteq> null"
proof -
  note so = ns_stateD(2,3) [OF st, of 0 0 "(0, 0)"]
  obtain s mem c fs where "F s = Some (mem, c, fs)" "h \<in> set (slab_objs (nsp 0 0 nc (0, 0)) mem)" "fits (nsp 0 0 nc (0, 0)) mem"
    using liveE [OF h so(1)] by metis
  then show ?thesis using mhead_mem_nonnull [OF so(2)] by blast
qed

text \<open>Whatever a lookup finds has the descriptor looked up.\<close>

lemma ns_lookup_total:
  assumes st: "ns_state gh nc m w F R Q" and b: "unat d < 2 ^ id_bits nc"
  shows "\<exists>b. ps_nsptr_lkup ps_plat_alloc_linux nc m d accum w = Some b \<and>
    (b \<noteq> null \<longrightarrow> ps_ns_desc (nsp k gh' nc here) b w = Some d \<and> ps_mhead_get b \<in> owned (nsp 0 0 nc (0, 0)) F)"
proof (cases "\<exists>s \<in> dom F. ns_covers nc w s (unat d)")
  case False
  then show ?thesis using ns_lookup_none [OF st b] by blast
next
  case True
  note ok = ns_state_ok [OF st]
  obtain s mem c fs where F: "F s = Some (mem, c, fs)" and c: "ns_covers nc w s (unat d)" using True by auto
  let ?j = "unat d mod leaf_ids nc"
  have j: "?j < leaf_ids nc" "ns_obj nc mem ?j = ns_obj nc mem (unat d)"
    using ns_range_nat(2) [OF ok] ns_obj_mod [OF ok] by simp_all
  let ?h = "ns_obj nc mem (unat d)"
  obtain hdr where h: "w_mh w ?h = Some hdr" "?h \<in> set fs \<longrightarrow> mh_tsc_free hdr \<noteq> 0"
    using ns_obj_header(1) [OF st F j(1)] unfolding j(2) by blast
  have o: "?h \<in> set (slab_objs (nsp 0 0 nc (0, 0)) mem)" using ns_objs [OF ok] j by metis
  obtain e where e: "ps_ns_desc (nsp k gh' nc here) (ps_mhead_mem ?h) w = Some e" "unat e = desc_id w s + ?j"
    using ns_obj_desc [OF st F j(1), of k gh' here] unfolding j(2) by blast
  obtain a where a: "desc_id w s = leaf_ids nc * a" using ns_slab_ids(1) [OF st F] by (rule dvdE)
  have "unat d div leaf_ids nc = desc_id w s div leaf_ids nc" using c ns_covers_div [OF st F] by simp
  then have "unat d div leaf_ids nc = a" using ns_range_nat(2) [OF ok] by (simp add: a)
  then have "unat d = desc_id w s + ?j" by (metis a mult_div_mod_eq)
  then have "e = d" using e(2) by (simp add: word_unat_eq_iff)
  then show ?thesis
    using ns_lookup_obj [OF st F c h(1), of accum] e(1) h(2) ownedI [where F = F and s = s, OF F o] by auto
qed


section \<open>Allocation and free\<close>

lemma nsp_core: "(nsp k gh nc here)\<lparr>sp_coreid := fst here\<rparr> = nsp k gh nc here"
  by (simp add: ns_params_def)

lemma ns_nsptr_alloc:
  "nc_type nc = NS_slab \<Longrightarrow> ps_nsptr_alloc k (nsp k' gh nc here) nc m here w = do {
     (a, w) \<leftarrow> ps_slab_mem_alloc k m (nsp k' gh nc here) here w;
     if a = null then Some (null, None, w)
     else do { d \<leftarrow> ps_ns_desc (nsp k' gh nc here) a w; Some (a, Some d, w) } }"
  by (simp add: ps_nsptr_alloc_def ps_slabptr_alloc_def nsp_core)

lemma ns_nsptr_free:
  "nc_type nc = NS_slab \<Longrightarrow> ps_nsptr_free env clk (nsp k' gh nc here) nc m b here w t =
     map_option (\<lambda>w. (w, t)) (ps_slab_mem_free b m (nsp k' gh nc here) here w)"
  by (simp add: ps_nsptr_free_def ps_slabptr_free_def ps_slabptr_free_coreid_def nsp_core)

lemma ns_alloc_ok:
  assumes st: "ns_state gh nc m w F R Q" and r: "ns_ready nc f m w" and c: "fst here < PS_NUMCORES"
    and k: "\<And>l i. length (Q (fst here) l i) \<le> k" and t: "nc_type nc = NS_slab"
  shows "\<exists>a d w' F' R' Q'. ps_nsptr_alloc k (nsp k' gh nc here) nc m here w = Some (a, d, w') \<and>
    ns_state gh nc m w' F' R' Q' \<and> (\<forall>x \<in> live (nsp 0 0 nc (0, 0)) F Q. same_obj (nsp 0 0 nc (0, 0)) w F w' F' x) \<and>
    (if a = null then d = None \<and> live (nsp 0 0 nc (0, 0)) F' Q' = live (nsp 0 0 nc (0, 0)) F Q \<and> ns_exhausted nc m w' \<and> 2 ^ id_bits nc \<le> unat f
     else \<exists>i hdr. d = Some i \<and> ps_ns_desc (nsp 0 0 nc (0, 0)) a w' = Some i \<and>
       ps_mhead_get a \<notin> live (nsp 0 0 nc (0, 0)) F Q \<and>
       live (nsp 0 0 nc (0, 0)) F' Q' = insert (ps_mhead_get a) (live (nsp 0 0 nc (0, 0)) F Q) \<and>
       w_mh w' (ps_mhead_get a) = Some hdr \<and> mh_tsc_free hdr = 0)"
proof -
  let ?p = "nsp k' gh nc here"
  have S: "slab_backend.sinv ?p (ns_binv gh nc here) m w F R Q" using st ns_sinv [OF c] by simp
  from ns.alloc_ok [of k' gh nc here m w F R Q f here k, unfolded nsp_fields, OF S r c refl k] obtain b w' F' R' Q' where
    1: "ps_slab_mem_alloc k m ?p here w = Some (b, w')" "slab_backend.sinv ?p (ns_binv gh nc here) m w' F' R' Q'"
    "\<forall>x \<in> live ?p F Q. same_obj ?p w F w' F' x" and
    2: "if b = null then live ?p F' Q' = live ?p F Q \<and> slab_backend.refused ?p (ns_binv gh nc here) (ns_ready nc f) m w'
     else \<exists>h s. b = ps_mhead_mem h \<and> h \<notin> live ?p F Q \<and> live ?p F' Q' = insert h (live ?p F Q) \<and>
       belongs ?p F' (fst here) h \<and> w_mh w' h = Some \<lparr>mh_tsc_free = 0, mh_slab = s, mh_next = null\<rparr>"
    by (elim exE conjE) (rule that)
  have st': "ns_state gh nc m w' F' R' Q'" using 1(2) ns_sinv [OF c] by simp
  note same = 1(3) [unfolded nsp_sizes_only [of k' gh nc here]]
  show ?thesis
  proof (cases "b = null")
    case True
    then have l: "live ?p F' Q' = live ?p F Q" and "slab_backend.refused ?p (ns_binv gh nc here) (ns_ready nc f) m w'" using 2 by simp_all
    then obtain w0 M where w0: "ns_binv gh nc here m w0 M" "ns_ready nc f m w0"
      "ps_slab_nsalloc ps_plat_alloc_linux ps_plat_free_linux k' gh here m (ns_objmemsz nc * ns_range nc) (fst here) w0 = Some (null, w')"
      unfolding ns.refused_def [of k' gh nc here] nsp_fields by blast
    have "ns_exhausted nc m w' \<and> 2 ^ id_bits nc \<le> unat f" using ns_afn [OF w0(1,2), of k' "fst here"] w0(3) by simp
    then show ?thesis using 1(1) True st' same l [unfolded nsp_sizes_only [of k' gh nc here]]
      by (intro exI [of _ null] exI [of _ None] exI [of _ w'] exI [of _ F'] exI [of _ R'] exI [of _ Q'])
         (simp add: ns_nsptr_alloc [OF t])
  next
    case False
    then obtain h s where h: "b = ps_mhead_mem h" "h \<notin> live ?p F Q" "live ?p F' Q' = insert h (live ?p F Q)"
      "w_mh w' h = Some \<lparr>mh_tsc_free = 0, mh_slab = s, mh_next = null\<rparr>" using 2 by (simp only: if_False) (elim exE conjE, rule that)
    have "h \<in> owned (nsp 0 0 nc (0, 0)) F'" using h(3) unfolding nsp_sizes_only [of k' gh nc here] by (auto simp: live_def)
    from ns_live_lookup [OF st' this h(4), of k' gh here] obtain i where i: "ps_ns_desc ?p b w' = Some i" using h(1) by auto
    then have "ps_ns_desc (nsp 0 0 nc (0, 0)) b w' = Some i" using ns_desc_any [of k' gh nc here] by simp
    then show ?thesis using 1(1) False st' same h i unfolding nsp_sizes_only [of k' gh nc here]
      by (intro exI [of _ b] exI [of _ "Some i"] exI [of _ w'] exI [of _ F'] exI [of _ R'] exI [of _ Q'])
         (simp add: ns_nsptr_alloc [OF t])
  qed
qed

text \<open>Freed on the core of its slab, an object is not found any more.\<close>

lemma ns_free_home:
  assumes st: "ns_state gh nc m w F R Q" and h: "h \<in> live (nsp 0 0 nc (0, 0)) F Q" and d: "w_mh w h = Some hdr" "mh_tsc_free hdr = 0"
    and b: "belongs (nsp 0 0 nc (0, 0)) F (fst here) h" and c: "fst here < PS_NUMCORES"
    and i: "ps_ns_desc (nsp 0 0 nc (0, 0)) (ps_mhead_mem h) w = Some i"
  shows "\<exists>w' F' R'. ps_slab_mem_free (ps_mhead_mem h) m (nsp k gh nc here) here w = Some w' \<and> ns_state gh nc m w' F' R' Q \<and>
    live (nsp 0 0 nc (0, 0)) F' Q = live (nsp 0 0 nc (0, 0)) F Q - {h} \<and>
    (\<forall>x \<in> live (nsp 0 0 nc (0, 0)) F' Q. same_obj (nsp 0 0 nc (0, 0)) w F w' F' x) \<and>
    ps_nsptr_lkup ps_plat_alloc_linux nc m i accum w' = Some null"
proof -
  let ?p = "nsp k gh nc here" and ?q = "nsp 0 0 nc (0, 0)"
  have S: "slab_backend.sinv ?p (ns_binv gh nc here) m w F R Q" using st ns_sinv [OF c] by simp
  have ow: "owned ?p = owned ?q" using nsp_sizes_only(6) [of k gh nc here] by (simp add: owned_def fun_eq_iff)
  from ns.free_home_ok [of k gh nc here m w F R Q h hdr here 0, unfolded nsp_fields nsp_sizes_only [of k gh nc here], OF S h d b]
  obtain w' F' R' where 1: "ps_slab_mem_free (ps_mhead_mem h) m ?p here w = Some w'" "slab_backend.sinv ?p (ns_binv gh nc here) m w' F' R' Q"
    "owned ?q F' = owned ?q F - {h}" "slab_backend.keeps ?p (ns_ready nc 0) m w F w' F' (owned ?q F')" "shrinks w F w' F'"
    unfolding ow by (elim exE conjE) (rule that)
  have st': "ns_state gh nc m w' F' R' Q" using 1(2) ns_sinv [OF c] by simp
  have l: "live ?q F' Q = live ?q F Q - {h}" using 1(3) by (auto simp: live_def)
  have same: "\<forall>x \<in> live ?q F' Q. same_obj ?q w F w' F' x"
    using 1(4) unfolding ns.keeps_def [of k gh nc here] nsp_sizes_only [of k gh nc here] by (auto simp: live_def)
  obtain s mem c' fs where F: "F s = Some (mem, c', fs)" "h \<in> set (slab_objs ?q mem)"
    using liveE [OF h ns_stateD(2) [OF st]] by metis
  from ns_is_obj_of [OF st F, of 0 0 "(0, 0)"] i have cv: "ns_covers nc w s (unat i)" and hi: "h = ns_obj nc mem (unat i)" by auto
  have bi: "unat i < 2 ^ id_bits nc" using cv ns_slab_ids(2) [OF st F(1)] by (simp add: ns_covers_def)
  obtain b where lk: "ps_nsptr_lkup ps_plat_alloc_linux nc m i accum w' = Some b"
    "b \<noteq> null \<longrightarrow> ps_ns_desc ?q b w' = Some i \<and> ps_mhead_get b \<in> owned ?q F'"
    using ns_lookup_total [OF st' bi, of accum 0 0 "(0, 0)"] by blast
  have "b = null"
  proof (rule ccontr)
    assume "b \<noteq> null"
    then have b: "ps_ns_desc ?q b w' = Some i" "ps_mhead_get b \<in> owned ?q F'" using lk(2) by simp_all
    obtain t mem' c2 fs' where t: "F' t = Some (mem', c2, fs')" "ps_mhead_get b \<in> set (slab_objs ?q mem')"
      using b(2) by (rule ownedE)
    from ns_is_obj_of [OF st' t, of 0 0 "(0, 0)"] b(1) have ct: "ns_covers nc w' t (unat i)" "ps_mhead_get b = ns_obj nc mem' (unat i)" by auto
    have "mems F' t = Some mem'" using t(1) by (simp add: mems_def)
    then have mt: "mems F t = Some mem'" and "map_option slab_ids (w_sl w' t) = map_option slab_ids (w_sl w t)"
      using 1(5) unfolding shrinks_def by blast+
    from desc_id_cong [OF this(2)] have "ns_covers nc w t (unat i)" using ct(1) by (simp add: ns_covers_def)
    moreover obtain c3 fs3 where Ft: "F t = Some (mem', c3, fs3)" using mt by (auto simp: mems_def)
    ultimately have "t = s" using ns_covers_unique [OF st F(1) Ft cv] by simp
    then have "ps_mhead_get b = h" using Ft F(1) ct(2) hi by simp
    then show False using b(2) 1(3) by simp
  qed
  then show ?thesis using 1(1) st' l same lk(1) by blast
qed

text \<open>Freed on another core, it stays where a lookup finds it until the core of its slab takes it back.\<close>

lemma ns_free_remote:
  assumes st: "ns_state gh nc m w F R Q" and h: "h \<in> live (nsp 0 0 nc (0, 0)) F Q" and d: "w_mh w h = Some hdr" "mh_tsc_free hdr = 0"
    and b: "belongs (nsp 0 0 nc (0, 0)) F e h" and c: "fst here < PS_NUMCORES" "e \<noteq> fst here" "snd here < PS_NUMLOCALITIES"
    and i: "ps_ns_desc (nsp 0 0 nc (0, 0)) (ps_mhead_mem h) w = Some i"
  shows "\<exists>w' Q'. ps_slab_mem_free (ps_mhead_mem h) m (nsp k gh nc here) here w = Some w' \<and> ns_state gh nc m w' F R Q' \<and>
    live (nsp 0 0 nc (0, 0)) F Q' = live (nsp 0 0 nc (0, 0)) F Q - {h} \<and>
    (\<forall>x \<in> live (nsp 0 0 nc (0, 0)) F Q'. same_obj (nsp 0 0 nc (0, 0)) w F w' F x) \<and>
    ps_nsptr_lkup ps_plat_alloc_linux nc m i accum w' = Some (ps_mhead_mem h)"
proof -
  let ?p = "nsp k gh nc here" and ?q = "nsp 0 0 nc (0, 0)"
  have S: "slab_backend.sinv ?p (ns_binv gh nc here) m w F R Q" using st ns_sinv [OF c(1)] by simp
  from ns.free_remote_ok [of k gh nc here m w F R Q h hdr e here 0, unfolded nsp_fields nsp_sizes_only [of k gh nc here], OF S h d b c(2,3)]
  obtain w' Q' where 1: "ps_slab_mem_free (ps_mhead_mem h) m ?p here w = Some w'" "slab_backend.sinv ?p (ns_binv gh nc here) m w' F R Q'"
    "live ?q F Q' = live ?q F Q - {h}" "slab_backend.keeps ?p (ns_ready nc 0) m w F w' F (live ?q F Q')" "own_step ?q m (mems F) w w'"
    by (elim exE conjE) (rule that)
  have st': "ns_state gh nc m w' F R Q'" using 1(2) ns_sinv [OF c(1)] by simp
  have same: "\<forall>x \<in> live ?q F Q'. same_obj ?q w F w' F x"
    using 1(4) unfolding ns.keeps_def [of k gh nc here] nsp_sizes_only [of k gh nc here] by simp
  have ho: "h \<in> owned ?q F" using h by (simp add: live_def)
  then have "h \<in> pending Q'" using 1(3) by (auto simp: live_def)
  then obtain hdr' where w: "w_mh w' h = Some hdr'" "mh_tsc_free hdr' = 0"
    using pending_waiting [OF ns_stateD(4) [OF st', of 0 0 "(0, 0)"], of h] by (auto simp: waiting_def)
  obtain s mem c' fs where F: "F s = Some (mem, c', fs)" "h \<in> set (slab_objs ?q mem)" using ho by (rule ownedE)
  from ns_is_obj_of [OF st F, of 0 0 "(0, 0)"] i have cv: "ns_covers nc w s (unat i)" and hi: "h = ns_obj nc mem (unat i)" by auto
  have "desc_id w' s = desc_id w s" using 1(5) by (intro desc_id_cong) (simp add: own_step_def)
  then have "ns_covers nc w' s (unat i)" using cv by (simp add: ns_covers_def)
  from ns_lookup_obj [OF st' F(1) this, of hdr' accum] w hi have "ps_nsptr_lkup ps_plat_alloc_linux nc m i accum w' = Some (ps_mhead_mem h)" by simp
  then show ?thesis using 1(1,3) st' same by blast
qed

end
