(* ===== verification/Ns_Runs.thy ===== *)
theory Ns_Runs
  imports Ns_Lookup
begin

text \<open>
  Whole runs of a namespace whose objects come straight from the slab allocator (\<open>PS_NSSLAB_CREATE\<close>): from
  its creation, any cores allocate objects, free them and look descriptors up.  A run keeps the map from the
  descriptors handed out to the objects, known from the calls alone.
\<close>

section \<open>Creation\<close>

lemma ns_trie_create:
  assumes ok: "ert_ok c" and L: "2 \<le> ert_levels c" and r: "roomy (Suc k) w"
  shows "\<exists>v w'. ert_alloc linux_ns c null accum w = Some (v, w') \<and> v \<noteq> null \<and> plat_frame w w' \<and>
    ns_trie c {} w' v [[] \<mapsto> v] \<and> roomy k w'"
proof -
  have d: "ec_depth c > 1" "ec_depth c \<noteq> 1" using L by (auto simp: ert_levels_def word_less_nat_alt)
  have ctx: "ert_alloc linux_ns c null accum w = ert_alloc linux_ns c 1 accum w"
    using d by (simp add: ert_alloc_def ns_fns_def ps_ns_alloc_intern_def cong: if_cong)
  have "cells_inv {} (Suc k) w {}" using r by (simp add: cells_inv_def)
  from nt.alloc_trie [OF this, of c 1 accum, unfolded ert_sane(1) [OF ok]] ns_never_refuses [OF ok, of 1 "{}"] obtain v w' where
    1: "ert_alloc linux_ns c 1 accum w = Some (v, w')" "plat_frame w w'" "v \<noteq> null"
    "ert_store.tinv c w_ert (cells_inv {}) False k w' v [[] \<mapsto> v]" by (auto split: if_splits)
  then show ?thesis using nt_tinv [OF ok] unfolding ctx by blast
qed

lemma mems_empty [simp]: "mems Map.empty = Map.empty"
  by (simp add: mems_def fun_eq_iff)

lemma ns_create_ok:
  assumes ok: "ns_ok nc" and r: "roomy (Suc (Suc j)) w" and sz: "unat sz \<le> 2 ^ 32" and gh: "gh \<noteq> null"
  shows "\<exists>m w' ni. ps_nsptr_create_slab ps_plat_alloc_linux ps_plat_free_linux gh nc sz accum 0 w = Some (m, 1, w') \<and> m \<noteq> null \<and>
    (m \<noteq> gh \<longrightarrow> ns_state gh nc m w' Map.empty (\<lambda>_. []) no_remotes \<and> get_ns m w' = Some ni \<and> ns_frontier ni = 0) \<and> roomy j w'"
proof -
  let ?c = "ns_consts nc"
  note L = ns_levels [OF ok]
  from plat_alloc_ok [OF r sz] obtain m w1 where m: "ps_plat_alloc_linux sz w = Some (m, w1)" "m \<noteq> null" "roomy (Suc j) w1" by blast
  define w2 where "w2 = w1\<lparr>w_mem := (w_mem w1)(m \<mapsto> zero_mem)\<rparr>"
  have i2: "ps_slabptr_init m w1 = Some w2" using m(2) by (simp add: ps_slabptr_init_def c_assert_def w2_def)
  have r2: "roomy (Suc j) w2" using m(3) by (simp add: roomy_def w2_def)
  from ns_trie_create [OF L(2,1) r2, of accum] obtain v w3 where
    3: "ert_alloc linux_ns ?c null accum w2 = Some (v, w3)" "v \<noteq> null" "plat_frame w2 w3" "ns_trie ?c {} w3 v [[] \<mapsto> v]" "roomy j w3" by blast
  obtain mx where mx: "ert_maxid ?c = Some mx" "unat mx = 2 ^ id_bits nc" using ert_maxid_ok [OF L(2)] by blast
  define w4 where "w4 = w3\<lparr>w_mem := (w_mem w3)(gh \<mapsto> zero_mem)\<rparr>"
  have i4: "ps_slabptr_init gh w3 = Some w4" using gh by (simp add: ps_slabptr_init_def c_assert_def w4_def)
  define ni0 where "ni0 = me_ns_info zero_mem"
  let ?f = "\<lambda>ni. ni\<lparr>ns_desc_max := mx, ns_desc_range := ns_range nc, ns_fl := null, ns_frontier := 0, ns_ert := v,
    ns_ert_depth := ucast (nc_depth nc), ns_lkupfn := Some ?c, ns_expandfn := Some ?c, ns_lock := lk_o (ps_lock_init \<lparr>lk_o = ns_lock ni\<rparr>)\<rparr>"
  have m3: "w_mem w3 = (w_mem w1)(m \<mapsto> zero_mem)" using 3(3) by (simp add: plat_frame_def w2_def)
  have g4: "get_ns m w4 = Some ni0" using m3 by (simp add: get_ns_def w4_def ni0_def)
  let ?w = "set_ns m (?f ni0) w4"
  have run: "ps_nsptr_create_slab ps_plat_alloc_linux ps_plat_free_linux gh nc sz accum 0 w = Some (m, 1, ?w)"
    using m(1,2) i2 3(1,2) mx(1) i4 upd_ns_set [OF g4, of ?f]
    by (simp add: ps_nsptr_create_slab_def ps_nsptr_create_def ps_slabptr_create_def ns_init_type_def ps_ns_init_def ps_faa_def)
  have r4: "roomy j ?w" using 3(5) by (simp add: roomy_def w4_def)
  have st: "ns_state gh nc m ?w Map.empty (\<lambda>_. []) no_remotes" if ne: "m \<noteq> gh"
    unfolding ns_state_def
  proof (intro conjI exI)
    show "slab_inv (nsp 0 0 nc (0, 0)) m ?w Map.empty (\<lambda>_. []) no_remotes"
    proof (rule slab_inv_frame [OF slab_inv_init [OF i2]])
      show "get_pc m c ?w = get_pc m c w2" for c using m3 ne by (simp add: get_pc_def w4_def w2_def set_ns_def)
    qed simp
    have bk: "blocks_ok (w_blocks w3)" using 3(5) by (simp add: roomy_def)
    have "slab_state shp gh w4 Map.empty (\<lambda>_. []) no_remotes"
      by (rule slab_state_init [OF i4 shp_sizes(1) _ bk]) (simp add: slabhead_params_def)
    then have h4: "ns_heads gh w4 {} Map.empty (\<lambda>_. [])" by (simp add: ns_heads_def heads_inv_def slab_heads_def)
    have "ns_heads gh ?w {} Map.empty (\<lambda>_. [])"
      by (rule ns_heads_frame [OF h4]) (use ne bk in \<open>simp_all add: w4_def\<close>)
    moreover have "ns_trie ?c {} ?w v [[] \<mapsto> v]"
      using 3(4) by (simp add: ns_trie_def cells_inv_def roomy_def w4_def)
    moreover have "length (leaf_path ?c i) \<noteq> 0" for i using L(1) by simp
    then have "ns_leaves nc ?w Map.empty [[] \<mapsto> v]" unfolding ns_leaves_def by (metis fun_upd_other list.size(3) option.distinct(1))
    ultimately show "ns_inv gh nc m ?w (mems Map.empty) (set []) [] Map.empty (\<lambda>_. []) [[] \<mapsto> v]"
      using ok ne get_set_ns [OF g4, of "?f ni0"] mx(2)
      by (simp add: ns_inv_def ns_blocks_def ns_info_ok_def ns_descs_def pl.list_at_def ps_lock_init_def)
  qed
  show ?thesis using run m(2) st r4 get_set_ns [OF g4, of "?f ni0"]
    by (intro exI [of _ m] exI [of _ ?w] exI [of _ "?f ni0"]) simp
qed


section \<open>Runs\<close>

text \<open>
  \<open>A\<close> gives the object of each descriptor that was handed out and not freed since.  The allocator of
  descriptors, at \<open>gh\<close>, serves this namespace only.
\<close>

inductive ns_run :: "addr \<Rightarrow> ns_class \<Rightarrow> addr \<Rightarrow> world \<Rightarrow> (u64 \<Rightarrow> addr option) \<Rightarrow> bool" for gh nc m where
  start: "ns_ok nc \<Longrightarrow> nc_type nc = NS_slab \<Longrightarrow> roomy 2 w \<Longrightarrow> unat sz \<le> 2 ^ 32 \<Longrightarrow> gh \<noteq> null \<Longrightarrow> m \<noteq> gh \<Longrightarrow>
    ps_nsptr_create_slab ps_plat_alloc_linux ps_plat_free_linux gh nc sz accum 0 w = Some (m, e, w') \<Longrightarrow> ns_run gh nc m w' Map.empty"
| answer: "ns_run gh nc m w A \<Longrightarrow> roomy 0 (w\<lparr>w_answers := as\<rparr>) \<Longrightarrow> ns_run gh nc m (w\<lparr>w_answers := as\<rparr>) A"
| alloc: "ns_run gh nc m w A \<Longrightarrow> ns_ready nc f m w \<Longrightarrow> fst here < PS_NUMCORES \<Longrightarrow>
    ps_nsptr_alloc k (nsp k' gh nc here) nc m here w = Some (b, d, w') \<Longrightarrow>
    ns_run gh nc m w' (case d of None \<Rightarrow> A | Some i \<Rightarrow> A(i \<mapsto> b))"
| free: "ns_run gh nc m w A \<Longrightarrow> A i = Some b \<Longrightarrow> fst here < PS_NUMCORES \<Longrightarrow> snd here < PS_NUMLOCALITIES \<Longrightarrow>
    ps_nsptr_free env clk (nsp k' gh nc here) nc m b here w t = Some (w', t') \<Longrightarrow> ns_run gh nc m w' (A(i := None))"

text \<open>The clients' objects: the map gives them by their descriptors, and none is marked free.\<close>

definition ns_holds :: "ns_class \<Rightarrow> world \<Rightarrow> addr set \<Rightarrow> (u64 \<Rightarrow> addr option) \<Rightarrow> bool" where
  "ns_holds nc w L A \<longleftrightarrow> (\<forall>i b. A i = Some b \<longleftrightarrow> ps_mhead_get b \<in> L \<and> ps_ns_desc (nsp 0 0 nc (0, 0)) b w = Some i) \<and>
     (\<forall>h \<in> L. \<exists>d. w_mh w h = Some d \<and> mh_tsc_free d = 0)"

lemma ns_holds_keep:
  assumes "ns_holds nc w L A" and "\<And>x. x \<in> L \<Longrightarrow> same_obj p w F w' F' x"
  shows "ns_holds nc w' L A"
proof -
  have "ps_ns_desc (nsp 0 0 nc (0, 0)) b w' = ps_ns_desc (nsp 0 0 nc (0, 0)) b w" if "ps_mhead_get b \<in> L" for b
    using ns_desc_same [of w' "ps_mhead_get b" w] assms(2) [OF that] by (simp add: same_obj_def)
  moreover have "w_mh w' x = w_mh w x" if "x \<in> L" for x using assms(2) [OF that] by (simp add: same_obj_def)
  ultimately show ?thesis using assms(1) unfolding ns_holds_def by auto
qed

lemma ns_holds_add:
  assumes st: "ns_state gh nc m w F R Q" and L: "live (nsp 0 0 nc (0, 0)) F Q = insert (ps_mhead_get b) L" and h: "ps_mhead_get b \<notin> L"
    and H: "ns_holds nc w L A" and i: "ps_ns_desc (nsp 0 0 nc (0, 0)) b w = Some i" and d: "w_mh w (ps_mhead_get b) = Some d" "mh_tsc_free d = 0"
  shows "ns_holds nc w (insert (ps_mhead_get b) L) (A(i \<mapsto> b))" "A i = None" "b \<notin> ran A"
proof -
  have new: "ps_mhead_get b' \<notin> L" if "ps_ns_desc (nsp 0 0 nc (0, 0)) b' w = Some i" for b'
    using ns_desc_inj [OF st, of "ps_mhead_get b'" "ps_mhead_get b" i] that i h L by auto
  have get: "ps_mhead_get b' = ps_mhead_get b \<longleftrightarrow> b' = b" for b' by (metis ps_mhead_mem_get)
  show "ns_holds nc w (insert (ps_mhead_get b) L) (A(i \<mapsto> b))"
    using H new i d unfolding ns_holds_def by (auto simp: get)
  show "A i = None" using H new unfolding ns_holds_def by (metis not_None_eq)
  show "b \<notin> ran A" using H h unfolding ns_holds_def ran_def by auto
qed

lemma ns_holds_remove:
  assumes st: "ns_state gh nc m w F R Q" and H: "ns_holds nc w (live (nsp 0 0 nc (0, 0)) F Q) A" and b: "A i = Some b"
  shows "ns_holds nc w (live (nsp 0 0 nc (0, 0)) F Q - {ps_mhead_get b}) (A(i := None))"
proof -
  have get: "ps_mhead_get b' = ps_mhead_get b \<longleftrightarrow> b' = b" for b' by (metis ps_mhead_mem_get)
  have H1: "A j = Some b' \<longleftrightarrow> ps_mhead_get b' \<in> live (nsp 0 0 nc (0, 0)) F Q \<and> ps_ns_desc (nsp 0 0 nc (0, 0)) b' w = Some j" for j b'
    using H unfolding ns_holds_def by blast
  have "(A(i := None)) j = Some b' \<longleftrightarrow> A j = Some b' \<and> b' \<noteq> b" for j b'
    using H1 [of j b] H1 [of i b] b by auto
  moreover have "\<forall>h \<in> live (nsp 0 0 nc (0, 0)) F Q. \<exists>d. w_mh w h = Some d \<and> mh_tsc_free d = 0"
    using H unfolding ns_holds_def by blast
  ultimately show ?thesis unfolding ns_holds_def H1 by (auto simp: get)
qed

text \<open>The core that an object's slab belongs to.\<close>

definition ns_home :: "world \<Rightarrow> addr \<Rightarrow> nat option" where
  "ns_home w b = do { h \<leftarrow> w_mh w (ps_mhead_get b); sl \<leftarrow> w_sl w (mh_slab h); Some (sl_coreid sl) }"

lemma ns_free_any:
  assumes st: "ns_state gh nc m w F R Q" and H: "ns_holds nc w (live (nsp 0 0 nc (0, 0)) F Q) A" and b: "A i = Some b"
    and c: "fst here < PS_NUMCORES" "snd here < PS_NUMLOCALITIES" and t: "nc_type nc = NS_slab"
  shows "\<exists>w' F' R' Q'. ps_nsptr_free env clk (nsp k gh nc here) nc m b here w t = Some (w', t) \<and> ns_state gh nc m w' F' R' Q' \<and>
    ns_holds nc w' (live (nsp 0 0 nc (0, 0)) F' Q') (A(i := None)) \<and>
    ps_nsptr_lkup ps_plat_alloc_linux nc m i accum w' = Some (if ns_home w b = Some (fst here) then null else b)"
proof -
  let ?q = "nsp 0 0 nc (0, 0)" and ?h = "ps_mhead_get b"
  have h: "?h \<in> live ?q F Q" and i: "ps_ns_desc ?q (ps_mhead_mem ?h) w = Some i" using H b by (simp_all add: ns_holds_def)
  obtain d where d: "w_mh w ?h = Some d" "mh_tsc_free d = 0" using H h by (auto simp: ns_holds_def)
  obtain s mem e fs where F: "F s = Some (mem, e, fs)" "?h \<in> set (slab_objs ?q mem)"
    using liveE [OF h ns_stateD(2) [OF st]] by metis
  have be: "belongs ?q F e ?h" using F unfolding belongs_def by blast
  have hm: "ns_home w b = Some e"
    using header_slab [OF ns_stateD(2) [OF st] F] slabs_okD [OF ns_stateD(2) [OF st, of 0 0 "(0, 0)"] F(1)] d(1)
    by (auto simp: ns_home_def slab_rep_def)
  note rm = ns_holds_remove [OF st H b]
  show ?thesis
  proof (cases "e = fst here")
    case True
    from ns_free_home [OF st h d be [unfolded True] c(1) i, of k accum] obtain w' F' R' where
      "ps_slab_mem_free (ps_mhead_mem ?h) m (nsp k gh nc here) here w = Some w'" "ns_state gh nc m w' F' R' Q"
      "live ?q F' Q = live ?q F Q - {?h}" "\<forall>x \<in> live ?q F' Q. same_obj ?q w F w' F' x"
      "ps_nsptr_lkup ps_plat_alloc_linux nc m i accum w' = Some null" by (elim exE conjE) (rule that)
    then show ?thesis using True hm ns_holds_keep [OF rm, of ?q F w' F']
      by (intro exI [of _ w'] exI [of _ F'] exI [of _ R'] exI [of _ Q]) (simp add: ns_nsptr_free [OF t])
  next
    case False
    from ns_free_remote [OF st h d be c(1) False c(2) i, of k accum] obtain w' Q' where
      "ps_slab_mem_free (ps_mhead_mem ?h) m (nsp k gh nc here) here w = Some w'" "ns_state gh nc m w' F R Q'"
      "live ?q F Q' = live ?q F Q - {?h}" "\<forall>x \<in> live ?q F Q'. same_obj ?q w F w' F x"
      "ps_nsptr_lkup ps_plat_alloc_linux nc m i accum w' = Some (ps_mhead_mem ?h)" by (elim exE conjE) (rule that)
    then show ?thesis using False hm ns_holds_keep [OF rm, of ?q F w' F]
      by (intro exI [of _ w'] exI [of _ F] exI [of _ R] exI [of _ Q']) (simp add: ns_nsptr_free [OF t])
  qed
qed


lemma ns_inv_answers:
  assumes inv: "ns_inv gh nc m w M E FL F R P" and r: "roomy 0 (w\<lparr>w_answers := as\<rparr>)"
  shows "ns_inv gh nc m (w\<lparr>w_answers := as\<rparr>) M E FL F R P"
proof -
  let ?w = "w\<lparr>w_answers := as\<rparr>"
  obtain ni where I: "ns_ok nc" "gh \<noteq> m" "set FL \<subseteq> E" "ns_heads gh w (dom M \<union> E) F R" "ns_blocks nc w M F" "ns_leaves nc w M P"
    "get_ns m w = Some ni" "ns_info_ok nc ni" "pl.list_at SLAB_LIST (w_ls w) (ns_fl ni) FL"
    "ns_descs nc w M E (unat (ns_frontier ni))" "ns_trie (ns_consts nc) (ran M) w (ns_ert ni) P"
    using ns_invD [OF inv] .
  have "ns_heads gh ?w (dom M \<union> E) F R"
    by (rule ns_heads_frame [OF I(4)]) (use ns_heads_binv [OF I(4)] in \<open>simp_all add: def_binv_def\<close>)
  moreover have "ns_descs nc ?w M E (unat (ns_frontier ni))" by (rule ns_descs_cong [OF I(10)]) simp
  moreover have "ns_trie (ns_consts nc) (ran M) ?w (ns_ert ni) P" using I(11) r by (simp add: ns_trie_def cells_inv_def)
  moreover have "ns_blocks nc ?w M F" "ns_leaves nc ?w M P" "get_ns m ?w = Some ni" "pl.list_at SLAB_LIST (w_ls ?w) (ns_fl ni) FL"
    using I(5-7,9) by (simp_all add: ns_blocks_def ns_leaves_def desc_id_def get_ns_def)
  ultimately show ?thesis using I(1-3,8) unfolding ns_inv_def by blast
qed

lemma ns_alloc_mono:
  "nc_type nc = NS_slab \<Longrightarrow> k \<le> k' \<Longrightarrow>
   upto_fuel (ps_nsptr_alloc k (nsp j gh nc here) nc m here w) (ps_nsptr_alloc k' (nsp j gh nc here) nc m here w)"
  unfolding ns_nsptr_alloc by (intro fuel_intros ps_slab_mem_alloc_mono)

lemma ns_remote_bound: "ns_state gh nc m w F R Q \<Longrightarrow> \<exists>k. \<forall>l i. length (Q c l i) \<le> k"
  using remote_bound [OF ns_stateD(4)] by blast

text \<open>An allocation from a state of a run.\<close>

lemma ns_alloc_any:
  assumes st: "ns_state gh nc m w F R Q" and H: "ns_holds nc w (live (nsp 0 0 nc (0, 0)) F Q) A"
    and r: "ns_ready nc f m w" and c: "fst here < PS_NUMCORES" and t: "nc_type nc = NS_slab"
    and k: "\<And>l i. length (Q (fst here) l i) \<le> k"
  shows "\<exists>b d w' F' R' Q'. ps_nsptr_alloc k (nsp k' gh nc here) nc m here w = Some (b, d, w') \<and> ns_state gh nc m w' F' R' Q' \<and>
    ns_holds nc w' (live (nsp 0 0 nc (0, 0)) F' Q') (case d of None \<Rightarrow> A | Some i \<Rightarrow> A(i \<mapsto> b)) \<and>
    (if b = null then d = None \<and> ns_exhausted nc m w' \<and> 2 ^ id_bits nc \<le> unat f else \<exists>i. d = Some i \<and> A i = None \<and> b \<notin> ran A)"
proof -
  let ?q = "nsp 0 0 nc (0, 0)"
  from ns_alloc_ok [OF st r c k t, of k'] obtain b d w' F' R' Q' where
    1: "ps_nsptr_alloc k (nsp k' gh nc here) nc m here w = Some (b, d, w')" "ns_state gh nc m w' F' R' Q'"
    "\<forall>x \<in> live ?q F Q. same_obj ?q w F w' F' x" and
    2: "if b = null then d = None \<and> live ?q F' Q' = live ?q F Q \<and> ns_exhausted nc m w' \<and> 2 ^ id_bits nc \<le> unat f
     else \<exists>i hdr. d = Some i \<and> ps_ns_desc ?q b w' = Some i \<and> ps_mhead_get b \<notin> live ?q F Q \<and>
       live ?q F' Q' = insert (ps_mhead_get b) (live ?q F Q) \<and> w_mh w' (ps_mhead_get b) = Some hdr \<and> mh_tsc_free hdr = 0"
    by (elim exE conjE) (rule that)
  have H': "ns_holds nc w' (live ?q F Q) A" by (rule ns_holds_keep [OF H]) (use 1(3) in blast)
  show ?thesis
  proof (cases "b = null")
    case True
    then show ?thesis using 1(1,2) 2 H' by (intro exI [of _ b] exI [of _ d] exI [of _ w'] exI [of _ F'] exI [of _ R'] exI [of _ Q']) simp
  next
    case False
    then obtain i hdr where i: "d = Some i" "ps_ns_desc ?q b w' = Some i" "ps_mhead_get b \<notin> live ?q F Q"
      "live ?q F' Q' = insert (ps_mhead_get b) (live ?q F Q)" "w_mh w' (ps_mhead_get b) = Some hdr" "mh_tsc_free hdr = 0"
      using 2 by (simp only: if_False) (elim exE conjE, rule that)
    from ns_holds_add [OF 1(2) i(4,3) H' i(2,5,6)] False 1(1,2) i(1,4) show ?thesis
      by (intro exI [of _ b] exI [of _ d] exI [of _ w'] exI [of _ F'] exI [of _ R'] exI [of _ Q']) simp
  qed
qed

lemma ns_run_state:
  "ns_run gh nc m w A \<Longrightarrow> nc_type nc = NS_slab \<and>
   (\<exists>F R Q. ns_state gh nc m w F R Q \<and> ns_holds nc w (live (nsp 0 0 nc (0, 0)) F Q) A)"
proof (induction rule: ns_run.induct)
  case (start w sz accum e w')
  have "roomy (Suc (Suc 0)) w" using start(3) by (simp add: numeral_2_eq_2)
  from ns_create_ok [OF start(1) this start(4,5), of accum] start(6,7) have "ns_state gh nc m w' Map.empty (\<lambda>_. []) no_remotes" by auto
  moreover have "ns_holds nc w' (live (nsp 0 0 nc (0, 0)) Map.empty no_remotes) Map.empty" by (simp add: live_init ns_holds_def)
  ultimately show ?case using start(2) by blast
next
  case (answer w A as)
  then obtain F R Q FL FH RH P where s: "slab_inv (nsp 0 0 nc (0, 0)) m w F R Q" "ns_inv gh nc m w (mems F) (set FL) FL FH RH P"
    and H: "ns_holds nc w (live (nsp 0 0 nc (0, 0)) F Q) A" and t: "nc_type nc = NS_slab" by (auto simp: ns_state_def)
  let ?w = "w\<lparr>w_answers := as\<rparr>"
  have "slab_inv (nsp 0 0 nc (0, 0)) m ?w F R Q" by (rule slab_inv_frame [OF s(1)]) (simp_all add: same_cells_def)
  moreover have "ns_inv gh nc m ?w (mems F) (set FL) FL FH RH P" by (rule ns_inv_answers [OF s(2) answer(2)])
  ultimately have "ns_state gh nc m ?w F R Q" unfolding ns_state_def by blast
  moreover have "ns_holds nc ?w (live (nsp 0 0 nc (0, 0)) F Q) A"
    by (rule ns_holds_keep [OF H, of "nsp 0 0 nc (0, 0)" F _ F]) (simp add: same_obj_def obj_ids_def)
  ultimately show ?case using t by blast
next
  case (alloc w A f here k k' b d w')
  then obtain F R Q where s: "ns_state gh nc m w F R Q" "ns_holds nc w (live (nsp 0 0 nc (0, 0)) F Q) A" and t: "nc_type nc = NS_slab" by blast
  obtain k0 where k0: "\<forall>l i. length (Q (fst here) l i) \<le> k0" using ns_remote_bound [OF s(1)] by blast
  have bnd: "length (Q (fst here) l i) \<le> max k k0" for l i using k0 by (simp add: le_max_iff_disj)
  have "ps_nsptr_alloc (max k k0) (nsp k' gh nc here) nc m here w = Some (b, d, w')"
    by (rule upto_fuelD [OF ns_alloc_mono [OF t, of k] alloc(4)]) simp
  with ns_alloc_any [OF s alloc(2,3) t bnd, of k'] show ?case using t by auto
next
  case (free w A i b here env clk k' t w' t')
  then obtain F R Q where s: "ns_state gh nc m w F R Q" "ns_holds nc w (live (nsp 0 0 nc (0, 0)) F Q) A" and ty: "nc_type nc = NS_slab" by blast
  from ns_free_any [OF s free(2-4) ty, of env clk k' t null] obtain w1 F' R' Q' where
    "ps_nsptr_free env clk (nsp k' gh nc here) nc m b here w t = Some (w1, t)" "ns_state gh nc m w1 F' R' Q'"
    "ns_holds nc w1 (live (nsp 0 0 nc (0, 0)) F' Q') (A(i := None))" by (elim exE conjE) (rule that)
  moreover from this(1) free(5) have "w1 = w'" by simp
  ultimately show ?case using ty by blast
qed


section \<open>An example run\<close>

text \<open>Objects of eight bytes, four to a leaf, two leaves; the namespace at \<open>2 ^ 32\<close>.\<close>

definition ex_nc :: ns_class where
  "ex_nc = \<lparr>nc_type = NS_slab, nc_nodesz = 8, nc_depth = 2, nc_order = 1, nc_leaforder = 2\<rparr>"

definition ex_nw :: world where
  "ex_nw = ex_w\<lparr>w_answers := map (\<lambda>n. of_nat n * 2 ^ 32) [1..<7]\<rparr>"

lemma ex_nc_objmemsz: "ns_objmemsz ex_nc = 32"
  by (code_simp, simp?)

lemma ex_ns_ok: "ns_ok ex_nc"
  using ex_nc_objmemsz by (simp add: ns_ok_def ert_ok_def ns_consts_def ex_nc_def ert_levels_def ert_bits_def PS_WORD_def)

lemma ex_ns_bits: "id_bits ex_nc = 3" "leaf_ids ex_nc = 4" "ert_levels (ns_consts ex_nc) = 2"
  by (simp_all add: ns_consts_def ex_nc_def ert_levels_def ert_bits_def ids_per_leaf_def)

lemma ex_ns_roomy: "roomy 6 ex_nw"
  by (simp add: roomy_def ex_nw_def ex_w_def blocks_ok_def good_block_def room_def apart_def upt_rec)

text \<open>After creation the first object can be had, on any core.\<close>

lemma ex_ns_run0: "\<exists>m w. ns_run 64 ex_nc m w Map.empty \<and> ns_ready ex_nc 0 m w \<and> m \<noteq> null"
proof -
  have "roomy (Suc (Suc 4)) ex_nw" using ex_ns_roomy by (simp add: roomy_def)
  from ns_create_ok [OF ex_ns_ok this, of 4096 64 0] obtain m w ni where
    1: "ps_nsptr_create_slab ps_plat_alloc_linux ps_plat_free_linux 64 ex_nc 4096 0 0 ex_nw = Some (m, 1, w)" "m \<noteq> null"
    "m \<noteq> 64 \<longrightarrow> ns_state 64 ex_nc m w Map.empty (\<lambda>_. []) no_remotes \<and> get_ns m w = Some ni \<and> ns_frontier ni = 0" "roomy 4 w" by auto
  have "map_option fst (ps_slabptr_create ps_plat_alloc_linux 4096 ex_nw) = Some (2 ^ 32)"
    by (simp add: ps_slabptr_create_def ps_plat_alloc_linux_def plat_answer_def ex_nw_def ex_w_def ps_slabptr_init_def c_assert_def upt_rec)
  then have m: "m = 2 ^ 32" using 1(1)
    by (auto simp: ps_nsptr_create_slab_def ps_nsptr_create_def bind_eq_Some_conv split: if_splits)
  then have ne: "m \<noteq> 64" by simp
  have "ns_run 64 ex_nc m w Map.empty"
    by (rule ns_run.start [OF ex_ns_ok _ _ _ _ ne 1(1)]) (use ex_ns_roomy in \<open>simp_all add: ex_nc_def roomy_def\<close>)
  moreover have "ns_ready ex_nc 0 m w" using 1(3,4) ne by (auto simp: ns_ready_def ex_ns_bits roomy_def)
  ultimately show ?thesis using 1(2) by blast
qed

lemma ex_ns_run1:
  assumes "fst (here :: cpu) < PS_NUMCORES"
  shows "\<exists>m w i b. ns_run 64 ex_nc m w [i \<mapsto> b] \<and> b \<noteq> null"
proof -
  obtain m w where 0: "ns_run 64 ex_nc m w Map.empty" "ns_ready ex_nc 0 m w" using ex_ns_run0 by blast
  from ns_run_state [OF 0(1)] obtain F R Q where
    s: "ns_state 64 ex_nc m w F R Q" "ns_holds ex_nc w (live (nsp 0 0 ex_nc (0, 0)) F Q) Map.empty" and t: "nc_type ex_nc = NS_slab" by blast
  obtain k where k: "\<forall>l i. length (Q (fst here) l i) \<le> k" using ns_remote_bound [OF s(1)] by blast
  have bnd: "length (Q (fst here) l i) \<le> k" for l i using k by blast
  from ns_alloc_any [OF s 0(2) assms t bnd, of 0] obtain b d w' F' R' Q' where
    a: "ps_nsptr_alloc k (nsp 0 64 ex_nc here) ex_nc m here w = Some (b, d, w')" and
    d: "if b = null then d = None \<and> ns_exhausted ex_nc m w' \<and> 2 ^ id_bits ex_nc \<le> unat (0 :: u64)
     else \<exists>i. d = Some i \<and> Map.empty i = (None :: addr option) \<and> b \<notin> ran (Map.empty :: u64 \<Rightarrow> addr option)" by (elim exE conjE) (rule that)
  obtain i where i: "d = Some i" "b \<noteq> null" using d by (auto split: if_splits)
  have "ns_run 64 ex_nc m w' (case d of None \<Rightarrow> Map.empty | Some i \<Rightarrow> [i \<mapsto> b])"
    by (rule ns_run.alloc [OF 0 assms a])
  then show ?thesis using i by auto
qed

end
