(* ===== verification/Ns_Properties.thy ===== *)
theory Ns_Properties
  imports Ns_Runs
begin

text \<open>
  What callers of a namespace see, in every run: descriptors and objects correspond, lookups find what is
  held, allocation and free return.
\<close>

text \<open>
  C5: a namespace refines a map.  In every run, of any calls on any cores, a lookup of a descriptor that is held
  gives the object it was handed out with, and \<open>ps_ns_desc\<close> of the object gives the descriptor back.
\<close>

theorem ns_run_lookup:
  assumes "ns_run gh nc m w A" and "A i = Some b"
  shows "ps_nsptr_lkup ps_plat_alloc_linux nc m i accum w = Some b \<and> ps_ns_desc (nsp k gh nc here) b w = Some i"
proof -
  obtain F R Q where s: "ns_state gh nc m w F R Q" "ns_holds nc w (live (nsp 0 0 nc (0, 0)) F Q) A" using ns_run_state [OF assms(1)] by blast
  have d: "ps_ns_desc (nsp k gh nc here) b w = Some i"
    using s(2) assms(2) ns_desc_any [of k gh nc here] by (simp add: ns_holds_def)
  have h: "ps_mhead_get b \<in> live (nsp 0 0 nc (0, 0)) F Q" using s(2) assms(2) by (simp add: ns_holds_def)
  then obtain hdr where "w_mh w (ps_mhead_get b) = Some hdr" "mh_tsc_free hdr = 0" using s(2) by (auto simp: ns_holds_def)
  with ns_live_lookup [OF s(1), of "ps_mhead_get b" hdr k gh here accum] h d
  show ?thesis by (auto simp: live_def)
qed

theorem ns_run_lookup_witness:
  "\<exists>m w i b. b \<noteq> null \<and> ps_nsptr_lkup ps_plat_alloc_linux ex_nc m i 0 w = Some b \<and> ps_ns_desc (nsp 0 64 ex_nc (0, 0)) b w = Some i"
proof -
  obtain m w i b where "ns_run 64 ex_nc m w [i \<mapsto> b]" "b \<noteq> null" using ex_ns_run1 [of "(0, 0)"] by (auto simp: PS_NUMCORES_def)
  moreover from ns_run_lookup [OF this(1), of i b] have "ps_nsptr_lkup ps_plat_alloc_linux ex_nc m i 0 w = Some b"
    "ps_ns_desc (nsp 0 64 ex_nc (0, 0)) b w = Some i" by simp_all
  ultimately show ?thesis by blast
qed

text \<open>
  C6: in every run \<open>ps_nsptr_alloc\<close> returns once the bound on the remote lists is large enough.  It gives an object
  and a descriptor that are not held, the descriptor below the maximum, and a lookup finds the object; or no
  memory, and then all identities up to the maximum had been handed to slabs before the call.
\<close>

theorem ns_run_alloc:
  assumes "ns_run gh nc m w A" and "ns_ready nc f m w" and "fst here < PS_NUMCORES"
  shows "\<exists>k. \<forall>k' \<ge> k. \<exists>b d w'. ps_nsptr_alloc k' (nsp j gh nc here) nc m here w = Some (b, d, w') \<and>
    (if b = null then d = None \<and> 2 ^ id_bits nc \<le> unat f
     else \<exists>i. d = Some i \<and> unat i < 2 ^ id_bits nc \<and> A i = None \<and> b \<notin> ran A \<and>
       ps_nsptr_lkup ps_plat_alloc_linux nc m i accum w' = Some b)"
proof -
  obtain F R Q where s: "ns_state gh nc m w F R Q" "ns_holds nc w (live (nsp 0 0 nc (0, 0)) F Q) A" and t: "nc_type nc = NS_slab"
    using ns_run_state [OF assms(1)] by blast
  obtain k where k: "\<forall>l i. length (Q (fst here) l i) \<le> k" using ns_remote_bound [OF s(1)] by blast
  show ?thesis
  proof (intro exI [of _ k] allI impI)
    fix k' assume "k \<le> k'"
    then have k': "length (Q (fst here) l i) \<le> k'" for l i using k le_trans by blast
    from ns_alloc_any [OF s assms(2,3) t k', of j] obtain b d w' F' R' Q' where
      1: "ps_nsptr_alloc k' (nsp j gh nc here) nc m here w = Some (b, d, w')" "ns_state gh nc m w' F' R' Q'"
      "ns_holds nc w' (live (nsp 0 0 nc (0, 0)) F' Q') (case d of None \<Rightarrow> A | Some i \<Rightarrow> A(i \<mapsto> b))" and
      2: "if b = null then d = None \<and> ns_exhausted nc m w' \<and> 2 ^ id_bits nc \<le> unat f else \<exists>i. d = Some i \<and> A i = None \<and> b \<notin> ran A"
      by (elim exE conjE) (rule that)
    show "\<exists>b d w'. ps_nsptr_alloc k' (nsp j gh nc here) nc m here w = Some (b, d, w') \<and>
      (if b = null then d = None \<and> 2 ^ id_bits nc \<le> unat f
       else \<exists>i. d = Some i \<and> unat i < 2 ^ id_bits nc \<and> A i = None \<and> b \<notin> ran A \<and>
         ps_nsptr_lkup ps_plat_alloc_linux nc m i accum w' = Some b)"
    proof (cases "b = null")
      case False
      then obtain i where i: "d = Some i" "A i = None" "b \<notin> ran A" using 2 by auto
      then have H: "ps_mhead_get b \<in> live (nsp 0 0 nc (0, 0)) F' Q'" "ps_ns_desc (nsp 0 0 nc (0, 0)) b w' = Some i"
        using 1(3) [unfolded i(1) option.case ns_holds_def] by (metis fun_upd_same)+
      obtain hdr where "w_mh w' (ps_mhead_get b) = Some hdr" "mh_tsc_free hdr = 0" using 1(3) H(1) by (auto simp: ns_holds_def)
      with ns_live_lookup [OF 1(2), of "ps_mhead_get b" hdr 0 0 "(0, 0)" accum] H
      have "unat i < 2 ^ id_bits nc \<and> ps_nsptr_lkup ps_plat_alloc_linux nc m i accum w' = Some b" by (auto simp: live_def)
      then show ?thesis using 1(1) False i by auto
    qed (use 1(1) 2 in auto)
  qed
qed

theorem ns_run_alloc_witness:
  "\<exists>m w k b i w'. ps_nsptr_alloc k (nsp 0 64 ex_nc (3, 0)) ex_nc m (3, 0) w = Some (b, Some i, w') \<and> b \<noteq> null \<and> unat i < 8 \<and>
     ps_nsptr_lkup ps_plat_alloc_linux ex_nc m i 0 w' = Some b"
proof -
  obtain m w where 0: "ns_run 64 ex_nc m w Map.empty" "ns_ready ex_nc 0 m w" using ex_ns_run0 by blast
  have "fst (3 :: nat, 0 :: nat) < PS_NUMCORES" by (simp add: PS_NUMCORES_def)
  from ns_run_alloc [OF 0 this, of 0 0] obtain k where
    k: "\<forall>k' \<ge> k. \<exists>b d w'. ps_nsptr_alloc k' (nsp 0 64 ex_nc (3, 0)) ex_nc m (3, 0) w = Some (b, d, w') \<and>
      (if b = null then d = None \<and> 2 ^ id_bits ex_nc \<le> unat (0 :: u64)
       else \<exists>i. d = Some i \<and> unat i < 2 ^ id_bits ex_nc \<and> Map.empty i = (None :: addr option) \<and> b \<notin> ran (Map.empty :: u64 \<Rightarrow> addr option) \<and>
         ps_nsptr_lkup ps_plat_alloc_linux ex_nc m i 0 w' = Some b)" by blast
  from k [rule_format, OF order_refl] obtain b d w' where
    "ps_nsptr_alloc k (nsp 0 64 ex_nc (3, 0)) ex_nc m (3, 0) w = Some (b, d, w')" and
    d: "if b = null then d = None \<and> 2 ^ id_bits ex_nc \<le> unat (0 :: u64)
     else \<exists>i. d = Some i \<and> unat i < 2 ^ id_bits ex_nc \<and> Map.empty i = (None :: addr option) \<and> b \<notin> ran (Map.empty :: u64 \<Rightarrow> addr option) \<and>
       ps_nsptr_lkup ps_plat_alloc_linux ex_nc m i 0 w' = Some b" by (elim exE conjE) (rule that)
  moreover have bn: "b \<noteq> null" using d by (auto simp: ex_ns_bits split: if_splits)
  moreover obtain i where "d = Some i" "unat i < 8" "ps_nsptr_lkup ps_plat_alloc_linux ex_nc m i 0 w' = Some b"
    using d bn by (auto simp: ex_ns_bits)
  ultimately show ?thesis by blast
qed

text \<open>
  C7: in every run a held object can be freed by its descriptor on any core.  Freed on the core of its slab it is
  not found any more, and a second free by the same descriptor does nothing.  Freed on another core, a lookup
  of its descriptor still gives the object.
\<close>

theorem ns_run_free:
  assumes "ns_run gh nc m w A" and "A i = Some b" and "fst here < PS_NUMCORES" and "snd here < PS_NUMLOCALITIES"
  shows "\<exists>w'. ps_nsptr_freedesc env clk ps_plat_alloc_linux (nsp k gh nc here) nc m i accum here w t = Some (w', t) \<and>
    ps_nsptr_lkup ps_plat_alloc_linux nc m i accum w' = Some (if ns_home w b = Some (fst here) then null else b) \<and>
    (ns_home w b = Some (fst here) \<longrightarrow>
      ps_nsptr_freedesc env clk ps_plat_alloc_linux (nsp k gh nc here) nc m i accum here w' t = Some (w', t))"
proof -
  obtain F R Q where s: "ns_state gh nc m w F R Q" "ns_holds nc w (live (nsp 0 0 nc (0, 0)) F Q) A" and ty: "nc_type nc = NS_slab"
    using ns_run_state [OF assms(1)] by blast
  have h: "ps_mhead_get b \<in> live (nsp 0 0 nc (0, 0)) F Q" "ps_ns_desc (nsp 0 0 nc (0, 0)) b w = Some i"
    using s(2) assms(2) by (simp_all add: ns_holds_def)
  obtain hdr where "w_mh w (ps_mhead_get b) = Some hdr" "mh_tsc_free hdr = 0" using s(2) h(1) by (auto simp: ns_holds_def)
  with ns_live_lookup [OF s(1), of "ps_mhead_get b" hdr 0 0 "(0, 0)" accum] h
  have l: "ps_nsptr_lkup ps_plat_alloc_linux nc m i accum w = Some b" by (auto simp: live_def)
  have n: "b \<noteq> null" using ns_live_nonnull [OF s(1) h(1)] by simp
  from ns_free_any [OF s assms(2-4) ty, of env clk k t accum] obtain w' where
    "ps_nsptr_free env clk (nsp k gh nc here) nc m b here w t = Some (w', t)"
    "ps_nsptr_lkup ps_plat_alloc_linux nc m i accum w' = Some (if ns_home w b = Some (fst here) then null else b)" by blast
  then show ?thesis using l n by (intro exI [of _ w']) (simp add: ps_nsptr_freedesc_def)
qed

theorem ns_run_free_witness:
  "\<exists>m w i b w'. ps_nsptr_freedesc (\<lambda>_. Map.empty) (\<lambda>_. 0) ps_plat_alloc_linux (nsp 0 64 ex_nc (0, 0)) ex_nc m i 0 (0, 0) w 5 = Some (w', 5) \<and> b \<noteq> null \<and>
     ps_nsptr_lkup ps_plat_alloc_linux ex_nc m i 0 w' = Some (if ns_home w b = Some 0 then null else b)"
proof -
  obtain m w i b where "ns_run 64 ex_nc m w [i \<mapsto> b]" "b \<noteq> null" using ex_ns_run1 [of "(0, 0)"] by (auto simp: PS_NUMCORES_def)
  with ns_run_free [OF this(1), of i b "(0, 0)"] show ?thesis
    by (fastforce simp: PS_NUMCORES_def PS_NUMLOCALITIES_def)
qed

text \<open>
  C29: in every run any descriptor below the maximum can be looked up, held or not; the walk through the trie does not
  fail, and an object that is found has the descriptor that was looked up.
\<close>

theorem ns_run_lookup_any:
  assumes "ns_run gh nc m w A" and "unat i < 2 ^ id_bits nc"
  shows "\<exists>b. ps_nsptr_lkup ps_plat_alloc_linux nc m i accum w = Some b \<and> (b \<noteq> null \<longrightarrow> ps_ns_desc (nsp k gh nc here) b w = Some i)"
proof -
  obtain F R Q where s: "ns_state gh nc m w F R Q" using ns_run_state [OF assms(1)] by blast
  from ns_lookup_total [OF s assms(2), of accum k gh here] show ?thesis by blast
qed

theorem ns_run_lookup_any_witness: "\<exists>m w b. m \<noteq> null \<and> ps_nsptr_lkup ps_plat_alloc_linux ex_nc m 7 0 w = Some b"
proof -
  obtain m w where "ns_run 64 ex_nc m w Map.empty" "m \<noteq> null" using ex_ns_run0 by blast
  moreover from ns_run_lookup_any [OF this(1), of 7 0 0 "(0, 0)"] obtain b where "ps_nsptr_lkup ps_plat_alloc_linux ex_nc m 7 0 w = Some b"
    by (auto simp: ex_ns_bits)
  ultimately show ?thesis by blast
qed

text \<open>
  C30: held objects are well formed.  In every run the header of a held object is not marked free and points to
  a slab descriptor whose leaf is a block of the platform; the descriptor \<open>i\<close> lies in the range of the slab and
  the object is at the place in the leaf that \<open>i\<close> says.
\<close>

theorem ns_run_typed:
  assumes "ns_run gh nc m w A" and "A i = Some b"
  shows "\<exists>hdr sl. w_mh w (ps_mhead_get b) = Some hdr \<and> mh_tsc_free hdr = 0 \<and> w_sl w (mh_slab hdr) = Some sl \<and>
    w_blocks w (sl_memory sl) = Some (ns_objmemsz nc * ns_range nc) \<and>
    unat (sl_start sl) \<le> unat i \<and> unat i < unat (sl_start sl) + unat (ns_range nc) \<and>
    b = ps_mhead_mem (sl_memory sl + (i - sl_start sl) * ns_objmemsz nc)"
proof -
  obtain F R Q where s: "ns_state gh nc m w F R Q" "ns_holds nc w (live (nsp 0 0 nc (0, 0)) F Q) A" using ns_run_state [OF assms(1)] by blast
  note ok = ns_state_ok [OF s(1)]
  have h: "ps_mhead_get b \<in> live (nsp 0 0 nc (0, 0)) F Q" "ps_ns_desc (nsp 0 0 nc (0, 0)) b w = Some i"
    using s(2) assms(2) by (simp_all add: ns_holds_def)
  obtain hdr where hdr: "w_mh w (ps_mhead_get b) = Some hdr" "mh_tsc_free hdr = 0" using s(2) h(1) by (auto simp: ns_holds_def)
  note so = ns_stateD(2) [OF s(1), of 0 0 "(0, 0)"]
  obtain e mem c fs where F: "F e = Some (mem, c, fs)" "ps_mhead_get b \<in> set (slab_objs (nsp 0 0 nc (0, 0)) mem)"
    using liveE [OF h(1) so] by metis
  have he: "mh_slab hdr = e" using header_slab [OF so F] hdr(1) by auto
  obtain sl where sl: "w_sl w e = Some sl" "sl_memory sl = mem" using slabs_okD [OF so F(1)] by (auto simp: slab_rep_def)
  from ns_is_obj_of [OF s(1) F, of 0 0 "(0, 0)"] h(2) have i: "ns_covers nc w e (unat i)" "ps_mhead_get b = ns_obj nc mem (unat i)" by auto
  have id: "desc_id w e = unat (sl_start sl)" using sl(1) by (simp add: desc_id_def)
  have rng: "unat (sl_start sl) \<le> unat i" "unat i < unat (sl_start sl) + leaf_ids nc" using i(1) by (simp_all add: ns_covers_def id)
  let ?j = "unat (i - sl_start sl)"
  have j: "?j = unat i - unat (sl_start sl)" using rng(1) by (simp add: unat_sub_small)
  have m: "?j = unat i mod leaf_ids nc"
  proof -
    obtain a where "unat (sl_start sl) = leaf_ids nc * a" using ns_slab_ids(1) [OF s(1) F(1)] unfolding id by (rule dvdE)
    then have "unat i = ?j + leaf_ids nc * a" "?j < leaf_ids nc" using rng j by simp_all
    then show ?thesis by (metis mod_less mod_mult_self2)
  qed
  have wj: "of_nat ?j = i - sl_start sl" by simp
  have "ps_mhead_get b = mem + of_nat ?j * ns_objmemsz nc"
    using i(2) ns_obj_mod [OF ok, of mem "unat i"] ns_obj_at [OF ok, of ?j mem 0 0 "(0, 0)"] ns_range_nat(2) [OF ok] ns_sizes(4) [OF ok, of 0 0 "(0, 0)"]
    unfolding m [symmetric] by (simp add: m obj_at_def)
  then have "b = ps_mhead_mem (mem + (i - sl_start sl) * ns_objmemsz nc)" by (metis ps_mhead_mem_get wj)
  moreover have "w_blocks w mem = Some (ns_objmemsz nc * ns_range nc)"
    using s(1) F(1) by (auto simp: ns_state_def ns_inv_def ns_blocks_def mems_def)
  ultimately show ?thesis using hdr he sl rng ns_range_nat(1) [OF ok] by auto
qed

theorem ns_run_typed_witness:
  "\<exists>(w :: world) i b hdr sl. b \<noteq> null \<and> w_mh w (ps_mhead_get b) = Some hdr \<and> w_sl w (mh_slab hdr) = Some sl \<and>
     b = ps_mhead_mem (sl_memory sl + (i - sl_start sl) * 32)"
proof -
  obtain m w i b where "ns_run 64 ex_nc m w [i \<mapsto> b]" "b \<noteq> null" using ex_ns_run1 [of "(0, 0)"] by (auto simp: PS_NUMCORES_def)
  moreover from ns_run_typed [OF this(1) fun_upd_same] obtain hdr sl where "w_mh w (ps_mhead_get b) = Some hdr" "w_sl w (mh_slab hdr) = Some sl"
    "b = ps_mhead_mem (sl_memory sl + (i - sl_start sl) * 32)" unfolding ex_nc_objmemsz by blast
  ultimately show ?thesis by blast
qed

end
