(* ===== verification/Ns_Frontier.thy ===== *)
theory Ns_Frontier
  imports Ns
begin







section \<open>Invariant\<close>










section \<open>No identity twice\<close>




end
