(* ===== verification/Pgalloc.thy ===== *)
theory Pgalloc
  imports Ertrie_World
begin

text \<open>
  The page allocator of \<open>ps_pgalloc.h\<close>: a stack of free pages, linked through the pages themselves.  The
  retry loops take a bound \<open>k\<close> on their rounds; a call that runs alone needs one.
\<close>

section \<open>The code\<close>

definition ps_pgalloc_init :: "addr \<Rightarrow> u64 \<Rightarrow> world \<Rightarrow> world option" where
  "ps_pgalloc_init fl pgsize w = Some (w\<lparr>w_pg := (w_pg w)(fl \<mapsto> \<lparr>fr_pgsize = pgsize, fr_next = null\<rparr>)\<rparr>)"

definition pg_next :: "addr \<Rightarrow> world \<Rightarrow> addr option" where
  "pg_next a w = map_option fr_next (w_pg w a)"

definition set_pg_next :: "addr \<Rightarrow> addr \<Rightarrow> world \<Rightarrow> world option" where
  "set_pg_next a n w = map_option (\<lambda>c. w\<lparr>w_pg := (w_pg w)(a \<mapsto> c\<lparr>fr_next := n\<rparr>)\<rparr>) (w_pg w a)"

text \<open>\<open>ps_cas\<close> on the link of the list's head.\<close>

definition cas_pg_next :: "addr \<Rightarrow> addr \<Rightarrow> addr \<Rightarrow> world \<Rightarrow> (bool \<times> world) option" where
  "cas_pg_next fl old new w = do {
     c \<leftarrow> w_pg w fl;
     let (z, v) = ps_cas (fr_next c) old new;
     Some (z, w\<lparr>w_pg := (w_pg w)(fl \<mapsto> c\<lparr>fr_next := v\<rparr>)\<rparr>) }"

fun pgalloc_destroy_from :: "nat \<Rightarrow> (addr \<Rightarrow> world \<Rightarrow> world option) \<Rightarrow> addr \<Rightarrow> world \<Rightarrow> world option" where
  "pgalloc_destroy_from k pf l w =
     (if l = null then Some w
      else case k of 0 \<Rightarrow> None
        | Suc k \<Rightarrow> do { n \<leftarrow> pg_next l w; w \<leftarrow> pf l w; pgalloc_destroy_from k pf n w })"

declare pgalloc_destroy_from.simps [simp del]

definition ps_pgalloc_destroy :: "nat \<Rightarrow> (addr \<Rightarrow> world \<Rightarrow> world option) \<Rightarrow> addr \<Rightarrow> world \<Rightarrow> world option" where
  "ps_pgalloc_destroy k pf fl w = do { l \<leftarrow> pg_next fl w; pgalloc_destroy_from k pf l w }"

fun ps_pgalloc :: "nat \<Rightarrow> (u64 \<Rightarrow> world \<Rightarrow> (addr \<times> world) option) \<Rightarrow> addr \<Rightarrow> world \<Rightarrow> (addr \<times> world) option" where
  "ps_pgalloc 0 pa fl w = None"
| "ps_pgalloc (Suc k) pa fl w = do {
     n \<leftarrow> pg_next fl w;
     if n \<noteq> null then do {
       nn \<leftarrow> pg_next n w;
       (z, w) \<leftarrow> cas_pg_next fl n nn w;
       if \<not> z then ps_pgalloc k pa fl w
       else do { w \<leftarrow> set_pg_next n null w; Some (n, w) } }
     else do { c \<leftarrow> w_pg w fl; pa (fr_pgsize c) w } }"

fun ps_pgfree :: "nat \<Rightarrow> addr \<Rightarrow> addr \<Rightarrow> world \<Rightarrow> world option" where
  "ps_pgfree 0 fl p w = None"
| "ps_pgfree (Suc k) fl p w = do {
     n \<leftarrow> pg_next fl w;
     w \<leftarrow> set_pg_next p n w;
     (z, w) \<leftarrow> cas_pg_next fl n p w;
     if \<not> z then ps_pgfree k fl p w else Some w }"

section \<open>Its state\<close>

text \<open>The pages \<open>xs\<close> are on the list, the pages \<open>H\<close> with the clients; \<open>fl\<close> lies in none of the blocks.\<close>

definition pg_page :: "world \<Rightarrow> u64 \<Rightarrow> addr \<Rightarrow> bool" where
  "pg_page w sz x \<longleftrightarrow> w_blocks w x = Some sz \<and> x \<in> dom (w_pg w)"

definition pg_inv :: "addr \<Rightarrow> u64 \<Rightarrow> world \<Rightarrow> addr list \<Rightarrow> addr set \<Rightarrow> bool" where
  "pg_inv fl sz w xs H \<longleftrightarrow> blocks_ok (w_blocks w) \<and> 0 < unat sz \<and> unat sz \<le> 2 ^ 32 \<and>
     (\<exists>c. w_pg w fl = Some c \<and> fr_pgsize c = sz \<and> chain fr_next (w_pg w) (fr_next c) xs) \<and>
     distinct xs \<and> set xs \<inter> H = {} \<and> (\<forall>x \<in> set xs \<union> H. pg_page w sz x) \<and> \<not> in_use w fl"

text \<open>Before the first page is asked for: memory answers may not run into \<open>fl\<close> either.\<close>

definition pg_ready :: "addr \<Rightarrow> world \<Rightarrow> bool" where
  "pg_ready fl w \<longleftrightarrow> roomy 1 w \<and> (\<forall>a \<in> set (w_answers w). \<not> in_block a room fl)"

lemma pg_invD:
  assumes "pg_inv fl sz w xs H"
  obtains c where "w_pg w fl = Some c" "fr_pgsize c = sz" "chain fr_next (w_pg w) (fr_next c) xs" "fl \<notin> set xs \<union> H"
proof -
  obtain c where c: "w_pg w fl = Some c" "fr_pgsize c = sz" "chain fr_next (w_pg w) (fr_next c) xs"
    using assms by (auto simp: pg_inv_def)
  have "fl \<notin> set xs \<union> H"
  proof
    assume "fl \<in> set xs \<union> H"
    then have "w_blocks w fl = Some sz" using assms by (auto simp: pg_inv_def pg_page_def)
    moreover have "in_block fl sz fl" using assms by (simp add: pg_inv_def in_block_def)
    ultimately show False using assms by (auto simp: pg_inv_def in_use_def)
  qed
  with c show ?thesis by (rule that)
qed

text \<open>The three ways through the code.\<close>

lemma pgalloc_pop:
  assumes inv: "pg_inv fl sz w (x # xs) H" and k: "0 < k"
  shows "\<exists>w'. ps_pgalloc k pa fl w = Some (x, w') \<and> x \<noteq> null \<and> x \<notin> H \<and> pg_inv fl sz w' xs (insert x H) \<and>
    w_answers w' = w_answers w \<and> w_blocks w' = w_blocks w"
proof -
  obtain c where c: "w_pg w fl = Some c" "fr_pgsize c = sz" "chain fr_next (w_pg w) (fr_next c) (x # xs)"
    "fl \<notin> set (x # xs) \<union> H" by (rule pg_invD [OF inv])
  obtain d where d: "fr_next c = x" "x \<noteq> null" "w_pg w x = Some d" "chain fr_next (w_pg w) (fr_next d) xs"
    using c(3) by (auto split: option.splits)
  obtain j where j: "k = Suc j" using k by (cases k) auto
  have nx: "x \<noteq> fl" "x \<notin> set xs" "x \<notin> H" using c(4) inv by (auto simp: pg_inv_def)
  let ?h = "(w_pg w)(fl \<mapsto> c\<lparr>fr_next := fr_next d\<rparr>, x \<mapsto> d\<lparr>fr_next := null\<rparr>)"
  have "ps_pgalloc k pa fl w = Some (x, w\<lparr>w_pg := ?h\<rparr>)"
    using c(1) d nx(1) by (simp add: j pg_next_def cas_pg_next_def ps_cas_def set_pg_next_def)
  moreover have "chain fr_next ?h (fr_next d) xs"
    using d(4) nx(2) c(4) by simp
  then have "pg_inv fl sz (w\<lparr>w_pg := ?h\<rparr>) xs (insert x H)"
    using inv c(2) nx by (auto simp: pg_inv_def pg_page_def in_use_def)
  ultimately show ?thesis using d(2) nx(3) by auto
qed

lemma pgalloc_new:
  assumes inv: "pg_inv fl sz w [] H" and r: "pg_ready fl w" and k: "0 < k"
  shows "\<exists>x w'. ps_pgalloc k ps_plat_alloc_linux fl w = Some (x, w') \<and> x \<noteq> null \<and> x \<notin> H \<and> pg_inv fl sz w' [] (insert x H)"
proof -
  obtain c where c: "w_pg w fl = Some c" "fr_pgsize c = sz" "fr_next c = null" "fl \<notin> H"
    using pg_invD [OF inv] by auto
  obtain j where j: "k = Suc j" using k by (cases k) auto
  have sz: "unat sz \<le> 2 ^ 32" "0 < unat sz" using inv by (simp_all add: pg_inv_def)
  obtain a as where a: "w_answers w = a # as" "\<not> in_block a room fl"
    using r by (cases "w_answers w") (auto simp: pg_ready_def roomy_def)
  have "roomy (Suc 0) w" using r by (simp add: pg_ready_def)
  from plat_alloc_ok [OF this sz(1)] obtain x w' where x: "ps_plat_alloc_linux sz w = Some (x, w')"
    "w' = zero_block x sz (w\<lparr>w_answers := tl (w_answers w)\<rparr>)" "x \<noteq> null" "w_blocks w x = None"
    "good_block (w_blocks w) x sz" "\<forall>y. in_use w y \<longrightarrow> \<not> in_block x sz y" by blast
  have xa: "x = a" using x(1) a(1) by (auto simp: ps_plat_alloc_linux_def plat_answer_def c_assert_def split: if_splits)
  have nfl: "\<not> in_block x sz fl" using a(2) sz(1) unat_room by (auto simp: xa in_block_def)
  have xb: "in_block x sz x" using sz(2) by (simp add: in_block_def)
  have xH: "x \<notin> H" using inv x(4) by (auto simp: pg_inv_def pg_page_def)
  have b: "blocks_ok (w_blocks w')" using inv blocks_ok_new [OF _ x(5)] by (simp add: x(2) zero_block_def pg_inv_def)
  have "w_pg w' fl = Some c" using nfl c(1) by (simp add: x(2) zero_block_def fill_def)
  moreover have "pg_page w' sz y" if "y \<in> insert x H" for y
  proof (cases "y = x")
    case True
    then show ?thesis using xb by (simp add: pg_page_def x(2) zero_block_def fill_def dom_def)
  next
    case False
    then have "pg_page w sz y" using inv that by (simp add: pg_inv_def)
    then show ?thesis using False by (auto simp: pg_page_def x(2) zero_block_def fill_def)
  qed
  moreover have "\<not> in_use w' fl"
  proof
    assume "in_use w' fl"
    then obtain b' s' where "w_blocks w' b' = Some s'" "in_block b' s' fl" by (auto simp: in_use_def)
    then have "in_use w fl" using nfl by (auto simp: x(2) zero_block_def in_use_def split: if_splits)
    then show False using inv by (simp add: pg_inv_def)
  qed
  ultimately have "pg_inv fl sz w' [] (insert x H)" using b sz c(2,3) by (auto simp: pg_inv_def)
  moreover have "ps_pgalloc k ps_plat_alloc_linux fl w = Some (x, w')"
    using c(1-3) x(1) by (simp add: j pg_next_def)
  ultimately show ?thesis using x(3) xH by blast
qed

lemma pgfree_push:
  assumes inv: "pg_inv fl sz w xs H" and x: "x \<in> H" and k: "0 < k"
  shows "\<exists>w'. ps_pgfree k fl x w = Some w' \<and> pg_inv fl sz w' (x # xs) (H - {x})"
proof -
  obtain c where c: "w_pg w fl = Some c" "fr_pgsize c = sz" "chain fr_next (w_pg w) (fr_next c) xs"
    "fl \<notin> set xs \<union> H" by (rule pg_invD [OF inv])
  obtain j where j: "k = Suc j" using k by (cases k) auto
  have pg: "pg_page w sz x" using inv x by (simp add: pg_inv_def)
  then obtain d where d: "w_pg w x = Some d" by (auto simp: pg_page_def)
  have nx: "x \<noteq> fl" "x \<notin> set xs" "x \<noteq> null" using c(4) x inv pg by (auto simp: pg_inv_def blocks_ok_def pg_page_def)
  let ?h = "(w_pg w)(x \<mapsto> d\<lparr>fr_next := fr_next c\<rparr>, fl \<mapsto> c\<lparr>fr_next := x\<rparr>)"
  have "ps_pgfree k fl x w = Some (w\<lparr>w_pg := ?h\<rparr>)"
    using c(1) d nx(1) by (simp add: j pg_next_def cas_pg_next_def ps_cas_def set_pg_next_def)
  moreover have "chain fr_next ?h (fr_next c) xs" using c(3,4) nx(2) by simp
  then have "pg_inv fl sz (w\<lparr>w_pg := ?h\<rparr>) (x # xs) (H - {x})"
    using inv c(2) nx x by (auto simp: pg_inv_def pg_page_def in_use_def)
  ultimately show ?thesis by blast
qed

section \<open>Runs of one client after the other\<close>

inductive pg_run :: "addr \<Rightarrow> u64 \<Rightarrow> world \<Rightarrow> addr list \<Rightarrow> addr set \<Rightarrow> bool" for fl sz where
  init: "blocks_ok (w_blocks w) \<Longrightarrow> \<not> in_use w fl \<Longrightarrow> 0 < unat sz \<Longrightarrow> unat sz \<le> 2 ^ 32 \<Longrightarrow>
    ps_pgalloc_init fl sz w = Some w' \<Longrightarrow> pg_run fl sz w' [] {}"
| answer: "pg_run fl sz w xs H \<Longrightarrow> pg_run fl sz (w\<lparr>w_answers := as\<rparr>) xs H"
| alloc: "pg_run fl sz w xs H \<Longrightarrow> (xs = [] \<Longrightarrow> pg_ready fl w) \<Longrightarrow> 0 < k \<Longrightarrow>
    ps_pgalloc k ps_plat_alloc_linux fl w = Some (x, w') \<Longrightarrow> pg_run fl sz w' (tl xs) (insert x H)"
| free: "pg_run fl sz w xs H \<Longrightarrow> x \<in> H \<Longrightarrow> 0 < k \<Longrightarrow> ps_pgfree k fl x w = Some w' \<Longrightarrow> pg_run fl sz w' (x # xs) (H - {x})"

lemma pg_run_inv: "pg_run fl sz w xs H \<Longrightarrow> pg_inv fl sz w xs H"
proof (induction rule: pg_run.induct)
  case (init w w')
  then show ?case by (auto simp: ps_pgalloc_init_def pg_inv_def in_use_def)
next
  case (answer w xs H as)
  then show ?case by (simp add: pg_inv_def pg_page_def in_use_def)
next
  case (alloc w xs H k x w')
  show ?case
  proof (cases xs)
    case Nil
    then show ?thesis using pgalloc_new [of fl sz w H k] alloc by auto
  next
    case (Cons y ys)
    then show ?thesis using pgalloc_pop [of fl sz w y ys H k ps_plat_alloc_linux] alloc by auto
  qed
next
  case (free w xs H x k w')
  then show ?case using pgfree_push [of fl sz w xs H x k] by auto
qed

text \<open>Giving the list back to the platform: the blocks go, the head keeps its link.\<close>

lemma destroy_from:
  assumes "chain fr_next (w_pg w) l xs" and "blocks_ok (w_blocks w)" and "distinct xs"
    and "\<forall>x \<in> set xs. w_blocks w x = Some sz" and "0 < unat sz" and "\<not> in_use w fl" and "length xs \<le> k"
  shows "\<exists>w'. pgalloc_destroy_from k ps_plat_free_linux l w = Some w' \<and> w_pg w' fl = w_pg w fl \<and>
    (\<forall>x. w_blocks w' x = (if x \<in> set xs then None else w_blocks w x)) \<and> (\<forall>x. x \<in> set xs \<or> w_pg w x = None \<longrightarrow> w_pg w' x = None)"
  using assms
proof (induction xs arbitrary: k l w)
  case Nil
  then show ?case by (simp add: pgalloc_destroy_from.simps)
next
  case (Cons x xs)
  obtain j where j: "k = Suc j" using Cons.prems(7) by (cases k) auto
  obtain d where d: "l = x" "x \<noteq> null" "w_pg w x = Some d" "chain fr_next (w_pg w) (fr_next d) xs"
    using Cons.prems(1) by (auto split: option.splits)
  let ?w = "drop_block x sz w"
  have xb: "w_blocks w x = Some sz" "in_block x sz x" using Cons.prems(4,5) by (simp_all add: in_block_def)
  have out: "\<not> in_block x sz y" if "y \<in> set xs" for y
  proof -
    have "y \<noteq> x" "w_blocks w y = Some sz" using that Cons.prems(3,4) by auto
    then have "apart x sz y sz" using Cons.prems(2) xb(1) unfolding blocks_ok_def by blast
    moreover have "in_block y sz y" using Cons.prems(5) by (simp add: in_block_def)
    ultimately show ?thesis by (rule apart_in_block)
  qed
  have nfl: "\<not> in_block x sz fl" using Cons.prems(6) xb(1) by (auto simp: in_use_def)
  have c: "chain fr_next (w_pg ?w) (fr_next d) xs"
    using d(4) chain_cong [of xs fr_next "w_pg ?w" "w_pg w"] out by (simp add: drop_block_def fill_def)
  have "\<exists>w'. pgalloc_destroy_from j ps_plat_free_linux (fr_next d) ?w = Some w' \<and> w_pg w' fl = w_pg ?w fl \<and>
    (\<forall>y. w_blocks w' y = (if y \<in> set xs then None else w_blocks ?w y)) \<and> (\<forall>y. y \<in> set xs \<or> w_pg ?w y = None \<longrightarrow> w_pg w' y = None)"
  proof (rule Cons.IH [OF c])
    show "blocks_ok (w_blocks ?w)" using blocks_ok_drop Cons.prems(2) by (simp add: drop_block_def)
    show "\<forall>y \<in> set xs. w_blocks ?w y = Some sz" using Cons.prems(3,4) by (auto simp: drop_block_def)
    show "\<not> in_use ?w fl" using Cons.prems(6) by (auto simp: in_use_def drop_block_def split: if_splits)
  qed (use Cons.prems j in auto)
  then obtain w' where w': "pgalloc_destroy_from j ps_plat_free_linux (fr_next d) ?w = Some w'" "w_pg w' fl = w_pg ?w fl"
    "\<forall>y. w_blocks w' y = (if y \<in> set xs then None else w_blocks ?w y)" "\<forall>y. y \<in> set xs \<or> w_pg ?w y = None \<longrightarrow> w_pg w' y = None" by blast
  have "pgalloc_destroy_from k ps_plat_free_linux l w = Some w'"
    using d w'(1) xb(1) j by (subst pgalloc_destroy_from.simps) (simp add: pg_next_def ps_plat_free_linux_def)
  moreover have "w_pg w' fl = w_pg w fl" using w'(2) nfl by (simp add: drop_block_def fill_def)
  moreover have "w_blocks w' y = (if y \<in> set (x # xs) then None else w_blocks w y)" for y
    using w'(3) by (auto simp: drop_block_def)
  moreover have "w_pg w' y = None" if "y \<in> set (x # xs) \<or> w_pg w y = None" for y
    using w'(4) that xb(2) by (auto simp: drop_block_def fill_def)
  ultimately show ?case by blast
qed

section \<open>Two clients at once\<close>

text \<open>
  The loops one access to shared memory at a time.  \<open>PLoaded n\<close> has read the head, \<open>PNext n nn\<close> also the link of
  the first page, \<open>PPopped n\<close> has swapped the head; \<open>PFree x\<close> is about to read the head, \<open>PLink x n\<close> to store it
  in the page, \<open>PPush x n\<close> to swap the head.
\<close>

datatype pg_pc = PIdle | PAlloc | PLoaded addr | PNext addr addr | PPopped addr | PFree addr | PLink addr addr | PPush addr addr

record pg_sys =
  pg_world :: world
  pg_pc :: "nat \<Rightarrow> pg_pc"
  pg_held :: "nat \<Rightarrow> addr list"

datatype pg_event = Call_alloc nat | Call_free nat addr | Move nat

definition pg_goto :: "nat \<Rightarrow> pg_pc \<Rightarrow> world \<Rightarrow> pg_sys \<Rightarrow> pg_sys" where
  "pg_goto i c w s = s\<lparr>pg_world := w, pg_pc := (pg_pc s)(i := c)\<rparr>"

definition pg_take :: "nat \<Rightarrow> addr \<Rightarrow> pg_sys \<Rightarrow> pg_sys" where
  "pg_take i x s = s\<lparr>pg_held := (pg_held s)(i := x # pg_held s i)\<rparr>"

definition pg_move :: "(u64 \<Rightarrow> world \<Rightarrow> (addr \<times> world) option) \<Rightarrow> addr \<Rightarrow> nat \<Rightarrow> pg_sys \<Rightarrow> pg_sys option" where
  "pg_move pa fl i s = (let w = pg_world s in case pg_pc s i of
      PIdle \<Rightarrow> None
    | PAlloc \<Rightarrow> do { n \<leftarrow> pg_next fl w;
        if n \<noteq> null then Some (pg_goto i (PLoaded n) w s)
        else do { c \<leftarrow> w_pg w fl; (a, w) \<leftarrow> pa (fr_pgsize c) w; Some (pg_take i a (pg_goto i PIdle w s)) } }
    | PLoaded n \<Rightarrow> do { nn \<leftarrow> pg_next n w; Some (pg_goto i (PNext n nn) w s) }
    | PNext n nn \<Rightarrow> do { (z, w) \<leftarrow> cas_pg_next fl n nn w; Some (pg_goto i (if z then PPopped n else PAlloc) w s) }
    | PPopped n \<Rightarrow> do { w \<leftarrow> set_pg_next n null w; Some (pg_take i n (pg_goto i PIdle w s)) }
    | PFree x \<Rightarrow> do { n \<leftarrow> pg_next fl w; Some (pg_goto i (PLink x n) w s) }
    | PLink x n \<Rightarrow> do { w \<leftarrow> set_pg_next x n w; Some (pg_goto i (PPush x n) w s) }
    | PPush x n \<Rightarrow> do { (z, w) \<leftarrow> cas_pg_next fl n x w; Some (pg_goto i (if z then PIdle else PFree x) w s) })"

text \<open>A client calls when it has no call running, and frees only a page it holds.\<close>

fun pg_exec :: "(u64 \<Rightarrow> world \<Rightarrow> (addr \<times> world) option) \<Rightarrow> addr \<Rightarrow> pg_event list \<Rightarrow> pg_sys \<Rightarrow> pg_sys option" where
  "pg_exec pa fl [] s = Some s"
| "pg_exec pa fl (Call_alloc i # es) s =
     (if pg_pc s i = PIdle then pg_exec pa fl es (pg_goto i PAlloc (pg_world s) s) else None)"
| "pg_exec pa fl (Call_free i x # es) s =
     (if pg_pc s i = PIdle \<and> x \<in> set (pg_held s i)
      then pg_exec pa fl es (pg_goto i (PFree x) (pg_world s) (s\<lparr>pg_held := (pg_held s)(i := remove1 x (pg_held s i))\<rparr>))
      else None)"
| "pg_exec pa fl (Move i # es) s = do { s \<leftarrow> pg_move pa fl i s; pg_exec pa fl es s }"

text \<open>A list with two pages.\<close>

definition aba_world :: world where
  "aba_world = \<lparr>w_answers = [], w_blocks = [0x1000 \<mapsto> 4096, 0x2000 \<mapsto> 4096], w_mh = Map.empty, w_sl = Map.empty,
     w_ls = Map.empty, w_mem = Map.empty, w_ps = Map.empty, w_ert = Map.empty,
     w_pg = [8 \<mapsto> \<lparr>fr_pgsize = 4096, fr_next = 0x1000\<rparr>, 0x1000 \<mapsto> \<lparr>fr_pgsize = 0, fr_next = 0x2000\<rparr>,
       0x2000 \<mapsto> \<lparr>fr_pgsize = 0, fr_next = 0\<rparr>]\<rparr>"

definition aba_start :: pg_sys where
  "aba_start = \<lparr>pg_world = aba_world, pg_pc = (\<lambda>_. PIdle), pg_held = (\<lambda>_. [])\<rparr>"

definition aba_run :: "pg_event list" where
  "aba_run = [Call_alloc 0, Move 0, Move 0,
     Call_alloc 1, Move 1, Move 1, Move 1, Move 1,
     Call_alloc 1, Move 1, Move 1, Move 1, Move 1,
     Call_free 1 0x1000, Move 1, Move 1, Move 1,
     Move 0, Move 0,
     Call_alloc 0, Move 0, Move 0, Move 0, Move 0]"

section \<open>Properties\<close>

text \<open>
  C33: used by one client after the other the allocator is a stack.  From every state of such a run, an
  allocation returns the page freed last, or a new one if the list is empty, which is not null and which no
  client holds; a free of a held page returns and puts it on top.
\<close>

theorem pg_run_stack:
  assumes "pg_run fl sz w xs H" and "xs = [] \<Longrightarrow> pg_ready fl w" and "0 < k"
  shows "(\<exists>x w'. ps_pgalloc k ps_plat_alloc_linux fl w = Some (x, w') \<and> x \<noteq> null \<and> x \<notin> H \<and>
      (xs \<noteq> [] \<longrightarrow> x = hd xs) \<and> pg_run fl sz w' (tl xs) (insert x H)) \<and>
    (\<forall>y \<in> H. \<exists>w'. ps_pgfree k fl y w = Some w' \<and> pg_run fl sz w' (y # xs) (H - {y}))"
proof -
  note inv = pg_run_inv [OF assms(1)]
  have "\<exists>x w'. ps_pgalloc k ps_plat_alloc_linux fl w = Some (x, w') \<and> x \<noteq> null \<and> x \<notin> H \<and> (xs \<noteq> [] \<longrightarrow> x = hd xs)"
  proof (cases xs)
    case Nil
    then show ?thesis using pgalloc_new [of fl sz w H k] inv assms(2,3) by auto
  next
    case (Cons x ys)
    then show ?thesis using pgalloc_pop [of fl sz w x ys H k ps_plat_alloc_linux] inv assms(3) by auto
  qed
  then have "\<exists>x w'. ps_pgalloc k ps_plat_alloc_linux fl w = Some (x, w') \<and> x \<noteq> null \<and> x \<notin> H \<and>
      (xs \<noteq> [] \<longrightarrow> x = hd xs) \<and> pg_run fl sz w' (tl xs) (insert x H)"
    using pg_run.alloc [OF assms] by blast
  moreover have "\<forall>y \<in> H. \<exists>w'. ps_pgfree k fl y w = Some w' \<and> pg_run fl sz w' (y # xs) (H - {y})"
    using pgfree_push [OF inv _ assms(3)] pg_run.free [OF assms(1) _ assms(3)] by metis
  ultimately show ?thesis by blast
qed

definition ex_pg :: world where
  "ex_pg = \<lparr>w_answers = [0x100000000], w_blocks = Map.empty, w_mh = Map.empty, w_sl = Map.empty,
     w_ls = Map.empty, w_mem = Map.empty, w_ps = Map.empty, w_ert = Map.empty, w_pg = Map.empty\<rparr>"

lemma ex_pg_run: "pg_run 8 4096 (the (ps_pgalloc_init 8 4096 ex_pg)) [] {}"
  "pg_ready 8 (the (ps_pgalloc_init 8 4096 ex_pg))"
proof -
  show "pg_run 8 4096 (the (ps_pgalloc_init 8 4096 ex_pg)) [] {}"
    by (rule pg_run.init [where w = ex_pg]) (simp_all add: ex_pg_def ps_pgalloc_init_def blocks_ok_def in_use_def)
  show "pg_ready 8 (the (ps_pgalloc_init 8 4096 ex_pg))"
    by (simp add: pg_ready_def roomy_def ps_pgalloc_init_def ex_pg_def blocks_ok_def good_block_def room_def in_block_def)
qed

theorem pg_run_stack_witness:
  "\<exists>x w' w''. ps_pgalloc 1 ps_plat_alloc_linux 8 (the (ps_pgalloc_init 8 4096 ex_pg)) = Some (x, w') \<and> x \<noteq> null \<and>
    pg_run 8 4096 w' [] {x} \<and> ps_pgfree 1 8 x w' = Some w'' \<and> pg_run 8 4096 w'' [x] {}"
proof -
  obtain x w' where 1: "ps_pgalloc 1 ps_plat_alloc_linux 8 (the (ps_pgalloc_init 8 4096 ex_pg)) = Some (x, w')" "x \<noteq> null"
    "pg_run 8 4096 w' [] {x}"
    using pg_run_stack [OF ex_pg_run(1) _ zero_less_one] ex_pg_run(2) by auto
  have "\<exists>w''. ps_pgfree 1 8 x w' = Some w'' \<and> pg_run 8 4096 w'' [x] {}"
    using pgfree_push [OF pg_run_inv [OF 1(3)], of x 1] pg_run.free [OF 1(3), of x 1] by auto
  then show ?thesis using 1 by blast
qed

text \<open>
  C39: destroying the allocator.  Every page on the list goes back to the platform and no other block does, but
  the head keeps its link: if the list was not empty, the next allocation reads a page that is gone.
\<close>

theorem ps_pgalloc_destroy_dangles:
  assumes "pg_run fl sz w xs H" and "length xs \<le> k"
  shows "\<exists>w'. ps_pgalloc_destroy k ps_plat_free_linux fl w = Some w' \<and>
    w_blocks w' = (\<lambda>x. if x \<in> set xs then None else w_blocks w x) \<and>
    (xs \<noteq> [] \<longrightarrow> pg_next fl w' = Some (hd xs) \<and> ps_pgalloc j pa fl w' = None)"
proof -
  have inv: "pg_inv fl sz w xs H" by (rule pg_run_inv [OF assms(1)])
  obtain c where c: "w_pg w fl = Some c" "chain fr_next (w_pg w) (fr_next c) xs" by (rule pg_invD [OF inv])
  have xs: "blocks_ok (w_blocks w)" "distinct xs" "\<forall>x \<in> set xs. w_blocks w x = Some sz" "0 < unat sz" "\<not> in_use w fl"
    using inv by (simp_all add: pg_inv_def pg_page_def)
  from destroy_from [OF c(2) xs assms(2)] obtain w' where
    w': "pgalloc_destroy_from k ps_plat_free_linux (fr_next c) w = Some w'" "w_pg w' fl = w_pg w fl"
    "\<forall>x. w_blocks w' x = (if x \<in> set xs then None else w_blocks w x)"
    "\<forall>x. x \<in> set xs \<or> w_pg w x = None \<longrightarrow> w_pg w' x = None" by blast
  have "ps_pgalloc_destroy k ps_plat_free_linux fl w = Some w'"
    using c(1) w'(1) by (simp add: ps_pgalloc_destroy_def pg_next_def)
  moreover have "pg_next fl w' = Some (hd xs) \<and> ps_pgalloc j pa fl w' = None" if n: "xs \<noteq> []"
  proof -
    obtain x ys where x: "xs = x # ys" using n by (cases xs) auto
    then have "fr_next c = x" "x \<noteq> null" "w_pg w' x = None" using c(2) w'(4) by auto
    then show ?thesis using c(1) w'(2) x by (cases j) (simp_all add: pg_next_def)
  qed
  ultimately show ?thesis using w'(3) by blast
qed

theorem ps_pgalloc_destroy_dangles_witness:
  "\<exists>x w w'. pg_run 8 4096 w [x] {} \<and> ps_pgalloc_destroy 1 ps_plat_free_linux 8 w = Some w' \<and>
    w_blocks w' x = None \<and> ps_pgalloc 1 ps_plat_alloc_linux 8 w' = None"
proof -
  obtain x w1 where 1: "ps_pgalloc 1 ps_plat_alloc_linux 8 (the (ps_pgalloc_init 8 4096 ex_pg)) = Some (x, w1)"
    using pgalloc_new [OF pg_run_inv [OF ex_pg_run(1)] ex_pg_run(2) zero_less_one] by blast
  have r1: "pg_run 8 4096 w1 [] {x}" using pg_run.alloc [OF ex_pg_run(1) ex_pg_run(2) _ 1] by simp
  obtain w where "ps_pgfree 1 8 x w1 = Some w" using pgfree_push [OF pg_run_inv [OF r1], of x 1] by auto
  from pg_run.free [OF r1 _ _ this] have r: "pg_run 8 4096 w [x] {}" by simp
  obtain w' where "ps_pgalloc_destroy 1 ps_plat_free_linux 8 w = Some w'" "w_blocks w' x = None"
    "ps_pgalloc 1 ps_plat_alloc_linux 8 w' = None"
    using ps_pgalloc_destroy_dangles [OF r, of 1 1 ps_plat_alloc_linux] by (auto simp del: ps_pgalloc.simps One_nat_def)
  with r show ?thesis by blast
qed

text \<open>
  C34: two clients at once.  Starting from a list with two pages there is an interleaving of the accesses of the
  two loops after which both clients hold the same page, each having got it from an allocation and not freed
  it since: the swap succeeds though the list has changed in between (the \<open>FIXME\<close> of the code).
\<close>

theorem ps_pgalloc_aba:
  "\<exists>es s. pg_exec ps_plat_alloc_linux 8 es aba_start = Some s \<and> pg_pc s 0 = PIdle \<and> pg_pc s 1 = PIdle \<and>
    0x2000 \<in> set (pg_held s 0) \<and> 0x2000 \<in> set (pg_held s 1)"
proof -
  have "case pg_exec ps_plat_alloc_linux 8 aba_run aba_start of None \<Rightarrow> False
    | Some s \<Rightarrow> pg_pc s 0 = PIdle \<and> pg_pc s 1 = PIdle \<and> 0x2000 \<in> set (pg_held s 0) \<and> 0x2000 \<in> set (pg_held s 1)"
    by (simp add: aba_run_def aba_start_def aba_world_def pg_move_def pg_goto_def pg_take_def pg_next_def
        cas_pg_next_def set_pg_next_def ps_cas_def)
  then show ?thesis by (auto split: option.splits)
qed

end
