(* ===== verification/Barrier.thy ===== *)
theory Barrier
  imports Arch
begin

text \<open>
  The barrier of the Linux test support (\<open>meas_barrier\<close> in \<open>plat/os/linux/ps_os.c\<close>), run by cores 0 to
  \<open>n - 1\<close> over and over.  Every access to the volatile array \<open>thd_active\<close> is a step: reading the own value on
  entry, one test of a waiting loop, the store of the new value.
\<close>

datatype bar_pc =
    Away
  | Collect nat int    \<comment> \<open>core 0: next core to wait for, \<open>initval\<close>\<close>
  | Announce int       \<comment> \<open>other cores: about to store\<close>
  | Await int          \<comment> \<open>other cores: waiting for core 0\<close>

text \<open>\<open>bs_in\<close> and \<open>bs_out\<close> count how often each core has entered and left.\<close>

record bar_sys =
  bs_active :: "int list"
  bs_pc :: "nat \<Rightarrow> bar_pc"
  bs_in :: "nat \<Rightarrow> nat"
  bs_out :: "nat \<Rightarrow> nat"

definition bar_not :: "int \<Rightarrow> int" where "bar_not v = (if v = 0 then 1 else 0)"

definition bar_goto :: "nat \<Rightarrow> bar_pc \<Rightarrow> bar_sys \<Rightarrow> bar_sys" where
  "bar_goto cpu c s = s\<lparr>bs_pc := (bs_pc s)(cpu := c)\<rparr>"

definition bar_leave :: "nat \<Rightarrow> bar_sys \<Rightarrow> bar_sys" where
  "bar_leave cpu s = bar_goto cpu Away s\<lparr>bs_out := (bs_out s)(cpu := bs_out s cpu + 1)\<rparr>"

text \<open>One access of core \<open>cpu\<close>.\<close>

definition bar_move :: "nat \<Rightarrow> nat \<Rightarrow> bar_sys \<Rightarrow> bar_sys option" where
  "bar_move n cpu s = (case bs_pc s cpu of
      Away \<Rightarrow> do {
        initval \<leftarrow> aget (bs_active s) cpu;
        Some (bar_goto cpu (if cpu = 0 then Collect 1 initval else Announce initval)
          (s\<lparr>bs_in := (bs_in s)(cpu := bs_in s cpu + 1)\<rparr>)) }
    | Collect k initval \<Rightarrow>
        if k < n then do {
          v \<leftarrow> aget (bs_active s) k;
          Some (if v = initval then s else bar_goto cpu (Collect (k + 1) initval) s) }
        else do {
          act \<leftarrow> aset (bs_active s) 0 (bar_not initval);
          Some (bar_leave cpu (s\<lparr>bs_active := act\<rparr>)) }
    | Announce initval \<Rightarrow> do {
        act \<leftarrow> aset (bs_active s) cpu (bar_not initval);
        Some (bar_goto cpu (Await initval) (s\<lparr>bs_active := act\<rparr>)) }
    | Await initval \<Rightarrow> do {
        v \<leftarrow> aget (bs_active s) 0;
        Some (if v = initval then s else bar_leave cpu s) })"

definition bar_start :: bar_sys where
  "bar_start = \<lparr>bs_active = replicate PS_NUMCORES 0, bs_pc = (\<lambda>_. Away), bs_in = (\<lambda>_. 0), bs_out = (\<lambda>_. 0)\<rparr>"

inductive bar_reach :: "nat \<Rightarrow> bar_sys \<Rightarrow> bool" for n where
  start: "bar_reach n bar_start"
| move: "bar_reach n s \<Longrightarrow> cpu < n \<Longrightarrow> bar_move n cpu s = Some s' \<Longrightarrow> bar_reach n s'"

section \<open>Invariant\<close>

text \<open>How often a core has stored its value.\<close>

definition stored :: "bar_sys \<Rightarrow> nat \<Rightarrow> nat" where
  "stored s i = (case bs_pc s i of Await _ \<Rightarrow> Suc (bs_out s i) | _ \<Rightarrow> bs_out s i)"

definition bit_of :: "nat \<Rightarrow> int" where "bit_of k = int (k mod 2)"

definition pc_ok :: "nat \<Rightarrow> (nat \<Rightarrow> nat) \<Rightarrow> nat \<Rightarrow> nat \<Rightarrow> nat \<Rightarrow> nat \<Rightarrow> bar_pc \<Rightarrow> bool" where
  "pc_ok n st out0 i ein out c \<longleftrightarrow> (case c of
      Away \<Rightarrow> ein = out
    | Collect k v \<Rightarrow> i = 0 \<and> ein = Suc out \<and> v = bit_of out \<and> 0 < k \<and>
        (\<forall>j < k. 0 < j \<longrightarrow> j < n \<longrightarrow> st j = Suc out0)
    | Announce v \<Rightarrow> i \<noteq> 0 \<and> ein = Suc out \<and> v = bit_of out
    | Await v \<Rightarrow> i \<noteq> 0 \<and> ein = Suc out \<and> v = bit_of out)"

definition bar_inv :: "nat \<Rightarrow> bar_sys \<Rightarrow> bool" where
  "bar_inv n s \<longleftrightarrow> length (bs_active s) = PS_NUMCORES \<and>
     (\<forall>i < n. bs_active s ! i = bit_of (stored s i) \<and> bs_out s i \<le> bs_out s 0 \<and>
       bs_out s 0 \<le> stored s i \<and> stored s i \<le> Suc (bs_out s 0) \<and>
       pc_ok n (stored s) (bs_out s 0) i (bs_in s i) (bs_out s i) (bs_pc s i))"

lemma pc_ok_mono: "pc_ok n st o0 i e out c \<Longrightarrow> (\<And>j. st j = Suc o0 \<Longrightarrow> st' j = Suc o0) \<Longrightarrow> pc_ok n st' o0 i e out c"
  by (auto simp: pc_ok_def split: bar_pc.splits)

lemma pc_ok_other: "i \<noteq> 0 \<Longrightarrow> pc_ok n st o0 i e out c = pc_ok n st' o0' i e out c"
  by (auto simp: pc_ok_def split: bar_pc.splits)

lemma bit_of_Suc: "bit_of (Suc k) = bar_not (bit_of k)"
  by (auto simp: bit_of_def bar_not_def mod_Suc)

lemma bit_of_near: "a \<le> b \<Longrightarrow> b \<le> Suc a \<Longrightarrow> bit_of b \<noteq> bit_of a \<longleftrightarrow> b = Suc a"
proof -
  assume "a \<le> b" "b \<le> Suc a"
  then consider "b = a" | "b = Suc a" by linarith
  then show ?thesis by cases (auto simp: bit_of_def mod_Suc)
qed

lemma bar_inv_start: "bar_inv n bar_start" if "n \<le> PS_NUMCORES"
  using that by (auto simp: bar_inv_def bar_start_def stored_def bit_of_def pc_ok_def)

lemma bar_invD:
  assumes "bar_inv n s" and "i < n"
  shows "bs_active s ! i = bit_of (stored s i)" "bs_out s i \<le> bs_out s 0" "bs_out s 0 \<le> stored s i"
    "stored s i \<le> Suc (bs_out s 0)" "length (bs_active s) = PS_NUMCORES"
    "bs_pc s i = Away \<Longrightarrow> bs_in s i = bs_out s i"
    "bs_pc s i = Collect k v \<Longrightarrow> i = 0 \<and> bs_in s i = Suc (bs_out s i) \<and> v = bit_of (bs_out s i) \<and> 0 < k \<and>
       (\<forall>j < k. 0 < j \<longrightarrow> j < n \<longrightarrow> stored s j = Suc (bs_out s 0))"
    "bs_pc s i = Announce v \<Longrightarrow> i \<noteq> 0 \<and> bs_in s i = Suc (bs_out s i) \<and> v = bit_of (bs_out s i)"
    "bs_pc s i = Await v \<Longrightarrow> i \<noteq> 0 \<and> bs_in s i = Suc (bs_out s i) \<and> v = bit_of (bs_out s i)"
    "pc_ok n (stored s) (bs_out s 0) i (bs_in s i) (bs_out s i) (bs_pc s i)"
  using assms unfolding bar_inv_def pc_ok_def by force+

text \<open>One core's part of the invariant at a time.\<close>

lemma bar_invI:
  assumes "length (bs_active s) = PS_NUMCORES"
    and "\<And>i. i < n \<Longrightarrow> bs_active s ! i = bit_of (stored s i)"
    and "\<And>i. i < n \<Longrightarrow> bs_out s i \<le> bs_out s 0 \<and> bs_out s 0 \<le> stored s i \<and> stored s i \<le> Suc (bs_out s 0)"
    and "\<And>i. i < n \<Longrightarrow> pc_ok n (stored s) (bs_out s 0) i (bs_in s i) (bs_out s i) (bs_pc s i)"
  shows "bar_inv n s"
  using assms by (simp add: bar_inv_def)

lemma stored_goto: "stored (bar_goto cpu c s) i =
    (if i = cpu then (case c of Await _ \<Rightarrow> Suc (bs_out s i) | _ \<Rightarrow> bs_out s i) else stored s i)"
  by (simp add: stored_def bar_goto_def split: bar_pc.split)

lemma bar_goto_simps [simp]:
  "bs_active (bar_goto cpu c s) = bs_active s" "bs_in (bar_goto cpu c s) = bs_in s" "bs_out (bar_goto cpu c s) = bs_out s"
  "bs_pc (bar_goto cpu c s) = (bs_pc s)(cpu := c)"
  by (simp_all add: bar_goto_def)

lemma stored_updates [simp]: "stored (bs_active_update f s) = stored s" "stored (bs_in_update g s) = stored s"
  by (simp_all add: stored_def fun_eq_iff split: bar_pc.split)

text \<open>One step keeps the invariant, by where the moving core stands.\<close>

lemma bar_inv_enter:
  assumes inv: "bar_inv n s" and cpu: "cpu < n" and n: "n \<le> PS_NUMCORES" and mv: "bar_move n cpu s = Some s'"
    and Away: "bs_pc s cpu = Away"
  shows "bar_inv n s'"
proof -
  note D = bar_invD [OF inv]
  have len: "cpu < length (bs_active s)" "0 < n" using D(5) [OF cpu] cpu n by simp_all
  have st: "stored s cpu = bs_out s cpu" using Away by (simp add: stored_def)
  let ?c = "if cpu = 0 then Collect 1 (bs_active s ! cpu) else Announce (bs_active s ! cpu)"
  have s': "s' = bar_goto cpu ?c (s\<lparr>bs_in := (bs_in s)(cpu := bs_in s cpu + 1)\<rparr>)"
    using mv Away len by (simp add: bar_move_def aget_def)
  have st': "stored s' = stored s" using st by (auto simp: s' stored_goto fun_eq_iff)
  have f: "bs_active s' = bs_active s" "bs_out s' = bs_out s" "bs_in s' = (bs_in s)(cpu := Suc (bs_in s cpu))"
    "bs_pc s' = (bs_pc s)(cpu := ?c)" by (simp_all add: s')
  show ?thesis
  proof (rule bar_invI)
    fix i assume i: "i < n"
    show "pc_ok n (stored s') (bs_out s' 0) i (bs_in s' i) (bs_out s' i) (bs_pc s' i)"
    proof (cases "i = cpu")
      case True
      show ?thesis
        unfolding st' f True using D(6) [OF cpu Away] D(1) [OF cpu] unfolding st by (cases "cpu = 0") (simp_all add: pc_ok_def)
    next
      case False
      then show ?thesis using D(10) [OF i] unfolding st' f by simp
    qed
  qed (use D(1-4) D(5) [OF cpu] st' f in simp_all)
qed

lemma bar_inv_collect:
  assumes inv: "bar_inv n s" and cpu: "cpu < n" and n: "n \<le> PS_NUMCORES" and mv: "bar_move n cpu s = Some s'"
    and Collect: "bs_pc s cpu = Collect k v"
  shows "bar_inv n s'"
proof -
  note D = bar_invD [OF inv]
  have len: "cpu < length (bs_active s)" "0 < n" using D(5) [OF cpu] cpu n by simp_all
  then have c0: "cpu = 0" and v: "v = bit_of (bs_out s 0)" "0 < k" "bs_in s 0 = Suc (bs_out s 0)"
    and col: "\<forall>j < k. 0 < j \<longrightarrow> j < n \<longrightarrow> stored s j = Suc (bs_out s 0)"
    using D(7) [OF cpu Collect] by auto
  show ?thesis
  proof (cases "k < n")
    case True
    have kl: "k < length (bs_active s)" using True n D(5) [OF cpu] by simp
    show ?thesis
    proof (cases "bs_active s ! k = v")
      case True
      then have "s' = s" using mv Collect \<open>k < n\<close> kl by (simp add: bar_move_def aget_def)
      with inv show ?thesis by simp
    next
      case False
      have s': "s' = bar_goto 0 (Collect (k + 1) v) s" using mv Collect \<open>k < n\<close> kl False c0 by (simp add: bar_move_def aget_def)
      have f: "bs_active s' = bs_active s" "bs_in s' = bs_in s" "bs_out s' = bs_out s"
        "bs_pc s' = (bs_pc s)(0 := Collect (k + 1) v)" by (simp_all add: s')
      have "stored s k = Suc (bs_out s 0)"
        using False D(1) [OF True] bit_of_near [OF D(3,4) [OF True]] v(1) by simp
      then have col': "\<forall>j < k + 1. 0 < j \<longrightarrow> j < n \<longrightarrow> stored s j = Suc (bs_out s 0)"
        using col by (auto simp: less_Suc_eq)
      have st': "stored s' = stored s" using Collect c0 by (simp add: s' stored_def fun_eq_iff split: bar_pc.split)
      show ?thesis
      proof (rule bar_invI)
        fix i assume i: "i < n"
        show "pc_ok n (stored s') (bs_out s' 0) i (bs_in s' i) (bs_out s' i) (bs_pc s' i)"
          unfolding st' f using D(10) [OF i] col' v by (cases "i = 0") (simp_all add: pc_ok_def)
      qed (use D(1-4) D(5) [OF cpu] st' f in simp_all)
    qed
  next
    case False
    then have all: "stored s j = Suc (bs_out s 0)" if "0 < j" "j < n" for j using col that by simp
    have s': "s' = bar_leave 0 (s\<lparr>bs_active := (bs_active s)[0 := bar_not v]\<rparr>)"
      using mv Collect False len c0 by (simp add: bar_move_def aset_def)
    have f: "bs_active s' = (bs_active s)[0 := bar_not v]" "bs_in s' = bs_in s" "bs_out s' = (bs_out s)(0 := Suc (bs_out s 0))"
      "bs_pc s' = (bs_pc s)(0 := Away)" by (simp_all add: s' bar_leave_def)
    have st': "stored s' = (stored s)(0 := Suc (bs_out s 0))"
      using f by (auto simp: stored_def fun_eq_iff split: bar_pc.splits)
    have "bs_active s' ! i = bit_of (stored s' i)" if "i < n" for i
      using D(1) [OF that] f(1) st' len c0 v(1) bit_of_Suc by (cases "i = 0") auto
    moreover have "bs_out s' i \<le> bs_out s' 0 \<and> bs_out s' 0 \<le> stored s' i \<and> stored s' i \<le> Suc (bs_out s' 0)" if "i < n" for i
      using D(2) [OF that] all [of i] f(3) st' that by (cases "i = 0") auto
    moreover have "pc_ok n (stored s') (bs_out s' 0) i (bs_in s' i) (bs_out s' i) (bs_pc s' i)" if "i < n" for i
    proof (cases "i = 0")
      case True
      then show ?thesis using f(2-4) v(3) by (simp add: pc_ok_def)
    next
      case False
      then show ?thesis
        using D(10) [OF that] f(2-4) pc_ok_other [OF False, of n "stored s" "bs_out s 0" _ _ _ "stored s'" "bs_out s' 0"]
        by simp
    qed
    ultimately show ?thesis using D(5) [OF cpu] f(1) unfolding bar_inv_def by simp
  qed
qed

lemma bar_inv_announce:
  assumes inv: "bar_inv n s" and cpu: "cpu < n" and n: "n \<le> PS_NUMCORES" and mv: "bar_move n cpu s = Some s'"
    and Announce: "bs_pc s cpu = Announce v"
  shows "bar_inv n s'"
proof -
  note D = bar_invD [OF inv]
  have len: "cpu < length (bs_active s)" "0 < n" using D(5) [OF cpu] cpu n by simp_all
  then have c: "cpu \<noteq> 0" "bs_in s cpu = Suc (bs_out s cpu)" "v = bit_of (bs_out s cpu)" using D(8) [OF cpu Announce] by auto
  have st: "stored s cpu = bs_out s cpu" using Announce by (simp add: stored_def)
  have s': "s' = bar_goto cpu (Await v) (s\<lparr>bs_active := (bs_active s)[cpu := bar_not v]\<rparr>)"
    using mv Announce len by (simp add: bar_move_def aset_def)
  have st': "stored s' = (stored s)(cpu := Suc (bs_out s cpu))" by (auto simp: s' stored_goto fun_eq_iff)
  have eq: "bs_out s cpu = bs_out s 0" using D(2,3) [OF cpu] st by simp
  have col: "stored s' j = Suc (bs_out s 0)" if "stored s j = Suc (bs_out s 0)" for j
    using that st eq by (simp add: st')
  show ?thesis
  proof (rule bar_invI)
    show "length (bs_active s') = PS_NUMCORES" using D(5) [OF cpu] by (simp add: s')
    fix i assume i: "i < n"
    show "bs_active s' ! i = bit_of (stored s' i)"
      unfolding st' using D(1) [OF i] len c(3) bit_of_Suc by (auto simp: s')
    show "bs_out s' i \<le> bs_out s' 0 \<and> bs_out s' 0 \<le> stored s' i \<and> stored s' i \<le> Suc (bs_out s' 0)"
      unfolding st' using D(2-4) [OF i] eq by (auto simp: s')
    have "pc_ok n (stored s') (bs_out s 0) i (bs_in s i) (bs_out s i) (bs_pc s i)"
      by (rule pc_ok_mono [OF D(10) [OF i] col])
    then show "pc_ok n (stored s') (bs_out s' 0) i (bs_in s' i) (bs_out s' i) (bs_pc s' i)"
      using c by (cases "i = cpu") (simp_all add: s' pc_ok_def)
  qed
qed

lemma bar_inv_await:
  assumes inv: "bar_inv n s" and cpu: "cpu < n" and n: "n \<le> PS_NUMCORES" and mv: "bar_move n cpu s = Some s'"
    and Await: "bs_pc s cpu = Await v"
  shows "bar_inv n s'"
proof -
  note D = bar_invD [OF inv]
  have len: "cpu < length (bs_active s)" "0 < n" using D(5) [OF cpu] cpu n by simp_all
  then have c: "cpu \<noteq> 0" "bs_in s cpu = Suc (bs_out s cpu)" "v = bit_of (bs_out s cpu)" using D(9) [OF cpu Await] by auto
  have st: "stored s cpu = Suc (bs_out s cpu)" using Await by (simp add: stored_def)
  have l0: "0 < length (bs_active s)" using len(1) by linarith
  show ?thesis
  proof (cases "bs_active s ! 0 = v")
    case True
    then have "s' = s" using mv Await l0 by (simp add: bar_move_def aget_def)
    with inv show ?thesis by simp
  next
    case False
    have s': "s' = bar_leave cpu s" using mv Await l0 False by (simp add: bar_move_def aget_def)
    have st0: "stored s 0 = bs_out s 0" using D(9) [OF len(2)] by (auto simp: stored_def split: bar_pc.splits)
    have "bs_out s 0 = Suc (bs_out s cpu)"
      using False D(1) [OF len(2)] st0 c(3) bit_of_near [OF D(2) [OF cpu]] D(3) [OF cpu] st by simp
    then have st': "stored s' = stored s" and o: "bs_out s' 0 = bs_out s 0"
      using st c(1) by (auto simp: s' bar_leave_def stored_def fun_eq_iff split: bar_pc.splits)
    have f: "bs_active s' = bs_active s" "bs_in s' = bs_in s" "bs_out s' = (bs_out s)(cpu := Suc (bs_out s cpu))"
      "bs_pc s' = (bs_pc s)(cpu := Away)" by (simp_all add: s' bar_leave_def)
    show ?thesis
    proof (rule bar_invI)
      fix i assume i: "i < n"
      show "bs_out s' i \<le> bs_out s' 0 \<and> bs_out s' 0 \<le> stored s' i \<and> stored s' i \<le> Suc (bs_out s' 0)"
        unfolding st' o using D(2-4) [OF i] \<open>bs_out s 0 = Suc (bs_out s cpu)\<close> by (simp add: f)
      show "pc_ok n (stored s') (bs_out s' 0) i (bs_in s' i) (bs_out s' i) (bs_pc s' i)"
        unfolding st' o using D(10) [OF i] c(2) by (cases "i = cpu") (simp_all add: f pc_ok_def)
    qed (use D(1-4) D(5) [OF cpu] st' in \<open>simp_all add: f\<close>)
  qed
qed

lemma bar_move_inv:
  assumes "bar_inv n s" and "cpu < n" and "n \<le> PS_NUMCORES" and "bar_move n cpu s = Some s'"
  shows "bar_inv n s'"
  by (cases "bs_pc s cpu") (blast intro: bar_inv_enter [OF assms] bar_inv_collect [OF assms]
    bar_inv_announce [OF assms] bar_inv_await [OF assms])+

lemma bar_reach_inv: "bar_reach n s \<Longrightarrow> n \<le> PS_NUMCORES \<Longrightarrow> bar_inv n s"
  by (induction rule: bar_reach.induct) (auto intro: bar_inv_start bar_move_inv)

text \<open>A core that goes on to another place makes a step that counts.\<close>

lemma bar_moves:
  assumes "bar_move n i s = Some s'" and "i < n" and "bs_pc s' i \<noteq> bs_pc s i"
  shows "\<exists>i < n. \<exists>s'. bar_move n i s = Some s' \<and> s' \<noteq> s"
  using assms by blast

text \<open>While core 0 collects, a core it waits for is behind: it has not stored, or it may leave.\<close>

lemma bar_behind_moves:
  assumes inv: "bar_inv n s" and n: "n \<le> PS_NUMCORES" and 0: "bs_pc s 0 = Collect k v" and k: "k < n"
    and busy: "bs_pc s k \<noteq> Away" and eq: "bs_active s ! k = v"
  shows "\<exists>s'. bar_move n k s = Some s' \<and> bs_pc s' k \<noteq> bs_pc s k"
proof -
  note D = bar_invD [OF inv]
  have n0: "0 < n" using k by simp
  have len: "k < length (bs_active s)" "0 < length (bs_active s)" using D(5) [OF k] n k by simp_all
  note c = D(7) [OF n0 0]
  show ?thesis
  proof (cases "bs_pc s k")
    case (Announce u)
    then show ?thesis using len by (simp add: bar_move_def aset_def)
  next
    case (Await u)
    have "stored s k = bs_out s 0"
      using eq D(1) [OF k] bit_of_near [OF D(3,4) [OF k]] c D(3,4) [OF k] by (metis le_antisym not_less_eq_eq)
    then have behind: "Suc (bs_out s k) = bs_out s 0" using Await by (simp add: stored_def)
    have "stored s 0 = bs_out s 0" using 0 by (simp add: stored_def)
    then have "bs_active s ! 0 \<noteq> u"
      using D(1) [OF n0] D(9) [OF k Await] behind bit_of_near [of "bs_out s k" "bs_out s 0"] by simp
    then show ?thesis using Await len by (simp add: bar_move_def aget_def bar_leave_def)
  qed (use busy D(7) [OF k] c in auto)
qed

section \<open>Properties\<close>

text \<open>
  C35: the barrier separates.  In every reachable state, whatever the interleaving and however often the
  barrier has been used before, no core has left it more often than every other core has entered it.
\<close>

theorem meas_barrier_separates:
  assumes "bar_reach n s" and "n \<le> PS_NUMCORES" and "i < n" and "j < n"
  shows "bs_out s i \<le> bs_in s j"
proof -
  have inv: "bar_inv n s" by (rule bar_reach_inv [OF assms(1,2)])
  have "bs_out s i \<le> bs_out s 0" by (rule bar_invD(2) [OF inv assms(3)])
  also have "\<dots> \<le> stored s j" by (rule bar_invD(3) [OF inv assms(4)])
  also have "stored s j \<le> bs_in s j"
    using bar_invD(6-9) [OF inv assms(4)] by (cases "bs_pc s j") (auto simp: stored_def)
  finally show ?thesis .
qed

theorem meas_barrier_separates_witness:
  "\<exists>s. bar_reach 2 s \<and> bs_in s 0 = 1 \<and> bs_out s 1 \<le> bs_in s 0"
proof -
  obtain s where s: "bar_move 2 0 bar_start = Some s" "bs_in s 0 = 1"
    by (simp add: bar_move_def bar_start_def aget_def PS_NUMCORES_def)
  have "bar_reach 2 s" by (rule bar_reach.move [OF bar_reach.start _ s(1)]) simp
  then show ?thesis using meas_barrier_separates [of 2 s 1 0] s(2) by (auto simp: PS_NUMCORES_def)
qed

text \<open>
  C36: the barrier opens.  When every core is inside it, some core can make a step that is not a fruitless test
  of a waiting loop.
\<close>

theorem meas_barrier_progress:
  assumes "bar_reach n s" and "n \<le> PS_NUMCORES" and "0 < n" and "\<forall>i < n. bs_pc s i \<noteq> Away"
  shows "\<exists>i < n. \<exists>s'. bar_move n i s = Some s' \<and> s' \<noteq> s"
proof -
  have inv: "bar_inv n s" by (rule bar_reach_inv [OF assms(1,2)])
  note D = bar_invD [OF inv]
  have len: "k < n \<Longrightarrow> k < length (bs_active s)" for k using D(5) [OF assms(3)] assms(2) by simp
  obtain k v where 0: "bs_pc s 0 = Collect k v"
    using assms(3,4) D(8,9) [OF assms(3)] by (cases "bs_pc s 0") auto
  show ?thesis
  proof (cases "k < n \<and> bs_active s ! k = v")
    case True
    then show ?thesis using bar_behind_moves [OF inv assms(2) 0] assms(4) bar_moves by blast
  next
    case False
    have "\<exists>s'. bar_move n 0 s = Some s' \<and> bs_pc s' 0 \<noteq> bs_pc s 0"
      using False 0 len assms(3) by (auto simp: bar_move_def aget_def aset_def bar_leave_def)
    then show ?thesis using bar_moves [OF _ assms(3)] by blast
  qed
qed

theorem meas_barrier_progress_witness:
  "\<exists>s i s'. bar_reach 1 s \<and> bs_pc s 0 = Collect 1 0 \<and> i < 1 \<and> bar_move 1 i s = Some s' \<and> s' \<noteq> s"
proof -
  obtain s where s: "bar_move 1 0 bar_start = Some s" "bs_pc s 0 = Collect 1 0"
    by (simp add: bar_move_def bar_start_def aget_def PS_NUMCORES_def)
  have r: "bar_reach 1 s" by (rule bar_reach.move [OF bar_reach.start _ s(1)]) simp
  then show ?thesis using meas_barrier_progress [OF r] s(2) by (auto simp: PS_NUMCORES_def)
qed

end
