(* ===== verification/Linux_Sched.thy ===== *)
theory Linux_Sched
  imports Arch
begin

text \<open>
  Priority and affinity in the Linux test support (\<open>set_prio\<close>, \<open>thd_set_affinity\<close> in
  \<open>plat/os/linux/ps_os.c\<close>).  The operating system is a parameter: a state of any type and one function per call
  of it, which answers what the call returns.  Error messages are left out.
\<close>

datatype rlimit_id = RLIMIT_CPU | RLIMIT_RTTIME | RLIMIT_RTPRIO | RLIMIT_NICE

record rlimit =
  rlim_cur :: u64
  rlim_max :: u64

text \<open>
  The calls for the calling process (pid 0) and the policy \<open>SCHED_RR\<close>.  \<open>os_getparam\<close> also answers the priority
  it stores; \<open>os_rdtscp\<close> the registers \<open>d\<close>, \<open>a\<close> and \<open>c\<close>.
\<close>

record ('tid, 'o) linux_os =
  os_getrlimit :: "rlimit_id \<Rightarrow> 'o \<Rightarrow> int \<times> 'o"
  os_setrlimit :: "rlimit_id \<Rightarrow> rlimit \<Rightarrow> 'o \<Rightarrow> int \<times> 'o"
  os_rlim_infinity :: u64
  os_getparam :: "'o \<Rightarrow> int \<times> int \<times> 'o"
  os_setscheduler :: "int \<Rightarrow> 'o \<Rightarrow> int \<times> 'o"
  os_priority_max :: int
  os_setaffinity :: "'tid \<Rightarrow> int set \<Rightarrow> 'o \<Rightarrow> int \<times> 'o"
  os_rdtscp :: "'o \<Rightarrow> u64 \<times> u64 \<times> u64 \<times> 'o"

text \<open>A function returns or calls \<open>exit(-1)\<close>; a failed assertion is \<open>None\<close>.\<close>

datatype 'o outcome = Returned 'o | Exited 'o

definition os_then :: "'o outcome option \<Rightarrow> ('o \<Rightarrow> 'o outcome option) \<Rightarrow> 'o outcome option" where
  "os_then r f = (case r of Some (Returned s) \<Rightarrow> f s | _ \<Rightarrow> r)"

lemma os_then_simps [simp]:
  "os_then (Some (Returned s)) f = f s" "os_then (Some (Exited s)) f = Some (Exited s)" "os_then None f = None"
  by (simp_all add: os_then_def)

definition call_getrlimit :: "('tid, 'o) linux_os \<Rightarrow> rlimit_id \<Rightarrow> 'o \<Rightarrow> 'o outcome option" where
  "call_getrlimit os i s = (let (r, s) = os_getrlimit os i s in Some (if r \<noteq> 0 then Exited s else Returned s))"

definition call_setrlimit :: "('tid, 'o) linux_os \<Rightarrow> rlimit_id \<Rightarrow> u64 \<Rightarrow> u64 \<Rightarrow> 'o \<Rightarrow> 'o outcome option" where
  "call_setrlimit os i c m s = (let rl = \<lparr>rlim_cur = c, rlim_max = m\<rparr>; (r, s) = os_setrlimit os i rl s
     in Some (if r \<noteq> 0 then Exited s else Returned s))"

definition set_prio :: "('tid, 'o) linux_os \<Rightarrow> 'o \<Rightarrow> 'o outcome option" where
  "set_prio os s =
     os_then (call_getrlimit os RLIMIT_CPU s) (\<lambda>s.
     os_then (call_getrlimit os RLIMIT_RTTIME s) (\<lambda>s.
     os_then (call_getrlimit os RLIMIT_RTPRIO s) (\<lambda>s.
     os_then (call_setrlimit os RLIMIT_RTPRIO (os_rlim_infinity os) (os_rlim_infinity os) s) (\<lambda>s.
     os_then (call_getrlimit os RLIMIT_RTPRIO s) (\<lambda>s.
     os_then (call_getrlimit os RLIMIT_NICE s) (\<lambda>s.
       let (r, sp, s) = os_getparam os s in
       if r < 0 then Some (Exited s) else
       let sp = os_priority_max os; (r, s) = os_setscheduler os sp s in
       if r < 0 then Some (Exited s) else
       let (r, sp, s) = os_getparam os s in
       if r < 0 then Some (Exited s) else
       if sp = os_priority_max os then Some (Returned s) else None))))))"

definition cpu_assign :: "int list" where
  "cpu_assign = [0, 1, 2, 3, 4, 5, 6, 7, 8, 9, 10, 11, 12]"

definition thd_set_affinity :: "('tid, 'o) linux_os \<Rightarrow> 'tid \<Rightarrow> int \<Rightarrow> 'o \<Rightarrow> 'o outcome option" where
  "thd_set_affinity os tid ident s =
     (if ident < 0 then None else
      case aget cpu_assign (nat ident) of
        None \<Rightarrow> None
      | Some cpuid \<Rightarrow>
          let (ret, s) = os_setaffinity os tid (insert cpuid {}) s in
          if ret \<noteq> 0 then Some (Exited s) else
          let (d, a, c, s) = os_rdtscp os s; (_, cid, n) = ps_tsc_locality d a c in
          if cpuid = uint cid then Some (Returned s) else None)"

section \<open>Affinity\<close>

lemma cpu_assign_at: "0 \<le> i \<Longrightarrow> i < 13 \<Longrightarrow> aget cpu_assign (nat i) = Some i"
proof -
  assume "0 \<le> i" "i < 13"
  moreover have e: "cpu_assign = map int [0..<13]" by (simp add: cpu_assign_def upt_rec)
  ultimately show ?thesis unfolding e by (simp add: aget_def)
qed

text \<open>The mapping has thirteen entries, whatever the number of cores the library is built for.\<close>

lemma thd_set_affinity_range: "thd_set_affinity os tid i s = None" if "i < 0 \<or> 13 \<le> i"
  using that by (auto simp: thd_set_affinity_def aget_def cpu_assign_def)

lemma thd_set_affinity_refused:
  "0 \<le> i \<Longrightarrow> i < 13 \<Longrightarrow> os_setaffinity os tid {i} s = (e, s') \<Longrightarrow> e \<noteq> 0 \<Longrightarrow>
     thd_set_affinity os tid i s = Some (Exited s')"
  by (simp add: thd_set_affinity_def cpu_assign_at)

text \<open>
  A thread that the kernel has moved to core \<open>i\<close> reads \<open>node * 4096 + i\<close> from \<open>rdtscp\<close>; then the assertion
  that the library's core number is the one asked for holds.
\<close>

lemma thd_set_affinity_returns:
  assumes i: "0 \<le> i" "i < 13" and set: "os_setaffinity os tid {i} s = (0, s')"
    and tsc: "os_rdtscp os s' = (d, a, of_nat (node * 4096 + nat i), s'')"
    and reg: "unat d < 2 ^ 32" "unat a < 2 ^ 32" "node < 65536"
  shows "thd_set_affinity os tid i s = Some (Returned s'')"
proof -
  have "ps_tsc_locality d a (of_nat (node * 4096 + nat i)) = (ps_tsc_value d a, of_nat (nat i), of_nat node)"
    by (rule ps_tsc_locality_decode) (use reg i in auto)
  moreover have "uint (of_nat (nat i) :: u16) = i" using i by (simp add: uint_word_of_int)
  ultimately show ?thesis using i set tsc by (simp add: thd_set_affinity_def cpu_assign_at)
qed

text \<open>A thread found on another core fails the assertion.\<close>

lemma thd_set_affinity_elsewhere:
  assumes i: "0 \<le> i" "i < 13" and "os_setaffinity os tid {i} s = (0, s')" and "os_rdtscp os s' = (d, a, c, s'')"
    and "uint (fst (snd (ps_tsc_locality d a c))) \<noteq> i"
  shows "thd_set_affinity os tid i s = None"
  using assms by (auto simp: thd_set_affinity_def cpu_assign_at split: prod.split)

section \<open>Priority\<close>

text \<open>Where every call succeeds and the scheduler reports the priority it was given, \<open>set_prio\<close> returns.\<close>

lemma set_prio_returns:
  assumes "\<And>i s. fst (os_getrlimit os i s) = 0" and "\<And>i l s. fst (os_setrlimit os i l s) = 0"
    and "\<And>s. fst (os_setscheduler os (os_priority_max os) s) \<ge> 0" and "\<And>s. fst (os_getparam os s) \<ge> 0"
    and "\<And>s. fst (snd (os_getparam os (snd (os_setscheduler os (os_priority_max os) s)))) = os_priority_max os"
  shows "\<exists>s'. set_prio os s = Some (Returned s')"
proof -
  have get: "call_getrlimit os i s = Some (Returned (snd (os_getrlimit os i s)))" for i s
    using assms(1) by (simp add: call_getrlimit_def case_prod_beta Let_def)
  have setl: "call_setrlimit os i c m s = Some (Returned (snd (os_setrlimit os i \<lparr>rlim_cur = c, rlim_max = m\<rparr> s)))" for i c m s
    using assms(2) by (simp add: call_setrlimit_def case_prod_beta Let_def)
  show ?thesis using assms(3-5) by (simp add: set_prio_def get setl case_prod_beta Let_def not_less [symmetric])
qed

text \<open>
  A system that records the calls made of it, to see their order: \<open>may\<close> is the answer to a limit that is set,
  \<open>prio\<close> the priority it reports.  A process that may not raise its real-time limit exits before the scheduler
  is asked for anything; one that keeps its old priority fails the assertion.
\<close>

datatype os_event = GetR rlimit_id | SetR rlimit_id rlimit | GetParam | SetSched int | SetAff "int set" | Rdtscp

definition recorder :: "int \<Rightarrow> int \<Rightarrow> (unit, os_event list) linux_os" where
  "recorder may prio = \<lparr>os_getrlimit = (\<lambda>i l. (0, l @ [GetR i])), os_setrlimit = (\<lambda>i r l. (may, l @ [SetR i r])),
     os_rlim_infinity = - 1, os_getparam = (\<lambda>l. (0, prio, l @ [GetParam])), os_setscheduler = (\<lambda>p l. (0, l @ [SetSched p])),
     os_priority_max = 99, os_setaffinity = (\<lambda>_ c l. (0, l @ [SetAff c])), os_rdtscp = (\<lambda>l. (0, 0, 0, l @ [Rdtscp]))\<rparr>"

lemma set_prio_order:
  "set_prio (recorder 0 99) [] = Some (Returned
     [GetR RLIMIT_CPU, GetR RLIMIT_RTTIME, GetR RLIMIT_RTPRIO, SetR RLIMIT_RTPRIO \<lparr>rlim_cur = - 1, rlim_max = - 1\<rparr>,
      GetR RLIMIT_RTPRIO, GetR RLIMIT_NICE, GetParam, SetSched 99, GetParam])"
  by (simp add: set_prio_def call_getrlimit_def call_setrlimit_def recorder_def)

lemma set_prio_not_permitted:
  "set_prio (recorder (- 1) 99) [] = Some (Exited
     [GetR RLIMIT_CPU, GetR RLIMIT_RTTIME, GetR RLIMIT_RTPRIO, SetR RLIMIT_RTPRIO \<lparr>rlim_cur = - 1, rlim_max = - 1\<rparr>])"
  by (simp add: set_prio_def call_getrlimit_def call_setrlimit_def recorder_def)

lemma set_prio_not_raised: "set_prio (recorder 0 0) [] = None"
  by (simp add: set_prio_def call_getrlimit_def call_setrlimit_def recorder_def)

end
