(* ===== verification/Spec2Isabelle.thy ===== *)
theory Spec2Isabelle
  imports Lock Remote_Stack Smr_Mem_Life Smr_Steps_Alone Ertrie_Properties Ns_Properties Ns_Frontier Pgalloc Barrier Linux_Sched
begin

text \<open>
  Parallel sections (PS): a library of concurrency primitives in C.  Its parts, bottom up, and the
  theories that model them:

  \<^item> The platform layer (\<open>plat/\<close>, \<open>ps_config.h\<close>): word arithmetic, atomic
    instructions, time stamps, a spin lock: \<open>Arch\<close>, \<open>Lock\<close>. The Linux test support:
    its barrier in \<open>Barrier\<close>, priority and affinity in \<open>Linux_Sched\<close>.
  \<^item> Intrusive rings (\<open>ps_list.h\<close>): \<open>Lists\<close>.
  \<^item> Object headers, the queue of freed objects of a core, the lock-free remote free lists, rounding to
    powers of two (\<open>ps_global.h\<close>): \<open>Global\<close>; the remote free list shared by all cores:
    \<open>Remote_Stack\<close>.
  \<^item> Sections and quiescence (\<open>ps_smr.h\<close>, \<open>ps_smr.c\<close>): \<open>Smr\<close>, for
    calls that follow one another in \<open>Smr_Safety\<close>; with every access to shared memory a step of
    interleaved cores in \<open>Smr_Steps\<close>, its safety in \<open>Smr_Steps_Safety\<close>, and that a
    core moving alone computes the functions of \<open>Smr\<close> in \<open>Smr_Steps_Alone\<close>.
  \<^item> The slab allocator (\<open>ps_slab.h\<close>, \<open>ps_slab.c\<close>): the world of typed heaps in
    \<open>Memory\<close>, the code in \<open>Slab\<close> and \<open>Slab_Api\<close>; what its memory means in
    \<open>Slab_Rep\<close>; proofs in \<open>Slab_Ops\<close>, \<open>Slab_Correct\<close>, over any backend in
    \<open>Slab_Backend\<close> (locale \<open>slab_backend\<close>), for the default backend in
    \<open>Slab_Default\<close>, for runs in \<open>Slab_Runs\<close>, \<open>Slab_Properties\<close> and
    \<open>Slab_Queries\<close>.
  \<^item> Memory reclamation (\<open>__ps_smr_free\<close>, \<open>__ps_smr_reclaim\<close>):
    \<open>Smr_Mem\<close>, with proofs in \<open>Smr_Frame\<close>, \<open>Smr_Mem_Correct\<close>,
    \<open>Smr_Mem_Runs\<close>, and the life of its structures in \<open>Smr_Mem_Life\<close>.
  \<^item> The extensible radix trie (\<open>ps_ertrie.h\<close>): \<open>Ertrie\<close>; paths and the
    representation of a trie in \<open>Ertrie_Rep\<close>; index arithmetic in \<open>Ertrie_Walk\<close>; its
    operations over any memory that keeps the contract \<open>ert_store\<close> in
    \<open>Ertrie_Correct\<close>; the contract for the default functions and the platform allocator in
    \<open>Ertrie_World\<close>, and what callers see in \<open>Ertrie_Properties\<close>.
  \<^item> Namespaces (\<open>ps_ns.h\<close>, \<open>ps_ns.c\<close>), the glue of slabs, reclamation and
    tries: \<open>Ns\<close>. Those whose objects come straight from the slab allocator: the allocator of slab
    descriptors in \<open>Ns_Heads\<close>, the trie with leaves that are slabs in \<open>Ns_Trie\<close> (a
    second interpretation of \<open>ert_store\<close>), sizes in \<open>Ns_Sizes\<close>, the state of a
    namespace in \<open>Ns_Rep\<close>, what changing a part of it leaves alone in \<open>Ns_Frame\<close>,
    \<open>ps_slab_nsalloc\<close> and \<open>ps_slab_nsfree\<close> in \<open>Ns_Alloc\<close> and
    \<open>Ns_Free\<close>, which make them a \<open>slab_backend\<close> in \<open>Ns_Correct\<close>; lookups
    in \<open>Ns_Lookup\<close>, runs in \<open>Ns_Runs\<close>, what callers see in
    \<open>Ns_Properties\<close>. The frontier of identities under interleaved calls:
    \<open>Ns_Frontier\<close>.
  \<^item> The page allocator (\<open>ps_pgalloc.h\<close>): \<open>Pgalloc\<close>.

  State and code correspond as follows. A C structure is a record with its fields. Memory is one partial heap
  per structure (\<open>Memory\<close>); a cell that is not there cannot be accessed, so a dangling or null
  pointer that is followed, a failed \<open>assert\<close>, an index out of range and an undefined shift are all
  \<open>None\<close>. A function that changes memory maps a world to an optional result and world, statement by
  statement in the order of the code. The functions that creation macros define take the macro's arguments as a
  record (\<open>slab_params\<close>, \<open>ert_fns\<close> with \<open>ert_consts\<close>,
  \<open>ns_class\<close>). The addresses that the C library's allocator answers with are given in advance. What
  is assumed of them is that they are aligned, not null and do not overlap a block in use
  (\<open>good_block\<close>); for the tries and namespaces, which ask for several blocks in one call,
  \<open>roomy\<close> asks more than is documented: answers \<open>2 ^ 32\<close> bytes apart, so that they fit
  whatever sizes are asked for.

  Where several cores share memory without a lock, every access is a step of its own: the lock, the remote free
  list, the barrier, the loops of the page allocator, the frontier of a namespace, and sections with
  \<open>ps_quiesce\<close> (\<open>Smr_Steps\<close>). There the safety of \<open>ps_quiesce\<close> holds for
  every interleaving in which no entry of a section is stored between another core's read of the entry time and
  the stamp that follows (\<open>ss_clean\<close>); in that window the code has a race
  (\<open>update_remote_race\<close>, \<open>race_steps\<close>). The runs of an allocator with reclamation
  (\<open>smr_run\<close>) take each call, with its \<open>ps_quiesce\<close>, as one step, so they exclude that
  race and say nothing of calls that overlap. Calls of the allocators are atomic with respect to each other: the
  per-core state they work on is touched by its core only, and the remote lists, where cores meet, are
  linearizable (\<open>ps_rfl_linearizable\<close>).

  Bounds. The configuration is that of \<open>ps_config.h\<close>, with four cores and one locality. Loops over
  linked structures, retry loops and the waiting loop of \<open>ps_quiesce_wait\<close> take a number of rounds;
  running out is \<open>None\<close> (or \<open>Spinning\<close>). The theorems say which number is enough: the
  length of the list, one round for a call that runs alone, one round per core or locality. Namespaces are those
  of \<open>ns_ok\<close>: constants the trie is meant for, at least one level above the leaves, at least four
  objects to a leaf, nodes below \<open>2 ^ 30\<close> bytes; their runs are on the Linux platform, the
  allocator of slab descriptors serves one namespace, and the frontier, which every failing call moves on, is
  assumed not to wrap around (\<open>ns_ready\<close>).

  Groups of lemmas. For each component: its representation (\<open>pl.list_at\<close>, \<open>chain\<close>,
  \<open>slab_inv\<close>, \<open>ert_rep\<close>, \<open>ns_inv\<close>, \<open>pg_inv\<close>,
  \<open>bar_inv\<close>), what each operation does to it, that the invariant holds in every run
  (\<open>slab_run\<close>, \<open>smr_run\<close>, \<open>smr_steps\<close>, \<open>ert_run\<close>,
  \<open>ns_run\<close>, \<open>pg_run\<close>, \<open>bar_reach\<close>), and the properties drawn from that.

  Not modelled: the test drivers under \<open>tests/\<close>, the messages printed on errors, and the
  interleaving of two calls of one namespace but for their accesses to the frontier. Namespaces with reclamation
  (\<open>PS_NS_CREATE\<close>) are modelled, but the runs are of those without. The operating system that the
  Linux test support calls is a parameter (\<open>linux_os\<close>).
\<close>

end
